(* ===== verification/Prelude.thy ===== *)
theory Prelude
  imports Main "HOL-Library.Word"
begin

text \<open>
  Shared vocabulary of the development: the machine types, the ways in which the C++ code
  can stop (a failed \<open>assert\<close>, a \<open>LOG_FATAL\<close>, an exception of the standard library, an
  access outside an allocated block), the memory primitives the buffer classes are written
  with (\<open>std::copy\<close>, \<open>memcpy\<close>, \<open>vector::resize\<close>), the run of a sequence of operations, and
  the interface of a component whose operations keep an invariant.
\<close>

unbundle bit_operations_syntax

section \<open>Machine types\<close>

type_synonym byte = "8 word"
type_synonym u16 = "16 word"
type_synonym u32 = "32 word"
type_synonym u64 = "64 word"
type_synonym size_t = "64 word"

section \<open>Faults and fallible results\<close>

text \<open>
  \<open>Assertion\<close> is a failed \<open>assert\<close> (the build type of CMakeLists.txt is Debug, so asserts
  are compiled in), \<open>Fatal\<close> a message of level FATAL (whose destructor calls \<open>abort\<close>),
  \<open>LengthError\<close> the exception of \<open>std::vector::resize\<close>, \<open>BadAccess\<close> an access outside an
  allocated block, or through a null or deleted pointer.
\<close>

datatype fault = Assertion string | Fatal string | LengthError | BadAccess string

type_synonym 'a result = "fault + 'a"

definition bindE :: "'a result \<Rightarrow> ('a \<Rightarrow> 'b result) \<Rightarrow> 'b result" where
  "bindE m f = (case m of Inl e \<Rightarrow> Inl e | Inr x \<Rightarrow> f x)"

definition assertE :: "string \<Rightarrow> bool \<Rightarrow> 'a result \<Rightarrow> 'a result" where
  "assertE msg P m = (if P then m else Inl (Assertion msg))"

text \<open>\<open>EventLoop::abortNotInLoopThread\<close>, which an operation of a loop calls in any other thread.\<close>

abbreviation abortNotInLoopThread :: "'a result" where
  "abortNotInLoopThread \<equiv> Inl (Fatal ''abortNotInLoopThread'')"

lemma bindE_simps [simp]:
  "bindE (Inl e) f = Inl e"
  "bindE (Inr x) f = f x"
  by (simp_all add: bindE_def)

lemma bindE_eq_Inr [simp]: "bindE m f = Inr y \<longleftrightarrow> (\<exists>x. m = Inr x \<and> f x = Inr y)"
  by (cases m) simp_all

lemma bindE_eq_Inl: "bindE m f = Inl e \<longleftrightarrow> m = Inl e \<or> (\<exists>x. m = Inr x \<and> f x = Inl e)"
  by (cases m) simp_all

lemma bindE_cong [fundef_cong]:
  "m = m' \<Longrightarrow> (\<And>x. m' = Inr x \<Longrightarrow> f x = f' x) \<Longrightarrow> bindE m f = bindE m' f'"
  by (cases m') simp_all

lemma assertE_True [simp]: "assertE msg True m = m"
  by (simp add: assertE_def)

lemma assertE_False [simp]: "assertE msg False m = Inl (Assertion msg)"
  by (simp add: assertE_def)

lemma assertE_eq_Inr [simp]: "assertE msg P m = Inr y \<longleftrightarrow> P \<and> m = Inr y"
  by (simp add: assertE_def)

section \<open>Memory blocks\<close>

text \<open>
  A block of memory is a list. \<open>read_at\<close> reads \<open>n\<close> cells from offset \<open>i\<close>; \<open>write_at\<close>
  overwrites the cells from offset \<open>i\<close>; both fail outside the block.
\<close>

definition read_at :: "nat \<Rightarrow> nat \<Rightarrow> 'a list \<Rightarrow> 'a list result" where
  "read_at i n xs =
     (if i + n \<le> length xs then Inr (take n (drop i xs)) else Inl (BadAccess ''read''))"

definition overwrite :: "nat \<Rightarrow> 'a list \<Rightarrow> 'a list \<Rightarrow> 'a list" where
  "overwrite i ys xs = take i xs @ ys @ drop (i + length ys) xs"

definition write_at :: "nat \<Rightarrow> 'a list \<Rightarrow> 'a list \<Rightarrow> 'a list result" where
  "write_at i ys xs =
     (if i + length ys \<le> length xs then Inr (overwrite i ys xs) else Inl (BadAccess ''write''))"

definition resize :: "nat \<Rightarrow> 'a \<Rightarrow> 'a list \<Rightarrow> 'a list" where
  "resize n x xs = take n xs @ replicate (n - length xs) x"

lemma read_at_ok [simp]: "i + n \<le> length xs \<Longrightarrow> read_at i n xs = Inr (take n (drop i xs))"
  by (simp add: read_at_def)

lemma write_at_ok [simp]: "i + length ys \<le> length xs \<Longrightarrow> write_at i ys xs = Inr (overwrite i ys xs)"
  by (simp add: write_at_def)

lemma write_at_Inr:
  "write_at i ys xs = Inr zs \<longleftrightarrow> i + length ys \<le> length xs \<and> zs = overwrite i ys xs"
  by (auto simp: write_at_def)

lemma length_overwrite [simp]: "i + length ys \<le> length xs \<Longrightarrow> length (overwrite i ys xs) = length xs"
  by (simp add: overwrite_def)

lemma length_resize [simp]: "length (resize n x xs) = n"
  by (simp add: resize_def)

lemma take_resize: "k \<le> n \<Longrightarrow> k \<le> length xs \<Longrightarrow> take k (resize n x xs) = take k xs"
  by (simp add: resize_def)

lemma resize_window:
  "i + k \<le> n \<Longrightarrow> i + k \<le> length xs \<Longrightarrow> take k (drop i (resize n x xs)) = take k (drop i xs)"
  by (simp add: take_drop take_resize add.commute)

lemma overwrite_window_same [simp]:
  "i + length ys \<le> length xs \<Longrightarrow> take (length ys) (drop i (overwrite i ys xs)) = ys"
  by (simp add: overwrite_def)

lemma overwrite_window_before:
  "j + k \<le> i \<Longrightarrow> i \<le> length xs \<Longrightarrow> take k (drop j (overwrite i ys xs)) = take k (drop j xs)"
  by (simp add: overwrite_def take_drop)

text \<open>Writing right behind a window extends it; writing right before it prefixes it.\<close>

lemma overwrite_extend:
  assumes "j \<le> i" "i + length ys \<le> length xs"
  shows "take (i - j + length ys) (drop j (overwrite i ys xs)) = take (i - j) (drop j xs) @ ys"
proof -
  have "drop j (overwrite i ys xs) = drop j (take i xs) @ ys @ drop (i + length ys) xs"
    using assms by (simp add: overwrite_def)
  moreover have "length (drop j (take i xs)) = i - j" using assms by simp
  ultimately show ?thesis using assms by (simp add: drop_take)
qed

lemma overwrite_prefix:
  assumes "i + length ys \<le> length xs"
  shows "take (length ys + k) (drop i (overwrite i ys xs)) = ys @ take k (drop (i + length ys) xs)"
  using assms by (simp add: overwrite_def)

section \<open>Network byte order\<close>

text \<open>
  \<open>htobe32\<close> followed by copying the four bytes out, and copying four bytes in followed by
  \<open>be32toh\<close>.
\<close>

definition be32_bytes :: "u32 \<Rightarrow> byte list" where
  "be32_bytes x = [ucast (drop_bit 24 x), ucast (drop_bit 16 x), ucast (drop_bit 8 x), ucast x]"

fun be32_value :: "byte list \<Rightarrow> u32" where
  "be32_value (b3 # b2 # b1 # b0 # rest) =
     push_bit 24 (ucast b3) OR push_bit 16 (ucast b2) OR push_bit 8 (ucast b1) OR ucast b0"
| "be32_value _ = 0"

lemma length_be32_bytes [simp]: "length (be32_bytes x) = 4"
  by (simp add: be32_bytes_def)

lemma be32_roundtrip [simp]: "be32_value (be32_bytes x @ rest) = x"
proof (rule bit_word_eqI)
  fix n assume "n < LENGTH(32)"
  then consider "n < 8" | "8 \<le> n" "n < 16" | "16 \<le> n" "n < 24" | "24 \<le> n" "n < 32"
    by force
  then show "bit (be32_value (be32_bytes x @ rest)) n = bit x n"
    by cases (auto simp: be32_bytes_def bit_or_iff bit_push_bit_iff bit_ucast_iff bit_drop_bit_eq)
qed

text \<open>\<open>htons\<close> and \<open>ntohs\<close>.\<close>

definition be16_bytes :: "u16 \<Rightarrow> byte list" where
  "be16_bytes x = [ucast (drop_bit 8 x), ucast x]"

fun be16_value :: "byte list \<Rightarrow> u16" where
  "be16_value (b1 # b0 # rest) = push_bit 8 (ucast b1) OR ucast b0"
| "be16_value _ = 0"

lemma be16_roundtrip [simp]: "be16_value (be16_bytes x) = x"
proof (rule bit_word_eqI)
  fix n assume "n < LENGTH(16)"
  then consider "n < 8" | "8 \<le> n" "n < 16" by force
  then show "bit (be16_value (be16_bytes x)) n = bit x n"
    by cases (auto simp: be16_bytes_def bit_or_iff bit_push_bit_iff bit_ucast_iff bit_drop_bit_eq)
qed

lemma be16_value_inject:
  "length a = 2 \<Longrightarrow> length b = 2 \<Longrightarrow> be16_value a = be16_value b \<longleftrightarrow> a = b"
proof
  assume len: "length a = 2" "length b = 2" and eq: "be16_value a = be16_value b"
  obtain a1 a0 b1 b0 where ab: "a = [a1, a0]" "b = [b1, b0]"
    using len by (auto simp: numeral_2_eq_2 length_Suc_conv)
  have low: "bit a0 n = bit b0 n" if "n < 8" for n
    using arg_cong [OF eq, of "\<lambda>w. bit w n"] that ab
    by (simp add: bit_or_iff bit_push_bit_iff bit_ucast_iff)
  have high: "bit a1 n = bit b1 n" if "n < 8" for n
    using arg_cong [OF eq, of "\<lambda>w. bit w (n + 8)"] that ab
    by (auto simp: bit_or_iff bit_push_bit_iff bit_ucast_iff dest: bit_imp_le_length)
  show "a = b" unfolding ab by (auto intro: bit_word_eqI simp: low high)
qed simp

section \<open>Sizes and words\<close>

text \<open>The largest size of a \<open>std::vector<char>\<close> (PTRDIFF_MAX on a 64-bit target).\<close>

definition max_size :: nat where
  "max_size = 2 ^ 63 - 1"

lemma unat_of_nat_size [simp]: "n \<le> max_size \<Longrightarrow> unat (of_nat n :: size_t) = n"
  by (simp add: unat_of_nat max_size_def)

lemma size_plus_small:
  "unat a + unat b < 2 ^ 64 \<Longrightarrow> unat (a + b :: size_t) = unat a + unat b"
  by (subst unat_add_lem [symmetric]) simp

lemma size_minus [simp]: "unat b \<le> unat a \<Longrightarrow> unat (a - b :: size_t) = unat a - unat b"
  by (rule unat_sub) (simp add: word_le_nat_alt)

lemmas size_order = word_le_nat_alt word_less_nat_alt

section \<open>Runs of operations\<close>

text \<open>
  An operation of a component takes its state to a fault, or to the next state and the list of
  what it let the outside see. A run performs a list of operations and stops at the first fault.
\<close>

fun run_steps ::
  "('e \<Rightarrow> 's \<Rightarrow> ('s \<times> 'o list) result) \<Rightarrow> 'e list \<Rightarrow> 's \<Rightarrow> ('s \<times> 'o list) result" where
  "run_steps step [] s = Inr (s, [])"
| "run_steps step (e # es) s =
     bindE (step e s) (\<lambda>(s1, os1).
     bindE (run_steps step es s1) (\<lambda>(s2, os2). Inr (s2, os1 @ os2)))"

lemma run_steps_append:
  "run_steps step (es @ fs) s =
     bindE (run_steps step es s) (\<lambda>(s1, os1).
     bindE (run_steps step fs s1) (\<lambda>(s2, os2). Inr (s2, os1 @ os2)))"
proof (induction es arbitrary: s)
  case Nil
  then show ?case by (cases "run_steps step fs s") auto
next
  case (Cons e es)
  show ?case
  proof (cases "step e s")
    case (Inr p)
    then show ?thesis
      using Cons.IH [of "fst p"]
      by (cases "run_steps step es (fst p)"; cases "run_steps step fs (fst (projr (run_steps step es (fst p))))")
        (auto simp: split_def)
  qed simp
qed

lemma run_steps_Inl:
  "run_steps step es s = Inl f \<Longrightarrow>
     \<exists>es1 e es2 s1 os. es = es1 @ e # es2 \<and> run_steps step es1 s = Inr (s1, os) \<and> step e s1 = Inl f"
proof (induction es arbitrary: s)
  case (Cons e es)
  show ?case
  proof (cases "step e s")
    case (Inl f')
    then show ?thesis using Cons.prems by (intro exI [of _ "[]"]) auto
  next
    case (Inr p)
    obtain s1 os1 where p: "p = (s1, os1)" by (cases p)
    then have "run_steps step es s1 = Inl f" using Cons.prems Inr by (auto simp: bindE_eq_Inl)
    from Cons.IH [OF this] obtain es1 e' es2 s2 os where
      "es = es1 @ e' # es2" "run_steps step es1 s1 = Inr (s2, os)" "step e' s2 = Inl f" by blast
    then show ?thesis using Inr p by (intro exI [of _ "e # es1"]) auto
  qed
qed simp

text \<open>The state of an outcome seen through an abstraction function.\<close>

definition abs_result :: "('s \<Rightarrow> 'a) \<Rightarrow> ('s \<times> 'o list) result \<Rightarrow> ('a \<times> 'o list) result" where
  "abs_result f r = (case r of Inl e \<Rightarrow> Inl e | Inr (s, os) \<Rightarrow> Inr (f s, os))"

lemma abs_result_simps [simp]:
  "abs_result f (Inl e) = Inl e"
  "abs_result f (Inr (s, os)) = Inr (f s, os)"
  by (simp_all add: abs_result_def)

text \<open>
  The interface of a component whose runs are monitored. The monitor \<open>inv g s\<close> relates the state to a
  history \<open>g\<close>, which \<open>hist\<close> extends by each operation; \<open>ok g s es\<close> says that the environment respects its
  side of the contract for the operations \<open>es\<close> to come. Then an operation keeps the monitor and lets the outside
  see only what \<open>seen\<close> admits, or it stops with a fault that \<open>tolerated\<close> names.
\<close>

locale monitor =
  fixes step :: "'e \<Rightarrow> 's \<Rightarrow> ('s \<times> 'o list) result"
    and inv :: "'g \<Rightarrow> 's \<Rightarrow> bool"
    and ok :: "'g \<Rightarrow> 's \<Rightarrow> 'e list \<Rightarrow> bool"
    and hist :: "'e \<Rightarrow> 'g \<Rightarrow> 'g"
    and tolerated :: "'e \<Rightarrow> fault \<Rightarrow> bool"
    and seen :: "'o \<Rightarrow> bool"
  assumes step_keeps: "inv g s \<Longrightarrow> ok g s (e # es) \<Longrightarrow> step e s = Inr (s', os) \<Longrightarrow>
      inv (hist e g) s' \<and> ok (hist e g) s' es \<and> list_all seen os"
    and step_fault: "inv g s \<Longrightarrow> ok g s (e # es) \<Longrightarrow> step e s = Inl f \<Longrightarrow> tolerated e f"
begin

lemma run_monitored:
  "inv g s \<Longrightarrow> ok g s es \<Longrightarrow>
     case run_steps step es s of
       Inl f \<Rightarrow> \<exists>e \<in> set es. tolerated e f
     | Inr (s', os) \<Rightarrow> inv (fold hist es g) s' \<and> list_all seen os"
proof (induction es arbitrary: g s)
  case Nil
  then show ?case by simp
next
  case (Cons e es)
  show ?case
  proof (cases "step e s")
    case (Inl f)
    then show ?thesis using step_fault [OF Cons.prems] by simp
  next
    case (Inr p)
    obtain s1 os1 where p: "p = (s1, os1)" by (cases p)
    have "inv (hist e g) s1 \<and> ok (hist e g) s1 es \<and> list_all seen os1"
      using step_keeps [OF Cons.prems] Inr p by blast
    then show ?thesis using Cons.IH [of "hist e g" s1] Inr p
      by (cases "run_steps step es s1") auto
  qed
qed

lemma run_Inl: "inv g s \<Longrightarrow> ok g s es \<Longrightarrow> run_steps step es s = Inl f \<Longrightarrow> \<exists>e \<in> set es. tolerated e f"
  using run_monitored [of g s es] by simp

lemma run_Inr: "inv g s \<Longrightarrow> ok g s es \<Longrightarrow> run_steps step es s = Inr (s', os) \<Longrightarrow>
     inv (fold hist es g) s' \<and> list_all seen os"
  using run_monitored [of g s es] by simp

end

text \<open>A component that tolerates no fault: its runs succeed.\<close>

locale faultless_monitor = monitor +
  assumes never: "\<not> tolerated e f"
begin

lemma run_total:
  assumes "inv g s" "ok g s es"
  obtains s' os where "run_steps step es s = Inr (s', os)" "inv (fold hist es g) s'" "list_all seen os"
  using run_monitored [OF assms] never by (cases "run_steps step es s") auto

end

text \<open>
  A component that shows nothing and tolerates no fault, given as what each of its operations does: it takes
  a monitored state to a monitored state.
\<close>

locale silent_machine =
  fixes step :: "'e \<Rightarrow> 's \<Rightarrow> ('s \<times> 'o list) result"
    and inv :: "'g \<Rightarrow> 's \<Rightarrow> bool"
    and ok :: "'g \<Rightarrow> 's \<Rightarrow> 'e list \<Rightarrow> bool"
    and hist :: "'e \<Rightarrow> 'g \<Rightarrow> 'g"
  assumes step_silent: "inv g s \<Longrightarrow> ok g s (e # es) \<Longrightarrow>
      \<exists>s'. step e s = Inr (s', []) \<and> inv (hist e g) s' \<and> ok (hist e g) s' es"

sublocale silent_machine \<subseteq> faultless_monitor step inv ok hist "\<lambda>_ _. False" "\<lambda>_. False"
  by unfold_locales (use step_silent in \<open>fastforce+\<close>)

context silent_machine begin

lemma run_silent:
  assumes "inv g s" "ok g s es"
  shows "\<exists>s'. run_steps step es s = Inr (s', []) \<and> inv (fold hist es g) s'"
proof -
  obtain s' os where r: "run_steps step es s = Inr (s', os)" "inv (fold hist es g) s'" "list_all (\<lambda>_. False) os"
    by (rule run_total [OF assms])
  then show ?thesis by (cases os) auto
qed

end

text \<open>
  The interface of a component whose operations keep an invariant, whatever faults they may stop with: a
  monitor without a history.
\<close>

locale machine =
  fixes step :: "'e \<Rightarrow> 's \<Rightarrow> ('s \<times> 'o list) result"
    and inv :: "'s \<Rightarrow> bool"
  assumes step_inv: "inv s \<Longrightarrow> step e s = Inr (s', os) \<Longrightarrow> inv s'"

sublocale machine \<subseteq> monitor step "\<lambda>_ :: unit. inv" "\<lambda>_ _ _. True" "\<lambda>_ g. g" "\<lambda>_ _. True" "\<lambda>_. True"
  by unfold_locales (auto simp: list_all_iff intro: step_inv)

context machine begin

lemma run_inv: "inv s \<Longrightarrow> run_steps step es s = Inr (s', os) \<Longrightarrow> inv s'"
  using run_Inr by blast

end

text \<open>
  The interface of a component that implements an abstract one as long as a budget (free space, an identifier
  range, a condition on its calls) lasts for the operations still to come: within it each operation has the
  abstract outcome, faults included.
\<close>

locale simulation =
  fixes step :: "'e \<Rightarrow> 's \<Rightarrow> ('s \<times> 'o list) result"
    and inv :: "'s \<Rightarrow> bool"
    and astep :: "'e \<Rightarrow> 'a \<Rightarrow> ('a \<times> 'o list) result"
    and absf :: "'s \<Rightarrow> 'a"
    and budget :: "'s \<Rightarrow> 'e list \<Rightarrow> bool"
  assumes step_sim:
    "inv s \<Longrightarrow> budget s (e # es) \<Longrightarrow> abs_result absf (step e s) = astep e (absf s)"
    and step_keeps:
    "inv s \<Longrightarrow> budget s (e # es) \<Longrightarrow> step e s = Inr (s', os) \<Longrightarrow> inv s' \<and> budget s' es"
begin

lemma run_sim:
  "inv s \<Longrightarrow> budget s es \<Longrightarrow>
     abs_result absf (run_steps step es s) = run_steps astep es (absf s)"
proof (induction es arbitrary: s)
  case Nil
  then show ?case by simp
next
  case (Cons e es)
  note sim = step_sim [OF Cons.prems]
  show ?case
  proof (cases "step e s")
    case (Inl f)
    then show ?thesis using sim [symmetric] by simp
  next
    case (Inr p)
    obtain s1 os1 where p: "p = (s1, os1)" by (cases p)
    have IH: "abs_result absf (run_steps step es s1) = run_steps astep es (absf s1)"
      using Cons.IH step_keeps [OF Cons.prems, of s1 os1] Inr p by simp
    have "astep e (absf s) = Inr (absf s1, os1)" using sim Inr p by simp
    then show ?thesis using Inr p IH [symmetric]
      by (cases "run_steps step es s1") (auto split: prod.splits)
  qed
qed

lemma run_keeps:
  "inv s \<Longrightarrow> budget s (es @ fs) \<Longrightarrow> run_steps step es s = Inr (s', os) \<Longrightarrow> inv s' \<and> budget s' fs"
proof (induction es arbitrary: s os)
  case Nil
  then show ?case by simp
next
  case (Cons e es)
  from Cons.prems(3) obtain s1 os1 os2 where s1: "step e s = Inr (s1, os1)"
      "run_steps step es s1 = Inr (s', os2)" by auto
  have "inv s1 \<and> budget s1 (es @ fs)"
    using step_keeps [OF Cons.prems(1) _ s1(1), of "es @ fs"] Cons.prems(2) by simp
  then show ?case using Cons.IH [OF _ _ s1(2)] by simp
qed

end

end
