(* ===== verification/Buffer.thy ===== *)
theory Buffer
  imports Prelude
begin

text \<open>
  The network buffer (include/net/Buffer.h, src/net/Buffer.cpp): a vector of bytes with a
  reader and a writer index, both \<open>size_t\<close>. The readable bytes lie between the indices, the
  first 8 bytes are kept free for \<open>prepend\<close>. Its abstract contract is a byte queue; the
  interface is the locale \<open>byte_fifo\<close>.
\<close>

section \<open>State and index arithmetic\<close>

record buffer =
  buf :: "byte list"
  readerIndex :: size_t
  writerIndex :: size_t

definition kCheapPrepend :: size_t where
  "kCheapPrepend = 8"

definition kInitialSize :: size_t where
  "kInitialSize = 1024"

definition Buffer_new :: buffer where
  "Buffer_new =
     \<lparr>buf = replicate (unat (kCheapPrepend + kInitialSize)) 0,
      readerIndex = kCheapPrepend, writerIndex = kCheapPrepend\<rparr>"

definition swap :: "buffer \<Rightarrow> buffer \<Rightarrow> buffer \<times> buffer" where
  "swap b rhs =
     (b\<lparr>buf := buf rhs, readerIndex := readerIndex rhs, writerIndex := writerIndex rhs\<rparr>,
      rhs\<lparr>buf := buf b, readerIndex := readerIndex b, writerIndex := writerIndex b\<rparr>)"

definition readableBytes :: "buffer \<Rightarrow> size_t" where
  "readableBytes b = writerIndex b - readerIndex b"

definition writableBytes :: "buffer \<Rightarrow> size_t" where
  "writableBytes b = of_nat (length (buf b)) - writerIndex b"

definition prependableBytes :: "buffer \<Rightarrow> size_t" where
  "prependableBytes b = readerIndex b"

lemma swap_eq [simp]: "swap b rhs = (rhs, b)"
  by (simp add: swap_def)

section \<open>Operations\<close>

text \<open>Pointers into the buffer (\<open>peek()\<close>, \<open>beginWrite()\<close>) are offsets from its begin.\<close>

definition peek :: "buffer \<Rightarrow> size_t" where
  "peek b = readerIndex b"

definition beginWrite :: "buffer \<Rightarrow> size_t" where
  "beginWrite b = writerIndex b"

definition retrieveAll :: "buffer \<Rightarrow> buffer" where
  "retrieveAll b = b\<lparr>readerIndex := kCheapPrepend, writerIndex := kCheapPrepend\<rparr>"

definition retrieve :: "size_t \<Rightarrow> buffer \<Rightarrow> buffer result" where
  "retrieve len b =
     assertE ''len <= readableBytes()'' (len \<le> readableBytes b)
       (if len < readableBytes b then Inr (b\<lparr>readerIndex := readerIndex b + len\<rparr>)
        else Inr (retrieveAll b))"

definition retrieveUntil :: "size_t \<Rightarrow> buffer \<Rightarrow> buffer result" where
  "retrieveUntil end_ptr b =
     assertE ''peek() <= end'' (peek b \<le> end_ptr)
       (assertE ''end <= beginWrite()'' (end_ptr \<le> beginWrite b)
          (retrieve (end_ptr - peek b) b))"

text \<open>\<open>std::string(peek(), n)\<close>: the constructor reads \<open>n\<close> bytes from the reader index.\<close>

definition peek_string :: "size_t \<Rightarrow> buffer \<Rightarrow> byte list result" where
  "peek_string n b = read_at (unat (peek b)) (unat n) (buf b)"

definition retrieveAsString :: "buffer \<Rightarrow> (byte list \<times> buffer) result" where
  "retrieveAsString b =
     bindE (peek_string (readableBytes b) b) (\<lambda>str. Inr (str, retrieveAll b))"

text \<open>\<open>vector::resize\<close> and the vector constructor throw above \<open>max_size()\<close>.\<close>

definition vec_resize :: "size_t \<Rightarrow> byte list \<Rightarrow> byte list result" where
  "vec_resize n xs = (if unat n \<le> max_size then Inr (resize (unat n) 0 xs) else Inl LengthError)"

definition makeSpace :: "size_t \<Rightarrow> buffer \<Rightarrow> buffer result" where
  "makeSpace len b =
     (if writableBytes b + prependableBytes b < len + kCheapPrepend then
        bindE (vec_resize (writerIndex b + len) (buf b)) (\<lambda>v. Inr (b\<lparr>buf := v\<rparr>))
      else
        assertE ''kCheapPrepend < readerIndex_'' (kCheapPrepend < readerIndex b)
          (let readable = readableBytes b in
           bindE (read_at (unat (readerIndex b)) (unat readable) (buf b)) (\<lambda>bytes.
           bindE (write_at (unat kCheapPrepend) bytes (buf b)) (\<lambda>v.
           Inr (b\<lparr>buf := v, readerIndex := kCheapPrepend,
                  writerIndex := kCheapPrepend + readable\<rparr>)))))"

definition ensureWritableBytes :: "size_t \<Rightarrow> buffer \<Rightarrow> buffer result" where
  "ensureWritableBytes len b = (if writableBytes b < len then makeSpace len b else Inr b)"

definition hasWritten :: "size_t \<Rightarrow> buffer \<Rightarrow> buffer" where
  "hasWritten len b = b\<lparr>writerIndex := writerIndex b + len\<rparr>"

definition append :: "byte list \<Rightarrow> buffer \<Rightarrow> buffer result" where
  "append data b =
     (let len = of_nat (length data) in
      bindE (ensureWritableBytes len b) (\<lambda>b1.
      bindE (write_at (unat (beginWrite b1)) data (buf b1)) (\<lambda>v.
      Inr (hasWritten len (b1\<lparr>buf := v\<rparr>)))))"

definition prepend :: "byte list \<Rightarrow> buffer \<Rightarrow> buffer result" where
  "prepend data b =
     (let len = of_nat (length data) in
      assertE ''len <= prependableBytes()'' (len \<le> prependableBytes b)
        (let r = readerIndex b - len in
         bindE (write_at (unat r) data (buf b)) (\<lambda>v.
         Inr (b\<lparr>buf := v, readerIndex := r\<rparr>))))"

text \<open>\<open>shrink\<close> copies the readable bytes to offset 8 of a new vector; as in the source, the
  two indices keep their old values.\<close>

definition shrink :: "size_t \<Rightarrow> buffer \<Rightarrow> buffer result" where
  "shrink reserve b =
     bindE (vec_resize (kCheapPrepend + readableBytes b + reserve) []) (\<lambda>fresh.
     bindE (read_at (unat (peek b)) (unat (readableBytes b)) (buf b)) (\<lambda>bytes.
     bindE (write_at (unat kCheapPrepend) bytes fresh) (\<lambda>v.
     Inr (b\<lparr>buf := v\<rparr>))))"

text \<open>
  \<open>readFd\<close> hands the kernel two blocks: the writable bytes and 65536 bytes on the stack. The
  outcome of \<open>readv\<close> is an argument: an errno, or the bytes it delivered (their number is the
  return value). The kernel fills the first block before the second.
\<close>

datatype readv_outcome = ReadFail int | ReadBytes "byte list"

definition extrabuf_size :: nat where
  "extrabuf_size = 65536"

definition readv_fits :: "readv_outcome \<Rightarrow> buffer \<Rightarrow> bool" where
  "readv_fits rv b = (case rv of ReadFail e \<Rightarrow> True
     | ReadBytes bytes \<Rightarrow> length bytes \<le> unat (writableBytes b) + extrabuf_size)"

definition readFd :: "readv_outcome \<Rightarrow> buffer \<Rightarrow> (int \<times> int option \<times> buffer) result" where
  "readFd rv b =
     (case rv of
        ReadFail err \<Rightarrow> Inr (-1, Some err, b)
      | ReadBytes bytes \<Rightarrow>
          (let writable = writableBytes b; n = length bytes in
           if of_nat n \<le> writable then
             bindE (write_at (unat (writerIndex b)) bytes (buf b)) (\<lambda>v.
             Inr (int n, None, b\<lparr>buf := v, writerIndex := writerIndex b + of_nat n\<rparr>))
           else
             bindE (write_at (unat (writerIndex b)) (take (unat writable) bytes) (buf b)) (\<lambda>v.
             bindE (append (drop (unat writable) bytes)
                      (b\<lparr>buf := v, writerIndex := of_nat (length (buf b))\<rparr>)) (\<lambda>b2.
             Inr (int n, None, b2)))))"

section \<open>Invariant and abstraction\<close>

definition buffer_ok :: "buffer \<Rightarrow> bool" where
  "buffer_ok b \<longleftrightarrow>
     unat (readerIndex b) \<le> unat (writerIndex b) \<and> 8 \<le> unat (writerIndex b) \<and>
     unat (writerIndex b) \<le> length (buf b) \<and> length (buf b) \<le> max_size"

definition content :: "buffer \<Rightarrow> byte list" where
  "content b = take (unat (writerIndex b) - unat (readerIndex b))
                 (drop (unat (readerIndex b)) (buf b))"

text \<open>Room for \<open>n\<close> more bytes without exceeding the largest vector size.\<close>

definition room :: "buffer \<Rightarrow> nat \<Rightarrow> bool" where
  "room b n \<longleftrightarrow> unat (writerIndex b) + n \<le> max_size"

named_theorems index_simps

lemma unat_kCheapPrepend [simp, index_simps]: "unat kCheapPrepend = 8"
  by (simp add: kCheapPrepend_def)

lemma unat_readableBytes [index_simps]:
  "buffer_ok b \<Longrightarrow> unat (readableBytes b) = unat (writerIndex b) - unat (readerIndex b)"
  by (simp add: buffer_ok_def readableBytes_def)

lemma unat_writableBytes [index_simps]:
  "buffer_ok b \<Longrightarrow> unat (writableBytes b) = length (buf b) - unat (writerIndex b)"
  by (simp add: buffer_ok_def writableBytes_def)

lemma unat_prependableBytes [index_simps]:
  "unat (prependableBytes b) = unat (readerIndex b)"
  by (simp add: prependableBytes_def)

lemma length_content: "buffer_ok b \<Longrightarrow> length (content b) = unat (readableBytes b)"
  by (simp add: content_def index_simps) (auto simp: buffer_ok_def min_def)

lemma buffer_okD:
  assumes "buffer_ok b"
  shows "unat (readerIndex b) \<le> unat (writerIndex b)" "8 \<le> unat (writerIndex b)"
    "unat (writerIndex b) \<le> length (buf b)" "length (buf b) \<le> max_size"
  using assms by (simp_all add: buffer_ok_def)

lemma Buffer_new_ok [simp]: "buffer_ok Buffer_new" "content Buffer_new = []"
  by (simp_all add: buffer_ok_def Buffer_new_def content_def kCheapPrepend_def
      kInitialSize_def max_size_def)

lemma retrieveAll_ok:
  "buffer_ok b \<Longrightarrow> buffer_ok (retrieveAll b)" "content (retrieveAll b) = []"
  by (simp_all add: buffer_ok_def retrieveAll_def content_def)

lemma retrieve_fail:
  "buffer_ok b \<Longrightarrow> length (content b) < unat len \<Longrightarrow>
     retrieve len b = Inl (Assertion ''len <= readableBytes()'')"
  by (simp add: retrieve_def size_order length_content)

lemma retrieve_ok:
  assumes ok: "buffer_ok b" and le: "unat len \<le> length (content b)"
  shows "\<exists>b'. retrieve len b = Inr b' \<and> buffer_ok b' \<and>
           content b' = drop (unat len) (content b) \<and>
           unat (writerIndex b') \<le> unat (writerIndex b)"
proof (cases "len < readableBytes b")
  case True
  have bound: "unat (readerIndex b) + unat len \<le> unat (writerIndex b)"
    using le buffer_okD(1) [OF ok] by (simp add: length_content ok index_simps)
  then have add: "unat (readerIndex b + len) = unat (readerIndex b) + unat len"
    using buffer_okD [OF ok] by (intro size_plus_small) (simp add: max_size_def)
  have "buffer_ok (b\<lparr>readerIndex := readerIndex b + len\<rparr>)"
    using ok bound add by (simp add: buffer_ok_def)
  moreover have "content (b\<lparr>readerIndex := readerIndex b + len\<rparr>) = drop (unat len) (content b)"
    using add by (simp add: content_def drop_take add.commute)
  ultimately show ?thesis using True by (simp add: retrieve_def size_order)
next
  case False
  then have "retrieve len b = Inr (retrieveAll b)"
    using le by (simp add: retrieve_def size_order length_content ok)
  moreover have "drop (unat len) (content b) = []"
    using False by (simp add: size_order length_content ok)
  ultimately show ?thesis
    using retrieveAll_ok [of b] ok by (simp add: retrieveAll_def buffer_ok_def)
qed

lemma peek_string_ok:
  assumes "buffer_ok b" "unat n \<le> length (content b)"
  shows "peek_string n b = Inr (take (unat n) (content b))"
proof -
  have n: "unat n \<le> unat (writerIndex b) - unat (readerIndex b)"
    using assms by (simp add: length_content index_simps)
  have "unat (readerIndex b) + unat n \<le> length (buf b)"
    using n buffer_okD [OF assms(1)] by linarith
  then show ?thesis using n by (simp add: peek_string_def peek_def content_def min_absorb1)
qed

lemma retrieveAsString_ok:
  assumes "buffer_ok b"
  shows "retrieveAsString b = Inr (content b, retrieveAll b)"
proof -
  have "peek_string (readableBytes b) b = Inr (content b)"
    using peek_string_ok [OF assms, of "readableBytes b"] by (simp add: length_content assms)
  then show ?thesis by (simp add: retrieveAsString_def)
qed

section \<open>Writing operations\<close>

text \<open>What making room for \<open>n\<close> bytes establishes.\<close>

definition roomy :: "buffer \<Rightarrow> size_t \<Rightarrow> buffer \<Rightarrow> bool" where
  "roomy b len b' \<longleftrightarrow> buffer_ok b' \<and> content b' = content b \<and>
     unat len \<le> length (buf b') - unat (writerIndex b') \<and>
     unat (writerIndex b') \<le> unat (writerIndex b)"

text \<open>\<open>makeSpace\<close> either throws, when there is no room, or succeeds; its assert never fires.\<close>

lemma makeSpace_cases:
  assumes ok: "buffer_ok b" and need: "writableBytes b < len" and small_len: "unat len \<le> max_size"
  shows "(makeSpace len b = Inl LengthError \<and> \<not> room b (unat len)) \<or>
         (\<exists>b'. makeSpace len b = Inr b' \<and> roomy b len b')"
proof -
  note okD = buffer_okD [OF ok]
  have small: "max_size < 2 ^ 63" by (simp add: max_size_def)
  have sum: "unat (writableBytes b + prependableBytes b) =
      length (buf b) - unat (writerIndex b) + unat (readerIndex b)"
    using okD small by (subst size_plus_small) (simp_all add: index_simps ok)
  have lim: "unat (len + kCheapPrepend) = unat len + 8"
    using small_len small by (subst size_plus_small) simp_all
  have wl: "unat (writerIndex b + len) = unat (writerIndex b) + unat len"
    using small_len okD small by (subst size_plus_small) simp_all
  have need': "length (buf b) - unat (writerIndex b) < unat len"
    using need by (simp add: size_order index_simps ok)
  show ?thesis
  proof (cases "writableBytes b + prependableBytes b < len + kCheapPrepend")
    case True
    let ?b = "b\<lparr>buf := resize (unat (writerIndex b) + unat len) 0 (buf b)\<rparr>"
    have eq: "makeSpace len b = (if room b (unat len) then Inr ?b else Inl LengthError)"
      using True wl by (simp add: makeSpace_def vec_resize_def room_def)
    have "content ?b = content b"
      using okD by (simp add: content_def resize_window)
    then have "room b (unat len) \<Longrightarrow> roomy b len ?b"
      using ok need' by (simp add: buffer_ok_def room_def roomy_def)
    then show ?thesis using eq by (cases "room b (unat len)") auto
  next
    case False
    let ?n = "unat (writerIndex b) - unat (readerIndex b)"
    have ge: "unat len + 8 \<le> length (buf b) - unat (writerIndex b) + unat (readerIndex b)"
      using False by (simp add: size_order sum lim)
    have r8: "8 < unat (readerIndex b)" using ge need' by linarith
    have n: "unat (readableBytes b) = ?n" by (simp add: index_simps ok)
    have w8: "unat (kCheapPrepend + readableBytes b) = 8 + ?n"
      using okD small n by (subst size_plus_small) simp_all
    have len_c: "length (content b) = ?n" by (simp add: length_content ok n)
    let ?b = "b\<lparr>buf := overwrite 8 (content b) (buf b), readerIndex := kCheapPrepend,
               writerIndex := kCheapPrepend + readableBytes b\<rparr>"
    have fit: "8 + ?n \<le> length (buf b)" using r8 okD by linarith
    have "makeSpace len b = Inr ?b"
      using False r8 okD fit len_c
      by (simp add: makeSpace_def size_order Let_def n content_def [symmetric])
    moreover have "buffer_ok ?b"
      using okD w8 fit len_c by (simp add: buffer_ok_def)
    moreover have "content ?b = content b"
      unfolding content_def [of ?b] using w8 fit len_c overwrite_window_same [of 8 "content b" "buf b"]
      by simp
    moreover have "unat len \<le> length (buf b) - (8 + ?n)"
      using ge okD r8 by linarith
    moreover have "8 + ?n \<le> unat (writerIndex b)" using r8 okD by linarith
    ultimately show ?thesis using w8 fit len_c by (simp add: roomy_def)
  qed
qed

lemma ensureWritableBytes_cases:
  assumes "buffer_ok b" "unat len \<le> max_size"
  shows "(ensureWritableBytes len b = Inl LengthError \<and> \<not> room b (unat len)) \<or>
         (\<exists>b'. ensureWritableBytes len b = Inr b' \<and> roomy b len b')"
  using makeSpace_cases [OF assms(1) _ assms(2)] assms(1)
  by (auto simp: ensureWritableBytes_def size_order index_simps not_less roomy_def)

lemma ensureWritableBytes_ok:
  assumes "buffer_ok b" "room b (unat len)"
  shows "\<exists>b'. ensureWritableBytes len b = Inr b' \<and> buffer_ok b' \<and> content b' = content b \<and>
           unat len \<le> length (buf b') - unat (writerIndex b') \<and>
           unat (writerIndex b') \<le> unat (writerIndex b)"
  using ensureWritableBytes_cases [OF assms(1), of len] assms(2) by (auto simp: room_def roomy_def)

lemma ensureWritableBytes_size:
  "ensureWritableBytes len b = Inr b' \<Longrightarrow> length (buf b) \<le> max_size \<Longrightarrow> length (buf b') \<le> max_size"
  by (auto simp: ensureWritableBytes_def makeSpace_def vec_resize_def Let_def write_at_Inr
      split: if_splits)

text \<open>Bytes written at the writer index and then announced extend the content.\<close>

lemma write_behind_ok:
  assumes ok: "buffer_ok b" and fit: "unat (writerIndex b) + length data \<le> length (buf b)"
  defines "b' \<equiv> b\<lparr>buf := overwrite (unat (writerIndex b)) data (buf b),
                   writerIndex := writerIndex b + of_nat (length data)\<rparr>"
  shows "buffer_ok b'" "content b' = content b @ data"
    "unat (writerIndex b') = unat (writerIndex b) + length data"
proof -
  note okD = buffer_okD [OF ok]
  have d: "length data \<le> max_size" using fit okD by linarith
  have w: "unat (writerIndex b + of_nat (length data)) = unat (writerIndex b) + length data"
    using fit okD d by (subst size_plus_small) (simp_all add: max_size_def)
  then show "unat (writerIndex b') = unat (writerIndex b) + length data" by (simp add: b'_def)
  show "buffer_ok b'" using okD fit w by (simp add: buffer_ok_def b'_def)
  have "content b' = take (unat (writerIndex b) - unat (readerIndex b) + length data)
      (drop (unat (readerIndex b)) (overwrite (unat (writerIndex b)) data (buf b)))"
    using w okD by (simp add: content_def b'_def)
  also have "\<dots> = content b @ data"
    using overwrite_extend [OF okD(1) fit] by (simp add: content_def)
  finally show "content b' = content b @ data" .
qed

lemma append_cases:
  assumes ok: "buffer_ok b"
  shows "(\<exists>e. append data b = Inl e) \<and> \<not> room b (length data) \<or>
         (\<exists>b'. append data b = Inr b' \<and> buffer_ok b' \<and> content b' = content b @ data \<and>
            unat (writerIndex b') \<le> unat (writerIndex b) + length data)"
proof (cases "length data \<le> max_size")
  case False
  then have "\<not> room b (length data)" by (simp add: room_def)
  moreover have "\<exists>e. append data b = Inl e"
  proof (cases "ensureWritableBytes (of_nat (length data)) b")
    case (Inr b1)
    then have "length (buf b1) \<le> max_size"
      using ensureWritableBytes_size buffer_okD(4) [OF ok] by blast
    then show ?thesis using Inr False by (simp add: append_def Let_def write_at_def)
  qed (simp add: append_def)
  ultimately show ?thesis by blast
next
  case True
  then have len: "unat (of_nat (length data) :: size_t) = length data" by simp
  from ensureWritableBytes_cases [OF ok, of "of_nat (length data)"] True len
  consider "ensureWritableBytes (of_nat (length data)) b = Inl LengthError" "\<not> room b (length data)"
    | b1 where "ensureWritableBytes (of_nat (length data)) b = Inr b1" "roomy b (of_nat (length data)) b1"
    by auto
  then show ?thesis
  proof cases
    case 1
    then show ?thesis by (simp add: append_def)
  next
    case (2 b1)
    then have b1: "buffer_ok b1" "content b1 = content b"
        "length data \<le> length (buf b1) - unat (writerIndex b1)"
        "unat (writerIndex b1) \<le> unat (writerIndex b)"
      by (simp_all add: roomy_def len)
    have fit: "unat (writerIndex b1) + length data \<le> length (buf b1)"
      using b1(3) buffer_okD(3) [OF b1(1)] by linarith
    let ?b' = "b1\<lparr>buf := overwrite (unat (writerIndex b1)) data (buf b1),
                 writerIndex := writerIndex b1 + of_nat (length data)\<rparr>"
    have "append data b = Inr ?b'"
      using 2(1) fit by (simp add: append_def Let_def beginWrite_def hasWritten_def)
    then show ?thesis using write_behind_ok [OF b1(1) fit] b1(2,4) by simp
  qed
qed

lemma append_ok:
  assumes "buffer_ok b" "room b (length data)"
  shows "\<exists>b'. append data b = Inr b' \<and> buffer_ok b' \<and> content b' = content b @ data \<and>
           unat (writerIndex b') \<le> unat (writerIndex b) + length data"
  using append_cases [OF assms(1), of data] assms(2) by blast

lemma append_sound:
  "buffer_ok b \<Longrightarrow> append data b = Inr b' \<Longrightarrow> buffer_ok b' \<and> content b' = content b @ data"
  using append_cases [of b data] by auto

lemma append_room:
  "buffer_ok b \<Longrightarrow> room b (length data + n) \<Longrightarrow> append data b = Inr b' \<Longrightarrow> room b' n"
  using append_ok [of b data] by (auto simp: room_def)

lemma prepend_ok:
  assumes ok: "buffer_ok b" and fit: "length data \<le> unat (prependableBytes b)"
  shows "\<exists>b'. prepend data b = Inr b' \<and> buffer_ok b' \<and> content b' = data @ content b \<and>
           unat (writerIndex b') = unat (writerIndex b)"
proof -
  note okD = buffer_okD [OF ok]
  have fit': "length data \<le> unat (readerIndex b)" using fit by (simp add: index_simps)
  have len: "unat (of_nat (length data) :: size_t) = length data"
    using fit' okD by simp
  have r: "unat (readerIndex b - of_nat (length data)) = unat (readerIndex b) - length data"
    using fit' len by simp
  let ?r = "unat (readerIndex b) - length data"
  let ?b = "b\<lparr>buf := overwrite ?r data (buf b), readerIndex := readerIndex b - of_nat (length data)\<rparr>"
  have le: "?r + length data \<le> length (buf b)" using fit' okD by linarith
  have "prepend data b = Inr ?b"
    using fit le len by (simp add: prepend_def Let_def size_order r)
  moreover have "buffer_ok ?b" using okD r le by (simp add: buffer_ok_def)
  moreover have "content ?b = data @ content b"
  proof -
    have "unat (writerIndex b) - ?r = length data + (unat (writerIndex b) - unat (readerIndex b))"
      using fit' okD by linarith
    then show ?thesis
      using overwrite_prefix [OF le, of "unat (writerIndex b) - unat (readerIndex b)"] fit'
      by (simp add: content_def r)
  qed
  ultimately show ?thesis by simp
qed

lemma prepend_index:
  assumes "prepend data b = Inr b'" and fit: "length data \<le> unat (prependableBytes b)"
  shows "unat (readerIndex b') = unat (readerIndex b) - length data"
proof -
  have le: "length data \<le> unat (readerIndex b)" using fit by (simp add: index_simps)
  also have "unat (readerIndex b) < 2 ^ 64" using unsigned_less [of "readerIndex b"] by simp
  finally have "unat (of_nat (length data) :: size_t) = length data" by (simp add: unat_of_nat)
  then have "unat (readerIndex b - of_nat (length data)) = unat (readerIndex b) - length data"
    using le by simp
  then show ?thesis using assms(1)
    by (auto simp: prepend_def Let_def assertE_def split: if_splits)
qed

lemma prepend_fail:
  "unat (prependableBytes b) < length data \<Longrightarrow> length data \<le> max_size \<Longrightarrow>
     prepend data b = Inl (Assertion ''len <= prependableBytes()'')"
  by (simp add: prepend_def Let_def size_order)

section \<open>Reading from a descriptor\<close>

definition readv_data :: "readv_outcome \<Rightarrow> byte list" where
  "readv_data rv = (case rv of ReadFail e \<Rightarrow> [] | ReadBytes bytes \<Rightarrow> bytes)"

definition readv_ret :: "readv_outcome \<Rightarrow> int" where
  "readv_ret rv = (case rv of ReadFail e \<Rightarrow> -1 | ReadBytes bytes \<Rightarrow> int (length bytes))"

lemma readFd_ok:
  assumes ok: "buffer_ok b" and rm: "room b (length (readv_data rv))"
  shows "\<exists>err b'. readFd rv b = Inr (readv_ret rv, err, b') \<and> buffer_ok b' \<and>
           content b' = content b @ readv_data rv \<and>
           (err = None \<longleftrightarrow> (\<forall>e. rv \<noteq> ReadFail e))"
proof (cases rv)
  case (ReadFail e)
  then show ?thesis using ok by (simp add: readFd_def readv_data_def readv_ret_def)
next
  case (ReadBytes bytes)
  note okD = buffer_okD [OF ok]
  have len: "unat (of_nat (length bytes) :: size_t) = length bytes"
    using rm ReadBytes by (simp add: room_def readv_data_def)
  let ?wr = "length (buf b) - unat (writerIndex b)"
  have wr: "unat (writableBytes b) = ?wr" by (simp add: index_simps ok)
  show ?thesis
  proof (cases "of_nat (length bytes) \<le> writableBytes b")
    case True
    then have fit: "unat (writerIndex b) + length bytes \<le> length (buf b)"
      using okD by (simp add: size_order len wr)
    then show ?thesis
      using True write_behind_ok [OF ok fit] ReadBytes
      by (simp add: readFd_def Let_def readv_data_def readv_ret_def)
  next
    case False
    then have more: "?wr < length bytes" by (simp add: size_order len wr)
    let ?front = "take ?wr bytes"
    have fit: "unat (writerIndex b) + length ?front \<le> length (buf b)" using okD more by simp
    let ?b1 = "b\<lparr>buf := overwrite (unat (writerIndex b)) ?front (buf b),
                writerIndex := of_nat (length (buf b))\<rparr>"
    have full: "?b1 = b\<lparr>buf := overwrite (unat (writerIndex b)) ?front (buf b),
                writerIndex := writerIndex b + of_nat (length ?front)\<rparr>"
      using more okD by (simp add: of_nat_diff)
    note b1 = write_behind_ok [OF ok fit, folded full]
    have "room ?b1 (length (drop ?wr bytes))"
      using rm ReadBytes more okD by (simp add: room_def readv_data_def)
    then obtain b2 where b2: "append (drop ?wr bytes) ?b1 = Inr b2" "buffer_ok b2"
        "content b2 = content ?b1 @ drop ?wr bytes"
      using append_ok [OF b1(1)] by blast
    have "readFd rv b = Inr (int (length bytes), None, b2)"
      using False b2(1) fit ReadBytes by (simp add: readFd_def Let_def wr)
    moreover have "content b2 = content b @ bytes"
      using b2(3) b1(2) by simp
    ultimately show ?thesis using b2(2) ReadBytes by (simp add: readv_data_def readv_ret_def)
  qed
qed

section \<open>The byte queue interface\<close>

text \<open>What the codec and the connection rely on: a bounded byte queue.\<close>

locale byte_fifo =
  fixes ok :: "'b \<Rightarrow> bool"
    and bytes :: "'b \<Rightarrow> byte list"
    and free :: "'b \<Rightarrow> nat \<Rightarrow> bool"
    and put :: "byte list \<Rightarrow> 'b \<Rightarrow> 'b result"
    and take_front :: "size_t \<Rightarrow> 'b \<Rightarrow> 'b result"
  assumes put_sound: "ok b \<Longrightarrow> put xs b = Inr b' \<Longrightarrow> ok b' \<and> bytes b' = bytes b @ xs"
    and put_law: "ok b \<Longrightarrow> free b (length xs) \<Longrightarrow>
      \<exists>b'. put xs b = Inr b' \<and> ok b' \<and> bytes b' = bytes b @ xs"
    and put_free: "ok b \<Longrightarrow> free b (length xs + n) \<Longrightarrow> put xs b = Inr b' \<Longrightarrow> free b' n"
    and free_mono: "free b n \<Longrightarrow> m \<le> n \<Longrightarrow> free b m"
    and take_law: "ok b \<Longrightarrow> unat k \<le> length (bytes b) \<Longrightarrow>
      \<exists>b'. take_front k b = Inr b' \<and> ok b' \<and> bytes b' = drop (unat k) (bytes b)"
    and take_law_fail: "ok b \<Longrightarrow> length (bytes b) < unat k \<Longrightarrow> \<exists>e. take_front k b = Inl e"
begin

lemma take_eq:
  "ok b \<Longrightarrow> take_front n b = Inr b' \<Longrightarrow>
     ok b' \<and> unat n \<le> length (bytes b) \<and> bytes b' = drop (unat n) (bytes b)"
  using take_law [of b n] take_law_fail [of b n] by (cases "unat n \<le> length (bytes b)") auto

text \<open>Putting chunks one by one is putting their concatenation.\<close>

lemma put_chunks:
  "ok b \<Longrightarrow> free b (length (concat xss) + n) \<Longrightarrow>
     \<exists>b'. fold (\<lambda>xs r. bindE r (put xs)) xss (Inr b) = Inr b' \<and> ok b' \<and>
          bytes b' = bytes b @ concat xss \<and> free b' n"
proof (induction xss arbitrary: b)
  case Nil
  then show ?case by simp
next
  case (Cons xs xss)
  have f: "free b (length xs + (length (concat xss) + n))"
    using Cons.prems by (simp add: add.assoc)
  obtain b1 where b1: "put xs b = Inr b1" "ok b1" "bytes b1 = bytes b @ xs"
    using put_law [OF Cons.prems(1) free_mono [OF f le_add1]] by blast
  then show ?case using Cons.IH [OF b1(2) put_free [OF Cons.prems(1) f b1(1)]] by simp
qed

text \<open>First in, first out: what was put on an empty queue comes out in front.\<close>

lemma put_take:
  assumes "ok b" "bytes b = []" "free b (length xs + length ys)" "unat n = length xs"
  shows "\<exists>b'. bindE (bindE (put xs b) (put ys)) (take_front n) = Inr b' \<and> ok b' \<and> bytes b' = ys"
proof -
  obtain b1 where b1: "put xs b = Inr b1" "ok b1" "bytes b1 = xs"
    using put_law [OF assms(1) free_mono [OF assms(3) le_add1]] assms(2) by auto
  obtain b2 where b2: "put ys b1 = Inr b2" "ok b2" "bytes b2 = xs @ ys"
    using put_law [OF b1(2) put_free [OF assms(1,3) b1(1)]] b1(3) by auto
  then show ?thesis using take_law [OF b2(2), of n] b1(1) assms(4) by auto
qed

end

interpretation nb: byte_fifo buffer_ok content room append retrieve
proof unfold_locales
  show "\<And>b xs b'. buffer_ok b \<Longrightarrow> append xs b = Inr b' \<Longrightarrow>
      buffer_ok b' \<and> content b' = content b @ xs"
    using append_sound by blast
  show "\<And>b xs. buffer_ok b \<Longrightarrow> room b (length xs) \<Longrightarrow>
      \<exists>b'. append xs b = Inr b' \<and> buffer_ok b' \<and> content b' = content b @ xs"
    using append_ok by blast
  show "\<And>b n. buffer_ok b \<Longrightarrow> unat n \<le> length (content b) \<Longrightarrow>
      \<exists>b'. retrieve n b = Inr b' \<and> buffer_ok b' \<and> content b' = drop (unat n) (content b)"
    using retrieve_ok by blast
  show "\<And>b xs n b'. buffer_ok b \<Longrightarrow> room b (length xs + n) \<Longrightarrow> append xs b = Inr b' \<Longrightarrow> room b' n"
    using append_room by blast
qed (auto simp: retrieve_fail room_def)

section \<open>Refinement of an abstract byte queue\<close>

text \<open>
  The operations of a buffer as its clients use them. \<open>OpFill len bytes\<close> writes through \<open>beginWrite()\<close>: it asks
  for \<open>len\<close> writable bytes, writes \<open>bytes\<close> there and announces them with \<open>hasWritten\<close>. The argument of
  \<open>OpRetrieveUntil\<close> is the distance of the pointer from \<open>peek()\<close>.
\<close>

datatype buffer_op =
    OpAppend "byte list" | OpPrepend "byte list" | OpRetrieve size_t | OpRetrieveUntil size_t
  | OpRetrieveAll | OpRetrieveAsString | OpEnsure size_t | OpFill size_t "byte list"
  | OpReadFd readv_outcome | OpShrink size_t

datatype buffer_out = Str "byte list" | Ret int

definition fill :: "size_t \<Rightarrow> byte list \<Rightarrow> buffer \<Rightarrow> buffer result" where
  "fill len bytes b =
     bindE (ensureWritableBytes len b) (\<lambda>b1.
     bindE (write_at (unat (beginWrite b1)) bytes (buf b1)) (\<lambda>v.
     Inr (hasWritten (of_nat (length bytes)) (b1\<lparr>buf := v\<rparr>))))"

fun buffer_step :: "buffer_op \<Rightarrow> buffer \<Rightarrow> (buffer \<times> buffer_out list) result" where
  "buffer_step (OpAppend data) b = bindE (append data b) (\<lambda>b'. Inr (b', []))"
| "buffer_step (OpPrepend data) b = bindE (prepend data b) (\<lambda>b'. Inr (b', []))"
| "buffer_step (OpRetrieve len) b = bindE (retrieve len b) (\<lambda>b'. Inr (b', []))"
| "buffer_step (OpRetrieveUntil n) b = bindE (retrieveUntil (peek b + n) b) (\<lambda>b'. Inr (b', []))"
| "buffer_step OpRetrieveAll b = Inr (retrieveAll b, [])"
| "buffer_step OpRetrieveAsString b =
     bindE (retrieveAsString b) (\<lambda>(str, b'). Inr (b', [Str str]))"
| "buffer_step (OpEnsure len) b = bindE (ensureWritableBytes len b) (\<lambda>b'. Inr (b', []))"
| "buffer_step (OpFill len bytes) b = bindE (fill len bytes b) (\<lambda>b'. Inr (b', []))"
| "buffer_step (OpReadFd rv) b =
     bindE (readFd rv b) (\<lambda>(n, err, b'). Inr (b', [Ret n]))"
| "buffer_step (OpShrink reserve) b = bindE (shrink reserve b) (\<lambda>b'. Inr (b', []))"

text \<open>Two buffers: operations on the first, and exchanging them.\<close>

datatype buffers_op = OnFirst buffer_op | OpSwap

fun buffers_step :: "buffers_op \<Rightarrow> buffer \<times> buffer \<Rightarrow> ((buffer \<times> buffer) \<times> buffer_out list) result" where
  "buffers_step (OnFirst e) bs = bindE (buffer_step e (fst bs)) (\<lambda>(b, os). Inr ((b, snd bs), os))"
| "buffers_step OpSwap bs = Inr (swap (fst bs) (snd bs), [])"

text \<open>What the same operations do to plain lists of bytes.\<close>

fun queue_step :: "buffer_op \<Rightarrow> byte list \<Rightarrow> (byte list \<times> buffer_out list) result" where
  "queue_step (OpAppend data) q = Inr (q @ data, [])"
| "queue_step (OpPrepend data) q = Inr (data @ q, [])"
| "queue_step (OpRetrieve len) q =
     (if unat len \<le> length q then Inr (drop (unat len) q, [])
      else Inl (Assertion ''len <= readableBytes()''))"
| "queue_step (OpRetrieveUntil n) q =
     (if unat n \<le> length q then Inr (drop (unat n) q, [])
      else Inl (Assertion ''end <= beginWrite()''))"
| "queue_step OpRetrieveAll q = Inr ([], [])"
| "queue_step OpRetrieveAsString q = Inr ([], [Str q])"
| "queue_step (OpEnsure len) q = Inr (q, [])"
| "queue_step (OpFill len bytes) q = Inr (q @ bytes, [])"
| "queue_step (OpReadFd rv) q = Inr (q @ readv_data rv, [Ret (readv_ret rv)])"
| "queue_step (OpShrink reserve) q = Inr (q, [])"

fun queues_step ::
  "buffers_op \<Rightarrow> byte list \<times> byte list \<Rightarrow> ((byte list \<times> byte list) \<times> buffer_out list) result" where
  "queues_step (OnFirst e) qs = bindE (queue_step e (fst qs)) (\<lambda>(q, os). Inr ((q, snd qs), os))"
| "queues_step OpSwap qs = Inr ((snd qs, fst qs), [])"

definition contents :: "buffer \<times> buffer \<Rightarrow> byte list \<times> byte list" where
  "contents bs = (content (fst bs), content (snd bs))"

text \<open>The bytes an operation adds, or reserves, behind the writer index, and those it puts in front.\<close>

fun op_cost :: "buffer_op \<Rightarrow> nat" where
  "op_cost (OpAppend data) = length data"
| "op_cost (OpEnsure len) = unat len"
| "op_cost (OpFill len bytes) = unat len"
| "op_cost (OpReadFd rv) = length (readv_data rv)"
| "op_cost (OpShrink reserve) = unat reserve"
| "op_cost _ = 0"

fun op_front :: "buffer_op \<Rightarrow> nat" where
  "op_front (OpPrepend data) = length data"
| "op_front _ = 0"

text \<open>What a client owes: no more bytes written than asked for, and no pointer that wraps around.\<close>

fun op_proper :: "buffer_op \<Rightarrow> bool" where
  "op_proper (OpFill len bytes) = (length bytes \<le> unat len)"
| "op_proper (OpRetrieveUntil n) = (unat n \<le> max_size)"
| "op_proper _ = True"

text \<open>The bytes in front that stay free, whatever is retrieved or moved.\<close>

definition headroom :: "buffer \<Rightarrow> nat \<Rightarrow> bool" where
  "headroom b n \<longleftrightarrow> n \<le> 8 \<and> n \<le> unat (prependableBytes b)"

fun on_first :: "'a \<Rightarrow> (buffer_op \<Rightarrow> 'a) \<Rightarrow> buffers_op \<Rightarrow> 'a" where
  "on_first z f (OnFirst e) = f e"
| "on_first z f OpSwap = z"

definition buffers_cost :: "buffers_op list \<Rightarrow> nat" where
  "buffers_cost ops = sum_list (map (on_first 0 op_cost) ops)"

definition buffers_front :: "buffers_op list \<Rightarrow> nat" where
  "buffers_front ops = sum_list (map (on_first 0 op_front) ops)"

text \<open>Every \<open>shrink\<close> of the run finds the reader index at its initial position.\<close>

fun shrinks_home :: "buffers_op list \<Rightarrow> buffer \<times> buffer \<Rightarrow> bool" where
  "shrinks_home [] bs = True"
| "shrinks_home (e # es) bs =
     ((case e of OnFirst (OpShrink reserve) \<Rightarrow> readerIndex (fst bs) = kCheapPrepend | _ \<Rightarrow> True) \<and>
      (case buffers_step e bs of Inl f \<Rightarrow> True | Inr (bs', os) \<Rightarrow> shrinks_home es bs'))"

definition buffers_fit :: "buffer \<times> buffer \<Rightarrow> buffers_op list \<Rightarrow> bool" where
  "buffers_fit bs ops \<longleftrightarrow>
     (\<forall>b \<in> {fst bs, snd bs}. room b (buffers_cost ops) \<and> headroom b (buffers_front ops)) \<and>
     list_all (on_first True op_proper) ops \<and> shrinks_home ops bs"

lemma readFd_room:
  assumes "buffer_ok b" "room b (length (readv_data rv) + n)" "readFd rv b = Inr (k, err, b')"
  shows "room b' n"
proof (cases rv)
  case (ReadFail e)
  then show ?thesis using assms by (auto simp: readFd_def room_def)
next
  case (ReadBytes bytes)
  note okD = buffer_okD [OF assms(1)]
  have len: "unat (of_nat (length bytes) :: size_t) = length bytes"
    using assms(2) ReadBytes by (simp add: room_def readv_data_def)
  show ?thesis
  proof (cases "of_nat (length bytes) \<le> writableBytes b")
    case True
    then have fit: "unat (writerIndex b) + length bytes \<le> length (buf b)"
      using okD by (simp add: size_order len index_simps assms(1))
    then show ?thesis
      using True write_behind_ok(3) [OF assms(1) fit] assms(2,3) ReadBytes
      by (auto simp: readFd_def Let_def room_def readv_data_def)
  next
    case False
    let ?wr = "length (buf b) - unat (writerIndex b)"
    have wr: "unat (writableBytes b) = ?wr" by (simp add: index_simps assms(1))
    have more: "?wr < length bytes" using False by (simp add: size_order len wr)
    from assms(3) False ReadBytes obtain v where
        v: "write_at (unat (writerIndex b)) (take ?wr bytes) (buf b) = Inr v"
        "append (drop ?wr bytes) (b\<lparr>buf := v, writerIndex := of_nat (length (buf b))\<rparr>) = Inr b'"
      by (auto simp: readFd_def Let_def wr)
    let ?b1 = "b\<lparr>buf := v, writerIndex := of_nat (length (buf b))\<rparr>"
    have "buffer_ok ?b1" using v(1) okD by (auto simp: buffer_ok_def write_at_Inr)
    moreover have "room ?b1 (length (drop ?wr bytes) + n)"
      using assms(2) ReadBytes more okD by (simp add: room_def readv_data_def)
    ultimately show ?thesis using append_room v(2) by blast
  qed
qed

lemma retrieveUntil_eq:
  assumes "buffer_ok b" "unat n \<le> max_size"
  shows "retrieveUntil (peek b + n) b =
    (if unat n \<le> length (content b) then retrieve n b else Inl (Assertion ''end <= beginWrite()''))"
proof -
  note okD = buffer_okD [OF assms(1)]
  have "unat (readerIndex b + n) = unat (readerIndex b) + unat n"
    using okD assms(2) by (intro size_plus_small) (simp add: max_size_def)
  then show ?thesis using okD(1)
    by (simp add: retrieveUntil_def peek_def beginWrite_def size_order length_content assms(1) index_simps
        le_diff_conv2 add.commute)
qed

lemma fill_ok:
  assumes ok: "buffer_ok b" and rm: "room b (unat len + n)" and le: "length bytes \<le> unat len"
  shows "\<exists>b'. fill len bytes b = Inr b' \<and> buffer_ok b' \<and> content b' = content b @ bytes \<and> room b' n"
proof -
  have "room b (unat len)" using rm by (simp add: room_def)
  then obtain b1 where b1: "ensureWritableBytes len b = Inr b1" "buffer_ok b1" "content b1 = content b"
      "unat len \<le> length (buf b1) - unat (writerIndex b1)" "unat (writerIndex b1) \<le> unat (writerIndex b)"
    using ensureWritableBytes_ok [OF ok, of len] by blast
  have fit: "unat (writerIndex b1) + length bytes \<le> length (buf b1)"
    using b1(4) le buffer_okD(3) [OF b1(2)] by linarith
  show ?thesis using write_behind_ok [OF b1(2) fit] b1 fit rm le
    by (simp add: fill_def beginWrite_def hasWritten_def room_def)
qed

lemma shrink_eq:
  assumes ok: "buffer_ok b" and fit: "8 + length (content b) + unat reserve \<le> max_size"
  shows "shrink reserve b =
    Inr (b\<lparr>buf := overwrite 8 (content b) (resize (8 + length (content b) + unat reserve) 0 [])\<rparr>)"
proof -
  let ?n = "length (content b)"
  have small: "max_size < 2 ^ 63" by (simp add: max_size_def)
  have n: "unat (readableBytes b) = ?n" by (simp add: length_content ok)
  have s1: "unat (kCheapPrepend + readableBytes b) = 8 + ?n"
    using fit small n by (subst size_plus_small) simp_all
  then have s2: "unat (kCheapPrepend + readableBytes b + reserve) = 8 + ?n + unat reserve"
    using fit small by (subst size_plus_small) simp_all
  have pk: "read_at (unat (peek b)) (unat (readableBytes b)) (buf b) = Inr (content b)"
    using peek_string_ok [OF ok, of "readableBytes b"] n by (simp add: peek_string_def)
  show ?thesis using s2 pk fit by (simp add: shrink_def vec_resize_def)
qed

lemma shrink_home:
  assumes ok: "buffer_ok b" and home: "readerIndex b = kCheapPrepend"
    and fit: "8 + length (content b) + unat reserve \<le> max_size"
  shows "\<exists>b'. shrink reserve b = Inr b' \<and> buffer_ok b' \<and> content b' = content b \<and>
     readerIndex b' = readerIndex b \<and> writerIndex b' = writerIndex b"
proof -
  let ?n = "length (content b)"
  let ?v = "overwrite 8 (content b) (resize (8 + ?n + unat reserve) 0 [])"
  have n: "unat (writerIndex b) = 8 + ?n"
    using buffer_okD(1) [OF ok] home by (simp add: length_content index_simps ok)
  have "content (b\<lparr>buf := ?v\<rparr>) = take ?n (drop 8 ?v)"
    unfolding content_def [of "b\<lparr>buf := ?v\<rparr>"] using n home by simp
  also have "\<dots> = content b" by (rule overwrite_window_same) simp
  finally show ?thesis using shrink_eq [OF ok fit] n home fit by (simp add: buffer_ok_def)
qed

lemma headroom_upd [simp]:
  "headroom (b\<lparr>buf := v\<rparr>) n = headroom b n" "headroom (b\<lparr>writerIndex := w\<rparr>) n = headroom b n"
  "headroom (b\<lparr>buf := v, writerIndex := w\<rparr>) n = headroom b n" "headroom (hasWritten len b) n = headroom b n"
  by (simp_all add: headroom_def prependableBytes_def hasWritten_def)

lemma ensure_front: "ensureWritableBytes len b = Inr b' \<Longrightarrow> headroom b n \<Longrightarrow> headroom b' n"
  by (auto simp: ensureWritableBytes_def makeSpace_def Let_def assertE_def headroom_def index_simps split: if_splits)

lemma append_front: "append data b = Inr b' \<Longrightarrow> headroom b n \<Longrightarrow> headroom b' n"
  by (auto simp: append_def Let_def dest: ensure_front)

lemma fill_front: "fill len bytes b = Inr b' \<Longrightarrow> headroom b n \<Longrightarrow> headroom b' n"
  by (auto simp: fill_def dest: ensure_front)

lemma readFd_front: "readFd rv b = Inr (r, err, b') \<Longrightarrow> headroom b n \<Longrightarrow> headroom b' n"
  by (auto simp: readFd_def Let_def dest: append_front split: readv_outcome.splits if_splits)

lemma retrieve_front:
  assumes "buffer_ok b" "retrieve len b = Inr b'" "headroom b n"
  shows "headroom b' n"
proof (cases "len < readableBytes b")
  case True
  have "unat (readerIndex b + len) = unat (readerIndex b) + unat len"
    using True buffer_okD [OF assms(1)]
    by (intro size_plus_small) (simp add: size_order index_simps assms(1) max_size_def)
  then show ?thesis using True assms(2,3) by (auto simp: retrieve_def headroom_def index_simps)
qed (use assms in \<open>auto simp: retrieve_def retrieveAll_def headroom_def index_simps\<close>)

text \<open>One operation, with what is left of its budget.\<close>

lemma buffer_step_sim:
  assumes ok: "buffer_ok b" and rm: "room b (op_cost e + n)" and hd: "headroom b (op_front e + k)"
    and pr: "op_proper e" and home: "\<And>r. e = OpShrink r \<Longrightarrow> readerIndex b = kCheapPrepend"
  shows "abs_result content (buffer_step e b) = queue_step e (content b) \<and>
    (\<forall>b' os. buffer_step e b = Inr (b', os) \<longrightarrow> buffer_ok b' \<and> room b' n \<and> headroom b' k)"
proof -
  have all: "buffer_ok (retrieveAll b)" "content (retrieveAll b) = []"
    "room b n \<Longrightarrow> room (retrieveAll b) n" "headroom b k \<Longrightarrow> headroom (retrieveAll b) k"
    using buffer_okD [OF ok] retrieveAll_ok [of b] ok
    by (auto simp: retrieveAll_def room_def headroom_def index_simps)
  show ?thesis
  proof (cases e)
    case (OpAppend data)
    have "room b (length data)" using rm OpAppend by (simp add: room_def)
    then obtain b' where "append data b = Inr b'" "buffer_ok b'" "content b' = content b @ data"
      using append_ok [OF ok, of data] by blast
    then show ?thesis using OpAppend append_room [OF ok, of data n] append_front rm hd by auto
  next
    case (OpPrepend data)
    have "length data \<le> unat (prependableBytes b)" using hd OpPrepend by (simp add: headroom_def)
    then obtain b' where b': "prepend data b = Inr b'" "buffer_ok b'" "content b' = data @ content b"
        "unat (writerIndex b') = unat (writerIndex b)"
      using prepend_ok [OF ok] by blast
    moreover have "unat (readerIndex b') = unat (readerIndex b) - length data"
      by (rule prepend_index [OF b'(1) \<open>length data \<le> unat (prependableBytes b)\<close>])
    moreover note \<open>length data \<le> unat (prependableBytes b)\<close>
    ultimately show ?thesis using OpPrepend rm hd by (auto simp: room_def headroom_def index_simps)
  next
    case (OpRetrieve len)
    show ?thesis
    proof (cases "unat len \<le> length (content b)")
      case True
      then obtain b' where b': "retrieve len b = Inr b'" "buffer_ok b'" "content b' = drop (unat len) (content b)"
          "unat (writerIndex b') \<le> unat (writerIndex b)"
        using retrieve_ok [OF ok] by blast
      then show ?thesis using OpRetrieve True rm hd retrieve_front [OF ok b'(1), of k] by (auto simp: room_def)
    qed (use OpRetrieve retrieve_fail [OF ok, of len] in auto)
  next
    case (OpRetrieveUntil m)
    have eq: "retrieveUntil (peek b + m) b =
        (if unat m \<le> length (content b) then retrieve m b else Inl (Assertion ''end <= beginWrite()''))"
      using retrieveUntil_eq [OF ok] pr OpRetrieveUntil by simp
    show ?thesis
    proof (cases "unat m \<le> length (content b)")
      case True
      then obtain b' where b': "retrieve m b = Inr b'" "buffer_ok b'" "content b' = drop (unat m) (content b)"
          "unat (writerIndex b') \<le> unat (writerIndex b)"
        using retrieve_ok [OF ok] by blast
      then show ?thesis using OpRetrieveUntil True eq rm hd retrieve_front [OF ok b'(1), of k] by (auto simp: room_def)
    qed (use OpRetrieveUntil eq in auto)
  next
    case (OpEnsure len)
    have "room b (unat len)" using rm OpEnsure by (simp add: room_def)
    then obtain b' where b': "ensureWritableBytes len b = Inr b'" "buffer_ok b'" "content b' = content b"
        "unat (writerIndex b') \<le> unat (writerIndex b)"
      using ensureWritableBytes_ok [OF ok, of len] by blast
    then show ?thesis using OpEnsure rm hd ensure_front [OF b'(1), of k] by (auto simp: room_def)
  next
    case (OpFill len bytes)
    obtain b' where b': "fill len bytes b = Inr b'" "buffer_ok b'" "content b' = content b @ bytes" "room b' n"
      using fill_ok [OF ok, of len n bytes] rm pr OpFill by auto
    then show ?thesis using OpFill hd fill_front [OF b'(1), of k] by auto
  next
    case (OpReadFd rv)
    have "room b (length (readv_data rv))" using rm OpReadFd by (simp add: room_def)
    then obtain err b' where b': "readFd rv b = Inr (readv_ret rv, err, b')" "buffer_ok b'"
        "content b' = content b @ readv_data rv"
      using readFd_ok [OF ok] by blast
    then show ?thesis using OpReadFd rm hd readFd_room [OF ok _ b'(1), of n] readFd_front [OF b'(1), of k] by auto
  next
    case (OpShrink reserve)
    have home': "readerIndex b = kCheapPrepend" using home OpShrink by blast
    have "8 + length (content b) = unat (writerIndex b)"
      using buffer_okD(1) [OF ok] home' by (simp add: length_content index_simps ok)
    then have "8 + length (content b) + unat reserve \<le> max_size" using rm OpShrink by (simp add: room_def)
    then obtain b' where "shrink reserve b = Inr b'" "buffer_ok b'" "content b' = content b"
        "readerIndex b' = readerIndex b" "writerIndex b' = writerIndex b"
      using shrink_home [OF ok home'] by blast
    then show ?thesis using OpShrink rm hd by (auto simp: room_def headroom_def index_simps)
  next
    case OpRetrieveAll
    then show ?thesis using rm hd all by simp
  next
    case OpRetrieveAsString
    then show ?thesis using rm hd all by (simp add: retrieveAsString_ok ok)
  qed
qed

interpretation bq: simulation buffers_step "\<lambda>bs. buffer_ok (fst bs) \<and> buffer_ok (snd bs)"
  queues_step contents buffers_fit
proof unfold_locales
  fix bs e es
  assume ok: "buffer_ok (fst bs) \<and> buffer_ok (snd bs)" and fits: "buffers_fit bs (e # es)"
  let ?inv = "\<lambda>bs. buffer_ok (fst bs) \<and> buffer_ok (snd bs)"
  have "abs_result contents (buffers_step e bs) = queues_step e (contents bs) \<and>
    (\<forall>bs' os. buffers_step e bs = Inr (bs', os) \<longrightarrow> ?inv bs' \<and> buffers_fit bs' es)"
  proof (cases e)
    case OpSwap
    then show ?thesis using ok fits
      by (auto simp: contents_def buffers_fit_def buffers_cost_def buffers_front_def swap_def)
  next
    case (OnFirst o1)
    have step: "abs_result content (buffer_step o1 (fst bs)) = queue_step o1 (content (fst bs)) \<and>
        (\<forall>b' os. buffer_step o1 (fst bs) = Inr (b', os) \<longrightarrow>
           buffer_ok b' \<and> room b' (buffers_cost es) \<and> headroom b' (buffers_front es))"
      using ok fits OnFirst
      by (intro buffer_step_sim) (auto simp: buffers_fit_def buffers_cost_def buffers_front_def)
    have other: "room (snd bs) (buffers_cost es)" "headroom (snd bs) (buffers_front es)"
      using fits OnFirst
      by (auto simp: buffers_fit_def buffers_cost_def buffers_front_def room_def headroom_def)
    show ?thesis
    proof (cases "buffer_step o1 (fst bs)")
      case (Inl f)
      then have "queue_step o1 (content (fst bs)) = Inl f" using step by simp
      then show ?thesis using Inl OnFirst by (simp add: contents_def)
    next
      case (Inr p)
      obtain b' os where p: "p = (b', os)" by (cases p)
      have q: "queue_step o1 (content (fst bs)) = Inr (content b', os)" using step Inr p by simp
      have "buffer_ok b' \<and> room b' (buffers_cost es) \<and> headroom b' (buffers_front es)"
        using step Inr p by blast
      then show ?thesis using q Inr p OnFirst ok other fits
        by (simp add: contents_def buffers_fit_def)
    qed
  qed
  then show "abs_result contents (buffers_step e bs) = queues_step e (contents bs)"
    "\<And>bs' os. buffers_step e bs = Inr (bs', os) \<Longrightarrow> ?inv bs' \<and> buffers_fit bs' es" by blast+
qed

section \<open>Properties\<close>

text \<open>C5: The buffer is a byte queue. Take two buffers for which the invariant holds, and any sequence of the
  operations of the class: appends, prepends, reads from a descriptor, bytes written through \<open>beginWrite\<close> and
  announced by \<open>hasWritten\<close>, retrievals (by number, by pointer, of everything, as a string), reservations,
  \<open>shrink\<close> and \<open>swap\<close>. The buffers have exactly the outcomes of the plain lists of their readable bytes: the same
  strings and counts returned, the same bytes left, and a failed assertion at the same operation. The conditions:
  what is added and reserved stays within the largest vector size, no more than the 8 bytes kept free are prepended,
  a client writes no more than it asked for, and \<open>shrink\<close> is called only where the reader index is at its initial
  position, for elsewhere it breaks the buffer (\<open>shrink_outcome\<close>).\<close>

theorem buffer_refines_queue:
  assumes "buffer_ok b" and "buffer_ok c"
    and "\<forall>x \<in> {b, c}. room x (buffers_cost ops) \<and> headroom x (buffers_front ops)"
    and "list_all (on_first True op_proper) ops" and "shrinks_home ops (b, c)"
  shows "abs_result contents (run_steps buffers_step ops (b, c)) = run_steps queues_step ops (content b, content c)"
  using bq.run_sim [of "(b, c)" ops] assms by (simp add: buffers_fit_def contents_def)

theorem buffer_refines_queue_witness:
  "abs_result contents (run_steps buffers_step
       [OnFirst (OpAppend [1, 2]), OnFirst (OpShrink 4), OnFirst (OpReadFd (ReadBytes [3])), OnFirst (OpPrepend [9]),
        OnFirst (OpFill 2 [4]), OnFirst (OpRetrieveUntil 1), OpSwap, OnFirst (OpAppend [7]), OpSwap,
        OnFirst OpRetrieveAsString] (Buffer_new, Buffer_new)) =
     Inr (([], [7]), [Ret 1, Str [1, 2, 3, 4]])"
proof -
  let ?ops = "[OnFirst (OpAppend [1, 2]), OnFirst (OpShrink 4), OnFirst (OpReadFd (ReadBytes [3])),
    OnFirst (OpPrepend [9]), OnFirst (OpFill 2 [4]), OnFirst (OpRetrieveUntil 1), OpSwap,
    OnFirst (OpAppend [7]), OpSwap, OnFirst OpRetrieveAsString]"
  have fit: "\<forall>x \<in> {Buffer_new, Buffer_new}. room x (buffers_cost ?ops) \<and> headroom x (buffers_front ?ops)"
    by (simp add: room_def headroom_def prependableBytes_def Buffer_new_def max_size_def readv_data_def
        buffers_cost_def buffers_front_def)
  have proper: "list_all (on_first True op_proper) ?ops" by (simp add: max_size_def)
  have app: "append [1, 2] Buffer_new =
      Inr (Buffer_new\<lparr>buf := overwrite 8 [1, 2] (buf Buffer_new), writerIndex := 10\<rparr>)"
    by (simp add: append_def ensureWritableBytes_def Buffer_new_def kCheapPrepend_def kInitialSize_def
        writableBytes_def write_at_def hasWritten_def beginWrite_def)
  have home: "shrinks_home ?ops (Buffer_new, Buffer_new)"
    by (simp add: app) (simp add: Buffer_new_def split: sum.splits prod.splits)
  show ?thesis
    using buffer_refines_queue [OF Buffer_new_ok(1) Buffer_new_ok(1) fit proper home]
    by (simp add: readv_data_def readv_ret_def)
qed

text \<open>\<open>ensureWritableBytes\<close> keeps its promise. It throws \<open>std::length_error\<close> exactly when there
  is no room at all, its assert never fires, otherwise it leaves the readable bytes as they were
  and at least \<open>len\<close> writable bytes, and it does not allocate when compaction is enough.\<close>

theorem ensureWritableBytes_total:
  assumes "buffer_ok b" "unat len \<le> max_size"
  shows "case ensureWritableBytes len b of
      Inl e \<Rightarrow> e = LengthError \<and> \<not> room b (unat len)
    | Inr b' \<Rightarrow> buffer_ok b' \<and> content b' = content b \<and> unat len \<le> unat (writableBytes b') \<and>
        (8 + length (content b) + unat len \<le> length (buf b) \<longrightarrow> length (buf b') = length (buf b))"
proof -
  note okD = buffer_okD [OF assms(1)]
  have small: "max_size < 2 ^ 63" by (simp add: max_size_def)
  have sum: "unat (writableBytes b + prependableBytes b) =
      length (buf b) - unat (writerIndex b) + unat (readerIndex b)"
    using okD small by (subst size_plus_small) (simp_all add: index_simps assms(1))
  have lim: "unat (len + kCheapPrepend) = unat len + 8"
    using assms(2) small by (subst size_plus_small) simp_all
  have len_c: "length (content b) = unat (writerIndex b) - unat (readerIndex b)"
    by (simp add: length_content index_simps assms(1))
  have keep: "length (buf b') = length (buf b)"
    if "ensureWritableBytes len b = Inr b'" "8 + length (content b) + unat len \<le> length (buf b)" for b'
  proof -
    have "\<not> writableBytes b + prependableBytes b < len + kCheapPrepend"
      using that(2) okD len_c by (simp add: size_order sum lim)
    then show ?thesis using that(1)
      by (auto simp: ensureWritableBytes_def makeSpace_def Let_def write_at_Inr split: if_splits)
  qed
  show ?thesis
    using ensureWritableBytes_cases [OF assms] keep
    by (auto simp: roomy_def index_simps)
qed

theorem ensureWritableBytes_total_witness:
  "\<exists>b'. ensureWritableBytes 2000 Buffer_new = Inr b' \<and> content b' = [] \<and>
     2000 \<le> unat (writableBytes b')"
proof -
  have "\<exists>b'. ensureWritableBytes 2000 Buffer_new = Inr b'"
    using ensureWritableBytes_ok [OF Buffer_new_ok(1), of 2000]
    by (auto simp: room_def Buffer_new_def max_size_def)
  moreover have "unat (2000 :: size_t) \<le> max_size" by (simp add: max_size_def)
  ultimately show ?thesis
    using ensureWritableBytes_total [OF Buffer_new_ok(1), of 2000] by auto
qed

text \<open>\<open>prepend\<close> puts the bytes in front of the readable ones, or stops at its assert exactly
  when they do not fit before the reader index.\<close>

theorem prepend_outcome:
  assumes "buffer_ok b" "length data \<le> max_size"
  shows "if length data \<le> unat (prependableBytes b)
    then \<exists>b'. prepend data b = Inr b' \<and> buffer_ok b' \<and> content b' = data @ content b \<and>
           writerIndex b' = writerIndex b
    else prepend data b = Inl (Assertion ''len <= prependableBytes()'')"
  using prepend_ok [OF assms(1), of data] prepend_fail [of b data] assms(2)
  by (auto simp: word_unat_eq_iff)

theorem prepend_outcome_witness:
  "\<exists>b'. prepend [1, 2, 3, 4] Buffer_new = Inr b' \<and> content b' = [1, 2, 3, 4]"
proof -
  have "length [1, 2, 3, 4 :: byte] \<le> max_size" by (simp add: max_size_def)
  moreover have "length [1, 2, 3, 4 :: byte] \<le> unat (prependableBytes Buffer_new)"
    by (simp add: prependableBytes_def Buffer_new_def)
  ultimately show ?thesis using prepend_outcome [OF Buffer_new_ok(1), of "[1, 2, 3, 4]"] by auto
qed

text \<open>\<open>shrink\<close> keeps the buffer intact only if the reader index is at its initial position:
  the readable bytes move to offset 8 of a new vector of 8, the readable bytes and the reserve,
  but the indices stay. With the reader index further on by more than the reserve, the buffer is
  left with a writer index behind the end of its vector.\<close>

theorem shrink_outcome:
  assumes ok: "buffer_ok b"
    and fit: "8 + length (content b) + unat reserve \<le> max_size"
  shows "\<exists>b'. shrink reserve b = Inr b' \<and>
      length (buf b') = 8 + length (content b) + unat reserve \<and>
      (readerIndex b = 8 \<longrightarrow> buffer_ok b' \<and> content b' = content b) \<and>
      (8 + unat reserve < unat (readerIndex b) \<longrightarrow> length (buf b') < unat (writerIndex b') \<and> \<not> buffer_ok b')"
proof -
  let ?n = "length (content b)"
  let ?v = "overwrite 8 (content b) (resize (8 + ?n + unat reserve) 0 [])"
  have n: "?n = unat (writerIndex b) - unat (readerIndex b)" by (simp add: length_content index_simps ok)
  have len: "length ?v = 8 + ?n + unat reserve" by simp
  have bad: "length ?v < unat (writerIndex b)" if "8 + unat reserve < unat (readerIndex b)"
    unfolding len using that n buffer_okD(1) [OF ok] by linarith
  show ?thesis using shrink_eq [OF ok fit] len bad shrink_home [OF ok _ fit]
    by (auto simp: buffer_ok_def kCheapPrepend_def)
qed

theorem shrink_outcome_witness:
  "\<exists>b b'. bindE (append [1, 2, 3, 4, 5] Buffer_new) (retrieve 4) = Inr b \<and>
     shrink 0 b = Inr b' \<and> content b = [5] \<and> length (buf b') = 9 \<and>
     writerIndex b' = 13 \<and> \<not> buffer_ok b'"
proof -
  have "\<exists>b. bindE (append [1, 2, 3, 4, 5] Buffer_new) (retrieve 4) = Inr b \<and>
      unat (readerIndex b) = 12 \<and> unat (writerIndex b) = 13 \<and> length (buf b) = 1032 \<and> content b = [5]"
    by (simp add: append_def ensureWritableBytes_def Buffer_new_def kCheapPrepend_def kInitialSize_def
        writableBytes_def write_at_def hasWritten_def beginWrite_def retrieve_def readableBytes_def
        assertE_def content_def overwrite_def)
  then obtain b where b: "bindE (append [1, 2, 3, 4, 5] Buffer_new) (retrieve 4) = Inr b"
      "unat (readerIndex b) = 12" "unat (writerIndex b) = 13" "length (buf b) = 1032" "content b = [5]"
    by blast
  have ok: "buffer_ok b" using b by (simp add: buffer_ok_def max_size_def)
  have fit: "8 + length (content b) + unat (0 :: size_t) \<le> max_size" using b by (simp add: max_size_def)
  obtain b' where b': "shrink 0 b = Inr b'" "length (buf b') = 9" "\<not> buffer_ok b'"
    using shrink_outcome [OF ok fit] b by auto
  have "writerIndex b' = writerIndex b" using b'(1) by (auto simp: shrink_def)
  moreover have "writerIndex b = 13" using b(3) by (simp add: word_unat_eq_iff)
  ultimately show ?thesis using b b' by auto
qed

end
