(* ===== verification/Codec.thy ===== *)
theory Codec
  imports Buffer
begin

text \<open>
  The length-prefixed message codec of the chat example (example/Chat/code.h): \<open>send\<close> frames a
  message with its length as a big-endian 32-bit integer, \<open>onMessage\<close> cuts complete messages
  from the front of an input buffer. The specification is \<open>decode\<close>, the same loop on a list.
\<close>

section \<open>Sending\<close>

definition kHeaderLen :: size_t where
  "kHeaderLen = 4"

definition kMaxLength :: u32 where
  "kMaxLength = 65536"

text \<open>The string handed to \<open>TcpConnection::send\<close>.\<close>

definition frame :: "byte list \<Rightarrow> byte list result" where
  "frame message =
     bindE (append message Buffer_new) (\<lambda>b1.
     (let len = (of_nat (length message) :: u32) in
      bindE (prepend (be32_bytes len) b1) (\<lambda>b2.
      peek_string (readableBytes b2) b2)))"

section \<open>Receiving\<close>

datatype codec_out = LogInvalid u32 | ConnShutdown | Deliver "byte list"

lemma readable_retrieve:
  assumes "retrieve n b = Inr b'"
  shows "unat (readableBytes b') = unat (readableBytes b) - unat n"
proof (cases "n < readableBytes b")
  case True
  then have "readableBytes b' = readableBytes b - n"
    using assms by (auto simp: retrieve_def readableBytes_def)
  then show ?thesis using True by (simp add: size_order)
next
  case False
  then show ?thesis
    using assms by (auto simp: retrieve_def readableBytes_def retrieveAll_def size_order)
qed

function onMessage :: "buffer \<Rightarrow> (buffer \<times> codec_out list) result" where
  "onMessage b =
     (if kHeaderLen \<le> readableBytes b then
        bindE (peek_string kHeaderLen b) (\<lambda>data.
        (let len = be32_value data in
         if kMaxLength <s len \<or> len <s 0 then Inr (b, [LogInvalid len, ConnShutdown])
         else if (signed len :: size_t) + kHeaderLen \<le> readableBytes b then
           bindE (retrieve kHeaderLen b) (\<lambda>b1.
           bindE (peek_string (signed len) b1) (\<lambda>message.
           bindE (retrieve (signed len) b1) (\<lambda>b2.
           bindE (onMessage b2) (\<lambda>(b3, outs). Inr (b3, Deliver message # outs)))))
         else Inr (b, [])))
      else Inr (b, []))"
  by pat_completeness auto
termination
proof (relation "measure (\<lambda>b. unat (readableBytes b))")
  fix b :: buffer and data x b1 message b2
  assume "kHeaderLen \<le> readableBytes b"
    and r1: "retrieve kHeaderLen b = Inr b1" and r2: "retrieve (signed x) b1 = Inr b2"
  then have "4 \<le> unat (readableBytes b)" by (simp add: size_order kHeaderLen_def)
  then show "(b2, b) \<in> measure (\<lambda>b. unat (readableBytes b))"
    using readable_retrieve [OF r1] readable_retrieve [OF r2] by (simp add: kHeaderLen_def)
qed simp

declare onMessage.simps [simp del]

section \<open>The length test\<close>

lemma sint_small: assumes "unat x < 2 ^ 31" shows "sint (x :: u32) = int (unat x)"
proof -
  have "int (unat x) < int (2 ^ 31)" using assms by (simp only: of_nat_less_iff)
  then have "uint x < 2 ^ 31" by simp
  then have "signed_take_bit 31 (uint x) = uint x"
    by (intro signed_take_bit_int_eq_self) (auto intro: order_trans [OF _ uint_ge_0])
  then show ?thesis by (simp add: sint_uint)
qed
lemma sint_nonneg: assumes "0 \<le> sint (x :: u32)" shows "sint x = int (unat x)"
proof -
  have "sint x < 2 ^ 31" using sint_lt [of x] by simp
  then have "take_bit 32 (sint x) = sint x"
    using assms by (intro take_bit_int_eq_self) auto
  then have "uint x = sint x" by (simp add: uint_sint)
  then show ?thesis by (simp only: uint_nat)
qed

lemma length_test: "\<not> kMaxLength <s x \<and> \<not> x <s 0 \<longleftrightarrow> unat x \<le> 65536"
proof -
  have k: "sint kMaxLength = 65536" by (simp add: kMaxLength_def)
  show ?thesis
  proof
    assume "\<not> kMaxLength <s x \<and> \<not> x <s 0"
    then have "0 \<le> sint x" "sint x \<le> 65536" by (simp_all add: word_sless_alt k)
    then show "unat x \<le> 65536" using sint_nonneg [of x] by linarith
  next
    assume le: "unat x \<le> 65536"
    then have "sint x = int (unat x)" by (intro sint_small) simp
    then show "\<not> kMaxLength <s x \<and> \<not> x <s 0"
      using le unfolding word_sless_alt k sint_0 by linarith
  qed
qed

lemma unat_signed_size: "unat x \<le> 65536 \<Longrightarrow> unat (signed (x :: u32) :: size_t) = unat x"
proof -
  assume le: "unat x \<le> 65536"
  have "(signed x :: size_t) = word_of_int (sint x)" by (rule scast_eq)
  also have "\<dots> = of_nat (unat x)" using le by (subst sint_small) simp_all
  finally have eq: "(signed x :: size_t) = of_nat (unat x)" .
  have "unat x \<le> max_size" using le by (simp add: max_size_def)
  then show ?thesis unfolding eq by (rule unat_of_nat_size)
qed

section \<open>The specification: decoding a list of bytes\<close>

function decode :: "byte list \<Rightarrow> byte list \<times> codec_out list" where
  "decode xs =
     (if 4 \<le> length xs then
        (let len = unat (be32_value xs) in
         if 65536 < len then (xs, [LogInvalid (be32_value xs), ConnShutdown])
         else if 4 + len \<le> length xs then
           (let (rest, outs) = decode (drop (4 + len) xs)
            in (rest, Deliver (take len (drop 4 xs)) # outs))
         else (xs, []))
      else (xs, []))"
  by pat_completeness auto
termination
  by (relation "measure length") auto

declare decode.simps [simp del]

lemma be32_value_take: "4 \<le> length xs \<Longrightarrow> be32_value (take 4 xs) = be32_value xs"
  by (cases xs rule: be32_value.cases) simp_all

text \<open>The loop on the buffer computes \<open>decode\<close> of the readable bytes and never fails.\<close>

lemma onMessage_decode:
  "buffer_ok b \<Longrightarrow> \<exists>b'. onMessage b = Inr (b', snd (decode (content b))) \<and> buffer_ok b' \<and>
     content b' = fst (decode (content b)) \<and> unat (writerIndex b') \<le> unat (writerIndex b)"
proof (induction b rule: onMessage.induct)
  case (1 b)
  note ok = "1.prems"
  let ?c = "content b" and ?x = "be32_value (content b)"
  have rd: "unat (readableBytes b) = length ?c" by (simp add: length_content ok)
  have hdr: "unat kHeaderLen = 4" by (simp add: kHeaderLen_def)
  show ?case
  proof (cases "4 \<le> length ?c")
    case False
    then show ?thesis using ok
      by (simp add: onMessage.simps [of b] decode.simps [of ?c] size_order rd hdr)
  next
    case len4: True
    then have le: "kHeaderLen \<le> readableBytes b" by (simp add: size_order rd hdr)
    have pk: "peek_string kHeaderLen b = Inr (take 4 ?c)"
      using peek_string_ok [OF ok, of kHeaderLen] len4 hdr by simp
    note val = be32_value_take [OF len4]
    show ?thesis
    proof (cases "unat ?x \<le> 65536")
      case False
      then have bad: "kMaxLength <s ?x \<or> ?x <s 0" using length_test by blast
      show ?thesis using False bad le pk ok len4 val
        by (simp add: onMessage.simps [of b] decode.simps [of ?c] Let_def)
    next
      case small: True
      let ?n = "signed ?x :: size_t"
      have good: "\<not> (kMaxLength <s ?x \<or> ?x <s 0)" using small length_test by blast
      have n: "unat ?n = unat ?x" by (rule unat_signed_size [OF small])
      have sum: "unat (?n + kHeaderLen) = unat ?x + 4"
        using small n by (subst size_plus_small) (simp_all add: hdr)
      show ?thesis
      proof (cases "4 + unat ?x \<le> length ?c")
        case False
        then show ?thesis using good small le pk ok len4 val sum
          by (simp add: onMessage.simps [of b] decode.simps [of ?c] Let_def size_order rd)
      next
        case full: True
        then have cond: "?n + kHeaderLen \<le> readableBytes b" by (simp add: size_order rd sum)
        obtain b1 where b1: "retrieve kHeaderLen b = Inr b1" "buffer_ok b1"
            "content b1 = drop 4 ?c" "unat (writerIndex b1) \<le> unat (writerIndex b)"
          using retrieve_ok [OF ok, of kHeaderLen] len4 hdr by auto
        have pk1: "peek_string ?n b1 = Inr (take (unat ?x) (drop 4 ?c))"
          using peek_string_ok [OF b1(2), of ?n] full b1(3) n by simp
        obtain b2 where b2: "retrieve ?n b1 = Inr b2" "buffer_ok b2"
            "content b2 = drop (4 + unat ?x) ?c" "unat (writerIndex b2) \<le> unat (writerIndex b1)"
          using retrieve_ok [OF b1(2), of ?n, unfolded b1(3) n drop_drop] full
          by (auto simp: add.commute le_diff_conv2)
        have IH: "\<exists>b3. onMessage b2 = Inr (b3, snd (decode (content b2))) \<and> buffer_ok b3 \<and>
            content b3 = fst (decode (content b2)) \<and> unat (writerIndex b3) \<le> unat (writerIndex b2)"
          using "1.IH" [OF le pk refl] good cond b1(1) pk1 b2(1,2) val by simp
        then obtain b3 where b3: "onMessage b2 = Inr (b3, snd (decode (content b2)))" "buffer_ok b3"
            "content b3 = fst (decode (content b2))" "unat (writerIndex b3) \<le> unat (writerIndex b2)"
          by blast
        have dec: "decode ?c = (fst (decode (content b2)),
            Deliver (take (unat ?x) (drop 4 ?c)) # snd (decode (content b2)))"
          using len4 small full b2(3)
          by (simp add: decode.simps [of ?c] Let_def split: prod.splits)
        show ?thesis using le pk val good cond b1(1,4) pk1 b2(1,4) b3 dec
          by (simp add: onMessage.simps [of b] Let_def)
      qed
    qed
  qed
qed

section \<open>Frames and streams\<close>

definition enc :: "byte list \<Rightarrow> byte list" where
  "enc message = be32_bytes (of_nat (length message)) @ message"

definition stream :: "byte list list \<Rightarrow> byte list" where
  "stream ms = concat (map enc ms)"

lemma stream_simps [simp]: "stream [] = []" "stream (m # ms) = enc m @ stream ms"
  by (simp_all add: stream_def)

lemma length_enc [simp]: "length (enc m) = 4 + length m"
  by (simp add: enc_def)

lemma frame_ok:
  assumes "length m + 8 \<le> max_size"
  shows "frame m = Inr (enc m)"
proof -
  have new: "unat (writerIndex Buffer_new) = 8" by (simp add: Buffer_new_def)
  obtain b1 where b1: "append m Buffer_new = Inr b1" "buffer_ok b1" "content b1 = m"
    using append_ok [OF Buffer_new_ok(1), of m] assms by (auto simp: room_def new)
  have r1: "unat (prependableBytes b1) = 8"
    using b1(1) by (auto simp: append_def Let_def ensureWritableBytes_def makeSpace_def
        hasWritten_def prependableBytes_def Buffer_new_def assertE_def split: if_splits)
  let ?h = "be32_bytes (of_nat (length m))"
  obtain b2 where b2: "prepend ?h b1 = Inr b2" "buffer_ok b2" "content b2 = ?h @ m"
    using prepend_ok [OF b1(2), of ?h] r1 b1(3) by auto
  have "peek_string (readableBytes b2) b2 = Inr (content b2)"
    using peek_string_ok [OF b2(2), of "readableBytes b2"] by (simp add: length_content b2(2))
  then show ?thesis using b1(1) b2 by (simp add: frame_def Let_def enc_def)
qed

lemma be32_value_enc:
  "length m \<le> 65536 \<Longrightarrow> unat (be32_value (enc m @ xs)) = length m"
  by (simp add: enc_def unat_of_nat)

lemma decode_frame:
  assumes "length m \<le> 65536"
  shows "decode (enc m @ xs) = (fst (decode xs), Deliver m # snd (decode xs))"
proof -
  have "take (length m) (drop 4 (enc m @ xs)) = m" by (simp add: enc_def)
  moreover have "drop (4 + length m) (enc m @ xs) = xs" by (simp add: enc_def)
  ultimately show ?thesis using assms be32_value_enc [OF assms, of xs]
    by (simp add: decode.simps [of "enc m @ xs"] Let_def split: prod.splits)
qed

lemma decode_partial:
  assumes "length m \<le> 65536" "xs @ ys = enc m @ zs" "length xs < length (enc m)"
  shows "decode xs = (xs, [])"
proof (cases "4 \<le> length xs")
  case True
  have "take 4 xs = take 4 (xs @ ys)" using True by simp
  also have "\<dots> = be32_bytes (of_nat (length m))" using assms(2) by (simp add: enc_def)
  finally have "be32_value xs = of_nat (length m)"
    using be32_value_take [OF True] be32_roundtrip [of "of_nat (length m)" "[]"] by simp
  then have "unat (be32_value xs) = length m" using assms(1) by (simp add: unat_of_nat)
  then show ?thesis using True assms(1,3) by (simp add: decode.simps [of xs] Let_def)
qed (simp add: decode.simps [of xs])

text \<open>
  A prefix of a stream of valid frames decodes to the messages it contains in full and leaves
  the begun frame.
\<close>

lemma decode_prefix:
  "\<forall>m\<in>set ms. length m \<le> 65536 \<Longrightarrow> xs @ ys = stream ms \<Longrightarrow>
     \<exists>ms1 ms2 rest. ms = ms1 @ ms2 \<and> decode xs = (rest, map Deliver ms1) \<and>
       rest @ ys = stream ms2 \<and> decode rest = (rest, [])"
proof (induction ms arbitrary: xs)
  case Nil
  then show ?case by (simp add: decode.simps)
next
  case (Cons m ms)
  have small: "length m \<le> 65536" using Cons.prems(1) by simp
  show ?case
  proof (cases "length xs < length (enc m)")
    case True
    then have "decode xs = (xs, [])"
      using decode_partial [OF small, of xs ys "stream ms"] Cons.prems(2) by simp
    then show ?thesis using Cons.prems(2)
      by (intro exI [of _ "[]"] exI [of _ "m # ms"] exI [of _ xs]) simp
  next
    case False
    define xs' where "xs' = drop (length (enc m)) xs"
    have "take (length (enc m)) (xs @ ys) = enc m" using Cons.prems(2) by simp
    then have "take (length (enc m)) xs = enc m" using False by simp
    then have xs': "xs = enc m @ xs'" unfolding xs'_def by (metis append_take_drop_id)
    then have xs'_ys: "xs' @ ys = stream ms" using Cons.prems(2) by simp
    obtain ms1 ms2 rest where IH: "ms = ms1 @ ms2" "decode xs' = (rest, map Deliver ms1)"
        "rest @ ys = stream ms2" "decode rest = (rest, [])"
      using Cons.IH [OF _ xs'_ys] Cons.prems(1) by auto
    have "decode xs = (rest, map Deliver (m # ms1))"
      using decode_frame [OF small, of xs'] IH(2) xs' by simp
    then show ?thesis using IH
      by (intro exI [of _ "m # ms1"] exI [of _ ms2] exI [of _ rest]) simp
  qed
qed

text \<open>One read from the descriptor followed by the codec, as the message callback does it.\<close>

definition codec_read :: "readv_outcome \<Rightarrow> buffer \<Rightarrow> (buffer \<times> codec_out list) result" where
  "codec_read rv b =
     bindE (readFd rv b) (\<lambda>(n, err, b1). if 0 < n then onMessage b1 else Inr (b1, []))"

lemma codec_read_ok:
  assumes "buffer_ok b" "room b (length chunk + n)" "decode (content b) = (content b, [])"
  shows "\<exists>b'. codec_read (ReadBytes chunk) b = Inr (b', snd (decode (content b @ chunk))) \<and>
           buffer_ok b' \<and> room b' n \<and> content b' = fst (decode (content b @ chunk))"
proof -
  let ?rv = "ReadBytes chunk"
  have d: "readv_data ?rv = chunk" "readv_ret ?rv = int (length chunk)"
    by (simp_all add: readv_data_def readv_ret_def)
  obtain b1 err where b1: "readFd ?rv b = Inr (int (length chunk), err, b1)" "buffer_ok b1"
      "content b1 = content b @ chunk"
    using readFd_ok [OF assms(1), of ?rv] assms(2) d by (auto simp: room_def)
  have rm: "room b1 n" using readFd_room [OF assms(1) _ b1(1), of n] assms(2) d by simp
  show ?thesis
  proof (cases "chunk = []")
    case True
    then show ?thesis using b1 rm assms(3) by (simp add: codec_read_def)
  next
    case False
    then show ?thesis using b1 rm onMessage_decode [OF b1(2)]
      by (auto simp: codec_read_def room_def)
  qed
qed

lemma codec_reads_deliver:
  "\<lbrakk>\<forall>m\<in>set ms. length m \<le> 65536; buffer_ok b; decode (content b) = (content b, []);
    content b @ concat chunks = stream ms; room b (length (concat chunks))\<rbrakk> \<Longrightarrow>
   \<exists>b'. run_steps codec_read (map ReadBytes chunks) b = Inr (b', map Deliver ms) \<and>
        buffer_ok b' \<and> content b' = []"
proof (induction chunks arbitrary: b ms)
  case Nil
  obtain ms1 ms2 rest where "ms = ms1 @ ms2" "decode (content b) = (rest, map Deliver ms1)"
      "rest @ [] = stream ms2" "decode rest = (rest, [])"
    using decode_prefix [OF Nil.prems(1), of "content b" "[]"] Nil.prems(4) by auto
  moreover have "stream ms = [] \<Longrightarrow> ms = []" by (cases ms) (auto simp: enc_def be32_bytes_def)
  moreover have "\<forall>ms. (\<forall>m\<in>set ms. length m \<le> 65536) \<longrightarrow>
      decode (stream ms) = ([], map Deliver ms)"
  proof
    fix ms :: "byte list list"
    show "(\<forall>m\<in>set ms. length m \<le> 65536) \<longrightarrow> decode (stream ms) = ([], map Deliver ms)"
      by (induction ms) (simp_all add: decode.simps [of "[]"] decode_frame)
  qed
  ultimately show ?case using Nil.prems by (auto simp: Nil.prems(3))
next
  case (Cons chunk chunks)
  let ?xs = "content b @ chunk"
  have split: "?xs @ concat chunks = stream ms" using Cons.prems(4) by simp
  obtain ms1 ms2 rest where d: "ms = ms1 @ ms2" "decode ?xs = (rest, map Deliver ms1)"
      "rest @ concat chunks = stream ms2" "decode rest = (rest, [])"
    using decode_prefix [OF Cons.prems(1) split] by blast
  obtain b1 where b1: "codec_read (ReadBytes chunk) b = Inr (b1, map Deliver ms1)"
      "buffer_ok b1" "room b1 (length (concat chunks))" "content b1 = rest"
    using codec_read_ok [OF Cons.prems(2) _ Cons.prems(3), of chunk "length (concat chunks)"]
      Cons.prems(5) d(2) by auto
  obtain b2 where "run_steps codec_read (map ReadBytes chunks) b1 = Inr (b2, map Deliver ms2)"
      "buffer_ok b2" "content b2 = []"
    using Cons.IH [of ms2 b1] Cons.prems(1) b1 d by auto
  then show ?case using b1(1) d(1) by simp
qed

section \<open>Properties\<close>

text \<open>C6: The codec delivers what was sent. If every message is at most 65536 bytes long and the
  concatenation of the strings \<open>Codec::send\<close> makes of the messages arrives in chunks cut
  anywhere, then the message callback is called with exactly the messages, in order, and the
  input buffer ends empty.\<close>

theorem codec_roundtrip:
  assumes "\<forall>m\<in>set ms. length m \<le> 65536"
    and "map frame ms = map Inr fs" and "concat chunks = concat fs"
    and "length (concat chunks) \<le> 2 ^ 62"
  shows "\<exists>b'. run_steps codec_read (map ReadBytes chunks) Buffer_new = Inr (b', map Deliver ms) \<and>
           buffer_ok b' \<and> content b' = []"
proof -
  have "fs = map enc ms" using assms(1,2)
  proof (induction ms arbitrary: fs)
    case (Cons m ms)
    then have "frame m = Inr (enc m)" by (intro frame_ok) (simp add: max_size_def)
    then show ?case using Cons by (cases fs) auto
  qed simp
  then have s: "content Buffer_new @ concat chunks = stream ms" using assms(3) by (simp add: stream_def)
  have rm: "room Buffer_new (length (concat chunks))"
    using assms(4) by (simp add: room_def Buffer_new_def kCheapPrepend_def max_size_def)
  show ?thesis
    by (rule codec_reads_deliver [OF assms(1) Buffer_new_ok(1) _ s rm]) (simp add: decode.simps)
qed

theorem codec_roundtrip_witness:
  "\<exists>f1 f2. frame [7, 8] = Inr f1 \<and> frame [] = Inr f2 \<and>
     (\<exists>b'. run_steps codec_read (map ReadBytes [[0], [0, 0, 2, 7], [8, 0, 0], [0, 0]]) Buffer_new =
        Inr (b', [Deliver [7, 8], Deliver []]) \<and> content b' = [])"
proof -
  have f: "frame [7, 8] = Inr [0, 0, 0, 2, 7, 8]" "frame [] = Inr [0, 0, 0, 0]"
    by (simp_all add: frame_ok max_size_def enc_def be32_bytes_def)
  show ?thesis
    using codec_roundtrip [of "[[7, 8], []]" "[[0, 0, 0, 2, 7, 8], [0, 0, 0, 0]]"
        "[[0], [0, 0, 2, 7], [8, 0, 0], [0, 0]]"] f by auto
qed

text \<open>C29: \<open>onMessage\<close> is total. On any well-formed buffer, whatever bytes it holds, the loop
  terminates without a fault, and its calls and what it leaves are those of \<open>decode\<close> on the
  readable bytes.\<close>

theorem onMessage_total:
  assumes "buffer_ok b"
  shows "\<exists>b'. onMessage b = Inr (b', snd (decode (content b))) \<and> buffer_ok b' \<and>
           content b' = fst (decode (content b))"
  using onMessage_decode [OF assms] by blast

theorem onMessage_total_witness:
  "\<exists>b b'. append [0, 0, 0, 1, 9, 0] Buffer_new = Inr b \<and>
     onMessage b = Inr (b', [Deliver [9]]) \<and> content b' = [0]"
proof -
  have "room Buffer_new (length [0, 0, 0, 1, 9, 0 :: byte])"
    by (simp add: room_def Buffer_new_def max_size_def)
  then obtain b where b: "append [0, 0, 0, 1, 9, 0] Buffer_new = Inr b" "buffer_ok b"
      "content b = [0, 0, 0, 1, 9, 0]"
    using append_ok [OF Buffer_new_ok(1)] by fastforce
  have "decode [0, 0, 0, 1, 9, 0] = ([0], [Deliver [9]])"
    by (simp add: decode.simps [of "[0, 0, 0, 1, 9, 0]"] decode.simps [of "[0]"])
  then show ?thesis using onMessage_total [OF b(2)] b by auto
qed

text \<open>An oversized message is refused. A frame \<open>Codec::send\<close> makes of more than 65536 bytes
  (fewer than 2 to the 32) makes the receiver log the length and shut the connection down, before
  anything behind it is delivered and with the buffer unchanged.\<close>

theorem oversized_frame_refused:
  assumes "buffer_ok b" "content b = f @ rest" "frame m = Inr f"
    and "65536 < length m" "length m < 2 ^ 32"
  shows "\<exists>b'. onMessage b = Inr (b', [LogInvalid (of_nat (length m)), ConnShutdown]) \<and>
           content b' = content b"
proof -
  have "f = enc m" using assms(3,5) frame_ok [of m] by (simp add: max_size_def)
  then have c: "content b = be32_bytes (of_nat (length m)) @ (m @ rest)"
    using assms(2) by (simp add: enc_def)
  have "be32_value (content b) = of_nat (length m)" unfolding c by (rule be32_roundtrip)
  moreover have "unat (of_nat (length m) :: u32) = length m" using assms(5) by (simp add: unat_of_nat)
  moreover have len: "4 \<le> length (content b)" by (simp add: c)
  ultimately have "decode (content b) = (content b, [LogInvalid (of_nat (length m)), ConnShutdown])"
    using assms(4) len by (simp add: decode.simps [of "content b"])
  then show ?thesis using onMessage_decode [OF assms(1)] by auto
qed

theorem oversized_frame_refused_witness:
  "\<exists>f b b'. frame (replicate 65537 0) = Inr f \<and> append (f @ [1]) Buffer_new = Inr b \<and>
     onMessage b = Inr (b', [LogInvalid 65537, ConnShutdown]) \<and> content b' = content b"
proof -
  let ?m = "replicate 65537 0 :: byte list"
  have f: "frame ?m = Inr (enc ?m)" by (rule frame_ok) (simp add: max_size_def)
  have "room Buffer_new (length (enc ?m @ [1]))"
    by (simp add: room_def Buffer_new_def max_size_def)
  then obtain b where b: "append (enc ?m @ [1]) Buffer_new = Inr b" "buffer_ok b" "content b = enc ?m @ [1]"
    using append_ok [OF Buffer_new_ok(1)] by fastforce
  show ?thesis using oversized_frame_refused [OF b(2,3) f] f b by auto
qed

end
