(* ===== verification/Channel.thy ===== *)
theory Channel
  imports Prelude
begin

text \<open>
  A channel (include/net/Channel.h, src/net/Channel.cpp) ties a descriptor to the events its
  owner is interested in (\<open>events\<close>), the events the poller reported (\<open>revents\<close>) and four
  callbacks. A \<open>std::function\<close> may be empty; the record keeps whether each one is set, and the
  handler that runs a callback is an argument of \<open>handleEvent\<close>. The operations that go through
  to the poller (\<open>enableReading\<close> and its siblings) are in the theory EPoller.
\<close>

section \<open>Event bits (poll.h, sys/epoll.h)\<close>

definition POLLIN :: u32 where "POLLIN = 0x001"
definition POLLPRI :: u32 where "POLLPRI = 0x002"
definition POLLOUT :: u32 where "POLLOUT = 0x004"
definition POLLERR :: u32 where "POLLERR = 0x008"
definition POLLHUP :: u32 where "POLLHUP = 0x010"
definition POLLNVAL :: u32 where "POLLNVAL = 0x020"
definition POLLRDHUP :: u32 where "POLLRDHUP = 0x2000"

definition kNoneEvent :: u32 where "kNoneEvent = 0"
definition kReadEvent :: u32 where "kReadEvent = POLLIN OR POLLPRI"
definition kWriteEvent :: u32 where "kWriteEvent = POLLOUT"

lemmas poll_bits = POLLIN_def POLLPRI_def POLLOUT_def POLLERR_def POLLHUP_def POLLNVAL_def
  POLLRDHUP_def kNoneEvent_def kReadEvent_def kWriteEvent_def

section \<open>State\<close>

record channel =
  ch_fd :: int
  events :: u32
  revents :: u32
  ch_index :: int
  eventHandling :: bool
  readCb :: bool
  writeCb :: bool
  errorCb :: bool
  closeCb :: bool

definition Channel_new :: "int \<Rightarrow> channel" where
  "Channel_new fdArg =
     \<lparr>ch_fd = fdArg, events = 0, revents = 0, ch_index = -1, eventHandling = False,
      readCb = False, writeCb = False, errorCb = False, closeCb = False\<rparr>"

definition set_revents :: "u32 \<Rightarrow> channel \<Rightarrow> channel" where
  "set_revents revt ch = ch\<lparr>revents := revt\<rparr>"

definition set_index :: "int \<Rightarrow> channel \<Rightarrow> channel" where
  "set_index idx ch = ch\<lparr>ch_index := idx\<rparr>"

definition setReadCallback :: "channel \<Rightarrow> channel" where
  "setReadCallback ch = ch\<lparr>readCb := True\<rparr>"

definition setWriteCallback :: "channel \<Rightarrow> channel" where
  "setWriteCallback ch = ch\<lparr>writeCb := True\<rparr>"

definition setErrorCallback :: "channel \<Rightarrow> channel" where
  "setErrorCallback ch = ch\<lparr>errorCb := True\<rparr>"

definition Channel_setCloseCallback :: "channel \<Rightarrow> channel" where
  "Channel_setCloseCallback ch = ch\<lparr>closeCb := True\<rparr>"

lemmas channel_setters [simp] = set_index_def setReadCallback_def setWriteCallback_def setErrorCallback_def
  Channel_setCloseCallback_def

text \<open>The destructor, before what follows it: a channel must not be destroyed by one of its own callbacks.\<close>

definition Channel_delete :: "channel \<Rightarrow> 'a result \<Rightarrow> 'a result" where
  "Channel_delete ch m = assertE ''!eventHandling_'' (\<not> eventHandling ch) m"

definition isNoneEvent :: "channel \<Rightarrow> bool" where
  "isNoneEvent ch \<longleftrightarrow> events ch = kNoneEvent"

definition isWriting :: "channel \<Rightarrow> bool" where
  "isWriting ch \<longleftrightarrow> events ch AND kWriteEvent \<noteq> 0"

section \<open>Dispatch\<close>

datatype ev_cb = CloseCb | ErrorCb | ReadCb | WriteCb

text \<open>The callbacks \<open>handleEvent\<close> invokes, in order: close, error, read, write.\<close>

definition fired :: "channel \<Rightarrow> ev_cb list" where
  "fired ch =
     (if revents ch AND POLLHUP \<noteq> 0 \<and> \<not> revents ch AND POLLIN \<noteq> 0 \<and> closeCb ch
      then [CloseCb] else []) @
     (if revents ch AND (POLLERR OR POLLNVAL) \<noteq> 0 \<and> errorCb ch then [ErrorCb] else []) @
     (if revents ch AND (POLLIN OR POLLPRI OR POLLRDHUP) \<noteq> 0 \<and> readCb ch
      then [ReadCb] else []) @
     (if revents ch AND POLLOUT \<noteq> 0 \<and> writeCb ch then [WriteCb] else [])"

text \<open>
  \<open>handleEvent\<close> on the channel inside a larger state (\<open>get\<close>, \<open>put\<close>): \<open>eventHandling_\<close> is set
  while the callbacks run, one after the other, and cleared at the end.
\<close>

definition handleEvent ::
  "('s \<Rightarrow> channel) \<Rightarrow> (channel \<Rightarrow> 's \<Rightarrow> 's) \<Rightarrow> (ev_cb \<Rightarrow> 's \<Rightarrow> ('s \<times> 'o list) result) \<Rightarrow>
     's \<Rightarrow> ('s \<times> 'o list) result" where
  "handleEvent get put call s =
     bindE (run_steps call (fired (get s)) (put ((get s)\<lparr>eventHandling := True\<rparr>) s))
       (\<lambda>(s1, os). Inr (put ((get s1)\<lparr>eventHandling := False\<rparr>) s1, os))"

section \<open>Bit facts\<close>

lemma read_bits_nonzero [simp]: "kReadEvent \<noteq> 0" "kReadEvent \<noteq> kNoneEvent"
  by (simp_all add: poll_bits)

lemma bit_kWriteEvent [simp]: "bit kWriteEvent n \<longleftrightarrow> n = 2"
proof -
  have eq: "kWriteEvent = 2 ^ 2" by (simp add: poll_bits)
  show ?thesis unfolding eq by (subst bit_exp_iff) auto
qed

lemma bit_kReadEvent [simp]: "bit kReadEvent n \<longleftrightarrow> n < 2"
proof -
  have eq: "kReadEvent = mask 2" by (simp add: poll_bits mask_eq_exp_minus_1)
  show ?thesis unfolding eq by (subst bit_mask_iff) auto
qed

lemma isWriting_bit: "isWriting ch \<longleftrightarrow> bit (events ch) 2"
proof
  assume "isWriting ch"
  then obtain n where "bit (events ch AND kWriteEvent) n"
    by (auto simp: isWriting_def bit_eq_iff)
  then show "bit (events ch) 2" by (auto simp: bit_and_iff)
next
  assume "bit (events ch) 2"
  then have "bit (events ch AND kWriteEvent) 2" by (simp add: bit_and_iff)
  then show "isWriting ch" by (auto simp: isWriting_def)
qed

lemma isWriting_new [simp]: "\<not> isWriting (Channel_new fd)"
  by (simp add: isWriting_bit Channel_new_def)

lemma isNone_not_writing: "isNoneEvent ch \<Longrightarrow> \<not> isWriting ch"
  by (simp add: isNoneEvent_def isWriting_bit kNoneEvent_def)

lemma write_event_bits [simp]:
  "bit (x OR kWriteEvent) 2"
  "\<not> bit (x AND NOT kWriteEvent) 2"
  "bit (x OR kReadEvent) 2 \<longleftrightarrow> bit x 2"
  "x OR kWriteEvent \<noteq> kNoneEvent"
  "x OR kReadEvent \<noteq> kNoneEvent"
proof -
  show "bit (x OR kWriteEvent) 2" "\<not> bit (x AND NOT kWriteEvent) 2" "bit (x OR kReadEvent) 2 \<longleftrightarrow> bit x 2"
    by (simp_all add: bit_or_iff bit_and_iff bit_not_iff)
  have "bit (x OR kWriteEvent) 2" "bit (x OR kReadEvent) 0" by (simp_all add: bit_or_iff)
  then show "x OR kWriteEvent \<noteq> kNoneEvent" "x OR kReadEvent \<noteq> kNoneEvent"
    by (auto simp: kNoneEvent_def)
qed

end
