(* ===== verification/EPoller.thy ===== *)
theory EPoller
  imports Channel
begin

text \<open>
  The poller (include/net/EPoller.h, src/net/EPoller.cpp) and the channel operations that go
  through it. \<open>epoll_ctl\<close> and \<open>epoll_wait\<close> are kernel calls: their return values are arguments
  of the operations, and every \<open>epoll_ctl\<close> is part of the operation's output, so that the
  sequence of calls can be checked against the documented rules for the interest list of an
  epoll instance (\<open>ctl_legal\<close>).
\<close>

section \<open>State and kernel calls\<close>

definition kNew :: int where "kNew = -1"
definition kAdded :: int where "kAdded = 1"

datatype epoll_op = EPOLL_CTL_ADD | EPOLL_CTL_MOD | EPOLL_CTL_DEL

text \<open>A call \<open>epoll_ctl(epollfd_, op, fd, events)\<close>.\<close>

datatype ctl = Ctl epoll_op int u32

text \<open>\<open>update\<close>: a failing DEL is logged, any other failing call aborts (LOG_SYSFATAL).\<close>

definition update :: "int \<Rightarrow> epoll_op \<Rightarrow> channel \<Rightarrow> ctl result" where
  "update rc operation ch =
     (if rc < 0 \<and> operation \<noteq> EPOLL_CTL_DEL then Inl (Fatal ''epoll_ctl'')
      else Inr (Ctl operation (ch_fd ch) (events ch)))"

definition updateChannel :: "int \<Rightarrow> channel \<Rightarrow> (channel \<times> ctl list) result" where
  "updateChannel rc ch =
     (let idx = ch_index ch in
      if idx = kNew then
        (let ch1 = set_index kAdded ch in
         bindE (update rc EPOLL_CTL_ADD ch1) (\<lambda>c. Inr (ch1, [c])))
      else
        assertE ''index == kAdded'' (idx = kAdded)
          (if isNoneEvent ch then
             bindE (update rc EPOLL_CTL_DEL ch) (\<lambda>c. Inr (set_index kNew ch, [c]))
           else
             bindE (update rc EPOLL_CTL_MOD ch) (\<lambda>c. Inr (ch, [c]))))"

definition removeChannel :: "int \<Rightarrow> channel \<Rightarrow> (channel \<times> ctl list) result" where
  "removeChannel rc ch =
     assertE ''channel->isNoneEvent()'' (isNoneEvent ch)
       (let idx = ch_index ch in
        assertE ''idx == kAdded'' (idx = kAdded)
          (bindE (if idx = kAdded
                  then bindE (update rc EPOLL_CTL_DEL ch) (\<lambda>c. Inr [c]) else Inr [])
             (\<lambda>cs. Inr (set_index kNew ch, cs))))"

section \<open>Channel operations that update the poller\<close>

definition enableReading :: "int \<Rightarrow> channel \<Rightarrow> (channel \<times> ctl list) result" where
  "enableReading rc ch = updateChannel rc (ch\<lparr>events := events ch OR kReadEvent\<rparr>)"

definition enableWriting :: "int \<Rightarrow> channel \<Rightarrow> (channel \<times> ctl list) result" where
  "enableWriting rc ch = updateChannel rc (ch\<lparr>events := events ch OR kWriteEvent\<rparr>)"

definition disableWriting :: "int \<Rightarrow> channel \<Rightarrow> (channel \<times> ctl list) result" where
  "disableWriting rc ch = updateChannel rc (ch\<lparr>events := events ch AND NOT kWriteEvent\<rparr>)"

definition disableAll :: "int \<Rightarrow> channel \<Rightarrow> (channel \<times> ctl list) result" where
  "disableAll rc ch = updateChannel rc (ch\<lparr>events := kNoneEvent\<rparr>)"

section \<open>Waiting\<close>

text \<open>
  The event array \<open>events_\<close> matters by its size only. The outcome of \<open>epoll_wait\<close> is an errno
  or the reported pairs of channel and event mask; channels live in a table indexed by their
  address.
\<close>

datatype wait_outcome = WaitFail int | WaitReady "(nat \<times> u32) list"

definition kInitEventListSize :: nat where
  "kInitEventListSize = 16"

fun fillActiveChannels ::
  "(nat \<times> u32) list \<Rightarrow> (nat \<Rightarrow> channel) \<Rightarrow> nat list \<Rightarrow> (nat \<Rightarrow> channel) \<times> nat list" where
  "fillActiveChannels [] chans active = (chans, active)"
| "fillActiveChannels ((p, ev) # ready) chans active =
     fillActiveChannels ready (chans(p := set_revents ev (chans p))) (active @ [p])"

definition poll ::
  "wait_outcome \<Rightarrow> nat \<Rightarrow> (nat \<Rightarrow> channel) \<Rightarrow> nat list \<Rightarrow>
     (nat \<times> (nat \<Rightarrow> channel) \<times> nat list) result" where
  "poll w sz chans active =
     (case w of
        WaitFail e \<Rightarrow> Inr (sz, chans, active)
      | WaitReady ready \<Rightarrow>
          (let numEvents = length ready in
           if 0 < numEvents then
             assertE ''numEvents <= events_.size()'' (numEvents \<le> sz)
               (let (chans1, active1) = fillActiveChannels ready chans active
                in Inr (if numEvents = sz then sz * 2 else sz, chans1, active1))
           else Inr (sz, chans, active)))"

section \<open>The interest list of an epoll instance (epoll_ctl(2))\<close>

text \<open>
  ADD fails with EEXIST on a registered descriptor, MOD and DEL fail with ENOENT on one that is
  not registered. \<open>interest\<close> is the list after a sequence of calls, \<open>ctl_legal\<close> says that no
  call of the sequence breaks these rules.
\<close>

fun ctl_ok :: "ctl \<Rightarrow> (int \<rightharpoonup> u32) \<Rightarrow> bool" where
  "ctl_ok (Ctl EPOLL_CTL_ADD fd ev) m \<longleftrightarrow> m fd = None"
| "ctl_ok (Ctl EPOLL_CTL_MOD fd ev) m \<longleftrightarrow> m fd \<noteq> None"
| "ctl_ok (Ctl EPOLL_CTL_DEL fd ev) m \<longleftrightarrow> m fd \<noteq> None"

fun ctl_apply :: "ctl \<Rightarrow> (int \<rightharpoonup> u32) \<Rightarrow> (int \<rightharpoonup> u32)" where
  "ctl_apply (Ctl EPOLL_CTL_DEL fd ev) m = m(fd := None)"
| "ctl_apply (Ctl _ fd ev) m = m(fd \<mapsto> ev)"

fun interest :: "ctl list \<Rightarrow> (int \<rightharpoonup> u32) \<Rightarrow> (int \<rightharpoonup> u32)" where
  "interest [] m = m"
| "interest (c # cs) m = interest cs (ctl_apply c m)"

fun ctl_legal :: "ctl list \<Rightarrow> (int \<rightharpoonup> u32) \<Rightarrow> bool" where
  "ctl_legal [] m \<longleftrightarrow> True"
| "ctl_legal (c # cs) m \<longleftrightarrow> ctl_ok c m \<and> ctl_legal cs (ctl_apply c m)"

lemma interest_append [simp]: "interest (cs @ ds) m = interest ds (interest cs m)"
  by (induction cs arbitrary: m) simp_all

lemma ctl_legal_append [simp]:
  "ctl_legal (cs @ ds) m \<longleftrightarrow> ctl_legal cs m \<and> ctl_legal ds (interest cs m)"
  by (induction cs arbitrary: m) simp_all

section \<open>The channel index tracks the interest list\<close>

definition chan_ok :: "channel \<Rightarrow> bool" where
  "chan_ok ch \<longleftrightarrow>
     ch_index ch = kNew \<and> events ch = kNoneEvent \<or> ch_index ch = kAdded \<and> events ch \<noteq> kNoneEvent"

definition registered :: "channel \<Rightarrow> u32 option" where
  "registered ch = (if ch_index ch = kAdded then Some (events ch) else None)"

lemma kNew_kAdded [simp]: "kNew \<noteq> kAdded" "kAdded \<noteq> kNew"
  by (simp_all add: kNew_def kAdded_def)

lemma chan_ok_new [simp]: "chan_ok (Channel_new fd)" "registered (Channel_new fd) = None"
  by (simp_all add: chan_ok_def Channel_new_def kNew_def kAdded_def registered_def kNoneEvent_def)

text \<open>
  The calls of \<open>updateChannel\<close> and \<open>removeChannel\<close> are legal for a descriptor that is in the
  interest list exactly when the index says so, and leave it with the channel's entry.
\<close>

definition tracks :: "(int \<rightharpoonup> u32) \<Rightarrow> channel \<Rightarrow> bool" where
  "tracks m ch \<longleftrightarrow> (m (ch_fd ch) \<noteq> None \<longleftrightarrow> ch_index ch = kAdded)"

lemma tracks_registered: "m (ch_fd ch) = registered ch \<Longrightarrow> tracks m ch"
  by (simp add: tracks_def registered_def split: if_splits)

lemma tracks_events [simp]: "tracks m (ch\<lparr>events := e\<rparr>) = tracks m ch"
  by (simp add: tracks_def)

lemma updateChannel_ctl:
  assumes "tracks m ch" "updateChannel rc ch = Inr (ch2, cs)"
  shows "ctl_legal cs m" "interest cs m = m(ch_fd ch := registered ch2)"
    "ch2 = ch\<lparr>ch_index := ch_index ch2\<rparr>"
    "ch_index ch2 = (if isNoneEvent ch \<and> ch_index ch = kAdded then kNew else kAdded)"
  using assms
  by (auto simp: updateChannel_def update_def tracks_def registered_def Let_def split: if_splits)

lemma removeChannel_ctl:
  assumes "tracks m ch" "removeChannel rc ch = Inr (ch2, cs)"
  shows "ctl_legal cs m" "interest cs m = m(ch_fd ch := None)" "ch2 = ch\<lparr>ch_index := kNew\<rparr>"
    "isNoneEvent ch" "ch_index ch = kAdded"
  using assms by (auto simp: removeChannel_def update_def tracks_def Let_def split: if_splits)

lemmas poller_updates = enableReading_def enableWriting_def disableWriting_def disableAll_def

section \<open>What a wait reports\<close>

lemma fill_active:
  "fillActiveChannels ready chans active = (chans', active') \<Longrightarrow> active' = active @ map fst ready"
  by (induction ready chans active rule: fillActiveChannels.induct) auto

lemma fill_unreported:
  "fillActiveChannels ready chans active = (chans', active') \<Longrightarrow> p \<notin> fst ` set ready \<Longrightarrow>
     chans' p = chans p"
  by (induction ready chans active rule: fillActiveChannels.induct) auto

lemma fill_reported:
  "fillActiveChannels ready chans active = (chans', active') \<Longrightarrow> distinct (map fst ready) \<Longrightarrow>
     (p, ev) \<in> set ready \<Longrightarrow> chans' p = set_revents ev (chans p)"
proof (induction ready chans active rule: fillActiveChannels.induct)
  case (2 q e ready chans active)
  have fill: "fillActiveChannels ready (chans(q := set_revents e (chans q))) (active @ [q]) = (chans', active')"
    using 2(2) by (simp del: fun_upd_apply)
  show ?case
  proof (cases "p = q")
    case True
    then have "p \<notin> fst ` set ready" "ev = e" using 2(3,4) by force+
    then show ?thesis using fill_unreported [OF fill] True by simp
  next
    case False
    then show ?thesis using 2(1) [OF fill] 2(3,4) by simp
  qed
qed simp

text \<open>A successful wait. The channels of the reported descriptors become active in the order
  reported, each with exactly the reported events, and no other channel changes; the event array
  is doubled exactly when it was full, so that it has room for one more event than this time.\<close>

theorem poll_reports:
  assumes "length ready \<le> sz" "0 < sz" "distinct (map fst ready)"
  shows "\<exists>chans'. poll (WaitReady ready) sz chans active =
       Inr (if length ready = sz then 2 * sz else sz, chans', active @ map fst ready) \<and>
     (\<forall>p. chans' p = (case map_of ready p of None \<Rightarrow> chans p | Some ev \<Rightarrow> set_revents ev (chans p))) \<and>
     length ready < (if length ready = sz then 2 * sz else sz)"
proof (cases "ready = []")
  case True
  then show ?thesis using assms(2) by (simp add: poll_def)
next
  case False
  obtain chans' active' where f: "fillActiveChannels ready chans active = (chans', active')" by force
  have "chans' p = (case map_of ready p of None \<Rightarrow> chans p | Some ev \<Rightarrow> set_revents ev (chans p))" for p
    using fill_unreported [OF f, of p] fill_reported [OF f assms(3), of p]
    by (auto simp: map_of_eq_None_iff dest: map_of_SomeD split: option.splits)
  then show ?thesis using False f fill_active [OF f] assms
    by (auto simp: poll_def Let_def)
qed

theorem poll_reports_witness:
  "\<exists>chans'. poll (WaitReady [(1, 1), (3, 4)]) 2 (\<lambda>p. Channel_new (int p)) [] = Inr (4, chans', [1, 3]) \<and>
     revents (chans' 3) = 4 \<and> chans' 2 = Channel_new 2"
  using poll_reports [of "[(1, 1), (3, 4)]" 2 "\<lambda>p. Channel_new (int p)" "[]"]
  by (auto simp: set_revents_def)

end
