(* ===== verification/TcpConnection.thy ===== *)
theory TcpConnection
  imports Buffer EPoller
begin

text \<open>
  A TCP connection (include/net/TcpConnection.h, src/net/TcpConnection.cpp): its state, its
  channel and its input and output buffers. Every operation takes the identifier \<open>t\<close> of the
  thread that calls it, and the outcomes of the kernel calls it makes (\<open>rc\<close> of an \<open>epoll_ctl\<close>,
  a \<open>write_outcome\<close>, a \<open>readv_outcome\<close>), and returns the new state with the effects it had, in
  order. User code that runs inside an operation (the connection and message callbacks) is an
  argument: the calls it makes on this connection. Log lines below level ERROR are not effects.
\<close>

section \<open>State\<close>

datatype stateE = kConnecting | kConnected | kDisconnected

record conn =
  c_tid :: int
  c_name :: string
  c_state :: stateE
  c_chan :: channel
  c_connCb :: bool
  c_msgCb :: bool
  c_wcCb :: bool
  c_closeCb :: bool
  c_in :: buffer
  c_out :: buffer

definition TcpConnection_new :: "int \<Rightarrow> string \<Rightarrow> int \<Rightarrow> conn" where
  "TcpConnection_new loop_tid nameArg sockfd =
     \<lparr>c_tid = loop_tid, c_name = nameArg, c_state = kConnecting,
      c_chan = setErrorCallback (Channel_setCloseCallback (setWriteCallback (setReadCallback (Channel_new sockfd)))),
      c_connCb = False, c_msgCb = False, c_wcCb = False, c_closeCb = False,
      c_in = Buffer_new, c_out = Buffer_new\<rparr>"

definition connected :: "conn \<Rightarrow> bool" where
  "connected c \<longleftrightarrow> c_state c = kConnected"

definition setConnectionCallback :: "conn \<Rightarrow> conn" where
  "setConnectionCallback c = c\<lparr>c_connCb := True\<rparr>"

definition setMessageCallback :: "conn \<Rightarrow> conn" where
  "setMessageCallback c = c\<lparr>c_msgCb := True\<rparr>"

definition setCloseCallback :: "conn \<Rightarrow> conn" where
  "setCloseCallback c = c\<lparr>c_closeCb := True\<rparr>"

definition setWriteCompleteCallback :: "conn \<Rightarrow> conn" where
  "setWriteCompleteCallback c = c\<lparr>c_wcCb := True\<rparr>"

section \<open>Kernel outcomes and effects\<close>

datatype write_outcome = WriteFail int | Written size_t

definition EWOULDBLOCK :: int where "EWOULDBLOCK = 11"

datatype conn_task = TaskSend "byte list" | TaskShutdown

text \<open>
  \<open>EWrite\<close> carries the bytes the kernel accepted, \<open>ESend\<close> the message handed to \<open>sendInLoop\<close>,
  \<open>EQueue\<close> a functor queued in the loop of the connection, \<open>EUser\<close> what user code does that the
  connection does not see.
\<close>

datatype 'u conn_eff =
    ECtl ctl | ESend "byte list" | EWrite "byte list" | EShutdownWr | ENoDelay bool
  | EConnectionCb bool | EWriteCompleteQueued | ECloseCb | EQueue conn_task
  | ESocketError | ELogSysErr | EUser 'u

text \<open>A call of user code on the connection, with the kernel's answers.\<close>

datatype 'u conn_call =
  CallSend write_outcome int "byte list" | CallShutdown | CallNoDelay bool | CallUser 'u

section \<open>Sending\<close>

definition inLoop :: "int \<Rightarrow> conn \<Rightarrow> 'a result \<Rightarrow> 'a result" where
  "inLoop t c m = (if t = c_tid c then m else abortNotInLoopThread)"

definition with_chan ::
  "(channel \<times> ctl list) result \<Rightarrow> conn \<Rightarrow> 'u conn_eff list \<Rightarrow> (conn \<times> 'u conn_eff list) result" where
  "with_chan r c effs = bindE r (\<lambda>(ch, cs). Inr (c\<lparr>c_chan := ch\<rparr>, effs @ map ECtl cs))"

definition sendInLoop ::
  "int \<Rightarrow> write_outcome \<Rightarrow> int \<Rightarrow> byte list \<Rightarrow> conn \<Rightarrow> (conn \<times> 'u conn_eff list) result" where
  "sendInLoop t w rc message c = inLoop t c
     (let (nwrote, effs) =
        (if \<not> isWriting (c_chan c) \<and> readableBytes (c_out c) = 0 then
           (case w of
              Written n \<Rightarrow>
                (unat n, EWrite (take (unat n) message) #
                    (if unat n < length message then []
                     else if c_wcCb c then [EWriteCompleteQueued] else []))
            | WriteFail err \<Rightarrow> (0, if err \<noteq> EWOULDBLOCK then [ELogSysErr] else []))
         else (0, []))
      in
        if nwrote < length message then
          bindE (append (drop nwrote message) (c_out c)) (\<lambda>out.
            (let c1 = c\<lparr>c_out := out\<rparr> in
             if \<not> isWriting (c_chan c1)
             then with_chan (enableWriting rc (c_chan c1)) c1 (ESend message # effs)
             else Inr (c1, ESend message # effs)))
        else Inr (c, ESend message # effs))"

definition send ::
  "int \<Rightarrow> write_outcome \<Rightarrow> int \<Rightarrow> byte list \<Rightarrow> conn \<Rightarrow> (conn \<times> 'u conn_eff list) result" where
  "send t w rc message c =
     (if c_state c = kConnected then
        (if t = c_tid c then sendInLoop t w rc message c
         else Inr (c, [EQueue (TaskSend message)]))
      else Inr (c, []))"

definition shutdownInLoop :: "int \<Rightarrow> conn \<Rightarrow> (conn \<times> 'u conn_eff list) result" where
  "shutdownInLoop t c = inLoop t c
     (if \<not> isWriting (c_chan c) then Inr (c, [EShutdownWr]) else Inr (c, []))"

definition shutdown :: "int \<Rightarrow> conn \<Rightarrow> (conn \<times> 'u conn_eff list) result" where
  "shutdown t c =
     (if c_state c = kConnected then
        (let c1 = c\<lparr>c_state := kDisconnected\<rparr> in
         if t = c_tid c1 then shutdownInLoop t c1 else Inr (c1, [EQueue TaskShutdown]))
      else Inr (c, []))"

definition setTcpNoDelay :: "bool \<Rightarrow> conn \<Rightarrow> (conn \<times> 'u conn_eff list) result" where
  "setTcpNoDelay on c = Inr (c, [ENoDelay on])"

fun do_call :: "int \<Rightarrow> 'u conn_call \<Rightarrow> conn \<Rightarrow> (conn \<times> 'u conn_eff list) result" where
  "do_call t (CallSend w rc message) c = send t w rc message c"
| "do_call t CallShutdown c = shutdown t c"
| "do_call t (CallNoDelay on) c = setTcpNoDelay on c"
| "do_call t (CallUser u) c = Inr (c, [EUser u])"

section \<open>Establishing and destroying\<close>

text \<open>Runs a continuation after an operation and concatenates the effects.\<close>

definition andThen ::
  "('s \<times> 'o list) result \<Rightarrow> ('s \<Rightarrow> ('s \<times> 'o list) result) \<Rightarrow> ('s \<times> 'o list) result" where
  "andThen r f = bindE r (\<lambda>(s1, os1). bindE (f s1) (\<lambda>(s2, os2). Inr (s2, os1 @ os2)))"

definition connection_cb ::
  "int \<Rightarrow> 'u conn_call list \<Rightarrow> conn \<Rightarrow> (conn \<times> 'u conn_eff list) result" where
  "connection_cb t calls c =
     (if c_connCb c then andThen (Inr (c, [EConnectionCb (connected c)])) (run_steps (do_call t) calls)
      else Inr (c, []))"

definition connectEstablished ::
  "int \<Rightarrow> int \<Rightarrow> 'u conn_call list \<Rightarrow> conn \<Rightarrow> (conn \<times> 'u conn_eff list) result" where
  "connectEstablished t rc calls c = inLoop t c
     (assertE ''state_ == kConnecting'' (c_state c = kConnecting)
        (let c1 = c\<lparr>c_state := kConnected\<rparr> in
         andThen (with_chan (enableReading rc (c_chan c1)) c1 []) (connection_cb t calls)))"

definition connectDestroyed ::
  "int \<Rightarrow> int \<Rightarrow> int \<Rightarrow> 'u conn_call list \<Rightarrow> conn \<Rightarrow> (conn \<times> 'u conn_eff list) result" where
  "connectDestroyed t rc1 rc2 calls c = inLoop t c
     (assertE ''state_ == kConnected'' (c_state c = kConnected)
        (let c1 = c\<lparr>c_state := kDisconnected\<rparr> in
         andThen (andThen (with_chan (disableAll rc1 (c_chan c1)) c1 []) (connection_cb t calls))
           (\<lambda>c2. with_chan (removeChannel rc2 (c_chan c2)) c2 [])))"

section \<open>Event handlers\<close>

definition handleError :: "conn \<Rightarrow> (conn \<times> 'u conn_eff list) result" where
  "handleError c = Inr (c, [ESocketError])"

definition handleClose :: "int \<Rightarrow> int \<Rightarrow> conn \<Rightarrow> (conn \<times> 'u conn_eff list) result" where
  "handleClose t rc c = inLoop t c
     (assertE ''state_ == kConnected'' (c_state c = kConnected)
        (andThen (with_chan (disableAll rc (c_chan c)) c [])
           (\<lambda>c1. Inr (c1, if c_closeCb c1 then [ECloseCb] else []))))"

text \<open>
  The message callback gets the input buffer, may take bytes out of it, and calls the
  connection.
\<close>

type_synonym 'u message_cb = "buffer \<Rightarrow> (buffer \<times> 'u conn_call list) result"

definition handleRead ::
  "int \<Rightarrow> readv_outcome \<Rightarrow> int \<Rightarrow> 'u message_cb \<Rightarrow> conn \<Rightarrow> (conn \<times> 'u conn_eff list) result" where
  "handleRead t rv rc mcb c =
     bindE (readFd rv (c_in c)) (\<lambda>(n, savedErrno, b).
       (let c1 = c\<lparr>c_in := b\<rparr> in
        if 0 < n then
          (if c_msgCb c1 then
             bindE (mcb (c_in c1)) (\<lambda>(b', calls).
               run_steps (do_call t) calls (c1\<lparr>c_in := b'\<rparr>))
           else Inr (c1, []))
        else if n = 0 then handleClose t rc c1
        else handleError c1))"

text \<open>
  As in the source, draining the output buffer builds a functor from the write-complete
  callback and drops it: nothing is queued.
\<close>

definition handleWrite ::
  "int \<Rightarrow> write_outcome \<Rightarrow> int \<Rightarrow> conn \<Rightarrow> (conn \<times> 'u conn_eff list) result" where
  "handleWrite t w rc c = inLoop t c
     (if isWriting (c_chan c) then
        bindE (peek_string (readableBytes (c_out c)) (c_out c)) (\<lambda>data.
          (case w of
             Written n \<Rightarrow>
               (if 0 < n then
                  bindE (retrieve n (c_out c)) (\<lambda>out.
                    (let c1 = c\<lparr>c_out := out\<rparr> in
                     if readableBytes (c_out c1) = 0 then
                       andThen (with_chan (disableWriting rc (c_chan c1)) c1 [EWrite (take (unat n) data)])
                         (\<lambda>c2. if c_state c2 = kDisconnected then shutdownInLoop t c2
                               else Inr (c2, []))
                     else Inr (c1, [EWrite (take (unat n) data)])))
                else Inr (c, [ELogSysErr]))
           | WriteFail err \<Rightarrow> Inr (c, [ELogSysErr])))
      else Inr (c, []))"

text \<open>What the kernel and the user code answer to the handlers of one event.\<close>

record 'u event_env =
  env_read :: readv_outcome
  env_msg :: "'u message_cb"
  env_write :: write_outcome
  env_rcClose :: int
  env_rcRead :: int
  env_rcWrite :: int

fun conn_callback ::
  "int \<Rightarrow> 'u event_env \<Rightarrow> ev_cb \<Rightarrow> conn \<Rightarrow> (conn \<times> 'u conn_eff list) result" where
  "conn_callback t env ReadCb c = handleRead t (env_read env) (env_rcRead env) (env_msg env) c"
| "conn_callback t env WriteCb c = handleWrite t (env_write env) (env_rcWrite env) c"
| "conn_callback t env CloseCb c = handleClose t (env_rcClose env) c"
| "conn_callback t env ErrorCb c = handleError c"

section \<open>Steps of a connection\<close>

text \<open>
  What can happen to a connection: it is established or destroyed by its owner, the poller
  reports events for it, some thread calls it, or its loop runs a functor it queued.
\<close>

datatype 'u conn_op =
    Establish int "'u conn_call list"
  | Destroy int int "'u conn_call list"
  | Event u32 "'u event_env"
  | Call int "'u conn_call"
  | RunTask conn_task write_outcome int

fun conn_step :: "'u conn_op \<Rightarrow> conn \<Rightarrow> (conn \<times> 'u conn_eff list) result" where
  "conn_step (Establish rc calls) c = connectEstablished (c_tid c) rc calls c"
| "conn_step (Destroy rc1 rc2 calls) c = connectDestroyed (c_tid c) rc1 rc2 calls c"
| "conn_step (Event revt env) c =
     handleEvent c_chan (\<lambda>ch c. c\<lparr>c_chan := ch\<rparr>) (conn_callback (c_tid c) env)
       (c\<lparr>c_chan := set_revents revt (c_chan c)\<rparr>)"
| "conn_step (Call t call) c = do_call t call c"
| "conn_step (RunTask (TaskSend message) w rc) c = sendInLoop (c_tid c) w rc message c"
| "conn_step (RunTask TaskShutdown w rc) c = shutdownInLoop (c_tid c) c"

section \<open>The contract: a reliable byte stream over a legal interest list\<close>

text \<open>
  An observer of the effects keeps the bytes that were sent but not yet written, and whether
  the descriptor is being watched. It accepts a write only if the bytes are the oldest pending
  ones, and a half-close of a watched descriptor only if nothing is pending.
\<close>

type_synonym observer = "byte list \<times> bool"

fun observe :: "'u conn_eff \<Rightarrow> observer \<Rightarrow> observer option" where
  "observe (ESend m) (q, w) = Some (q @ m, w)"
| "observe (EWrite d) (q, w) =
     (if take (length d) q = d then Some (drop (length d) q, w) else None)"
| "observe (ECtl (Ctl operation fd ev)) (q, w) =
     Some (q, operation \<noteq> EPOLL_CTL_DEL \<and> ev \<noteq> kNoneEvent)"
| "observe EShutdownWr (q, w) = (if w \<and> q \<noteq> [] then None else Some (q, w))"
| "observe _ s = Some s"

fun observes :: "'u conn_eff list \<Rightarrow> observer \<Rightarrow> observer option" where
  "observes [] s = Some s"
| "observes (e # es) s = (case observe e s of None \<Rightarrow> None | Some s' \<Rightarrow> observes es s')"

fun ctls :: "'u conn_eff list \<Rightarrow> ctl list" where
  "ctls [] = []"
| "ctls (ECtl c # es) = c # ctls es"
| "ctls (_ # es) = ctls es"

text \<open>The bytes sent and the bytes written in a sequence of effects.\<close>

fun sent :: "'u conn_eff list \<Rightarrow> byte list" where
  "sent [] = []"
| "sent (ESend m # es) = m @ sent es"
| "sent (_ # es) = sent es"

fun wire :: "'u conn_eff list \<Rightarrow> byte list" where
  "wire [] = []"
| "wire (EWrite d # es) = d @ wire es"
| "wire (_ # es) = wire es"

lemma observes_append [simp]:
  "observes (es @ fs) s = (case observes es s of None \<Rightarrow> None | Some s' \<Rightarrow> observes fs s')"
  by (induction es arbitrary: s) (simp_all split: option.splits)

lemma ctls_append [simp]: "ctls (es @ fs) = ctls es @ ctls fs"
  by (induction es rule: ctls.induct) simp_all

lemma ctls_map [simp]: "ctls (map ECtl cs) = cs"
  by (induction cs) simp_all

lemma observe_balance:
  "observe e (q, w) = Some (q', w') \<Longrightarrow> q @ sent [e] = wire [e] @ q'"
proof (cases e)
  case (EWrite d)
  then show "observe e (q, w) = Some (q', w') \<Longrightarrow> q @ sent [e] = wire [e] @ q'"
    by (auto split: if_splits) (metis append_take_drop_id)+
next
  case (ECtl c)
  then show "observe e (q, w) = Some (q', w') \<Longrightarrow> q @ sent [e] = wire [e] @ q'"
    by (cases c) simp
qed (auto split: if_splits)

lemma sent_wire_Cons: "sent (e # es) = sent [e] @ sent es" "wire (e # es) = wire [e] @ wire es"
  by (cases e; simp)+

lemma observes_balance:
  "observes es (q, w) = Some (q', w') \<Longrightarrow> q @ sent es = wire es @ q'"
proof (induction es arbitrary: q w)
  case Nil
  then show ?case by simp
next
  case (Cons e es)
  then obtain q1 w1 where 1: "observe e (q, w) = Some (q1, w1)" "observes es (q1, w1) = Some (q', w')"
    by (auto split: option.splits)
  show ?case using observe_balance [OF 1(1)] Cons.IH [OF 1(2)]
    by (simp add: sent_wire_Cons [of e es]) (metis append.assoc)
qed

section \<open>Invariant\<close>

text \<open>
  A watched descriptor is watched for writability exactly while there is something to write;
  a channel that is not in the interest list wants no events.
\<close>

definition conn_inv :: "conn \<Rightarrow> bool" where
  "conn_inv c \<longleftrightarrow>
     buffer_ok (c_out c) \<and>
     (events (c_chan c) \<noteq> kNoneEvent \<longrightarrow> (isWriting (c_chan c) \<longleftrightarrow> content (c_out c) \<noteq> [])) \<and>
     (ch_index (c_chan c) = kNew \<longrightarrow> events (c_chan c) = kNoneEvent) \<and>
     (ch_index (c_chan c) = kNew \<or> ch_index (c_chan c) = kAdded) \<and>
     (c_state c = kConnecting \<longrightarrow> content (c_out c) \<noteq> [] \<longrightarrow> isWriting (c_chan c))"

text \<open>What an observer that follows the connection has in mind.\<close>

definition mirror :: "conn \<Rightarrow> observer" where
  "mirror c = (content (c_out c), events (c_chan c) \<noteq> kNoneEvent)"

text \<open>An outcome that keeps the invariant, the observer and the interest list in step.\<close>

definition faithful :: "conn \<Rightarrow> 'u conn_eff list \<Rightarrow> conn \<Rightarrow> bool" where
  "faithful c effs c' \<longleftrightarrow>
     conn_inv c' \<and> observes effs (mirror c) = Some (mirror c') \<and>
     ch_fd (c_chan c') = ch_fd (c_chan c) \<and> c_tid c' = c_tid c \<and>
     (\<forall>m. m (ch_fd (c_chan c)) = registered (c_chan c) \<longrightarrow>
        ctl_legal (ctls effs) m \<and>
        interest (ctls effs) m = m(ch_fd (c_chan c) := registered (c_chan c')))"

lemma faithful_refl [simp]: "conn_inv c \<Longrightarrow> faithful c [] c"
  by (auto simp: faithful_def)

lemma faithful_trans:
  "faithful c es c1 \<Longrightarrow> faithful c1 fs c2 \<Longrightarrow> faithful c (es @ fs) c2"
  by (auto simp: faithful_def)

lemma faithfulD: "faithful c es c' \<Longrightarrow> conn_inv c'"
  by (simp add: faithful_def)

lemma andThen_faithful:
  assumes "andThen r f = Inr (c2, es)"
    and "\<And>c1 es1. r = Inr (c1, es1) \<Longrightarrow> faithful c es1 c1"
    and "\<And>c1 es2. conn_inv c1 \<Longrightarrow> f c1 = Inr (c2, es2) \<Longrightarrow> faithful c1 es2 c2"
  shows "faithful c es c2"
proof -
  from assms(1) obtain c1 es1 es2 where 1: "r = Inr (c1, es1)" "f c1 = Inr (c2, es2)"
      and es: "es = es1 @ es2"
    by (auto simp: andThen_def)
  have f1: "faithful c es1 c1" by (rule assms(2) [OF 1(1)])
  have "faithful c1 es2 c2" by (rule assms(3) [OF faithfulD [OF f1] 1(2)])
  with f1 show ?thesis unfolding es by (rule faithful_trans)
qed

lemma run_faithful:
  assumes "\<And>e c c' es. conn_inv c \<Longrightarrow> step e c = Inr (c', es) \<Longrightarrow> faithful c es c'"
  shows "conn_inv c \<Longrightarrow> run_steps step ops c = Inr (c', es) \<Longrightarrow> faithful c es c'"
proof (induction ops arbitrary: c es)
  case Nil
  then show ?case by simp
next
  case (Cons e ops)
  then obtain c1 es1 es2 where 1: "step e c = Inr (c1, es1)" "run_steps step ops c1 = Inr (c', es2)"
      and es: "es = es1 @ es2" by auto
  have f1: "faithful c es1 c1" by (rule assms [OF Cons.prems(1) 1(1)])
  have "faithful c1 es2 c'" by (rule Cons.IH [OF faithfulD [OF f1] 1(2)])
  with f1 show ?case unfolding es by (rule faithful_trans)
qed

text \<open>Updates of the channel.\<close>

lemma observes_ctl:
  "updateChannel rc ch = Inr (ch2, cs) \<Longrightarrow>
     observes (map ECtl cs) (q, w) = Some (q, events ch \<noteq> kNoneEvent)"
  by (auto simp: updateChannel_def update_def Let_def isNoneEvent_def split: if_splits)

lemma with_chan_update:
  fixes es :: "'u conn_eff list"
  assumes "with_chan (updateChannel rc ((c_chan c1)\<lparr>events := ev\<rparr>)) c1 pre = Inr (c', es)"
  shows "\<exists>cs ch2. es = pre @ map ECtl cs \<and> c' = c1\<lparr>c_chan := ch2\<rparr> \<and>
    ch_fd ch2 = ch_fd (c_chan c1) \<and> events ch2 = ev \<and>
    ch_index ch2 = (if ev = kNoneEvent \<and> ch_index (c_chan c1) = kAdded then kNew else kAdded) \<and>
    (\<forall>q w. observes (map ECtl cs :: 'u conn_eff list) (q, w) = Some (q, ev \<noteq> kNoneEvent)) \<and>
    (\<forall>m. m (ch_fd (c_chan c1)) = registered (c_chan c1) \<longrightarrow>
       ctl_legal cs m \<and> interest cs m = m(ch_fd (c_chan c1) := registered ch2))"
proof -
  let ?ch1 = "(c_chan c1)\<lparr>events := ev\<rparr>"
  from assms obtain ch2 cs where up: "updateChannel rc ?ch1 = Inr (ch2, cs)"
      and es: "es = pre @ map ECtl cs" "c' = c1\<lparr>c_chan := ch2\<rparr>"
    by (auto simp: with_chan_def)
  have t: "m (ch_fd (c_chan c1)) = registered (c_chan c1) \<Longrightarrow> tracks m ?ch1" for m
    by (auto simp: tracks_def registered_def)
  obtain m0 :: "int \<rightharpoonup> u32" where m0: "m0 (ch_fd (c_chan c1)) = registered (c_chan c1)"
    by (metis fun_upd_same)
  have "tracks m0 ?ch1" using m0 by (rule t)
  note u = updateChannel_ctl(3,4) [OF this up]
  have "ch_fd ch2 = ch_fd (c_chan c1)" "events ch2 = ev" by (subst u(1), simp)+
  moreover have "\<forall>m. m (ch_fd (c_chan c1)) = registered (c_chan c1) \<longrightarrow>
       ctl_legal cs m \<and> interest cs m = m(ch_fd (c_chan c1) := registered ch2)"
    using updateChannel_ctl(1,2) [OF t up] by simp
  moreover have "\<forall>q w. observes (map ECtl cs :: 'u conn_eff list) (q, w) = Some (q, ev \<noteq> kNoneEvent)"
    by (simp add: observes_ctl [OF up])
  moreover note u(2) es
  ultimately show ?thesis
    by (intro exI [of _ cs] exI [of _ ch2]) (simp add: isNoneEvent_def)
qed

lemma update_faithful:
  fixes es :: "'u conn_eff list"
  assumes wc: "with_chan (updateChannel rc ((c_chan c1)\<lparr>events := ev\<rparr>)) c1 pre = Inr (c', es)"
    and same: "c_chan c1 = c_chan c" "c_tid c1 = c_tid c"
    and idx: "ch_index (c_chan c) = kNew \<or> ch_index (c_chan c) = kAdded"
    and pre: "observes pre (mirror c) = Some (content (c_out c1), v)" "ctls pre = []"
    and out: "buffer_ok (c_out c1)" "ev \<noteq> kNoneEvent \<Longrightarrow> bit ev 2 \<longleftrightarrow> content (c_out c1) \<noteq> []"
      "c_state c1 = kConnecting \<Longrightarrow> content (c_out c1) \<noteq> [] \<Longrightarrow> bit ev 2"
  shows "faithful c es c'"
proof -
  obtain cs ch2 where u: "es = pre @ map ECtl cs" "c' = c1\<lparr>c_chan := ch2\<rparr>"
      "ch_fd ch2 = ch_fd (c_chan c1)" "events ch2 = ev"
      "ch_index ch2 = (if ev = kNoneEvent \<and> ch_index (c_chan c1) = kAdded then kNew else kAdded)"
      "\<forall>q w. observes (map ECtl cs :: 'u conn_eff list) (q, w) = Some (q, ev \<noteq> kNoneEvent)"
      "\<forall>m. m (ch_fd (c_chan c1)) = registered (c_chan c1) \<longrightarrow>
         ctl_legal cs m \<and> interest cs m = m(ch_fd (c_chan c1) := registered ch2)"
    using with_chan_update [OF wc] by blast
  have "conn_inv c'"
    using out u(4,5) idx by (auto simp: conn_inv_def u(2) isWriting_bit)
  moreover have "observes es (mirror c) = Some (mirror c')"
    using pre u(4,6) by (simp add: mirror_def u(1,2))
  moreover have "ctls es = cs" using pre by (simp add: u(1))
  ultimately show ?thesis using u(3,7) same by (simp add: faithful_def u(2))
qed

lemma remove_faithful:
  assumes rc: "with_chan (removeChannel rc (c_chan c)) c [] = Inr (c', es)" and inv: "conn_inv c"
  shows "faithful c es c'"
proof -
  from rc obtain ch2 cs where rm: "removeChannel rc (c_chan c) = Inr (ch2, cs)"
      and e: "es = map ECtl cs" "c' = c\<lparr>c_chan := ch2\<rparr>"
    by (auto simp: with_chan_def)
  have c: "isNoneEvent (c_chan c)" "ch_index (c_chan c) = kAdded" "ch2 = (c_chan c)\<lparr>ch_index := kNew\<rparr>"
      "cs = [Ctl EPOLL_CTL_DEL (ch_fd (c_chan c)) (events (c_chan c))]"
    using rm by (auto simp: removeChannel_def update_def Let_def)
  then show ?thesis using inv
    by (auto simp: faithful_def conn_inv_def mirror_def e registered_def isNoneEvent_def isWriting_bit)
qed

section \<open>Every operation is faithful\<close>

lemma inLoop_Inr [simp]: "inLoop t c m = Inr x \<longleftrightarrow> t = c_tid c \<and> m = Inr x"
  by (simp add: inLoop_def)

lemma conn_invD:
  assumes "conn_inv c"
  shows "buffer_ok (c_out c)"
    "events (c_chan c) \<noteq> kNoneEvent \<Longrightarrow> isWriting (c_chan c) \<longleftrightarrow> content (c_out c) \<noteq> []"
    "ch_index (c_chan c) = kNew \<Longrightarrow> events (c_chan c) = kNoneEvent"
    "ch_index (c_chan c) = kNew \<or> ch_index (c_chan c) = kAdded"
    "c_state c = kConnecting \<Longrightarrow> content (c_out c) \<noteq> [] \<Longrightarrow> isWriting (c_chan c)"
  using assms by (auto simp: conn_inv_def)

lemma no_readable: "buffer_ok b \<Longrightarrow> readableBytes b = 0 \<longleftrightarrow> content b = []"
  using length_content [of b] by (auto simp: unat_eq_zero)

lemma isWriting_events: "events ch = events ch' \<Longrightarrow> isWriting ch = isWriting ch'"
  by (simp add: isWriting_bit)

lemma not_writing_none [simp]: "events ch = kNoneEvent \<Longrightarrow> \<not> isWriting ch"
  by (simp add: isNone_not_writing isNoneEvent_def)

text \<open>An operation that touches neither the channel nor the output buffer.\<close>

lemma faithful_quiet:
  assumes "conn_inv c" "c_chan c' = c_chan c" "c_out c' = c_out c" "c_tid c' = c_tid c"
    "c_state c' = c_state c \<or> c_state c' = kDisconnected"
    "observes es (mirror c) = Some (mirror c)" "ctls es = []"
  shows "faithful c es c'"
  using assms by (auto simp: faithful_def conn_inv_def mirror_def)

lemma shutdownInLoop_faithful:
  assumes "conn_inv c" "shutdownInLoop t c = Inr (c', es)"
  shows "faithful c es c'"
proof (rule faithful_quiet [OF assms(1)])
  show "observes es (mirror c) = Some (mirror c)" "ctls es = []"
    using assms conn_invD(2) [OF assms(1)]
    by (cases "events (c_chan c) = kNoneEvent";
        auto simp: shutdownInLoop_def mirror_def split: if_splits)+
qed (use assms in \<open>auto simp: shutdownInLoop_def split: if_splits\<close>)

lemma shutdown_faithful:
  assumes "conn_inv c" "shutdown t c = Inr (c', es)"
  shows "faithful c es c'"
proof -
  let ?c = "c\<lparr>c_state := kDisconnected\<rparr>"
  have d: "faithful c [] ?c" by (rule faithful_quiet) (simp_all add: assms(1))
  show ?thesis
  proof (cases "c_state c = kConnected \<and> t = c_tid c")
    case True
    then have "shutdownInLoop t ?c = Inr (c', es)" using assms(2) by (simp add: shutdown_def)
    then show ?thesis
      using faithful_trans [OF d shutdownInLoop_faithful [OF faithfulD [OF d]]] by simp
  next
    case False
    show ?thesis
      by (rule faithful_quiet [OF assms(1)])
        (use assms(2) False in \<open>auto simp: shutdown_def mirror_def split: if_splits\<close>)
  qed
qed

lemma sendInLoop_faithful:
  fixes es :: "'u conn_eff list"
  assumes inv: "conn_inv c" and st: "sendInLoop t w rc message c = Inr (c', es)"
  shows "faithful c es c'"
proof -
  let ?q = "content (c_out c)" and ?ev = "events (c_chan c) \<noteq> kNoneEvent"
  define direct where "direct \<longleftrightarrow> \<not> isWriting (c_chan c) \<and> readableBytes (c_out c) = 0"
  define nw where "nw = (if direct then (case w of Written n \<Rightarrow> unat n | WriteFail e \<Rightarrow> 0) else 0)"
  define pre :: "'u conn_eff list" where
    "pre = (if direct then
       (case w of
          Written n \<Rightarrow> EWrite (take (unat n) message) #
            (if unat n < length message then [] else if c_wcCb c then [EWriteCompleteQueued] else [])
        | WriteFail err \<Rightarrow> (if err \<noteq> EWOULDBLOCK then [ELogSysErr] else [])) else [])"
  have eq: "sendInLoop t w rc message c = inLoop t c
     (if nw < length message then
        bindE (append (drop nw message) (c_out c)) (\<lambda>out.
          (let c1 = c\<lparr>c_out := out\<rparr> in
           if \<not> isWriting (c_chan c1)
           then with_chan (enableWriting rc (c_chan c1)) c1 (ESend message # pre)
           else Inr (c1, ESend message # pre)))
      else Inr (c, ESend message # pre))"
    unfolding pre_def nw_def
    by (cases w; cases direct; simp add: sendInLoop_def direct_def [symmetric] Let_def cong del: if_weak_cong)
  have pre_obs: "observes (ESend message # pre) (?q, v) = Some (?q @ drop nw message, v)" for v
  proof (cases "direct \<and> (\<exists>n. w = Written n)")
    case True
    then have "?q = []" using no_readable [OF conn_invD(1) [OF inv]] by (simp add: direct_def)
    then show ?thesis using True by (auto simp: pre_def nw_def min_def)
  next
    case False
    then show ?thesis by (auto simp: pre_def nw_def split: write_outcome.splits)
  qed
  have pre_ctl: "ctls (ESend message # pre) = []"
    by (auto simp: pre_def split: write_outcome.splits)
  show ?thesis
  proof (cases "nw < length message")
    case False
    then show ?thesis
      using st inv pre_obs [of ?ev] pre_ctl unfolding eq by (auto simp: faithful_def mirror_def)
  next
    case True
    then obtain out where out: "append (drop nw message) (c_out c) = Inr out"
        and rest: "(let c1 = c\<lparr>c_out := out\<rparr> in
           if \<not> isWriting (c_chan c1)
           then with_chan (enableWriting rc (c_chan c1)) c1 (ESend message # pre)
           else Inr (c1, ESend message # pre)) = Inr (c', es)"
      using st unfolding eq by auto
    have o: "buffer_ok out" "content out = ?q @ drop nw message"
      using nb.put_sound [OF conn_invD(1) [OF inv] out] by simp_all
    have ne: "content out \<noteq> []" using o(2) True by simp
    show ?thesis
    proof (cases "isWriting (c_chan c)")
      case True
      then have e: "c' = c\<lparr>c_out := out\<rparr>" "es = ESend message # pre" using rest by simp_all
      have "conn_inv c'" using inv o(1) ne True by (simp add: e conn_inv_def)
      then show ?thesis using pre_obs [of ?ev] pre_ctl o(2) by (auto simp: faithful_def mirror_def e)
    next
      case False
      let ?c1 = "c\<lparr>c_out := out\<rparr>"
      have wc: "with_chan (updateChannel rc ((c_chan ?c1)\<lparr>events := events (c_chan c) OR kWriteEvent\<rparr>))
          ?c1 (ESend message # pre) = Inr (c', es)"
        using rest False by (simp add: enableWriting_def)
      show ?thesis
        by (rule update_faithful [OF wc, where v = ?ev])
          (use conn_invD(4) [OF inv] pre_obs [of ?ev] pre_ctl o ne in \<open>auto simp: mirror_def\<close>)
    qed
  qed
qed

lemma send_faithful:
  assumes "conn_inv c" "send t w rc message c = Inr (c', es)"
  shows "faithful c es c'"
proof (cases "c_state c = kConnected \<and> t = c_tid c")
  case True
  then show ?thesis using assms sendInLoop_faithful [OF assms(1)] by (simp add: send_def)
next
  case False
  show ?thesis
    by (rule faithful_quiet [OF assms(1)])
      (use assms(2) False in \<open>auto simp: send_def mirror_def split: if_splits\<close>)
qed

lemma do_call_faithful:
  "conn_inv c \<Longrightarrow> do_call t call c = Inr (c', es) \<Longrightarrow> faithful c es c'"
proof (cases call)
  case (CallSend w rc m)
  then show "conn_inv c \<Longrightarrow> do_call t call c = Inr (c', es) \<Longrightarrow> faithful c es c'"
    using send_faithful by simp
next
  case CallShutdown
  then show "conn_inv c \<Longrightarrow> do_call t call c = Inr (c', es) \<Longrightarrow> faithful c es c'"
    using shutdown_faithful by simp
qed (auto intro!: faithful_quiet simp: setTcpNoDelay_def mirror_def)

lemma calls_faithful:
  "conn_inv c \<Longrightarrow> run_steps (do_call t) calls c = Inr (c', es) \<Longrightarrow> faithful c es c'"
  by (rule run_faithful [OF do_call_faithful])

lemma connection_cb_faithful:
  fixes es :: "'a conn_eff list"
  assumes "conn_inv c" "connection_cb t calls c = Inr (c', es)"
  shows "faithful c es c'"
proof (cases "c_connCb c")
  case True
  then have at: "andThen (Inr (c, [EConnectionCb (connected c)])) (run_steps (do_call t) calls) = Inr (c', es)"
    using assms(2) by (simp add: connection_cb_def)
  show ?thesis
  proof (rule andThen_faithful [OF at])
    fix c1 and es1 :: "'a conn_eff list"
    assume "Inr (c, [EConnectionCb (connected c)]) = (Inr (c1, es1) :: (conn \<times> 'a conn_eff list) result)"
    then show "faithful c es1 c1"
      using assms(1) by (intro faithful_quiet) (auto simp: mirror_def)
  qed (rule calls_faithful)
qed (use assms in \<open>simp add: connection_cb_def\<close>)

lemma connectEstablished_faithful:
  assumes inv: "conn_inv c" and st: "connectEstablished t rc calls c = Inr (c', es)"
  shows "faithful c es c'"
proof -
  let ?c1 = "c\<lparr>c_state := kConnected\<rparr>"
  have k: "c_state c = kConnecting"
    and at: "andThen (with_chan (enableReading rc (c_chan ?c1)) ?c1 []) (connection_cb t calls) = Inr (c', es)"
    using st by (auto simp: connectEstablished_def)
  show ?thesis
  proof (rule andThen_faithful [OF at])
    fix c1 es1
    assume "with_chan (enableReading rc (c_chan ?c1)) ?c1 [] = Inr (c1, es1)"
    then have wc: "with_chan (updateChannel rc ((c_chan ?c1)\<lparr>events := events (c_chan c) OR kReadEvent\<rparr>))
        ?c1 [] = Inr (c1, es1)" by (simp add: enableReading_def)
    have "bit (events (c_chan c)) 2 \<longleftrightarrow> content (c_out c) \<noteq> []"
      using conn_invD(2,5) [OF inv] k
      by (cases "events (c_chan c) = kNoneEvent") (auto simp: isWriting_bit kNoneEvent_def)
    then show "faithful c es1 c1"
      by (intro update_faithful [OF wc, where v = "events (c_chan c) \<noteq> kNoneEvent"])
        (use conn_invD(1,4) [OF inv] in \<open>auto simp: mirror_def\<close>)
  qed (rule connection_cb_faithful)
qed

lemma disableAll_faithful:
  assumes "conn_inv c" "c_state c = kConnected"
    "with_chan (disableAll rc (c_chan c)) (c\<lparr>c_state := s\<rparr>) [] = Inr (c1, es)" "s \<noteq> kConnecting"
  shows "faithful c es c1"
proof -
  have wc: "with_chan (updateChannel rc ((c_chan (c\<lparr>c_state := s\<rparr>))\<lparr>events := kNoneEvent\<rparr>))
      (c\<lparr>c_state := s\<rparr>) [] = Inr (c1, es)" using assms(3) by (simp add: disableAll_def)
  show ?thesis
    by (rule update_faithful [OF wc, where v = "events (c_chan c) \<noteq> kNoneEvent"])
      (use assms conn_invD(1,4) [OF assms(1)] in \<open>auto simp: mirror_def\<close>)
qed

lemma connectDestroyed_faithful:
  assumes inv: "conn_inv c" and st: "connectDestroyed t rc1 rc2 calls c = Inr (c', es)"
  shows "faithful c es c'"
proof -
  let ?c1 = "c\<lparr>c_state := kDisconnected\<rparr>"
  have k: "c_state c = kConnected"
    and at: "andThen (andThen (with_chan (disableAll rc1 (c_chan ?c1)) ?c1 []) (connection_cb t calls))
        (\<lambda>c2. with_chan (removeChannel rc2 (c_chan c2)) c2 []) = Inr (c', es)"
    using st by (auto simp: connectDestroyed_def)
  show ?thesis
  proof (rule andThen_faithful [OF at])
    fix c1 es1
    assume at1: "andThen (with_chan (disableAll rc1 (c_chan ?c1)) ?c1 []) (connection_cb t calls) = Inr (c1, es1)"
    show "faithful c es1 c1"
      by (rule andThen_faithful [OF at1])
        (use disableAll_faithful [OF inv k, of rc1 kDisconnected] connection_cb_faithful in auto)
  qed (rule remove_faithful)
qed

lemma handleClose_faithful:
  fixes es :: "'u conn_eff list"
  assumes inv: "conn_inv c" and st: "handleClose t rc c = Inr (c', es)"
  shows "faithful c es c'"
proof -
  have k: "c_state c = kConnected" and at: "andThen (with_chan (disableAll rc (c_chan c)) c [])
      (\<lambda>c1. Inr (c1, if c_closeCb c1 then [ECloseCb] else [])) = Inr (c', es)"
    using st by (simp_all add: handleClose_def)
  have id: "c\<lparr>c_state := kConnected\<rparr> = c" using k by simp
  show ?thesis
  proof (rule andThen_faithful [OF at])
    show "with_chan (disableAll rc (c_chan c)) c [] = Inr (c1, es1) \<Longrightarrow> faithful c es1 c1"
      for c1 and es1 :: "'u conn_eff list"
      using disableAll_faithful [OF inv k, of rc kConnected, unfolded id] by simp
  qed (auto intro!: faithful_quiet simp: mirror_def split: if_splits)
qed

lemma input_faithful: "conn_inv c \<Longrightarrow> faithful c [] (c\<lparr>c_in := b\<rparr>)"
  by (rule faithful_quiet) simp_all

lemma handleRead_faithful:
  assumes inv: "conn_inv c" and st: "handleRead t rv rc mcb c = Inr (c', es)"
  shows "faithful c es c'"
proof -
  from st obtain n e b where st': "(let c1 = c\<lparr>c_in := b\<rparr> in
        if 0 < n then
          (if c_msgCb c1 then
             bindE (mcb (c_in c1)) (\<lambda>(b', calls).
               run_steps (do_call t) calls (c1\<lparr>c_in := b'\<rparr>))
           else Inr (c1, []))
        else if n = (0::int) then handleClose t rc c1
        else handleError c1) = Inr (c', es)"
    by (auto simp: handleRead_def)
  note i = input_faithful [OF inv]
  consider "0 < n" "c_msgCb c" | "0 < n" "\<not> c_msgCb c" | "n = 0" | "n < 0" by linarith
  then show ?thesis
  proof cases
    case 1
    then obtain b' calls where "run_steps (do_call t) calls (c\<lparr>c_in := b'\<rparr>) = Inr (c', es)"
      using st' by (auto simp: Let_def)
    then show ?thesis using faithful_trans [OF i calls_faithful [OF faithfulD [OF i]]] by fastforce
  next
    case 2
    then show ?thesis using st' i by (auto simp: Let_def)
  next
    case 3
    then have "handleClose t rc (c\<lparr>c_in := b\<rparr>) = Inr (c', es)" using st' by simp
    then show ?thesis using faithful_trans [OF i handleClose_faithful [OF faithfulD [OF i]]] by fastforce
  next
    case 4
    then have "handleError (c\<lparr>c_in := b\<rparr>) = Inr (c', es)" using st' by simp
    then show ?thesis using inv
      by (intro faithful_quiet) (auto simp: handleError_def mirror_def)
  qed
qed

lemma handleWrite_faithful:
  fixes es :: "'u conn_eff list"
  assumes inv: "conn_inv c" and st: "handleWrite t w rc c = Inr (c', es)"
  shows "faithful c es c'"
proof (cases "\<exists>n. w = Written n \<and> 0 < n \<and> isWriting (c_chan c)")
  case False
  then have "c' = c" "es = [] \<or> es = [ELogSysErr]"
    using st by (cases w; auto simp: handleWrite_def split: if_splits)+
  then show ?thesis by (auto intro!: faithful_quiet simp: inv mirror_def)
next
  case True
  then obtain n where w: "w = Written n" "0 < n" "isWriting (c_chan c)" by blast
  let ?q = "content (c_out c)"
  note ok = conn_invD(1) [OF inv]
  have "peek_string (readableBytes (c_out c)) (c_out c) = Inr ?q"
    using peek_string_ok [OF ok, of "readableBytes (c_out c)"] by (simp add: length_content ok)
  then obtain out where out: "retrieve n (c_out c) = Inr out"
      and rest: "(let c1 = c\<lparr>c_out := out\<rparr> in
        if readableBytes (c_out c1) = 0 then
          andThen (with_chan (disableWriting rc (c_chan c1)) c1 [EWrite (take (unat n) ?q)])
            (\<lambda>c2. if c_state c2 = kDisconnected then shutdownInLoop t c2 else Inr (c2, []))
        else Inr (c1, [EWrite (take (unat n) ?q)])) = Inr (c', es)"
    using st w by (auto simp: handleWrite_def)
  note o = nb.take_eq [OF ok out]
  let ?c1 = "c\<lparr>c_out := out\<rparr>"
  have obs: "observes [EWrite (take (unat n) ?q)] (mirror c) =
      Some (content out, events (c_chan c) \<noteq> kNoneEvent)"
    using o by (simp add: mirror_def min_def)
  show ?thesis
  proof (cases "content out = []")
    case False
    then have e: "c' = ?c1" "es = [EWrite (take (unat n) ?q)]"
      using rest o by (simp_all add: no_readable)
    have "conn_inv ?c1" using inv o False w(3) by (simp add: conn_inv_def)
    then show ?thesis using obs o by (auto simp: faithful_def e mirror_def min_absorb2)
  next
    case True
    then have at: "andThen (with_chan (disableWriting rc (c_chan ?c1)) ?c1 [EWrite (take (unat n) ?q)])
            (\<lambda>c2. if c_state c2 = kDisconnected then shutdownInLoop t c2 else Inr (c2, [])) = Inr (c', es)"
      using rest o by (simp add: no_readable)
    show ?thesis
    proof (rule andThen_faithful [OF at])
      fix c1 and es1 :: "'u conn_eff list"
      assume "with_chan (disableWriting rc (c_chan ?c1)) ?c1 [EWrite (take (unat n) ?q)] = Inr (c1, es1)"
      then have wc: "with_chan (updateChannel rc ((c_chan ?c1)\<lparr>events := events (c_chan c) AND NOT kWriteEvent\<rparr>))
          ?c1 [EWrite (take (unat n) ?q)] = Inr (c1, es1)" by (simp add: disableWriting_def)
      show "faithful c es1 c1"
        by (rule update_faithful [OF wc]) (use obs o True conn_invD(4) [OF inv] in auto)
    qed (auto split: if_splits intro: shutdownInLoop_faithful)
  qed
qed

lemma conn_callback_faithful:
  "conn_inv c \<Longrightarrow> conn_callback t env cb c = Inr (c', es) \<Longrightarrow> faithful c es c'"
  by (cases cb) (auto intro: handleRead_faithful handleWrite_faithful handleClose_faithful
      faithful_quiet simp: handleError_def mirror_def)

lemma chan_flag_faithful:
  assumes "conn_inv c" "ch' = (c_chan c)\<lparr>revents := r, eventHandling := h\<rparr>"
  shows "faithful c [] (c\<lparr>c_chan := ch'\<rparr>)"
  using assms by (auto simp: faithful_def conn_inv_def mirror_def registered_def isWriting_bit)

lemma handleEvent_faithful:
  fixes es :: "'u conn_eff list"
  assumes inv: "conn_inv c"
    and st: "handleEvent c_chan (\<lambda>ch c. c\<lparr>c_chan := ch\<rparr>) (conn_callback t env)
      (c\<lparr>c_chan := set_revents revt (c_chan c)\<rparr>) = Inr (c', es)"
  shows "faithful c es c'"
proof -
  let ?c0 = "c\<lparr>c_chan := set_revents revt (c_chan c)\<rparr>"
  let ?c1 = "?c0\<lparr>c_chan := (c_chan ?c0)\<lparr>eventHandling := True\<rparr>\<rparr>"
  from st obtain c2 where run: "run_steps (conn_callback t env) (fired (c_chan ?c0)) ?c1 = Inr (c2, es)"
      and c': "c' = c2\<lparr>c_chan := (c_chan c2)\<lparr>eventHandling := False\<rparr>\<rparr>"
    by (auto simp: handleEvent_def)
  have f1: "faithful c [] ?c1"
    using chan_flag_faithful [OF inv refl, where r = revt and h = True] by (simp add: set_revents_def)
  have f2: "faithful ?c1 es c2"
    by (rule run_faithful [OF conn_callback_faithful faithfulD [OF f1] run])
  have f3: "faithful c2 [] c'"
    using chan_flag_faithful [OF faithfulD [OF f2] refl, where r = "revents (c_chan c2)" and h = False]
    by (simp add: c')
  show ?thesis using faithful_trans [OF faithful_trans [OF f1 f2] f3] by simp
qed

lemma conn_step_faithful:
  assumes "conn_inv c" "conn_step e c = Inr (c', es)"
  shows "faithful c es c'"
proof (cases e)
  case (Event revt env)
  then show ?thesis using assms handleEvent_faithful [OF assms(1)] by simp
next
  case (RunTask task w rc)
  then show ?thesis
    using assms sendInLoop_faithful [OF assms(1)] shutdownInLoop_faithful [OF assms(1)]
    by (cases task) auto
qed (use assms connectEstablished_faithful [OF assms(1)] connectDestroyed_faithful [OF assms(1)]
      do_call_faithful [OF assms(1)] in auto)

lemma conn_run_faithful:
  "conn_inv c \<Longrightarrow> run_steps conn_step ops c = Inr (c', es) \<Longrightarrow> faithful c es c'"
  by (rule run_faithful [OF conn_step_faithful])

interpretation cm: machine conn_step conn_inv
  by unfold_locales (rule faithfulD [OF conn_step_faithful])

lemma conn_new_inv [simp]: "conn_inv (TcpConnection_new loop_tid nm fd)"
  by (simp add: conn_inv_def TcpConnection_new_def Channel_new_def kNoneEvent_def kNew_def)

lemma set_callbacks_inv [simp]:
  "conn_inv (setConnectionCallback c) = conn_inv c" "conn_inv (setMessageCallback c) = conn_inv c"
  "conn_inv (setCloseCallback c) = conn_inv c" "conn_inv (setWriteCompleteCallback c) = conn_inv c"
  by (simp_all add: conn_inv_def setConnectionCallback_def setMessageCallback_def
      setCloseCallback_def setWriteCompleteCallback_def)

text \<open>A connection with all four callbacks set, as the server and the client make it.\<close>

definition fresh_conn :: "int \<Rightarrow> string \<Rightarrow> int \<Rightarrow> conn" where
  "fresh_conn loop_tid nm fd =
     setCloseCallback (setWriteCompleteCallback (setMessageCallback (setConnectionCallback
       (TcpConnection_new loop_tid nm fd))))"

lemma fresh_conn_inv [simp]: "conn_inv (fresh_conn t nm fd)"
  by (simp add: fresh_conn_def)

lemmas conn_evals = fresh_conn_def TcpConnection_new_def setConnectionCallback_def
  setMessageCallback_def setCloseCallback_def setWriteCompleteCallback_def Channel_new_def
  connectEstablished_def connection_cb_def andThen_def with_chan_def poller_updates
  updateChannel_def update_def kNew_def kAdded_def inLoop_def send_def sendInLoop_def
  isWriting_def isNoneEvent_def readableBytes_def writableBytes_def Buffer_new_def
  kCheapPrepend_def kInitialSize_def poll_bits append_def ensureWritableBytes_def Let_def
  write_at_def hasWritten_def beginWrite_def handleEvent_def set_revents_def fired_def
  handleWrite_def shutdown_def shutdownInLoop_def peek_string_def read_at_def peek_def retrieve_def
  retrieveAll_def overwrite_def connected_def handleClose_def connectDestroyed_def
  removeChannel_def assertE_def

section \<open>Properties\<close>

text \<open>C1: No byte is lost, duplicated or reordered on the sending side. Over any sequence of
  operations that does not fault (sends from the loop or from other threads, partial or failing
  writes, events in any order, shutdown, close), the bytes pending at the start followed by all
  messages handed to \<open>sendInLoop\<close> are exactly the bytes the kernel accepted followed by what is
  left in the output buffer.\<close>

theorem stream_integrity:
  assumes "conn_inv c" and "run_steps conn_step ops c = Inr (c', es)"
  shows "content (c_out c) @ sent es = wire es @ content (c_out c')"
  using conn_run_faithful [OF assms] observes_balance
  by (fastforce simp: faithful_def mirror_def)

theorem stream_integrity_witness:
  "\<exists>c' es. run_steps conn_step
       [Establish 0 [CallSend (Written 2) 0 [1, 2, 3 :: byte], CallSend (WriteFail 11) 0 [4, 5]],
        Event 4 \<lparr>env_read = ReadFail 11, env_msg = (\<lambda>b. Inr (b, [])), env_write = Written 2,
                 env_rcClose = 0, env_rcRead = 0, env_rcWrite = 0\<rparr>]
       (fresh_conn 5 ''c'' 7) = Inr (c', es :: unit conn_eff list) \<and>
     wire es = [1, 2, 3, 4] \<and> sent es = [1, 2, 3, 4, 5] \<and>
     content (c_out (fresh_conn 5 ''c'' 7)) @ sent es = wire es @ content (c_out c')"
proof -
  let ?ops = "[Establish 0 [CallSend (Written 2) 0 [1, 2, 3 :: byte], CallSend (WriteFail 11) 0 [4, 5]],
        Event 4 \<lparr>env_read = ReadFail 11, env_msg = (\<lambda>b. Inr (b, [])), env_write = Written 2,
                 env_rcClose = 0, env_rcRead = 0, env_rcWrite = 0\<rparr>] :: unit conn_op list"
  have "\<exists>c' es. run_steps conn_step ?ops (fresh_conn 5 ''c'' 7) = Inr (c', es) \<and>
      wire es = [1, 2, 3, 4] \<and> sent es = [1, 2, 3, 4, 5]"
    by (simp add: conn_evals)
  then show ?thesis using stream_integrity [OF fresh_conn_inv] by blast
qed

text \<open>The descriptor is watched after the \<open>epoll_ctl\<close> calls of a sequence of effects.\<close>

fun watched :: "'u conn_eff list \<Rightarrow> bool \<Rightarrow> bool" where
  "watched [] w = w"
| "watched (ECtl (Ctl operation fd ev) # es) w =
     watched es (operation \<noteq> EPOLL_CTL_DEL \<and> ev \<noteq> kNoneEvent)"
| "watched (_ # es) w = watched es w"

lemma observes_watched: "observes es (q, w) = Some (q', w') \<Longrightarrow> w' = watched es w"
  by (induction es w arbitrary: q rule: watched.induct) (auto split: if_splits)

text \<open>C14: The half-close never overtakes data. Whenever the socket is shut down for writing while
  its descriptor is watched, every byte handed to \<open>sendInLoop\<close> so far has been accepted by the
  kernel.\<close>

theorem shutdown_after_flush:
  assumes "run_steps conn_step ops (fresh_conn tid nm fd) = Inr (c', pre @ EShutdownWr # post)"
    and "watched pre False"
  shows "sent pre = wire pre"
proof -
  have m: "mirror (fresh_conn tid nm fd) = ([], False)"
    by (simp add: mirror_def fresh_conn_def TcpConnection_new_def setConnectionCallback_def
        setMessageCallback_def setCloseCallback_def setWriteCompleteCallback_def Channel_new_def
        kNoneEvent_def)
  have "observes (pre @ EShutdownWr # post) ([], False) = Some (mirror c')"
    using conn_run_faithful [OF fresh_conn_inv assms(1)] by (simp add: faithful_def m)
  then obtain q w where pre: "observes pre ([], False) = Some (q, w)"
      and fin: "observe EShutdownWr (q, w) \<noteq> None"
    by (auto split: option.splits)
  have "q = []" using fin assms(2) observes_watched [OF pre] by (auto split: if_splits)
  then show ?thesis using observes_balance [OF pre] by simp
qed

theorem shutdown_after_flush_witness:
  "\<exists>c' pre. run_steps conn_step
       [Establish 0 [CallSend (Written 2) 0 [1, 2, 3 :: byte], CallShutdown],
        Event 4 \<lparr>env_read = ReadFail 11, env_msg = (\<lambda>b. Inr (b, [])), env_write = Written 1,
                 env_rcClose = 0, env_rcRead = 0, env_rcWrite = 0\<rparr>]
       (fresh_conn 5 ''c'' 7) = Inr (c', pre @ EShutdownWr # []) \<and>
     watched (pre :: unit conn_eff list) False \<and> wire pre = [1, 2, 3] \<and> sent pre = wire pre"
proof -
  let ?ops = "[Establish 0 [CallSend (Written 2) 0 [1, 2, 3 :: byte], CallShutdown],
        Event 4 \<lparr>env_read = ReadFail 11, env_msg = (\<lambda>b. Inr (b, [])), env_write = Written 1,
                 env_rcClose = 0, env_rcRead = 0, env_rcWrite = 0\<rparr>] :: unit conn_op list"
  let ?pre = "[ECtl (Ctl EPOLL_CTL_ADD 7 3), EConnectionCb True, ESend [1, 2, 3], EWrite [1, 2],
      ECtl (Ctl EPOLL_CTL_MOD 7 7), EWrite [3], ECtl (Ctl EPOLL_CTL_MOD 7 3)] :: unit conn_eff list"
  have run: "\<exists>c'. run_steps conn_step ?ops (fresh_conn 5 ''c'' 7) = Inr (c', ?pre @ EShutdownWr # [])"
    by (simp add: conn_evals)
  have w: "watched ?pre False" by (simp add: kNoneEvent_def)
  have "wire ?pre = [1, 2, 3]" by simp
  then show ?thesis using run w shutdown_after_flush [OF _ w] by blast
qed

text \<open>C7: The calls of \<open>epoll_ctl\<close> that a connection makes over its life obey the rules of the
  interest list (no ADD of a registered descriptor, no MOD or DEL of an unregistered one), and
  after them the descriptor is registered exactly when the channel's index says so, with the
  channel's events.\<close>

theorem epoll_protocol:
  assumes "run_steps conn_step ops (fresh_conn tid nm fd) = Inr (c', es)"
  shows "ctl_legal (ctls es) Map.empty \<and>
         interest (ctls es) Map.empty = Map.empty(fd := registered (c_chan c'))"
proof -
  have "registered (c_chan (fresh_conn tid nm fd)) = None" "ch_fd (c_chan (fresh_conn tid nm fd)) = fd"
    by (simp_all add: conn_evals registered_def)
  then show ?thesis
    using conn_run_faithful [OF fresh_conn_inv assms] by (simp add: faithful_def)
qed

theorem epoll_protocol_witness:
  "\<exists>c' es. run_steps conn_step
       [Establish 0 [], Event 1 \<lparr>env_read = ReadBytes [], env_msg = (\<lambda>b. Inr (b, [])),
          env_write = Written 1, env_rcClose = 0, env_rcRead = 0, env_rcWrite = 0\<rparr>, Destroy 0 0 []]
       (fresh_conn 5 ''c'' 7) = Inr (c', es :: unit conn_eff list) \<and>
     ctls es = [Ctl EPOLL_CTL_ADD 7 3, Ctl EPOLL_CTL_DEL 7 0, Ctl EPOLL_CTL_ADD 7 0,
                Ctl EPOLL_CTL_DEL 7 0] \<and>
     ctl_legal (ctls es) Map.empty \<and>
     interest (ctls es) Map.empty = Map.empty(7 := registered (c_chan c'))"
proof -
  let ?ops = "[Establish 0 [], Event 1 \<lparr>env_read = ReadBytes [], env_msg = (\<lambda>b. Inr (b, [])),
          env_write = Written 1, env_rcClose = 0, env_rcRead = 0, env_rcWrite = 0\<rparr>, Destroy 0 0 []]
          :: unit conn_op list"
  have "\<exists>c' es. run_steps conn_step ?ops (fresh_conn 5 ''c'' 7) = Inr (c', es) \<and>
     ctls es = [Ctl EPOLL_CTL_ADD 7 3, Ctl EPOLL_CTL_DEL 7 0, Ctl EPOLL_CTL_ADD 7 0,
                Ctl EPOLL_CTL_DEL 7 0]"
    by (simp add: conn_evals handleRead_def readFd_def)
  then show ?thesis using epoll_protocol [of ?ops 5 "''c''" 7] by blast
qed

section \<open>Progress\<close>

lemma update_succeeds:
  "0 \<le> rc \<Longrightarrow> ch_index ch = kNew \<or> ch_index ch = kAdded \<Longrightarrow>
     \<exists>cs. updateChannel rc ch = Inr (ch\<lparr>ch_index :=
        (if isNoneEvent ch \<and> ch_index ch = kAdded then kNew else kAdded)\<rparr>, cs) \<and> length cs = 1"
  by (auto simp: updateChannel_def update_def Let_def)

lemma writing_added: "conn_inv c \<Longrightarrow> isWriting (c_chan c) \<Longrightarrow> ch_index (c_chan c) = kAdded"
  by (auto simp: conn_inv_def)

text \<open>One write that the kernel accepts, in part or in full.\<close>

lemma handleWrite_written:
  fixes es :: "'u conn_eff list"
  assumes inv: "conn_inv c" and wr: "isWriting (c_chan c)" and rc: "0 \<le> rc"
    and n: "0 < n" "unat n \<le> length (content (c_out c))"
  shows "\<exists>c' cs. handleWrite (c_tid c) (Written n) rc c = Inr (c', [EWrite (take (unat n) (content (c_out c)))]
             @ map ECtl cs @ (if unat n = length (content (c_out c)) \<and> c_state c = kDisconnected
                              then [EShutdownWr :: 'u conn_eff] else [])) \<and>
           content (c_out c') = drop (unat n) (content (c_out c)) \<and>
           c_state c' = c_state c \<and> c_tid c' = c_tid c \<and> conn_inv c' \<and>
           (content (c_out c') \<noteq> [] \<longrightarrow> isWriting (c_chan c'))"
proof -
  let ?q = "content (c_out c)"
  note ok = conn_invD(1) [OF inv]
  have pk: "peek_string (readableBytes (c_out c)) (c_out c) = Inr ?q"
    using peek_string_ok [OF ok, of "readableBytes (c_out c)"] by (simp add: length_content ok)
  obtain out where out: "retrieve n (c_out c) = Inr out" "buffer_ok out" "content out = drop (unat n) ?q"
    using nb.take_law [OF ok n(2)] by blast
  let ?c1 = "c\<lparr>c_out := out\<rparr>"
  show ?thesis
  proof (cases "unat n = length ?q")
    case False
    then have ne: "content out \<noteq> []" using n(2) out(3) by simp
    have eq: "handleWrite (c_tid c) (Written n) rc c = Inr (?c1, [EWrite (take (unat n) ?q)] :: 'u conn_eff list)"
      using pk out ne n(1) wr by (simp add: handleWrite_def inLoop_def no_readable)
    have "conn_inv ?c1" using inv out(2) ne wr by (simp add: conn_inv_def)
    then show ?thesis using eq False out(3) wr
      by (intro exI [of _ ?c1] exI [of _ "[]"]) simp
  next
    case True
    then have e: "content out = []" using out(3) by simp
    let ?ch = "(c_chan c)\<lparr>events := events (c_chan c) AND NOT kWriteEvent\<rparr>"
    obtain cs where cs: "updateChannel rc ?ch = Inr (?ch\<lparr>ch_index :=
        (if isNoneEvent ?ch \<and> ch_index ?ch = kAdded then kNew else kAdded)\<rparr>, cs)"
      using update_succeeds [OF rc, of ?ch] writing_added [OF inv wr] by auto
    let ?c' = "?c1\<lparr>c_chan := ?ch\<lparr>ch_index :=
        (if isNoneEvent ?ch \<and> ch_index ?ch = kAdded then kNew else kAdded)\<rparr>\<rparr>"
    have nw: "\<not> isWriting (c_chan ?c')" by (simp add: isWriting_bit)
    have eq: "handleWrite (c_tid c) (Written n) rc c = Inr (?c', [EWrite (take (unat n) ?q)] @ map ECtl cs
        @ (if c_state c = kDisconnected then [EShutdownWr :: 'u conn_eff] else []))"
      using pk out e n(1) wr cs nw
      by (simp add: handleWrite_def inLoop_def no_readable with_chan_def disableWriting_def
          andThen_def shutdownInLoop_def)
    have "conn_inv ?c'"
      using handleWrite_faithful [OF inv eq] by (rule faithfulD)
    then show ?thesis using eq True e by (intro exI [of _ ?c'] exI [of _ cs]) simp
  qed
qed

lemma wire_simps [simp]:
  "wire (es @ fs) = wire es @ wire fs" "wire (map ECtl cs) = []"
proof -
  show "wire (es @ fs) = wire es @ wire fs" by (induction es rule: wire.induct) simp_all
  show "wire (map ECtl cs) = []" by (induction cs) simp_all
qed

lemma sum_pos_words:
  "\<forall>n\<in>set ns. (0::size_t) < n \<Longrightarrow> ns \<noteq> [] \<Longrightarrow> 0 < sum_list (map unat ns)"
  by (cases ns) (auto simp: word_greater_zero_iff unat_gt_0)

text \<open>C15: Draining. When the descriptor keeps becoming writable and the kernel keeps accepting
  bytes, \<open>handleWrite\<close> writes exactly the pending bytes, then stops watching for writability, and
  half-closes the socket exactly when \<open>shutdown\<close> was called in the meantime. The write-complete
  callback is never queued on this path.\<close>

theorem drain_completes:
  fixes ns :: "size_t list" and c :: conn
  assumes "conn_inv c" "isWriting (c_chan c)" "0 \<le> rc"
    and "\<forall>n\<in>set ns. 0 < n" "sum_list (map unat ns) = length (content (c_out c))"
  shows "\<exists>c' es. run_steps (\<lambda>n c. handleWrite (c_tid c) (Written n) rc c) ns c =
             Inr (c', es :: 'u conn_eff list) \<and>
           wire es = content (c_out c) \<and> content (c_out c') = [] \<and> conn_inv c' \<and>
           (EShutdownWr \<in> set es \<longleftrightarrow> c_state c = kDisconnected) \<and>
           EWriteCompleteQueued \<notin> set es"
  using assms
proof (induction ns arbitrary: c)
  case Nil
  then have "content (c_out c) \<noteq> []"
    using conn_invD(2) [OF Nil.prems(1)] not_writing_none by blast
  then show ?case using Nil.prems(5) by simp
next
  case (Cons n ns)
  let ?q = "content (c_out c)"
  have n: "0 < n" "unat n \<le> length ?q" using Cons.prems(4,5) by auto
  obtain c1 cs where st: "handleWrite (c_tid c) (Written n) rc c = Inr (c1, [EWrite (take (unat n) ?q)]
             @ map ECtl cs @ (if unat n = length ?q \<and> c_state c = kDisconnected
                              then [EShutdownWr :: 'u conn_eff] else []))"
      and c1: "content (c_out c1) = drop (unat n) ?q" "c_state c1 = c_state c" "conn_inv c1"
        "content (c_out c1) \<noteq> [] \<longrightarrow> isWriting (c_chan c1)"
    using handleWrite_written [OF Cons.prems(1-3) n] by blast
  show ?case
  proof (cases "ns = []")
    case True
    then have "unat n = length ?q" using Cons.prems(5) by simp
    then show ?thesis using st c1 True by auto
  next
    case False
    then have "unat n < length ?q" using Cons.prems(4,5) sum_pos_words [of ns] by simp
    moreover have sum: "sum_list (map unat ns) = length (content (c_out c1))"
      using Cons.prems(5) c1(1) by simp
    moreover have "isWriting (c_chan c1)" using c1(1,4) calculation by simp
    ultimately obtain c2 es where "run_steps (\<lambda>n c. handleWrite (c_tid c) (Written n) rc c) ns c1 =
             Inr (c2, es :: 'u conn_eff list)" "wire es = content (c_out c1)" "content (c_out c2) = []"
           "conn_inv c2" "EShutdownWr \<in> set es \<longleftrightarrow> c_state c1 = kDisconnected"
           "EWriteCompleteQueued \<notin> set es"
      using Cons.IH [OF c1(3) _ Cons.prems(3) _ sum] Cons.prems(4) by auto
    then show ?thesis using st c1(1,2) False \<open>unat n < length ?q\<close> by auto
  qed
qed

theorem drain_completes_witness:
  "\<exists>c c' es. content (c_out c) = [3, 4, 5] \<and> c_state c = kDisconnected \<and>
     run_steps (\<lambda>n c. handleWrite (c_tid c) (Written n) 0 c) [1, 2] c =
       Inr (c', es :: unit conn_eff list) \<and>
     wire es = content (c_out c) \<and> content (c_out c') = [] \<and> EShutdownWr \<in> set es"
proof -
  let ?ops = "[Establish 0 [CallSend (Written 2) 0 [1, 2, 3, 4, 5 :: byte], CallShutdown]]
      :: unit conn_op list"
  obtain c es where run: "run_steps conn_step ?ops (fresh_conn 5 ''c'' 7) = Inr (c, es)"
      and c: "content (c_out c) = [3, 4, 5]" "isWriting (c_chan c)" "c_state c = kDisconnected"
    by (simp add: conn_evals content_def)
  have "conn_inv c" using cm.run_inv [OF fresh_conn_inv run] .
  then show ?thesis
    using drain_completes [of c 0 "[1, 2]", where 'u = unit] c by fastforce
qed

text \<open>The second half of \<open>sendInLoop\<close>: what was not written is kept.\<close>

lemma send_tail:
  fixes c :: conn and effs :: "'u conn_eff list"
  assumes inv: "conn_inv c" and on: "events (c_chan c) \<noteq> kNoneEvent" and rc: "0 \<le> rc"
    and rm: "room (c_out c) (length m)"
  shows "\<exists>c' cs. (if k < length m then
          bindE (append (drop k m) (c_out c)) (\<lambda>out.
            (let c1 = c\<lparr>c_out := out\<rparr> in
             if \<not> isWriting (c_chan c1)
             then with_chan (enableWriting rc (c_chan c1)) c1 (ESend m # effs)
             else Inr (c1, ESend m # effs)))
        else Inr (c, ESend m # effs)) = Inr (c', ESend m # effs @ map ECtl cs) \<and>
      content (c_out c') = content (c_out c) @ drop k m \<and>
      (isWriting (c_chan c') \<longleftrightarrow> isWriting (c_chan c) \<or> k < length m) \<and>
      (isWriting (c_chan c) \<longrightarrow> cs = [])"
proof (cases "k < length m")
  case k: True
  have "room (c_out c) (length (drop k m))" using rm by (simp add: room_def)
  then obtain b where b: "append (drop k m) (c_out c) = Inr b" "content b = content (c_out c) @ drop k m"
    using append_ok [OF conn_invD(1) [OF inv]] by blast
  let ?ch = "(c_chan c)\<lparr>events := events (c_chan c) OR kWriteEvent\<rparr>"
  have idx: "ch_index (c_chan c) = kAdded" using conn_invD(3,4) [OF inv] on by auto
  obtain cs where cs: "updateChannel rc ?ch = Inr (?ch\<lparr>ch_index :=
      (if isNoneEvent ?ch \<and> ch_index ?ch = kAdded then kNew else kAdded)\<rparr>, cs)"
    using update_succeeds [OF rc, of ?ch] idx by auto
  show ?thesis
  proof (cases "isWriting (c_chan c)")
    case True
    then show ?thesis using b k by (intro exI [of _ "c\<lparr>c_out := b\<rparr>"] exI [of _ "[]"]) (simp add: Let_def)
  next
    case False
    then show ?thesis using b cs k
      by (simp add: Let_def with_chan_def enableWriting_def isWriting_bit) (rule exI [of _ cs], rule refl)
  qed
qed (intro exI [of _ c] exI [of _ "[]"], simp)

lemma sendInLoop_succeeds:
  assumes "conn_inv c" "events (c_chan c) \<noteq> kNoneEvent" "0 \<le> rc" "room (c_out c) (length m)"
  shows "\<exists>c' es. sendInLoop (c_tid c) w rc m c = Inr (c', es :: 'u conn_eff list)"
proof -
  obtain k and effs :: "'u conn_eff list" where
    "(if \<not> isWriting (c_chan c) \<and> readableBytes (c_out c) = 0 then
           (case w of
              Written n \<Rightarrow>
                (unat n, EWrite (take (unat n) m) #
                    (if unat n < length m then []
                     else if c_wcCb c then [EWriteCompleteQueued] else []))
            | WriteFail err \<Rightarrow> (0, if err \<noteq> EWOULDBLOCK then [ELogSysErr] else []))
         else (0, [])) = (k, effs)" by (rule that [OF surjective_pairing])
  then show ?thesis using send_tail [OF assms, of k effs]
    by (simp only: sendInLoop_def inLoop_def prod.case Let_def if_True simp_thms) blast
qed

text \<open>Every branch of \<open>sendInLoop\<close>.\<close>

lemma sendInLoop_branches:
  fixes c :: conn
  assumes inv: "conn_inv c" and on: "events (c_chan c) \<noteq> kNoneEvent" and rc: "0 \<le> rc"
    and rm: "room (c_out c) (length m)"
  shows "\<exists>c' es. sendInLoop (c_tid c) w rc m c = Inr (c', es :: 'u conn_eff list) \<and> conn_inv c' \<and>
     (let q = content (c_out c); q' = content (c_out c') in
      if q \<noteq> [] then es = [ESend m] \<and> q' = q @ m
      else (case w of
          Written n \<Rightarrow> wire es = take (unat n) m \<and> q' = drop (unat n) m \<and> ELogSysErr \<notin> set es \<and>
            (EWriteCompleteQueued \<in> set es \<longleftrightarrow> length m \<le> unat n \<and> c_wcCb c)
        | WriteFail err \<Rightarrow> wire es = [] \<and> q' = m \<and> EWriteCompleteQueued \<notin> set es \<and>
            (ELogSysErr \<in> set es \<longleftrightarrow> err \<noteq> EWOULDBLOCK)) \<and>
           (isWriting (c_chan c') \<longleftrightarrow> q' \<noteq> []))"
proof -
  note ok = conn_invD(1) [OF inv]
  have wq: "isWriting (c_chan c) \<longleftrightarrow> content (c_out c) \<noteq> []" using conn_invD(2) [OF inv on] .
  note tail = send_tail [OF inv on rc rm]
  have ex: "\<exists>c' es. sendInLoop (c_tid c) w rc m c = Inr (c', es :: 'u conn_eff list) \<and>
     (let q = content (c_out c); q' = content (c_out c') in
      if q \<noteq> [] then es = [ESend m] \<and> q' = q @ m
      else (case w of
          Written n \<Rightarrow> wire es = take (unat n) m \<and> q' = drop (unat n) m \<and> ELogSysErr \<notin> set es \<and>
            (EWriteCompleteQueued \<in> set es \<longleftrightarrow> length m \<le> unat n \<and> c_wcCb c)
        | WriteFail err \<Rightarrow> wire es = [] \<and> q' = m \<and> EWriteCompleteQueued \<notin> set es \<and>
            (ELogSysErr \<in> set es \<longleftrightarrow> err \<noteq> EWOULDBLOCK)) \<and>
           (isWriting (c_chan c') \<longleftrightarrow> q' \<noteq> []))"
  proof (cases "content (c_out c) = []")
    case False
    then show ?thesis using tail [of 0 "[] :: 'u conn_eff list"] wq
      by (fastforce simp: sendInLoop_def inLoop_def no_readable ok)
  next
    case e: True
    then have d: "\<not> isWriting (c_chan c) \<and> readableBytes (c_out c) = 0" using wq by (simp add: no_readable ok)
    show ?thesis
    proof (cases w)
      case (WriteFail err)
      then show ?thesis using tail [of 0 "if err \<noteq> EWOULDBLOCK then [ELogSysErr :: 'u conn_eff] else []"] d e
        by (fastforce simp: sendInLoop_def inLoop_def)
    next
      case (Written n)
      then show ?thesis using tail [of "unat n" "(EWrite (take (unat n) m) :: 'u conn_eff) #
            (if unat n < length m then [] else if c_wcCb c then [EWriteCompleteQueued] else [])"] d e
        by (fastforce simp: sendInLoop_def inLoop_def)
    qed
  qed
  then show ?thesis using sendInLoop_faithful [OF inv] faithfulD by blast
qed

text \<open>\<open>sendInLoop\<close> on a watched connection, every branch. With bytes pending it writes
  nothing and queues the message behind them; with none it writes at once, keeps exactly what the
  kernel did not take (everything, after an error), watches for writability exactly if something
  is left, queues the write-complete callback exactly after a complete write, and logs exactly
  the errors other than EWOULDBLOCK.\<close>

theorem sendInLoop_outcome:
  fixes c :: conn
  assumes inv: "conn_inv c" and on: "events (c_chan c) \<noteq> kNoneEvent" and rc: "0 \<le> rc"
    and rm: "room (c_out c) (length m)"
  shows "\<exists>c' es. sendInLoop (c_tid c) w rc m c = Inr (c', es :: 'u conn_eff list) \<and> conn_inv c' \<and>
     (let q = content (c_out c); q' = content (c_out c') in
      if q \<noteq> [] then es = [ESend m] \<and> q' = q @ m
      else (case w of
          Written n \<Rightarrow> wire es = take (unat n) m \<and> q' = drop (unat n) m \<and> ELogSysErr \<notin> set es \<and>
            (EWriteCompleteQueued \<in> set es \<longleftrightarrow> length m \<le> unat n \<and> c_wcCb c)
        | WriteFail err \<Rightarrow> wire es = [] \<and> q' = m \<and> EWriteCompleteQueued \<notin> set es \<and>
            (ELogSysErr \<in> set es \<longleftrightarrow> err \<noteq> EWOULDBLOCK)) \<and>
           (isWriting (c_chan c') \<longleftrightarrow> q' \<noteq> []))"
  using sendInLoop_branches [OF assms] .

theorem sendInLoop_outcome_witness:
  "\<exists>c c' es. c_state c = kConnected \<and> content (c_out c) = [] \<and>
     sendInLoop (c_tid c) (Written 2) 0 [1, 2, 3] c = Inr (c', es :: unit conn_eff list) \<and>
     wire es = [1, 2] \<and> content (c_out c') = [3] \<and> isWriting (c_chan c') \<and>
     EWriteCompleteQueued \<notin> set es"
proof -
  obtain c and es :: "unit conn_eff list" where
      run: "run_steps conn_step [Establish 0 []] (fresh_conn 5 ''c'' 7) = Inr (c, es)"
      and c: "c_state c = kConnected" "content (c_out c) = []" "events (c_chan c) \<noteq> kNoneEvent"
        "unat (writerIndex (c_out c)) = 8"
    by (simp add: conn_evals content_def)
  have "conn_inv c" using cm.run_inv [OF fresh_conn_inv run] .
  moreover have "room (c_out c) (length [1, 2, 3 :: byte])" by (simp add: room_def c(4) max_size_def)
  ultimately show ?thesis
    using sendInLoop_outcome [of c 0 "[1, 2, 3]" "Written 2", where 'u = unit] c
    by (fastforce simp: Let_def)
qed

section \<open>Closing\<close>

text \<open>What the user's calls on a disconnected connection still do.\<close>

fun closed_effects :: "'u conn_call list \<Rightarrow> 'u conn_eff list" where
  "closed_effects [] = []"
| "closed_effects (CallNoDelay on # calls) = ENoDelay on # closed_effects calls"
| "closed_effects (CallUser u # calls) = EUser u # closed_effects calls"
| "closed_effects (_ # calls) = closed_effects calls"

lemma calls_closed:
  "c_state c = kDisconnected \<Longrightarrow> run_steps (do_call t) calls c = Inr (c, closed_effects calls)"
  by (induction calls rule: closed_effects.induct)
    (simp_all add: setTcpNoDelay_def send_def shutdown_def)

lemma connection_cb_closed:
  "c_state c = kDisconnected \<Longrightarrow> connection_cb t calls c =
     Inr (c, if c_connCb c then EConnectionCb False # closed_effects calls else [])"
  by (simp add: connection_cb_def andThen_def calls_closed connected_def)

text \<open>An orderly close never faults. When the peer closes an established connection,
  \<open>handleClose\<close> followed by the owner's \<open>connectDestroyed\<close> runs to the end whatever the
  connection callback does, with exactly these effects: the descriptor leaves the interest list,
  the owner is told, the descriptor is added once more with no events (as \<open>disableAll\<close> on a
  channel outside the list does), the user is told, and the descriptor is removed for good.\<close>

theorem orderly_close:
  fixes c :: conn
  assumes "conn_inv c" "c_state c = kConnected" "events (c_chan c) \<noteq> kNoneEvent" "0 \<le> rc1"
  shows "\<exists>c'. andThen (handleClose (c_tid c) rc c) (connectDestroyed (c_tid c) rc1 rc2 calls) =
      Inr (c', [ECtl (Ctl EPOLL_CTL_DEL (ch_fd (c_chan c)) 0)] @
           (if c_closeCb c then [ECloseCb] else []) @
           [ECtl (Ctl EPOLL_CTL_ADD (ch_fd (c_chan c)) 0)] @
           (if c_connCb c then EConnectionCb False # closed_effects calls else []) @
           [ECtl (Ctl EPOLL_CTL_DEL (ch_fd (c_chan c)) (0 :: u32)) :: 'u conn_eff]) \<and>
      c_state c' = kDisconnected \<and> registered (c_chan c') = None \<and>
      c_out c' = c_out c"
proof -
  have idx: "ch_index (c_chan c) = kAdded" using conn_invD(3,4) [OF assms(1)] assms(3) by auto
  show ?thesis using assms idx
    by (simp add: handleClose_def connectDestroyed_def andThen_def with_chan_def disableAll_def
        updateChannel_def update_def isNoneEvent_def connection_cb_closed removeChannel_def
        inLoop_def kNoneEvent_def registered_def Let_def)
qed

theorem orderly_close_witness:
  "\<exists>c c'. c_state c = kConnected \<and>
     andThen (handleClose (c_tid c) 0 c) (connectDestroyed (c_tid c) 0 0 [CallShutdown, CallUser ()]) =
       Inr (c', [ECtl (Ctl EPOLL_CTL_DEL 7 0), ECloseCb, ECtl (Ctl EPOLL_CTL_ADD 7 0),
                 EConnectionCb False, EUser (), ECtl (Ctl EPOLL_CTL_DEL 7 0)]) \<and>
     c_state c' = kDisconnected"
proof -
  obtain c and es :: "unit conn_eff list" where
      run: "run_steps conn_step [Establish 0 []] (fresh_conn 5 ''c'' 7) = Inr (c, es)"
      and c: "c_state c = kConnected" "events (c_chan c) \<noteq> kNoneEvent" "ch_fd (c_chan c) = 7"
        "c_closeCb c" "c_connCb c"
    by (simp add: conn_evals content_def)
  have "conn_inv c" using cm.run_inv [OF fresh_conn_inv run] .
  then show ?thesis
    using orderly_close [of c 0 0 0 "[CallShutdown, CallUser ()]"] c by auto
qed

section \<open>Faults\<close>

text \<open>The end of the stream after a local \<open>shutdown\<close> aborts the process. \<open>shutdown\<close> moves the
  state to \<open>kDisconnected\<close>, and when the peer then closes its side, \<open>handleRead\<close> reads 0 bytes and
  \<open>handleClose\<close> asserts \<open>state_ == kConnected\<close>.\<close>

theorem eof_after_shutdown_faults:
  fixes c :: conn and env :: "'u event_env"
  assumes "buffer_ok (c_in c)" "c_state c = kConnected" "readCb (c_chan c)"
    and "env_read env = ReadBytes []"
  shows "run_steps conn_step [Call (c_tid c) CallShutdown, Event POLLIN env] c =
     Inl (Assertion ''state_ == kConnected'')"
  using assms
  by (auto simp: shutdown_def shutdownInLoop_def inLoop_def handleEvent_def fired_def set_revents_def
      poll_bits handleRead_def readFd_def Let_def handleClose_def buffer_ok_def write_at_def overwrite_def)

theorem eof_after_shutdown_faults_witness:
  "\<exists>c. c_state c = kConnected \<and>
     run_steps conn_step [Call (c_tid c) CallShutdown, Event POLLIN \<lparr>env_read = ReadBytes [],
          env_msg = (\<lambda>b. Inr (b, [])), env_write = Written 1, env_rcClose = 0, env_rcRead = 0,
          env_rcWrite = 0\<rparr>] c = (Inl (Assertion ''state_ == kConnected'') :: (conn \<times> unit conn_eff list) result)"
proof -
  obtain c and es :: "unit conn_eff list" where
      run: "run_steps conn_step [Establish 0 []] (fresh_conn 5 ''c'' 7) = Inr (c, es)"
      and c: "c_state c = kConnected" "readCb (c_chan c)" "c_in c = Buffer_new"
    by (simp add: conn_evals content_def)
  then show ?thesis using eof_after_shutdown_faults [of c, where 'u = unit] by fastforce
qed

text \<open>Destroying a connection that is still registered aborts the process: \<open>disableAll\<close>
  takes the descriptor out of the interest list and resets the index, and \<open>removeChannel\<close> then
  asserts that the index is \<open>kAdded\<close>. (With \<open>orderly_close\<close>: \<open>connectDestroyed\<close> works only after
  \<open>handleClose\<close>.)\<close>

theorem destroy_registered_faults:
  fixes c :: conn
  assumes "conn_inv c" "c_state c = kConnected" "events (c_chan c) \<noteq> kNoneEvent"
  shows "connectDestroyed (c_tid c) rc1 rc2 calls c =
     (Inl (Assertion ''idx == kAdded'') :: (conn \<times> 'u conn_eff list) result)"
proof -
  have idx: "ch_index (c_chan c) = kAdded" using conn_invD(3,4) [OF assms(1)] assms(3) by auto
  show ?thesis using assms idx
    by (simp add: connectDestroyed_def andThen_def with_chan_def disableAll_def
        updateChannel_def update_def isNoneEvent_def connection_cb_closed removeChannel_def
        inLoop_def Let_def)
qed

theorem destroy_registered_faults_witness:
  "\<exists>c. c_state c = kConnected \<and> connectDestroyed (c_tid c) 0 0 [] c =
     (Inl (Assertion ''idx == kAdded'') :: (conn \<times> unit conn_eff list) result)"
proof -
  obtain c and es :: "unit conn_eff list" where
      run: "run_steps conn_step [Establish 0 []] (fresh_conn 5 ''c'' 7) = Inr (c, es)"
      and c: "c_state c = kConnected" "events (c_chan c) \<noteq> kNoneEvent"
    by (simp add: conn_evals content_def)
  have "conn_inv c" using cm.run_inv [OF fresh_conn_inv run] .
  then show ?thesis using destroy_registered_faults [of c 0 0 "[] :: unit conn_call list"] c by blast
qed

lemma bit_none: "\<not> bit kNoneEvent n"
  by (simp add: kNoneEvent_def)

text \<open>A send that cannot be written at once, between \<open>handleClose\<close> and the owner's
  \<open>connectDestroyed\<close>, aborts the process: the state is still \<open>kConnected\<close>, so the message is
  buffered and the descriptor is registered for writing again, and the destruction then meets a
  registered channel.\<close>

theorem send_while_closing_faults:
  fixes c :: conn
  assumes "conn_inv c" "c_state c = kConnected" "events (c_chan c) \<noteq> kNoneEvent"
    and "content (c_out c) = []" "m \<noteq> []" "room (c_out c) (length m)" "0 \<le> rc1"
  shows "andThen (andThen (handleClose (c_tid c) rc c) (send (c_tid c) (WriteFail e) rc1 m))
     (connectDestroyed (c_tid c) rc2 rc3 calls) =
       (Inl (Assertion ''idx == kAdded'') :: (conn \<times> 'u conn_eff list) result)"
proof -
  have idx: "ch_index (c_chan c) = kAdded" using conn_invD(3,4) [OF assms(1)] assms(3) by auto
  obtain b where b: "append m (c_out c) = Inr b" using append_ok [OF conn_invD(1) [OF assms(1)] assms(6)]
    by blast
  have r: "readableBytes (c_out c) = 0" using assms(4) by (simp add: no_readable conn_invD(1) [OF assms(1)])
  show ?thesis using assms(2,3,5,7) idx b r
    by (simp add: handleClose_def send_def sendInLoop_def enableWriting_def connectDestroyed_def
        andThen_def with_chan_def disableAll_def updateChannel_def update_def isNoneEvent_def
        isWriting_bit bit_none connection_cb_closed removeChannel_def inLoop_def Let_def)
qed
theorem send_while_closing_faults_witness:
  "\<exists>c. c_state c = kConnected \<and>
     andThen (andThen (handleClose (c_tid c) 0 c) (send (c_tid c) (WriteFail 11) 0 [1 :: byte]))
       (connectDestroyed (c_tid c) 0 0 []) =
     (Inl (Assertion ''idx == kAdded'') :: (conn \<times> unit conn_eff list) result)"
proof -
  obtain c and es :: "unit conn_eff list" where
      run: "run_steps conn_step [Establish 0 []] (fresh_conn 5 ''c'' 7) = Inr (c, es)"
      and c: "c_state c = kConnected" "content (c_out c) = []" "events (c_chan c) \<noteq> kNoneEvent"
        "unat (writerIndex (c_out c)) = 8"
    by (simp add: conn_evals content_def)
  have "conn_inv c" using cm.run_inv [OF fresh_conn_inv run] .
  moreover have "room (c_out c) (length [1 :: byte])" by (simp add: room_def c(4) max_size_def)
  ultimately show ?thesis
    using send_while_closing_faults [of c "[1]" 0 0 11 0 0 "[] :: unit conn_call list"] c by auto
qed

end
