(* ===== verification/Chat.thy ===== *)
theory Chat
  imports Codec TcpConnection
begin

text \<open>
  The chat example (example/Chat) end to end: the codec as the message callback of a connection,
  and \<open>Codec::send\<close> on top of \<open>TcpConnection::send\<close>.
\<close>

section \<open>The codec on a connection\<close>

fun codec_call :: "codec_out \<Rightarrow> codec_out conn_call" where
  "codec_call ConnShutdown = CallShutdown"
| "codec_call out = CallUser out"

definition codec_callback :: "codec_out message_cb" where
  "codec_callback b = bindE (onMessage b) (\<lambda>(b', outs). Inr (b', map codec_call outs))"

definition codec_send ::
  "int \<Rightarrow> write_outcome \<Rightarrow> int \<Rightarrow> byte list \<Rightarrow> conn \<Rightarrow> (conn \<times> codec_out conn_eff list) result" where
  "codec_send t w rc message c = bindE (frame message) (\<lambda>f. send t w rc f c)"

text \<open>A readable event that brings the bytes \<open>chunk\<close>.\<close>

definition read_env :: "byte list \<Rightarrow> codec_out event_env" where
  "read_env chunk =
     \<lparr>env_read = ReadBytes chunk, env_msg = codec_callback, env_write = Written 0,
      env_rcClose = 0, env_rcRead = 0, env_rcWrite = 0\<rparr>"

lemma deliver_calls:
  "run_steps (do_call t) (map codec_call (map Deliver ms)) c = Inr (c, map (EUser \<circ> Deliver) ms)"
  by (induction ms) simp_all

lemma read_event:
  assumes "c_msgCb c" "readCb (c_chan c)" "chunk \<noteq> []"
    and "codec_read (ReadBytes chunk) (c_in c) = Inr (b', map Deliver ms)"
  shows "\<exists>c'. conn_step (Event POLLIN (read_env chunk)) c = Inr (c', map (EUser \<circ> Deliver) ms) \<and>
     c_in c' = b' \<and> c_msgCb c' \<and> readCb (c_chan c') \<and> c_state c' = c_state c \<and>
     c_out c' = c_out c \<and> events (c_chan c') = events (c_chan c)"
proof -
  obtain n err b1 where rd: "readFd (ReadBytes chunk) (c_in c) = Inr (n, err, b1)"
      and om: "(if 0 < n then onMessage b1 else Inr (b1, [])) = Inr (b', map Deliver ms)"
    using assms(4) by (auto simp: codec_read_def)
  have "n = int (length chunk)" using rd by (auto simp: readFd_def Let_def split: if_splits)
  then have n: "0 < n" using assms(3) by simp
  then have "codec_callback b1 = Inr (b', map codec_call (map Deliver ms))"
    using om by (simp add: codec_callback_def)
  then show ?thesis using rd n assms(1,2)
    by (simp add: handleEvent_def fired_def set_revents_def poll_bits read_env_def handleRead_def Let_def
        deliver_calls [unfolded map_map])
qed

lemma read_events:
  "c_msgCb c \<Longrightarrow> readCb (c_chan c) \<Longrightarrow> [] \<notin> set chunks \<Longrightarrow>
   run_steps codec_read (map ReadBytes chunks) (c_in c) = Inr (b', map Deliver ms) \<Longrightarrow>
     \<exists>c'. run_steps conn_step (map (\<lambda>chunk. Event POLLIN (read_env chunk)) chunks) c =
       Inr (c', map (EUser \<circ> Deliver) ms) \<and> c_in c' = b'"
proof (induction chunks arbitrary: c ms)
  case Nil
  then show ?case by simp
next
  case (Cons chunk chunks)
  obtain b1 os1 os2 where st: "codec_read (ReadBytes chunk) (c_in c) = Inr (b1, os1)"
      "run_steps codec_read (map ReadBytes chunks) b1 = Inr (b', os2)" "map Deliver ms = os1 @ os2"
    using Cons.prems(4) by auto
  obtain ms1 ms2 where ms: "ms = ms1 @ ms2" "os1 = map Deliver ms1" "os2 = map Deliver ms2"
    using st(3) by (auto simp: map_eq_append_conv)
  have "chunk \<noteq> []" using Cons.prems(3) by auto
  from read_event [OF Cons.prems(1,2) this st(1) [unfolded ms(2)]]
  obtain c1 where c1: "conn_step (Event POLLIN (read_env chunk)) c = Inr (c1, map (EUser \<circ> Deliver) ms1)"
      "c_in c1 = b1" "c_msgCb c1" "readCb (c_chan c1)" by blast
  have "run_steps codec_read (map ReadBytes chunks) (c_in c1) = Inr (b', map Deliver ms2)"
    using st(2) c1(2) ms(3) by simp
  from Cons.IH [OF c1(3,4) _ this] Cons.prems(3)
  obtain c' where "run_steps conn_step (map (\<lambda>chunk. Event POLLIN (read_env chunk)) chunks) c1 =
      Inr (c', map (EUser \<circ> Deliver) ms2)" "c_in c' = b'" by auto
  then show ?case using c1(1) ms(1) by (simp del: conn_step.simps)
qed

section \<open>The chat server\<close>

text \<open>
  \<open>ChatServer\<close> (example/Chat/server.cpp): the set of connections that are up, as the sorted list
  of their addresses, and the connection objects, which the set keeps alive. A message that arrives
  on any connection is sent to all of them, in the thread \<open>t\<close> of the connection it arrived on;
  \<open>env\<close> holds the kernel's answers to the write on each connection.
\<close>

record chat =
  ch_members :: "nat list"
  ch_conns :: "nat \<Rightarrow> conn"

definition chat_onConnection :: "nat \<Rightarrow> chat \<Rightarrow> chat" where
  "chat_onConnection p s =
     (if connected (ch_conns s p) then s\<lparr>ch_members := insort_insert p (ch_members s)\<rparr>
      else s\<lparr>ch_members := removeAll p (ch_members s)\<rparr>)"

fun chat_send_each ::
  "int \<Rightarrow> (nat \<Rightarrow> write_outcome \<times> int) \<Rightarrow> byte list \<Rightarrow> nat list \<Rightarrow> (nat \<Rightarrow> conn) \<Rightarrow>
     ((nat \<Rightarrow> conn) \<times> (nat \<times> codec_out conn_eff) list) result" where
  "chat_send_each t env message [] conns = Inr (conns, [])"
| "chat_send_each t env message (p # ps) conns =
     bindE (codec_send t (fst (env p)) (snd (env p)) message (conns p)) (\<lambda>(c, es).
     bindE (chat_send_each t env message ps (conns(p := c))) (\<lambda>(conns', es').
     Inr (conns', map (Pair p) es @ es')))"

definition chat_onStringMessage ::
  "int \<Rightarrow> (nat \<Rightarrow> write_outcome \<times> int) \<Rightarrow> byte list \<Rightarrow> chat \<Rightarrow>
     (chat \<times> (nat \<times> codec_out conn_eff) list) result" where
  "chat_onStringMessage t env message s =
     bindE (chat_send_each t env message (ch_members s) (ch_conns s)) (\<lambda>(conns, es).
     Inr (s\<lparr>ch_conns := conns\<rparr>, es))"

text \<open>The strings handed to a connection's loop, at once or through its queue.\<close>

fun handed_over :: "'u conn_eff list \<Rightarrow> byte list list" where
  "handed_over [] = []"
| "handed_over (ESend m # es) = m # handed_over es"
| "handed_over (EQueue (TaskSend m) # es) = m # handed_over es"
| "handed_over (_ # es) = handed_over es"

definition frames_for :: "nat \<Rightarrow> (nat \<times> 'u conn_eff) list \<Rightarrow> byte list list" where
  "frames_for p es = handed_over (map snd (filter (\<lambda>(q, _). q = p) es))"

text \<open>A connection the thread \<open>t\<close> can send a frame on: one of another loop, or one of its own that
  is watched and has room in its output buffer.\<close>

definition chat_ready :: "int \<Rightarrow> nat \<Rightarrow> conn \<Rightarrow> bool" where
  "chat_ready t n c \<longleftrightarrow>
     (t = c_tid c \<longrightarrow> conn_inv c \<and> events (c_chan c) \<noteq> kNoneEvent \<and> room (c_out c) n)"

lemma handed_over_append [simp]: "handed_over (es @ fs) = handed_over es @ handed_over fs"
  by (induction es rule: handed_over.induct) simp_all

lemma handed_over_ctls [simp]: "handed_over (map ECtl cs) = []"
  by (induction cs) simp_all

lemma frames_for_append [simp]: "frames_for p (es @ fs) = frames_for p es @ frames_for p fs"
  by (simp add: frames_for_def)

lemma frames_for_Pair [simp]:
  "frames_for p (map (Pair q) es) = (if p = q then handed_over es else [])"
proof -
  have "filter (\<lambda>(r, _). r = p) (map (Pair q) es) = (if p = q then map (Pair q) es else [])"
    by (induction es) auto
  then show ?thesis by (auto simp: frames_for_def comp_def)
qed

lemma sendInLoop_handed:
  "sendInLoop t w rc m c = Inr (c', es) \<Longrightarrow> handed_over es = [m]"
  by (auto simp: sendInLoop_def inLoop_def with_chan_def Let_def split: if_splits write_outcome.splits)

lemma codec_send_ready:
  assumes "chat_ready t (4 + length message) c" "length message \<le> 65536" "0 \<le> rc"
  shows "\<exists>c' es. codec_send t w rc message c = Inr (c', es) \<and>
     handed_over es = (if connected c then [enc message] else [])"
proof -
  have f: "frame message = Inr (enc message)" using assms(2) by (intro frame_ok) (simp add: max_size_def)
  consider "\<not> connected c" | "connected c" "t \<noteq> c_tid c" | "connected c" "t = c_tid c" by blast
  then show ?thesis
  proof cases
    case 3
    then obtain c' and es :: "codec_out conn_eff list" where
      "sendInLoop (c_tid c) w rc (enc message) c = Inr (c', es)"
      using sendInLoop_succeeds [of c rc "enc message" w] assms by (auto simp: chat_ready_def)
    then show ?thesis using 3 f sendInLoop_handed
      by (auto simp: codec_send_def send_def connected_def)
  qed (simp_all add: codec_send_def f send_def connected_def)
qed

lemma chat_send_each_frames:
  assumes "length message \<le> 65536" "\<And>p. 0 \<le> snd (env p)"
  shows "distinct ps \<Longrightarrow> \<forall>p\<in>set ps. chat_ready t (4 + length message) (conns p) \<Longrightarrow>
     \<exists>conns' es. chat_send_each t env message ps conns = Inr (conns', es) \<and>
       (\<forall>p. frames_for p es = (if p \<in> set ps \<and> connected (conns p) then [enc message] else [])) \<and>
       (\<forall>p. p \<notin> set ps \<longrightarrow> conns' p = conns p)"
proof (induction ps arbitrary: conns)
  case Nil
  then show ?case by (simp add: frames_for_def)
next
  case (Cons q ps)
  obtain c1 es1 where 1: "codec_send t (fst (env q)) (snd (env q)) message (conns q) = Inr (c1, es1)"
      "handed_over es1 = (if connected (conns q) then [enc message] else [])"
    using codec_send_ready [OF _ assms(1) assms(2)] Cons.prems(2) by fastforce
  have "\<forall>p\<in>set ps. chat_ready t (4 + length message) ((conns(q := c1)) p)" using Cons.prems by auto
  from Cons.IH [OF _ this] Cons.prems(1) obtain conns' es2 where
    2: "chat_send_each t env message ps (conns(q := c1)) = Inr (conns', es2)"
      "\<And>p. frames_for p es2 = (if p \<in> set ps \<and> connected ((conns(q := c1)) p) then [enc message] else [])"
      "\<And>p. p \<notin> set ps \<Longrightarrow> conns' p = (conns(q := c1)) p" by (auto simp del: fun_upd_apply)
  have "frames_for p (map (Pair q) es1 @ es2) =
      (if p \<in> set (q # ps) \<and> connected (conns p) then [enc message] else [])" for p
    using 1(2) 2(2) [of p] Cons.prems(1) by auto
  then show ?case using 1(1) 2(1,3) by (auto simp del: fun_upd_apply) (simp add: fun_upd_apply)
qed

section \<open>Properties\<close>

text \<open>C2: Chat messages arrive. Take any history of a sending connection that does not fault and ends
  with an empty output buffer, in which the strings handed to the connection are the frames of the
  messages \<open>ms\<close> (each at most 65536 bytes). If the receiving connection gets the bytes the
  kernel accepted from the sender, cut into any chunks, its user is handed exactly the messages
  \<open>ms\<close>, in order, and nothing is left in its input buffer.\<close>

theorem chat_end_to_end:
  fixes es :: "codec_out conn_eff list"
  assumes sender: "run_steps conn_step ops (fresh_conn tid nm fd) = Inr (c', es)" "content (c_out c') = []"
    and frames: "map frame ms = map Inr fs" "sent es = concat fs" "\<forall>m\<in>set ms. length m \<le> 65536"
    and receiver: "c_in r = Buffer_new" "c_msgCb r" "readCb (c_chan r)"
    and network: "concat chunks = wire es" "[] \<notin> set chunks" "length (wire es) \<le> 2 ^ 62"
  shows "\<exists>r'. run_steps conn_step (map (\<lambda>chunk. Event POLLIN (read_env chunk)) chunks) r =
           Inr (r', map (EUser \<circ> Deliver) ms) \<and> content (c_in r') = []"
proof -
  have "content (c_out (fresh_conn tid nm fd)) = []"
    by (simp add: fresh_conn_def setCloseCallback_def setWriteCompleteCallback_def
        setMessageCallback_def setConnectionCallback_def TcpConnection_new_def)
  then have "sent es = wire es"
    using conn_run_faithful [OF fresh_conn_inv sender(1)] observes_balance sender(2)
    by (fastforce simp: faithful_def mirror_def)
  moreover have "fs = map enc ms" using frames(1,3)
  proof (induction ms arbitrary: fs)
    case (Cons m ms)
    then have "frame m = Inr (enc m)" by (intro frame_ok) (simp add: max_size_def)
    then show ?case using Cons by (cases fs) auto
  qed simp
  ultimately have s: "content Buffer_new @ concat chunks = stream ms"
    using frames(2) network(1) by (simp add: stream_def)
  have rm: "room Buffer_new (length (concat chunks))"
    using network by (simp add: room_def Buffer_new_def kCheapPrepend_def max_size_def)
  have "decode (content Buffer_new) = (content Buffer_new, [])" by (simp add: decode.simps)
  from codec_reads_deliver [OF frames(3) Buffer_new_ok(1) this s rm]
  obtain b' where "run_steps codec_read (map ReadBytes chunks) (c_in r) = Inr (b', map Deliver ms)"
      "content b' = []" unfolding receiver(1) by blast
  then show ?thesis using read_events [OF receiver(2,3) network(2)] by blast
qed

theorem chat_end_to_end_witness:
  "\<exists>c' es. run_steps conn_step
        [Establish 0 [CallSend (Written 2) 0 [0, 0, 0, 2, 7, 8], CallSend (WriteFail 11) 0 [0, 0, 0, 0]],
         Event 4 ((read_env []) \<lparr>env_write := Written 8\<rparr>)]
        (fresh_conn 5 ''s'' 7) = Inr (c', es) \<and>
     wire es = [0, 0, 0, 2, 7, 8, 0, 0, 0, 0] \<and>
     (\<exists>r'. run_steps conn_step (map (\<lambda>chunk. Event POLLIN (read_env chunk))
          [[0, 0], [0, 2, 7, 8, 0, 0], [0, 0]]) (fresh_conn 6 ''r'' 8) =
        Inr (r', [EUser (Deliver [7, 8]), EUser (Deliver [])]) \<and> content (c_in r') = [])"
proof -
  let ?ops = "[Establish 0 [CallSend (Written 2) 0 [0, 0, 0, 2, 7, 8], CallSend (WriteFail 11) 0 [0, 0, 0, 0]],
         Event 4 ((read_env []) \<lparr>env_write := Written 8\<rparr>)]"
  let ?fs = "[[0, 0, 0, 2, 7, 8], [0, 0, 0, 0]] :: byte list list"
  let ?ms = "[[7, 8], []] :: byte list list"
  let ?chunks = "[[0, 0], [0, 2, 7, 8, 0, 0], [0, 0]] :: byte list list"
  obtain c' and es :: "codec_out conn_eff list"
    where run: "run_steps conn_step ?ops (fresh_conn 5 ''s'' 7) = Inr (c', es)"
      and out: "content (c_out c') = []" "sent es = concat ?fs" "wire es = concat ?fs"
    by (simp add: conn_evals read_env_def content_def)
  have f: "map frame ?ms = map Inr ?fs"
    by (simp add: frame_ok max_size_def enc_def be32_bytes_def)
  have r: "c_in (fresh_conn 6 ''r'' 8) = Buffer_new" "c_msgCb (fresh_conn 6 ''r'' 8)"
      "readCb (c_chan (fresh_conn 6 ''r'' 8))"
    by (simp_all add: conn_evals)
  have "concat ?chunks = wire es" using out(3) by simp
  moreover have "length (wire es) \<le> 2 ^ 62" using out(3) by simp
  ultimately have "\<exists>r'. run_steps conn_step (map (\<lambda>chunk. Event POLLIN (read_env chunk)) ?chunks)
        (fresh_conn 6 ''r'' 8) = Inr (r', map (EUser \<circ> Deliver) ?ms) \<and> content (c_in r') = []"
    using chat_end_to_end [OF run out(1) f out(2) _ r, of ?chunks] by simp
  then show ?thesis using run out(3) by auto
qed

text \<open>C20: Broadcast. When a message of at most 65536 bytes arrives, and the connections of the
  receiving thread have room for one more frame, the server hands exactly one frame of it to every
  connection in its set that is still up, and nothing to any other; the set does not change.\<close>

theorem broadcast_reaches_members:
  assumes "length message \<le> 65536" "distinct (ch_members s)" "\<forall>p. 0 \<le> snd (env p)"
    and "\<forall>p\<in>set (ch_members s). chat_ready t (4 + length message) (ch_conns s p)"
  shows "\<exists>s' es. chat_onStringMessage t env message s = Inr (s', es) \<and> ch_members s' = ch_members s \<and>
     (\<forall>p. frames_for p es =
        (if p \<in> set (ch_members s) \<and> connected (ch_conns s p) then [be32_bytes (of_nat (length message)) @ message]
         else [])) \<and>
     (\<forall>p. p \<notin> set (ch_members s) \<longrightarrow> ch_conns s' p = ch_conns s p)"
  using chat_send_each_frames [OF assms(1) _ assms(2,4), of env] assms(3)
  by (auto simp: chat_onStringMessage_def enc_def)

theorem broadcast_reaches_members_witness:
  "\<exists>s s' es. s = chat_onConnection 2 (chat_onConnection 1
         \<lparr>ch_members = [], ch_conns = (\<lambda>p. (fresh_conn 5 ''c'' 7)\<lparr>c_state := kConnected\<rparr>)\<rparr>) \<and>
     chat_onStringMessage 6 (\<lambda>p. (Written 0, 0)) [9] s = Inr (s', es) \<and>
     frames_for 1 es = [[0, 0, 0, 1, 9]] \<and> frames_for 2 es = [[0, 0, 0, 1, 9]] \<and> frames_for 3 es = []"
proof -
  define s where "s = chat_onConnection 2 (chat_onConnection 1
         \<lparr>ch_members = [], ch_conns = (\<lambda>p. (fresh_conn 5 ''c'' 7)\<lparr>c_state := kConnected\<rparr>)\<rparr>)"
  have m: "ch_members s = [1, 2]" "ch_conns s = (\<lambda>p. (fresh_conn 5 ''c'' 7)\<lparr>c_state := kConnected\<rparr>)"
    by (simp_all add: s_def chat_onConnection_def connected_def insort_insert_key_def)
  have "chat_ready 6 (4 + length [9 :: byte]) (ch_conns s p)" for p
    unfolding m by (simp add: chat_ready_def conn_evals)
  then have "\<exists>s' es. chat_onStringMessage 6 (\<lambda>p. (Written 0, 0)) [9] s = Inr (s', es) \<and>
     frames_for 1 es = [[0, 0, 0, 1, 9]] \<and> frames_for 2 es = [[0, 0, 0, 1, 9]] \<and> frames_for 3 es = []"
    using broadcast_reaches_members [of "[9]" s "\<lambda>p. (Written 0, 0)" 6]
    by (auto simp: m connected_def be32_bytes_def)
  then show ?thesis unfolding s_def by blast
qed

end
