(* ===== verification/ChatClient.thy ===== *)
theory ChatClient
  imports Chat
begin

text \<open>
  The chat client (example/Chat/client.cpp) and the whole chat: a line typed at one client goes through
  its connection to the server, which broadcasts it, and is printed by the other clients. Text is a
  list of bytes, as the program has it.
\<close>

section \<open>The client\<close>

text \<open>\<open>connection_\<close> is the number of the connection the client holds.\<close>

record chatclient =
  cc_connection :: "nat option"

definition ChatClient_new :: chatclient where
  "ChatClient_new = \<lparr>cc_connection = None\<rparr>"

definition client_onConnection :: "nat \<Rightarrow> conn \<Rightarrow> chatclient \<Rightarrow> chatclient" where
  "client_onConnection i c s = s\<lparr>cc_connection := (if connected c then Some i else None)\<rparr>"

definition client_write ::
  "int \<Rightarrow> write_outcome \<Rightarrow> int \<Rightarrow> byte list \<Rightarrow> chatclient \<Rightarrow> (nat \<Rightarrow> conn) \<Rightarrow>
     ((nat \<Rightarrow> conn) \<times> codec_out conn_eff list) result" where
  "client_write t w rc message s conns =
     (case cc_connection s of
        Some i \<Rightarrow> bindE (codec_send t w rc message (conns i)) (\<lambda>(c, es). Inr (conns(i := c), es))
      | None \<Rightarrow> Inr (conns, []))"

text \<open>\<open>printf("<<< %s\n", message.c_str())\<close> stops at a zero byte.\<close>

definition client_onStringMessage :: "byte list \<Rightarrow> byte list" where
  "client_onStringMessage message = [60, 60, 60, 32] @ takeWhile (\<lambda>b. b \<noteq> 0) message @ [10]"

text \<open>The lines \<open>std::getline\<close> reads: a last line without a newline counts if it is not empty.\<close>

fun getlines :: "byte list \<Rightarrow> byte list \<Rightarrow> byte list list" where
  "getlines line [] = (if line = [] then [] else [line])"
| "getlines line (b # bs) = (if b = 10 then line # getlines [] bs else getlines (line @ [b]) bs)"

text \<open>The loop of \<open>main\<close>, with the kernel's answer to each write.\<close>

fun write_lines ::
  "int \<Rightarrow> write_outcome \<Rightarrow> int \<Rightarrow> byte list list \<Rightarrow> chatclient \<Rightarrow> (nat \<Rightarrow> conn) \<Rightarrow>
     ((nat \<Rightarrow> conn) \<times> codec_out conn_eff list) result" where
  "write_lines t w rc [] s conns = Inr (conns, [])"
| "write_lines t w rc (line # lines) s conns =
     bindE (client_write t w rc line s conns) (\<lambda>(conns1, es1).
     bindE (write_lines t w rc lines s conns1) (\<lambda>(conns2, es2). Inr (conns2, es1 @ es2)))"

definition client_main ::
  "int \<Rightarrow> write_outcome \<Rightarrow> int \<Rightarrow> byte list \<Rightarrow> chatclient \<Rightarrow> (nat \<Rightarrow> conn) \<Rightarrow>
     ((nat \<Rightarrow> conn) \<times> codec_out conn_eff list) result" where
  "client_main t w rc input s conns = write_lines t w rc (getlines [] input) s conns"

section \<open>Typing\<close>

lemma getlines_no_newline: "10 \<notin> set line \<Longrightarrow> l \<in> set (getlines line input) \<Longrightarrow> 10 \<notin> set l"
  by (induction line input rule: getlines.induct) (auto split: if_splits)

text \<open>The lines, each ended by a newline, are the input (with a newline at its end).\<close>

lemma getlines_concat:
  "concat (map (\<lambda>l. l @ [10]) (getlines line input)) =
     line @ input @ (if line @ input = [] \<or> last (line @ input) = 10 \<and> input \<noteq> [] then [] else [10])"
proof (induction line input rule: getlines.induct)
  case (2 line b bs)
  then show ?case by (cases "bs = []") auto
qed simp

text \<open>Typing from another thread than the loop's queues one functor per line.\<close>

lemma write_lines_outside:
  assumes "cc_connection s = Some i" "connected (conns i)" "t \<noteq> c_tid (conns i)"
  shows "\<forall>l\<in>set lines. length l \<le> 65536 \<Longrightarrow>
    write_lines t w rc lines s conns = Inr (conns, map (EQueue \<circ> TaskSend \<circ> enc) lines)"
proof (induction lines)
  case (Cons l lines)
  then have "frame l = Inr (enc l)" by (intro frame_ok) (simp add: max_size_def)
  then show ?case using Cons assms
    by (simp add: client_write_def codec_send_def send_def connected_def)
qed simp

lemma write_lines_down: "cc_connection s = None \<Longrightarrow> write_lines t w rc lines s conns = Inr (conns, [])"
  by (induction lines) (simp_all add: client_write_def)

section \<open>The server in between\<close>

fun chat_run ::
  "int \<Rightarrow> (nat \<Rightarrow> write_outcome \<times> int) \<Rightarrow> byte list list \<Rightarrow> chat \<Rightarrow>
     (chat \<times> (nat \<times> codec_out conn_eff) list) result" where
  "chat_run t env [] s = Inr (s, [])"
| "chat_run t env (m # ms) s =
     bindE (chat_onStringMessage t env m s) (\<lambda>(s1, es1).
     bindE (chat_run t env ms s1) (\<lambda>(s2, es2). Inr (s2, es1 @ es2)))"

lemma codec_send_handed:
  assumes "codec_send t w rc m c = Inr (c', es)" "length m \<le> 65536"
  shows "handed_over es = (if connected c then [enc m] else []) \<and> connected c' = connected c"
proof -
  have f: "frame m = Inr (enc m)" using assms(2) by (intro frame_ok) (simp add: max_size_def)
  have "sendInLoop t w rc (enc m) c = Inr (c', es) \<Longrightarrow> connected c' = connected c"
    by (auto simp: sendInLoop_def inLoop_def with_chan_def connected_def Let_def split: if_splits prod.splits)
  then show ?thesis using assms(1) sendInLoop_handed [of t w rc "enc m" c c' es]
    by (auto simp: codec_send_def f send_def connected_def split: if_splits)
qed

lemma send_each_handed:
  "chat_send_each t env m ps conns = Inr (conns', es) \<Longrightarrow> distinct ps \<Longrightarrow> length m \<le> 65536 \<Longrightarrow>
     frames_for p es = (if p \<in> set ps \<and> connected (conns p) then [enc m] else []) \<and>
     connected (conns' p) = connected (conns p)"
proof (induction ps arbitrary: conns es)
  case Nil
  then show ?case by (simp add: frames_for_def)
next
  case (Cons q ps)
  obtain c1 es1 es2 where 1: "codec_send t (fst (env q)) (snd (env q)) m (conns q) = Inr (c1, es1)"
      "chat_send_each t env m ps (conns(q := c1)) = Inr (conns', es2)" "es = map (Pair q) es1 @ es2"
    using Cons.prems(1) by auto
  note h = codec_send_handed [OF 1(1) Cons.prems(3)]
  have "frames_for p es2 = (if p \<in> set ps \<and> connected ((conns(q := c1)) p) then [enc m] else []) \<and>
      connected (conns' p) = connected ((conns(q := c1)) p)"
    using Cons.IH [OF 1(2)] Cons.prems(2,3) by simp
  then show ?case using h 1(3) Cons.prems(2) by auto
qed

lemma chat_run_handed:
  "chat_run t env ms s = Inr (s', es) \<Longrightarrow> distinct (ch_members s) \<Longrightarrow> \<forall>m\<in>set ms. length m \<le> 65536 \<Longrightarrow>
     frames_for p es = (if p \<in> set (ch_members s) \<and> connected (ch_conns s p) then map enc ms else [])"
proof (induction ms arbitrary: s es)
  case Nil
  then show ?case by (simp add: frames_for_def)
next
  case (Cons m ms)
  obtain conns es1 es2 where 1: "chat_send_each t env m (ch_members s) (ch_conns s) = Inr (conns, es1)"
      "chat_run t env ms (s\<lparr>ch_conns := conns\<rparr>) = Inr (s', es2)" "es = es1 @ es2"
    using Cons.prems(1) by (auto simp: chat_onStringMessage_def)
  from send_each_handed [OF 1(1) Cons.prems(2)] Cons.IH [OF 1(2)] Cons.prems 1(3) show ?case by auto
qed

text \<open>
  A readable event that brings the bytes \<open>chunk\<close> on the connection \<open>q\<close> of the server: the connection reads them, the
  codec decodes them, and each string it hands out is broadcast, all in the thread of the loop of \<open>q\<close>.
\<close>

fun delivered :: "codec_out conn_eff list \<Rightarrow> byte list list" where
  "delivered [] = []"
| "delivered (EUser (Deliver m) # es) = m # delivered es"
| "delivered (_ # es) = delivered es"

definition chat_event ::
  "(nat \<Rightarrow> write_outcome \<times> int) \<Rightarrow> nat \<Rightarrow> byte list \<Rightarrow> chat \<Rightarrow>
     (chat \<times> (nat \<times> codec_out conn_eff) list) result" where
  "chat_event env q chunk s =
     bindE (conn_step (Event POLLIN (read_env chunk)) (ch_conns s q)) (\<lambda>(c, os).
     bindE (chat_run (c_tid (ch_conns s q)) env (delivered os) (s\<lparr>ch_conns := (ch_conns s)(q := c)\<rparr>)) (\<lambda>(s', es).
     Inr (s', map (Pair q) os @ es)))"

lemma delivered_strings [simp]: "delivered (map (EUser \<circ> Deliver) ms) = ms"
  by (induction ms) simp_all

lemma handed_over_strings [simp]: "handed_over (map (EUser \<circ> Deliver) ms) = []"
  by (induction ms) simp_all

text \<open>Sending leaves the reading side of a connection as it is.\<close>

definition same_reader :: "conn \<Rightarrow> conn \<Rightarrow> bool" where
  "same_reader c c' \<longleftrightarrow> c_in c' = c_in c \<and> c_msgCb c' = c_msgCb c \<and> readCb (c_chan c') = readCb (c_chan c) \<and>
     c_state c' = c_state c"

lemma same_reader_refl [simp]: "same_reader c c"
  by (simp add: same_reader_def)

lemma same_reader_trans: "same_reader a b \<Longrightarrow> same_reader b c \<Longrightarrow> same_reader a c"
  by (simp add: same_reader_def)

lemma codec_send_reader: "codec_send t w rc m c = Inr (c', es) \<Longrightarrow> same_reader c c'"
proof -
  have enable: "enableWriting rc ch = Inr (ch', cs) \<Longrightarrow> readCb ch' = readCb ch" for rc ch ch' cs
    by (auto simp: enableWriting_def updateChannel_def set_index_def Let_def split: if_splits)
  assume "codec_send t w rc m c = Inr (c', es)"
  then show ?thesis
    by (auto simp: codec_send_def send_def sendInLoop_def inLoop_def with_chan_def same_reader_def Let_def enable
        split: if_splits prod.splits)
qed

lemma send_each_reader:
  "chat_send_each t env m ps conns = Inr (conns', es) \<Longrightarrow> same_reader (conns p) (conns' p)"
proof (induction ps arbitrary: conns es)
  case (Cons q ps)
  obtain c1 es1 es2 where 1: "codec_send t (fst (env q)) (snd (env q)) m (conns q) = Inr (c1, es1)"
      "chat_send_each t env m ps (conns(q := c1)) = Inr (conns', es2)"
    using Cons.prems by auto
  have "same_reader (conns p) ((conns(q := c1)) p)" using codec_send_reader [OF 1(1)] by simp
  then show ?case using Cons.IH [OF 1(2)] same_reader_trans by blast
qed simp

lemma chat_run_reader:
  "chat_run t env ms s = Inr (s', es) \<Longrightarrow> ch_members s' = ch_members s \<and> same_reader (ch_conns s p) (ch_conns s' p)"
proof (induction ms arbitrary: s es)
  case (Cons m ms)
  obtain conns es1 es2 where 1: "chat_send_each t env m (ch_members s) (ch_conns s) = Inr (conns, es1)"
      "chat_run t env ms (s\<lparr>ch_conns := conns\<rparr>) = Inr (s', es2)"
    using Cons.prems by (auto simp: chat_onStringMessage_def)
  from Cons.IH [OF 1(2)] send_each_reader [OF 1(1), of p] show ?case
    using same_reader_trans by auto
qed simp

text \<open>Every message the stream of a connection holds is broadcast, however the stream is split.\<close>

lemma chat_events_frames:
  assumes "run_steps (chat_event env q) chunks s = Inr (s', es)"
    and "run_steps codec_read (map ReadBytes chunks) (c_in (ch_conns s q)) = Inr (b', map Deliver ms)"
    and "c_msgCb (ch_conns s q)" "readCb (c_chan (ch_conns s q))" "[] \<notin> set chunks"
    and "distinct (ch_members s)" "\<forall>m\<in>set ms. length m \<le> 65536"
  shows "frames_for p es = (if p \<in> set (ch_members s) \<and> connected (ch_conns s p) then map enc ms else [])"
  using assms
proof (induction chunks arbitrary: s ms es)
  case Nil
  then show ?case by (simp add: frames_for_def)
next
  case (Cons chunk chunks)
  let ?c = "ch_conns s q"
  obtain b1 os1 os2 where rd: "codec_read (ReadBytes chunk) (c_in ?c) = Inr (b1, os1)"
      "run_steps codec_read (map ReadBytes chunks) b1 = Inr (b', os2)" "map Deliver ms = os1 @ os2"
    using Cons.prems(2) by auto
  obtain ms1 ms2 where ms: "ms = ms1 @ ms2" "os1 = map Deliver ms1" "os2 = map Deliver ms2"
    using rd(3) by (auto simp: map_eq_append_conv)
  have "chunk \<noteq> []" using Cons.prems(5) by auto
  from read_event [OF Cons.prems(3,4) this rd(1) [unfolded ms(2)]]
  obtain c1 where c1: "conn_step (Event POLLIN (read_env chunk)) ?c = Inr (c1, map (EUser \<circ> Deliver) ms1)"
      "c_in c1 = b1" "c_msgCb c1" "readCb (c_chan c1)" "c_state c1 = c_state ?c" by blast
  let ?s1 = "s\<lparr>ch_conns := (ch_conns s)(q := c1)\<rparr>"
  obtain s2 os es2 where st: "chat_event env q chunk s = Inr (s2, os)"
      "run_steps (chat_event env q) chunks s2 = Inr (s', es2)" "es = os @ es2"
    using Cons.prems(1) by auto
  obtain es1 where "chat_run (c_tid ?c) env ms1 ?s1 = Inr (s2, es1)"
      "os = map (Pair q) (map (EUser \<circ> Deliver) ms1) @ es1"
    using st(1) unfolding chat_event_def c1(1) by auto
  note run = this(1) st(2) st(3) [unfolded this(2) append_assoc]
  have up: "connected (ch_conns ?s1 x) = connected (ch_conns s x)" for x
    using c1(5) by (simp add: connected_def)
  have keeps: "ch_members s2 = ch_members s" "same_reader (ch_conns ?s1 x) (ch_conns s2 x)" for x
    using chat_run_reader [OF run(1)] by simp_all
  have q: "c_in (ch_conns s2 q) = b1" "c_msgCb (ch_conns s2 q)" "readCb (c_chan (ch_conns s2 q))"
    using keeps(2) [of q] c1(2-4) by (simp_all add: same_reader_def)
  have up2: "connected (ch_conns s2 p) = connected (ch_conns s p)"
    using keeps(2) [of p] up [of p] by (simp add: same_reader_def connected_def)
  have "frames_for p es1 = (if p \<in> set (ch_members s) \<and> connected (ch_conns s p) then map enc ms1 else [])"
    using chat_run_handed [OF run(1), of p] Cons.prems(6,7) ms(1) up [of p] by simp
  moreover have "frames_for p es2 = (if p \<in> set (ch_members s) \<and> connected (ch_conns s p) then map enc ms2 else [])"
    using Cons.IH [OF run(2), of ms2] q rd(2) ms Cons.prems(5-7) keeps(1) up2 by simp
  moreover have "frames_for p (map (Pair q) (map (EUser \<circ> Deliver) ms1)) = []"
    by (simp only: frames_for_Pair handed_over_strings if_cancel)
  ultimately show ?case using ms(1) by (simp only: run(3) frames_for_append) simp
qed

section \<open>The whole chat\<close>

text \<open>The chunks that \<open>getline\<close> makes of an input without zero bytes print as they are.\<close>

lemma typed_printed:
  assumes "0 \<notin> set input"
  shows "map client_onStringMessage (getlines [] input) = map (\<lambda>l. [60, 60, 60, 32] @ l @ [10]) (getlines [] input)"
proof -
  have zero: "l \<in> set (getlines line inp) \<Longrightarrow> 0 \<notin> set line \<Longrightarrow> 0 \<notin> set inp \<Longrightarrow> 0 \<notin> set l" for l line inp
    by (induction line inp rule: getlines.induct) (auto split: if_splits)
  have "takeWhile (\<lambda>b. b \<noteq> 0) l = l" if "l \<in> set (getlines [] input)" for l
    using zero [OF that] assms by (auto simp: takeWhile_eq_all_conv)
  then show ?thesis by (simp add: client_onStringMessage_def)
qed

text \<open>A stream of frames is decoded from an empty buffer, in whatever chunks it comes.\<close>

lemma stream_decoded:
  assumes "\<forall>l\<in>set ls. length l \<le> 65536" "concat chunks = concat (map enc ls)" "length (concat chunks) \<le> 2 ^ 62"
  obtains b where "run_steps codec_read (map ReadBytes chunks) Buffer_new = Inr (b, map Deliver ls)"
proof -
  have s: "content Buffer_new @ concat chunks = stream ls"
    using assms(2) by (simp add: stream_def Buffer_new_def content_def)
  have rm: "room Buffer_new (length (concat chunks))"
    using assms(3) by (simp add: room_def Buffer_new_def kCheapPrepend_def max_size_def)
  have "decode (content Buffer_new) = (content Buffer_new, [])" by (simp add: decode.simps)
  from codec_reads_deliver [OF assms(1) Buffer_new_ok(1) this s rm] that show ?thesis by blast
qed

text \<open>C23: What is typed at one client is printed by the others. Let a client that holds a connection that
  is up read its input (lines of at most 65536 bytes without zero bytes), which hands frames to the loop of that
  connection. Let the bytes of these frames reach the connection \<open>q\<close> of the server in any chunks (that bytes handed to a
  connection arrive, once it is drained, is \<open>stream_integrity\<close>), each read, decoded by the codec on that
  connection and broadcast without a fault. Then for any member of the set whose connection is up, and any client whose
  connection gets the bytes of the frames handed to that member, again in any chunks, the codec of that client hands out
  exactly the typed lines, in order, and the client prints each behind \<open><<<\<close>.\<close>

theorem typed_lines_printed:
  assumes "cc_connection cl = Some i" "connected (conns i)" "t \<noteq> c_tid (conns i)"
    and "\<forall>l\<in>set (getlines [] input). length l \<le> 65536" "0 \<notin> set input"
    and typed: "client_main t w rc input cl conns = Inr (conns', typed)"
    and network: "concat up = concat (handed_over typed)" "length (concat up) \<le> 2 ^ 62" "[] \<notin> set up"
    and server: "c_in (ch_conns s q) = Buffer_new" "c_msgCb (ch_conns s q)" "readCb (c_chan (ch_conns s q))"
    and events: "run_steps (chat_event env q) up s = Inr (s', es)" "distinct (ch_members s)"
    and member: "p \<in> set (ch_members s)" "connected (ch_conns s p)"
    and network': "concat down = concat (frames_for p es)" "[] \<notin> set down"
    and client: "c_in r = Buffer_new" "c_msgCb r" "readCb (c_chan r)"
  shows "conns' = conns \<and>
    (\<exists>r'. run_steps conn_step (map (\<lambda>chunk. Event POLLIN (read_env chunk)) down) r =
       Inr (r', map (EUser \<circ> Deliver) (getlines [] input))) \<and>
    concat (map client_onStringMessage (getlines [] input)) =
      concat (map (\<lambda>l. [60, 60, 60, 32] @ l @ [10]) (getlines [] input))"
proof -
  let ?ls = "getlines [] input"
  have main: "client_main t w rc input cl conns = Inr (conns, map (EQueue \<circ> TaskSend \<circ> enc) ?ls)"
    unfolding client_main_def using write_lines_outside [of cl i conns t ?ls w rc] assms(1-4) by simp
  have "handed_over (map (EQueue \<circ> TaskSend \<circ> enc) ls) = map enc ls" for ls by (induction ls) simp_all
  moreover have "typed = map (EQueue \<circ> TaskSend \<circ> enc) ?ls" and same: "conns' = conns" using typed main by simp_all
  ultimately have up: "concat up = concat (map enc ?ls)" using network(1) by metis
  obtain b where b: "run_steps codec_read (map ReadBytes up) (c_in (ch_conns s q)) = Inr (b, map Deliver ?ls)"
    using stream_decoded [OF assms(4) up network(2)] unfolding server(1) by blast
  have "frames_for p es = map enc ?ls"
    using chat_events_frames [OF events(1) b server(2,3) network(3) events(2) assms(4), of p] member by simp
  then have down: "concat down = concat (map enc ?ls)" using network'(1) by simp
  obtain b' where "run_steps codec_read (map ReadBytes down) (c_in r) = Inr (b', map Deliver ?ls)"
    using stream_decoded [OF assms(4) down] network(2) up down unfolding client(1) by auto
  from read_events [OF client(2,3) network'(2) this] show ?thesis
    using same unfolding typed_printed [OF assms(5)] by blast
qed

text \<open>A server whose connections are idle, and whose kernel takes every frame of \<open>n\<close> bytes at once.\<close>

definition idle :: "conn \<Rightarrow> bool" where
  "idle c \<longleftrightarrow> connected c \<and> \<not> isWriting (c_chan c) \<and> readableBytes (c_out c) = 0"

lemma codec_send_idle:
  assumes "idle c" "length m \<le> 65536" "unat n = 4 + length m"
  shows "\<exists>es. codec_send t (Written n) rc m c = Inr (c, es)"
proof -
  have "frame m = Inr (enc m)" using assms(2) by (intro frame_ok) (simp add: max_size_def)
  moreover have "length (enc m) = unat n" using assms(3) by (simp add: enc_def be32_bytes_def)
  ultimately show ?thesis using assms(1)
    by (simp add: codec_send_def send_def sendInLoop_def inLoop_def idle_def connected_def)
qed

lemma chat_run_idle:
  assumes "\<forall>p. idle (ch_conns s p)" "\<forall>m\<in>set ms. length m \<le> 65536 \<and> unat n = 4 + length m"
  shows "\<exists>es. chat_run t (\<lambda>p. (Written n, rc)) ms s = Inr (s, es)"
proof -
  have each: "\<exists>es. chat_send_each t (\<lambda>p. (Written n, rc)) m ps (ch_conns s) = Inr (ch_conns s, es)"
    if len: "length m \<le> 65536" "unat n = 4 + length m" for m ps
  proof (induction ps)
    case (Cons q ps)
    obtain es where "codec_send t (Written n) rc m (ch_conns s q) = Inr (ch_conns s q, es)"
      using codec_send_idle [OF _ len] assms(1) by blast
    then show ?case using Cons by auto
  qed simp
  show ?thesis using assms(2)
  proof (induction ms)
    case (Cons m ms)
    obtain es where "chat_send_each t (\<lambda>p. (Written n, rc)) m (ch_members s) (ch_conns s) = Inr (ch_conns s, es)"
      using each [of m] Cons.prems by auto
    then show ?case using Cons by (auto simp: chat_onStringMessage_def)
  qed simp
qed

lemma chat_events_idle:
  assumes "run_steps codec_read (map ReadBytes chunks) (c_in (ch_conns s q)) = Inr (b', map Deliver ms)"
    and "c_msgCb (ch_conns s q)" "readCb (c_chan (ch_conns s q))" "[] \<notin> set chunks"
    and "\<forall>p. idle (ch_conns s p)" "\<forall>m\<in>set ms. length m \<le> 65536 \<and> unat n = 4 + length m"
  shows "\<exists>s' es. run_steps (chat_event (\<lambda>p. (Written n, rc)) q) chunks s = Inr (s', es)"
  using assms
proof (induction chunks arbitrary: s ms)
  case (Cons chunk chunks)
  let ?c = "ch_conns s q"
  obtain b1 os1 os2 where rd: "codec_read (ReadBytes chunk) (c_in ?c) = Inr (b1, os1)"
      "run_steps codec_read (map ReadBytes chunks) b1 = Inr (b', os2)" "map Deliver ms = os1 @ os2"
    using Cons.prems(1) by auto
  obtain ms1 ms2 where ms: "ms = ms1 @ ms2" "os1 = map Deliver ms1" "os2 = map Deliver ms2"
    using rd(3) by (auto simp: map_eq_append_conv)
  have "chunk \<noteq> []" using Cons.prems(4) by auto
  from read_event [OF Cons.prems(2,3) this rd(1) [unfolded ms(2)]]
  obtain c1 where c1: "conn_step (Event POLLIN (read_env chunk)) ?c = Inr (c1, map (EUser \<circ> Deliver) ms1)"
      "c_in c1 = b1" "c_msgCb c1" "readCb (c_chan c1)" "c_state c1 = c_state ?c" "c_out c1 = c_out ?c"
      "events (c_chan c1) = events (c_chan ?c)" by blast
  let ?s1 = "s\<lparr>ch_conns := (ch_conns s)(q := c1)\<rparr>"
  have idle: "\<forall>p. idle (ch_conns ?s1 p)" using Cons.prems(5) c1(5-7)
    by (simp add: idle_def connected_def isWriting_def)
  obtain es1 where "chat_run (c_tid ?c) (\<lambda>p. (Written n, rc)) ms1 ?s1 = Inr (?s1, es1)"
    using chat_run_idle [OF idle, of ms1 n "c_tid ?c" rc] Cons.prems(6) ms(1) by auto
  then have "chat_event (\<lambda>p. (Written n, rc)) q chunk s =
      Inr (?s1, map (Pair q) (map (EUser \<circ> Deliver) ms1) @ es1)"
    using c1(1) by (simp add: chat_event_def del: conn_step.simps)
  moreover have "\<exists>s' es. run_steps (chat_event (\<lambda>p. (Written n, rc)) q) chunks ?s1 = Inr (s', es)"
    by (rule Cons.IH [of _ ms2]) (use rd(2) ms Cons.prems(4,6) c1(2-4) idle in simp_all)
  ultimately show ?case by auto
qed simp

text \<open>Two lines typed, cut in the middle of a frame on both ways.\<close>

theorem typed_lines_printed_witness:
  "\<exists>s s' es r'. s = \<lparr>ch_members = [1, 2], ch_conns = (\<lambda>p. (fresh_conn 5 ''c'' 7)\<lparr>c_state := kConnected\<rparr>)\<rparr> \<and>
     run_steps (chat_event (\<lambda>p. (Written 6, 0)) 1) [[0, 0, 0], [2, 104, 105, 0, 0, 0, 2, 121, 111]] s = Inr (s', es) \<and>
     run_steps conn_step (map (\<lambda>chunk. Event POLLIN (read_env chunk)) [[0, 0, 0, 2, 104], [105, 0, 0, 0, 2, 121, 111]])
       (fresh_conn 8 ''r'' 9) = Inr (r', [EUser (Deliver [104, 105]), EUser (Deliver [121, 111])])"
proof -
  let ?c = "(fresh_conn 5 ''c'' 7)\<lparr>c_state := kConnected\<rparr>"
  let ?s = "\<lparr>ch_members = [1, 2], ch_conns = (\<lambda>p. ?c)\<rparr>"
  let ?in = "[104, 105, 10, 121, 111] :: byte list" and ?env = "\<lambda>p :: nat. (Written 6, 0 :: int)"
  let ?up = "[[0, 0, 0], [2, 104, 105, 0, 0, 0, 2, 121, 111]] :: byte list list"
  let ?down = "[[0, 0, 0, 2, 104], [105, 0, 0, 0, 2, 121, 111]] :: byte list list"
  have c: "connected ?c" "c_tid ?c = 5" "c_in ?c = Buffer_new" "c_msgCb ?c" "readCb (c_chan ?c)" "idle ?c"
    by (simp_all add: connected_def idle_def conn_evals)
  have r: "c_in (fresh_conn 8 ''r'' 9) = Buffer_new" "c_msgCb (fresh_conn 8 ''r'' 9)"
      "readCb (c_chan (fresh_conn 8 ''r'' 9))"
    by (simp_all add: conn_evals)
  have encs: "enc [104, 105] = [0, 0, 0, 2, 104, 105]" "enc [121, 111] = [0, 0, 0, 2, 121, 111]"
    by (simp_all add: enc_def be32_bytes_def)
  have ls: "getlines [] ?in = [[104, 105], [121, 111]]" by simp
  have small: "\<forall>l\<in>set (getlines [] ?in). length l \<le> 65536" by simp
  have up: "concat ?up = concat (map enc (getlines [] ?in))" by (simp add: encs)
  obtain b where "run_steps codec_read (map ReadBytes ?up) Buffer_new = Inr (b, map Deliver (getlines [] ?in))"
    by (rule stream_decoded [OF small up]) simp
  then have b: "run_steps codec_read (map ReadBytes ?up) (c_in (ch_conns ?s 1)) = Inr (b, map Deliver (getlines [] ?in))"
    unfolding chat.select_convs c(3) .
  obtain s' es where run: "run_steps (chat_event ?env 1) ?up ?s = Inr (s', es)"
    using chat_events_idle [OF b, of 6 0] c by auto
  have frames: "frames_for 2 es = map enc (getlines [] ?in)"
    using chat_events_frames [OF run b, of 2] c by simp
  have down: "concat ?down = concat (frames_for 2 es)" unfolding frames by (simp add: encs)
  have typed: "client_main 9 (Written 0) 0 ?in \<lparr>cc_connection = Some 0\<rparr> (\<lambda>_. ?c) =
      Inr (\<lambda>_. ?c, map (EQueue \<circ> TaskSend \<circ> enc) (getlines [] ?in))"
    unfolding client_main_def by (rule write_lines_outside) (use c in simp_all)
  have handed: "concat ?up = concat (handed_over (map (EQueue \<circ> TaskSend \<circ> enc) (getlines [] ?in)))"
    by (simp add: encs)
  have "\<exists>r'. run_steps conn_step (map (\<lambda>chunk. Event POLLIN (read_env chunk)) ?down) (fresh_conn 8 ''r'' 9) =
       Inr (r', map (EUser \<circ> Deliver) (getlines [] ?in))"
    using typed_lines_printed [OF _ _ _ small _ typed handed _ _ _ _ _ run _ _ _ down _ r] c
    by (simp del: getlines.simps run_steps.simps list.map)
  then show ?thesis using run unfolding ls by (intro exI [of _ ?s] exI [of _ s'] exI [of _ es]) auto
qed

end
