(* ===== verification/EventLoop.thy ===== *)
theory EventLoop
  imports Prelude
begin

text \<open>
  The event loop (include/net/EventLoop.h, src/net/EventLoop.cpp): the queue of functors that
  other threads and handlers put in, the eventfd that wakes a blocked \<open>epoll_wait\<close>, and the
  cycle poll, dispatch, run pending functors. The loop thread and the other threads interleave:
  a step of \<open>sys_step\<close> is what one thread does between two synchronisation points (a critical
  section, a kernel call). What user code does inside the loop thread is an argument: the calls
  it makes on the loop. \<open>poll\<close> calls \<open>epoll_wait\<close> without a timeout, so a blocked loop only
  moves when a descriptor is ready.
\<close>

section \<open>State\<close>

record 'f loop =
  l_tid :: int
  quit_flag :: bool
  looping :: bool
  callingPendingFunctors :: bool
  wakeups :: u64
  pendingFunctors :: "'f list"

definition EventLoop_new :: "int \<Rightarrow> 'f loop" where
  "EventLoop_new tid =
     \<lparr>l_tid = tid, quit_flag = False, looping = False, callingPendingFunctors = False,
      wakeups = 0, pendingFunctors = []\<rparr>"

definition isInLoopThread :: "int \<Rightarrow> 'f loop \<Rightarrow> bool" where
  "isInLoopThread t l \<longleftrightarrow> l_tid l = t"

section \<open>Operations\<close>

text \<open>
  Writing 1 to the eventfd adds to its counter, and fails (the descriptor is non-blocking) at
  the largest value; reading resets the counter.
\<close>

definition eventfd_max :: u64 where
  "eventfd_max = 0xfffffffffffffffe"

definition wakeup :: "'f loop \<Rightarrow> 'f loop" where
  "wakeup l = (if wakeups l < eventfd_max then l\<lparr>wakeups := wakeups l + 1\<rparr> else l)"

definition loop_handleRead :: "'f loop \<Rightarrow> 'f loop" where
  "loop_handleRead l = l\<lparr>wakeups := 0\<rparr>"

text \<open>\<open>queueInLoop\<close> is the critical section \<open>queue_push\<close> and then \<open>queue_wake\<close>.\<close>

definition queue_push :: "'f \<Rightarrow> 'f loop \<Rightarrow> 'f loop" where
  "queue_push cb l = l\<lparr>pendingFunctors := pendingFunctors l @ [cb]\<rparr>"

definition queue_wake :: "int \<Rightarrow> 'f loop \<Rightarrow> 'f loop" where
  "queue_wake t l = (if \<not> isInLoopThread t l \<or> callingPendingFunctors l then wakeup l else l)"

definition queueInLoop :: "int \<Rightarrow> 'f \<Rightarrow> 'f loop \<Rightarrow> 'f loop" where
  "queueInLoop t cb l = queue_wake t (queue_push cb l)"

text \<open>\<open>run\<close> is the effect of calling the functor right away.\<close>

definition runInLoop :: "int \<Rightarrow> ('f \<Rightarrow> 'f loop \<Rightarrow> 'f loop) \<Rightarrow> 'f \<Rightarrow> 'f loop \<Rightarrow> 'f loop" where
  "runInLoop t run cb l = (if isInLoopThread t l then run cb l else queueInLoop t cb l)"

definition loop_quit :: "int \<Rightarrow> 'f loop \<Rightarrow> 'f loop" where
  "loop_quit t l =
     (let l1 = l\<lparr>quit_flag := True\<rparr> in if \<not> isInLoopThread t l1 then wakeup l1 else l1)"

text \<open>What a handler or a functor, running in the loop thread, does to the loop.\<close>

datatype 'f act = Queue 'f | Quit

fun do_act :: "'f act \<Rightarrow> 'f loop \<Rightarrow> 'f loop" where
  "do_act (Queue cb) l = queueInLoop (l_tid l) cb l"
| "do_act Quit l = loop_quit (l_tid l) l"

definition do_acts :: "'f act list \<Rightarrow> 'f loop \<Rightarrow> 'f loop" where
  "do_acts acts l = fold do_act acts l"

definition doPendingFunctors :: "('f \<Rightarrow> 'f act list) \<Rightarrow> 'f loop \<Rightarrow> 'f loop" where
  "doPendingFunctors sem l =
     (let functions = pendingFunctors l;
          l1 = l\<lparr>pendingFunctors := []\<rparr>;
          l2 = fold (\<lambda>f. do_acts (sem f)) functions l1
      in l2\<lparr>callingPendingFunctors := False\<rparr>)"

section \<open>The loop and the other threads\<close>

text \<open>
  Where the loop thread is: before \<open>loop()\<close>, at the test of \<open>quit_\<close>, blocked in \<open>epoll_wait\<close>,
  dispatching the active channels, running the functors it swapped out, or after the loop.
  \<open>Woken\<close> is the handler of the wakeup channel.
\<close>

datatype 'f handler = Woken | Handler "'f act list"

datatype 'f phase =
    Idle | Testing | Polling | Dispatching "'f handler list" | Running "'f list" | Done

text \<open>
  \<open>waking\<close> counts the threads between their critical section and their write to the eventfd;
  \<open>queued\<close> and \<open>executed\<close> are the functors queued and run so far.
\<close>

record 'f sys =
  the_loop :: "'f loop"
  phase :: "'f phase"
  waking :: nat
  queued :: "'f list"
  executed :: "'f list"

datatype 'f label =
    LSetup "'f act list" | LStart | LTest | LPoll "'f act list list" | LPollNone | LDispatch | LSwap | LRun | LEnd
  | RPush 'f | RQuit | RWake

fun queues :: "'f act list \<Rightarrow> 'f list" where
  "queues [] = []"
| "queues (Queue cb # acts) = cb # queues acts"
| "queues (Quit # acts) = queues acts"

definition sys_new :: "int \<Rightarrow> 'f sys" where
  "sys_new tid =
     \<lparr>the_loop = EventLoop_new tid, phase = Idle, waking = 0, queued = [], executed = []\<rparr>"

text \<open>
  A step of the system; \<open>None\<close> when the step is not enabled. \<open>LSetup\<close> is what the owner thread
  does before it enters \<open>loop()\<close>. \<open>LPoll hs\<close> returns from
  \<open>epoll_wait\<close> with the handlers \<open>hs\<close> of the ready channels, and the wakeup channel if the
  eventfd is readable; \<open>LPollNone\<close> returns from it with an error or without events, and the loop goes on
  to its functors. \<open>RPush\<close>, \<open>RQuit\<close> and \<open>RWake\<close> are the steps of threads other than
  the loop's.
\<close>

fun sys_step :: "('f \<Rightarrow> 'f act list) \<Rightarrow> 'f label \<Rightarrow> 'f sys \<Rightarrow> 'f sys option" where
  "sys_step sem (LSetup acts) s =
     (if phase s = Idle
      then Some (s\<lparr>the_loop := do_acts acts (the_loop s), queued := queued s @ queues acts\<rparr>)
      else None)"
| "sys_step sem LStart s =
     (if phase s = Idle \<and> \<not> looping (the_loop s)
      then Some (s\<lparr>the_loop := (the_loop s)\<lparr>looping := True, quit_flag := False\<rparr>, phase := Testing\<rparr>)
      else None)"
| "sys_step sem LTest s =
     (if phase s = Testing
      then Some (if quit_flag (the_loop s)
                 then s\<lparr>the_loop := (the_loop s)\<lparr>looping := False\<rparr>, phase := Done\<rparr>
                 else s\<lparr>phase := Polling\<rparr>)
      else None)"
| "sys_step sem (LPoll hs) s =
     (let active = (if wakeups (the_loop s) > 0 then [Woken] else []) @ map Handler hs in
      if phase s = Polling \<and> active \<noteq> [] then Some (s\<lparr>phase := Dispatching active\<rparr>) else None)"
| "sys_step sem LPollNone s = (if phase s = Polling then Some (s\<lparr>phase := Dispatching []\<rparr>) else None)"
| "sys_step sem LDispatch s =
     (case phase s of
        Dispatching (Woken # hs) \<Rightarrow>
          Some (s\<lparr>the_loop := loop_handleRead (the_loop s), phase := Dispatching hs\<rparr>)
      | Dispatching (Handler acts # hs) \<Rightarrow>
          Some (s\<lparr>the_loop := do_acts acts (the_loop s), phase := Dispatching hs,
                  queued := queued s @ queues acts\<rparr>)
      | _ \<Rightarrow> None)"
| "sys_step sem LSwap s =
     (if phase s = Dispatching []
      then Some (s\<lparr>the_loop := (the_loop s)\<lparr>pendingFunctors := []\<rparr>,
                   phase := Running (pendingFunctors (the_loop s))\<rparr>)
      else None)"
| "sys_step sem LRun s =
     (case phase s of
        Running (cb # cbs) \<Rightarrow>
          Some (s\<lparr>the_loop := do_acts (sem cb) (the_loop s), phase := Running cbs,
                  queued := queued s @ queues (sem cb), executed := executed s @ [cb]\<rparr>)
      | _ \<Rightarrow> None)"
| "sys_step sem LEnd s =
     (if phase s = Running []
      then Some (s\<lparr>the_loop := (the_loop s)\<lparr>callingPendingFunctors := False\<rparr>, phase := Testing\<rparr>)
      else None)"
| "sys_step sem (RPush cb) s =
     Some (s\<lparr>the_loop := queue_push cb (the_loop s), waking := waking s + 1,
             queued := queued s @ [cb]\<rparr>)"
| "sys_step sem RQuit s =
     Some (s\<lparr>the_loop := (the_loop s)\<lparr>quit_flag := True\<rparr>, waking := waking s + 1\<rparr>)"
| "sys_step sem RWake s =
     (if waking s > 0 then Some (s\<lparr>the_loop := wakeup (the_loop s), waking := waking s - 1\<rparr>)
      else None)"

inductive reachable :: "('f \<Rightarrow> 'f act list) \<Rightarrow> int \<Rightarrow> 'f sys \<Rightarrow> bool" for sem tid where
  reach_init: "reachable sem tid (sys_new tid)"
| reach_step: "reachable sem tid s \<Longrightarrow> sys_step sem lab s = Some s' \<Longrightarrow> reachable sem tid s'"

fun sys_run :: "('f \<Rightarrow> 'f act list) \<Rightarrow> 'f label list \<Rightarrow> 'f sys \<Rightarrow> 'f sys option" where
  "sys_run sem [] s = Some s"
| "sys_run sem (lab # labs) s =
     (case sys_step sem lab s of None \<Rightarrow> None | Some s1 \<Rightarrow> sys_run sem labs s1)"

lemma run_reachable: "reachable sem tid s \<Longrightarrow> sys_run sem labs s = Some s' \<Longrightarrow> reachable sem tid s'"
  by (induction labs arbitrary: s) (auto split: option.splits intro: reach_step)

lemma sys_run_append:
  "sys_run sem (as @ bs) s = (case sys_run sem as s of None \<Rightarrow> None | Some s1 \<Rightarrow> sys_run sem bs s1)"
  by (induction as arbitrary: s) (auto split: option.splits)

section \<open>Elementary facts\<close>

lemma wakeup_fields [simp]:
  "pendingFunctors (wakeup l) = pendingFunctors l" "l_tid (wakeup l) = l_tid l"
  "quit_flag (wakeup l) = quit_flag l" "callingPendingFunctors (wakeup l) = callingPendingFunctors l"
  "looping (wakeup l) = looping l"
  by (simp_all add: wakeup_def)

lemma wakeup_positive [simp]: "0 < wakeups (wakeup l)"
proof (cases "wakeups l < eventfd_max")
  case True
  then have "wakeups l \<noteq> -1" by (auto simp: eventfd_max_def)
  then have "wakeups l + 1 \<noteq> 0" by (simp add: eq_neg_iff_add_eq_0)
  then show ?thesis using True by (simp add: wakeup_def word_gt_0)
next
  case False
  then show ?thesis by (auto simp: wakeup_def eventfd_max_def word_gt_0)
qed

lemma queueInLoop_inside:
  "\<not> callingPendingFunctors l \<Longrightarrow> queueInLoop (l_tid l) cb l = queue_push cb l"
  by (simp add: queueInLoop_def queue_wake_def queue_push_def isInLoopThread_def)

text \<open>What the loop thread does to its own loop while \<open>callingPendingFunctors_\<close> is false.\<close>

lemma do_acts_inside:
  "\<not> callingPendingFunctors l \<Longrightarrow>
     do_acts acts l = l\<lparr>pendingFunctors := pendingFunctors l @ queues acts,
                       quit_flag := quit_flag l \<or> Quit \<in> set acts\<rparr>"
proof (induction acts arbitrary: l)
  case Nil
  then show ?case by (simp add: do_acts_def)
next
  case (Cons a acts)
  have c: "do_acts (a # acts) l = do_acts acts (do_act a l)" by (simp add: do_acts_def)
  show ?case
  proof (cases a)
    case (Queue cb)
    then have a: "do_act a l = queue_push cb l" using Cons.prems by (simp add: queueInLoop_inside)
    show ?thesis unfolding c a using Cons.IH [of "queue_push cb l"] Cons.prems
      by (simp add: Queue queue_push_def)
  next
    case Quit
    then have a: "do_act a l = l\<lparr>quit_flag := True\<rparr>"
      by (simp add: loop_quit_def Let_def isInLoopThread_def)
    show ?thesis unfolding c a using Cons.IH [of "l\<lparr>quit_flag := True\<rparr>"] Cons.prems
      by (simp add: Quit)
  qed
qed

text \<open>
  \<open>callingPendingFunctors_\<close> starts false and is only ever set to false.
\<close>

lemma calling_step:
  "sys_step sem lab s = Some s' \<Longrightarrow> \<not> callingPendingFunctors (the_loop s) \<Longrightarrow>
     \<not> callingPendingFunctors (the_loop s')"
  by (cases lab) (auto simp: do_acts_inside queue_push_def loop_handleRead_def Let_def
      split: if_splits phase.splits list.splits handler.splits)

lemma calling_never:
  "reachable sem tid s \<Longrightarrow> \<not> callingPendingFunctors (the_loop s)"
  by (induction rule: reachable.induct) (auto simp: sys_new_def EventLoop_new_def dest: calling_step)

section \<open>Functors run in order, exactly once\<close>

fun running :: "'f phase \<Rightarrow> 'f list" where
  "running (Running cbs) = cbs"
| "running _ = []"

lemma fifo_step:
  "sys_step sem lab s = Some s' \<Longrightarrow> \<not> callingPendingFunctors (the_loop s) \<Longrightarrow>
   queued s = executed s @ running (phase s) @ pendingFunctors (the_loop s) \<Longrightarrow>
   queued s' = executed s' @ running (phase s') @ pendingFunctors (the_loop s')"
  by (cases lab) (auto simp: do_acts_inside queue_push_def loop_handleRead_def Let_def
      split: if_splits phase.splits list.splits handler.splits)

text \<open>C11: Functors run in the order they were queued, each exactly once, whatever the
  interleaving of the loop with other threads and whatever the functors and handlers queue: at
  any moment the functors queued so far are the ones executed, the ones swapped out to run and the
  ones pending, in this order.\<close>

theorem functors_fifo:
  assumes "reachable sem tid s"
  shows "queued s = executed s @ running (phase s) @ pendingFunctors (the_loop s)"
  using assms
proof (induction rule: reachable.induct)
  case reach_init
  then show ?case by (simp add: sys_new_def EventLoop_new_def)
next
  case (reach_step s lab s')
  then show ?case using fifo_step calling_never by blast
qed


theorem functors_fifo_witness:
  "\<exists>s. sys_run (\<lambda>f. if f = 1 then [Queue 3] else [])
       [LStart, LTest, RPush (1 :: nat), RPush 2, RWake, LPoll [], LDispatch, LSwap, LRun] (sys_new 0) = Some s \<and>
     queued s = [1, 2, 3] \<and> executed s = [1] \<and> running (phase s) = [2] \<and>
     queued s = executed s @ running (phase s) @ pendingFunctors (the_loop s)"
proof -
  let ?sem = "\<lambda>f :: nat. if f = 1 then [Queue 3] else []"
  let ?labs = "[LStart, LTest, RPush (1 :: nat), RPush 2, RWake, LPoll [], LDispatch, LSwap, LRun]"
  have "\<exists>s. sys_run ?sem ?labs (sys_new 0) = Some s \<and> queued s = [1, 2, 3] \<and> executed s = [1] \<and>
      running (phase s) = [2]"
    by (simp add: sys_new_def EventLoop_new_def queue_push_def do_acts_inside loop_handleRead_def Let_def)
  then show ?thesis using functors_fifo [OF run_reachable [OF reach_init]] by blast
qed

section \<open>Wakeups\<close>

text \<open>
  What keeps a blocked loop from missing a functor or a quit: the eventfd is readable, or a
  thread is about to write it. It holds of the functors in all phases outside the dispatch of
  events (which is followed by the swap), as long as neither the functors themselves nor the
  owner before \<open>loop()\<close> queue anything.
\<close>

definition wake_coming :: "'f sys \<Rightarrow> bool" where
  "wake_coming s \<longleftrightarrow> 0 < wakeups (the_loop s) \<or> 0 < waking s"

definition awake :: "'f sys \<Rightarrow> bool" where
  "awake s \<longleftrightarrow> ((\<nexists>hs. phase s = Dispatching hs) \<longrightarrow> pendingFunctors (the_loop s) \<noteq> [] \<longrightarrow> wake_coming s) \<and>
     (phase s = Polling \<longrightarrow> quit_flag (the_loop s) \<longrightarrow> wake_coming s) \<and>
     \<not> callingPendingFunctors (the_loop s)"

fun setup_queues :: "'f label \<Rightarrow> bool" where
  "setup_queues (LSetup acts) \<longleftrightarrow> queues acts \<noteq> []"
| "setup_queues _ \<longleftrightarrow> False"

lemma awake_step:
  assumes "\<forall>f. queues (sem f) = []" "\<not> setup_queues lab" "awake s" "sys_step sem lab s = Some s'"
  shows "awake s'"
  using assms
  by (cases lab) (auto simp: awake_def wake_coming_def do_acts_inside queue_push_def
      loop_handleRead_def Let_def split: if_splits phase.splits list.splits handler.splits)

lemma awake_run:
  "\<forall>f. queues (sem f) = [] \<Longrightarrow> \<forall>lab\<in>set labs. \<not> setup_queues lab \<Longrightarrow> awake s \<Longrightarrow>
     sys_run sem labs s = Some s' \<Longrightarrow> awake s'"
  by (induction labs arbitrary: s) (auto split: option.splits dest: awake_step)

lemma awake_new [simp]: "awake (sys_new tid)"
  by (simp add: awake_def sys_new_def EventLoop_new_def)

text \<open>The steps that need no descriptor other than the eventfd, no error of \<open>epoll_wait\<close>, and no new call from outside.\<close>

definition own_steps :: "'f label set" where
  "own_steps = {LTest, LPoll [], LDispatch, LSwap, LRun, LEnd, RWake}"

lemma run_all:
  "phase s = Running cbs \<Longrightarrow> \<not> callingPendingFunctors (the_loop s) \<Longrightarrow>
     \<exists>s'. sys_run sem (replicate (length cbs) LRun) s = Some s' \<and> phase s' = Running [] \<and>
          executed s' = executed s @ cbs \<and> \<not> callingPendingFunctors (the_loop s') \<and>
          (quit_flag (the_loop s) \<longrightarrow> quit_flag (the_loop s'))"
proof (induction cbs arbitrary: s)
  case Nil
  then show ?case by simp
next
  case (Cons cb cbs)
  obtain s1 where s1: "sys_step sem LRun s = Some s1" "phase s1 = Running cbs"
      "executed s1 = executed s @ [cb]" "\<not> callingPendingFunctors (the_loop s1)"
      "quit_flag (the_loop s) \<longrightarrow> quit_flag (the_loop s1)"
    using Cons.prems by (simp add: do_acts_inside)
  then show ?case using Cons.IH [OF s1(2,4)] by auto
qed

text \<open>Without interleaving, the steps from the swap on are \<open>doPendingFunctors\<close>, and the steps of
  another thread are \<open>queueInLoop\<close> and \<open>quit\<close>.\<close>

lemma run_all_loop:
  "phase s = Running cbs \<Longrightarrow>
     \<exists>s'. sys_run sem (replicate (length cbs) LRun) s = Some s' \<and> phase s' = Running [] \<and>
          the_loop s' = fold (\<lambda>f. do_acts (sem f)) cbs (the_loop s)"
proof (induction cbs arbitrary: s)
  case Nil
  then show ?case by simp
next
  case (Cons cb cbs)
  obtain s1 where s1: "sys_step sem LRun s = Some s1" "phase s1 = Running cbs"
      "the_loop s1 = do_acts (sem cb) (the_loop s)"
    using Cons.prems by simp
  then show ?case using Cons.IH [OF s1(2)] by auto
qed

lemma doPendingFunctors_steps:
  assumes "phase s = Dispatching []"
  shows "\<exists>s'. sys_run sem ([LSwap] @ replicate (length (pendingFunctors (the_loop s))) LRun @ [LEnd]) s =
      Some s' \<and> the_loop s' = doPendingFunctors sem (the_loop s) \<and> phase s' = Testing"
proof -
  let ?s1 = "s\<lparr>the_loop := (the_loop s)\<lparr>pendingFunctors := []\<rparr>, phase := Running (pendingFunctors (the_loop s))\<rparr>"
  obtain s2 where "sys_run sem (replicate (length (pendingFunctors (the_loop s))) LRun) ?s1 = Some s2"
      "phase s2 = Running []"
      "the_loop s2 = fold (\<lambda>f. do_acts (sem f)) (pendingFunctors (the_loop s)) (the_loop ?s1)"
    using run_all_loop [of ?s1] by auto
  then show ?thesis using assms by (simp add: sys_run_append doPendingFunctors_def Let_def)
qed

lemma remote_steps:
  assumes "t \<noteq> l_tid (the_loop s)"
  shows "\<exists>s'. sys_run sem [RPush cb, RWake] s = Some s' \<and> the_loop s' = queueInLoop t cb (the_loop s)"
    "\<exists>s'. sys_run sem [RQuit, RWake] s = Some s' \<and> the_loop s' = loop_quit t (the_loop s)"
  using assms by (auto simp: queueInLoop_def queue_wake_def queue_push_def isInLoopThread_def
      loop_quit_def Let_def)

text \<open>From a blocked poll with a wakeup on its way, the loop gets to the end of its functors.\<close>

lemma poll_to_end:
  assumes "phase s = Polling" "wake_coming s" "\<not> callingPendingFunctors (the_loop s)"
  shows "\<exists>labs s'. set labs \<subseteq> own_steps \<and> sys_run sem labs s = Some s' \<and> phase s' = Testing \<and>
     executed s' = executed s @ pendingFunctors (the_loop s) \<and>
     (quit_flag (the_loop s) \<longrightarrow> quit_flag (the_loop s'))"
proof -
  obtain pre s1 where s1: "set pre \<subseteq> {RWake :: 'a label}" "sys_run sem pre s = Some s1" "phase s1 = Polling"
      "0 < wakeups (the_loop s1)" "pendingFunctors (the_loop s1) = pendingFunctors (the_loop s)"
      "\<not> callingPendingFunctors (the_loop s1)" "executed s1 = executed s"
      "quit_flag (the_loop s1) = quit_flag (the_loop s)"
  proof (cases "0 < wakeups (the_loop s)")
    case True
    show ?thesis by (rule that [of "[]" s]) (use assms True in auto)
  next
    case False
    then show ?thesis using assms
      by (intro that [of "[RWake]" "s\<lparr>the_loop := wakeup (the_loop s), waking := waking s - 1\<rparr>"])
        (auto simp: wake_coming_def)
  qed
  let ?fs = "pendingFunctors (the_loop s)"
  obtain s2 where s2: "sys_run sem [LPoll [], LDispatch, LSwap] s1 = Some s2" "phase s2 = Running ?fs"
      "executed s2 = executed s" "\<not> callingPendingFunctors (the_loop s2)"
      "quit_flag (the_loop s2) = quit_flag (the_loop s)"
    using s1 by (simp add: loop_handleRead_def Let_def)
  obtain s3 where s3: "sys_run sem (replicate (length ?fs) LRun) s2 = Some s3" "phase s3 = Running []"
      "executed s3 = executed s @ ?fs" "quit_flag (the_loop s) \<longrightarrow> quit_flag (the_loop s3)"
    using run_all [OF s2(2,4), of sem] s2(3,5) by auto
  let ?s4 = "s3\<lparr>the_loop := (the_loop s3)\<lparr>callingPendingFunctors := False\<rparr>, phase := Testing\<rparr>"
  let ?labs = "pre @ [LPoll [], LDispatch, LSwap] @ replicate (length ?fs) LRun @ [LEnd]"
  have "sys_run sem ?labs s = Some ?s4"
    using s1(2) s2(1) s3(1,2) by (simp only: sys_run_append option.case) simp
  moreover have "set ?labs \<subseteq> own_steps" using s1(1) by (auto simp: own_steps_def)
  ultimately show ?thesis using s3 by (intro exI [of _ ?labs] exI [of _ ?s4]) simp
qed

text \<open>C12: No wakeup is lost between threads. If no functor queues functors, and the owner queues
  nothing before \<open>loop()\<close>, then whenever the loop is blocked in \<open>epoll_wait\<close> with functors
  pending, it can run them all with its own steps and the wakeups already on their way, without
  any other descriptor becoming ready and without any new call. Both conditions are needed: a functor that the owner
  thread queues before the loop, or that a functor queues, is not announced by a wakeup (\<open>setup_functor_stalls\<close>,
  \<open>requeued_functor_stalls\<close>).\<close>

theorem pending_functors_run:
  assumes "\<forall>f. queues (sem f) = []" "\<forall>lab\<in>set labs. \<not> setup_queues lab"
    and "sys_run sem labs (sys_new tid) = Some s" "phase s = Polling" "pendingFunctors (the_loop s) \<noteq> []"
  shows "\<exists>labs' s'. set labs' \<subseteq> own_steps \<and> sys_run sem labs' s = Some s' \<and>
     executed s' = executed s @ pendingFunctors (the_loop s)"
proof -
  have "awake s" using awake_run [OF assms(1,2) awake_new assms(3)] .
  then show ?thesis using poll_to_end [of s sem] assms(4,5) by (auto simp: awake_def)
qed

theorem pending_functors_run_witness:
  "\<exists>s. sys_run (\<lambda>_. []) [LStart, LTest, RPush (1 :: nat), RPush 2] (sys_new 0) = Some s \<and>
     (\<exists>labs' s'. set labs' \<subseteq> own_steps \<and> sys_run (\<lambda>_. []) labs' s = Some s' \<and> executed s' = [1, 2])"
proof -
  let ?labs = "[LStart, LTest, RPush (1 :: nat), RPush 2]"
  have "\<exists>s. sys_run (\<lambda>_. []) ?labs (sys_new 0) = Some s \<and> phase s = Polling \<and>
      pendingFunctors (the_loop s) = [1, 2] \<and> executed s = []"
    by (simp add: sys_new_def EventLoop_new_def queue_push_def)
  then show ?thesis using pending_functors_run [of "\<lambda>_. []" ?labs 0] by fastforce
qed

text \<open>A quit from another thread ends the loop. Whenever the loop is blocked in
  \<open>epoll_wait\<close> with \<open>quit_\<close> set, it gets out of \<open>loop()\<close> with its own steps and the wakeups already
  on their way.\<close>

theorem quit_ends_loop:
  assumes "\<forall>f. queues (sem f) = []" "\<forall>lab\<in>set labs. \<not> setup_queues lab"
    and "sys_run sem labs (sys_new tid) = Some s" "phase s = Polling" "quit_flag (the_loop s)"
  shows "\<exists>labs' s'. set labs' \<subseteq> own_steps \<and> sys_run sem labs' s = Some s' \<and> phase s' = Done \<and>
     \<not> looping (the_loop s')"
proof -
  have "awake s" using awake_run [OF assms(1,2) awake_new assms(3)] .
  then obtain labs1 s1 where "set labs1 \<subseteq> own_steps" "sys_run sem labs1 s = Some s1" "phase s1 = Testing"
      "quit_flag (the_loop s1)"
    using poll_to_end [of s sem] assms(4,5) by (auto simp: awake_def)
  then show ?thesis
    by (intro exI [of _ "labs1 @ [LTest]"]) (auto simp: sys_run_append own_steps_def)
qed

theorem quit_ends_loop_witness:
  "\<exists>s. sys_run (\<lambda>_ :: nat. []) [LStart, LTest, RQuit] (sys_new 0) = Some s \<and>
     (\<exists>labs' s'. set labs' \<subseteq> own_steps \<and> sys_run (\<lambda>_ :: nat. []) labs' s = Some s' \<and> phase s' = Done)"
proof -
  have "\<exists>s :: nat sys. sys_run (\<lambda>_. []) [LStart, LTest, RQuit] (sys_new 0) = Some s \<and>
      phase s = Polling \<and> quit_flag (the_loop s)"
    by (simp add: sys_new_def EventLoop_new_def)
  then show ?thesis using quit_ends_loop [of "\<lambda>_. []" "[LStart, LTest, RQuit]" 0] by fastforce
qed

section \<open>Where the loop sleeps through work\<close>

text \<open>A functor queued by a functor is stuck until something else wakes the loop.
  \<open>callingPendingFunctors_\<close> is never set, so \<open>queueInLoop\<close> in a functor does not write the
  eventfd, and the poll has no timeout: for any functors \<open>f\<close> that queues \<open>g\<close>, the system reaches a
  state with \<open>g\<close> pending in which no step of the loop is possible without another descriptor
  becoming ready, \<open>epoll_wait\<close> failing or another thread calling.\<close>

theorem requeued_functor_stalls:
  assumes "sem f = [Queue g]"
  shows "\<exists>s. reachable sem tid s \<and> phase s = Polling \<and> pendingFunctors (the_loop s) = [g] \<and>
     (\<forall>lab\<in>own_steps. sys_step sem lab s = None)"
proof -
  let ?labs = "[LStart, LTest, RPush f, RWake, LPoll [], LDispatch, LSwap, LRun, LEnd, LTest]"
  have "\<exists>s. sys_run sem ?labs (sys_new tid) = Some s \<and> phase s = Polling \<and>
      pendingFunctors (the_loop s) = [g] \<and> wakeups (the_loop s) = 0 \<and> waking s = 0"
    by (simp add: assms sys_new_def EventLoop_new_def queue_push_def loop_handleRead_def
        do_acts_inside Let_def)
  then obtain s where s: "sys_run sem ?labs (sys_new tid) = Some s" "phase s = Polling"
      "pendingFunctors (the_loop s) = [g]" "wakeups (the_loop s) = 0" "waking s = 0"
    by blast
  have "\<forall>lab\<in>own_steps. sys_step sem lab s = None"
    using s(2,4,5) by (auto simp: own_steps_def)
  then show ?thesis using s run_reachable [OF reach_init s(1)] by blast
qed

theorem requeued_functor_stalls_witness:
  "\<exists>s. reachable (\<lambda>f :: bool. if f then [Queue False] else []) 0 s \<and> phase s = Polling \<and>
     pendingFunctors (the_loop s) = [False] \<and>
     (\<forall>lab\<in>own_steps. sys_step (\<lambda>f. if f then [Queue False] else []) lab s = None)"
  using requeued_functor_stalls [of "\<lambda>f :: bool. if f then [Queue False] else []" True False 0]
  by simp

text \<open>A functor queued by the owner before \<open>loop()\<close> is stuck in the same way.\<close>

theorem setup_functor_stalls:
  "\<exists>s. sys_run sem [LSetup [Queue g], LStart, LTest] (sys_new tid) = Some s \<and> phase s = Polling \<and>
     pendingFunctors (the_loop s) = [g] \<and> (\<forall>lab\<in>own_steps. sys_step sem lab s = None)"
  by (simp add: own_steps_def sys_new_def EventLoop_new_def do_acts_inside queue_push_def)

text \<open>A quit before \<open>loop()\<close> is lost. \<open>loop()\<close> clears \<open>quit_\<close> when it starts, so after a
  \<open>quit\<close> from another thread that comes first, the loop consumes the wakeup and blocks again, with
  \<open>quit_\<close> false and nothing on its way (the destructor of \<open>EventLoopThread\<close> then joins forever).\<close>

theorem early_quit_lost:
  "\<exists>s. sys_run sem [RQuit, RWake, LStart, LTest, LPoll [], LDispatch, LSwap, LEnd, LTest] (sys_new tid) = Some s \<and>
     phase s = Polling \<and> \<not> quit_flag (the_loop s) \<and> \<not> wake_coming s"
  by (simp add: sys_new_def EventLoop_new_def loop_handleRead_def wake_coming_def Let_def)

end
