(* ===== verification/LoopObject.thy ===== *)
theory LoopObject
  imports EPoller EventLoop "HOL-Library.Multiset"
begin

text \<open>
  Loops as objects (src/net/EventLoop.cpp): construction and destruction with the thread-local pointer
  that allows one loop per thread, the eventfd and its channel, and the calls that are passed on to
  the poller. Loops are known by numbers; every operation takes the thread \<open>t\<close> that calls it.
\<close>

section \<open>State\<close>

text \<open>A loop holds three descriptors: the poller's, the timer's and the one that wakes it up.\<close>

record loopobj =
  lo_tid :: int
  lo_looping :: bool
  lo_epollfd :: int
  lo_timer :: channel
  lo_wakeup :: channel

record loops_state =
  t_loopInThisThread :: "int \<rightharpoonup> nat"
  lo_objs :: "nat \<rightharpoonup> loopobj"

definition loops_init :: loops_state where
  "loops_init = \<lparr>t_loopInThisThread = Map.empty, lo_objs = Map.empty\<rparr>"

datatype lo_eff = LoOpen int | LoCtl nat ctl | LoClose int

text \<open>What the kernel answers while a loop is made.\<close>

record loop_env =
  k_epoll :: int
  k_timer :: int
  k_timer_ctl :: int
  k_event :: int
  k_event_ctl :: int

section \<open>Operations\<close>

definition EPoller_construct :: "int \<Rightarrow> int result" where
  "EPoller_construct epollfd = (if epollfd < 0 then Inl (Fatal ''EPoller::EPoller'') else Inr epollfd)"

definition createTimerfd :: "int \<Rightarrow> int result" where
  "createTimerfd timerfd = (if timerfd < 0 then Inl (Fatal ''Failed in timerfd_create'') else Inr timerfd)"

text \<open>\<open>createEventfd\<close> logs and aborts when the kernel gives no descriptor.\<close>

definition createEventfd :: "int \<Rightarrow> int result" where
  "createEventfd evtfd = (if evtfd < 0 then Inl (Fatal ''Failed in eventfd'') else Inr evtfd)"

text \<open>The members in the order of their declaration, then the body of the constructor.\<close>

definition EventLoop_construct :: "int \<Rightarrow> loop_env \<Rightarrow> nat \<Rightarrow> loops_state \<Rightarrow> (loops_state \<times> lo_eff list) result" where
  "EventLoop_construct t env i s =
     bindE (EPoller_construct (k_epoll env)) (\<lambda>ep.
     bindE (createTimerfd (k_timer env)) (\<lambda>tm.
     bindE (enableReading (k_timer_ctl env) (setReadCallback (Channel_new tm))) (\<lambda>(tch, cs1).
     bindE (createEventfd (k_event env)) (\<lambda>fd.
     if t_loopInThisThread s t \<noteq> None then Inl (Fatal ''Another EventLoop exists in this thread'')
     else
       bindE (enableReading (k_event_ctl env) (setReadCallback (Channel_new fd))) (\<lambda>(ch, cs2).
       Inr (s\<lparr>t_loopInThisThread := (t_loopInThisThread s)(t \<mapsto> i),
              lo_objs := (lo_objs s)(i \<mapsto> \<lparr>lo_tid = t, lo_looping = False, lo_epollfd = ep, lo_timer = tch, lo_wakeup = ch\<rparr>)\<rparr>,
            [LoOpen ep, LoOpen tm] @ map (LoCtl i) cs1 @ [LoOpen fd] @ map (LoCtl i) cs2))))))"

definition with_loop :: "nat \<Rightarrow> loops_state \<Rightarrow> (loopobj \<Rightarrow> 'a result) \<Rightarrow> 'a result" where
  "with_loop i s f = (case lo_objs s i of None \<Rightarrow> Inl (BadAccess ''EventLoop'') | Some l \<Rightarrow> f l)"

text \<open>
  The destructor clears the pointer of the thread it runs in; then the members are destroyed, the timer
  queue and the poller among them.
\<close>

definition EventLoop_destroy :: "int \<Rightarrow> nat \<Rightarrow> loops_state \<Rightarrow> (loops_state \<times> lo_eff list) result" where
  "EventLoop_destroy t i s = with_loop i s (\<lambda>l.
     assertE ''!looping_'' (\<not> lo_looping l)
       (Inr (s\<lparr>t_loopInThisThread := (t_loopInThisThread s)(t := None), lo_objs := (lo_objs s)(i := None)\<rparr>,
             [LoClose (ch_fd (lo_wakeup l)), LoClose (ch_fd (lo_timer l)), LoClose (lo_epollfd l)])))"

definition assertInLoopThread :: "int \<Rightarrow> loopobj \<Rightarrow> 'a result \<Rightarrow> 'a result" where
  "assertInLoopThread t l m = (if lo_tid l = t then m else abortNotInLoopThread)"

definition loop_enter :: "int \<Rightarrow> nat \<Rightarrow> loops_state \<Rightarrow> (loops_state \<times> lo_eff list) result" where
  "loop_enter t i s = with_loop i s (\<lambda>l.
     assertE ''!looping_'' (\<not> lo_looping l)
       (assertInLoopThread t l (Inr (s\<lparr>lo_objs := (lo_objs s)(i \<mapsto> l\<lparr>lo_looping := True\<rparr>)\<rparr>, []))))"

definition loop_leave :: "nat \<Rightarrow> loops_state \<Rightarrow> (loops_state \<times> lo_eff list) result" where
  "loop_leave i s = with_loop i s (\<lambda>l. Inr (s\<lparr>lo_objs := (lo_objs s)(i \<mapsto> l\<lparr>lo_looping := False\<rparr>)\<rparr>, []))"

text \<open>\<open>owner\<close> is the loop the channel was made for.\<close>

definition loop_updateChannel ::
  "int \<Rightarrow> int \<Rightarrow> nat \<Rightarrow> channel \<Rightarrow> nat \<Rightarrow> loops_state \<Rightarrow> (channel \<times> ctl list) result" where
  "loop_updateChannel t rc owner ch i s = with_loop i s (\<lambda>l.
     assertE ''channel->ownerLoop() == this'' (owner = i) (assertInLoopThread t l (updateChannel rc ch)))"

text \<open>\<open>Channel::update\<close> asks the channel's own loop.\<close>

definition Channel_update :: "int \<Rightarrow> int \<Rightarrow> nat \<Rightarrow> channel \<Rightarrow> loops_state \<Rightarrow> (channel \<times> ctl list) result" where
  "Channel_update t rc owner ch s = loop_updateChannel t rc owner ch owner s"

definition loop_removeChannel ::
  "int \<Rightarrow> int \<Rightarrow> nat \<Rightarrow> channel \<Rightarrow> nat \<Rightarrow> loops_state \<Rightarrow> (channel \<times> ctl list) result" where
  "loop_removeChannel t rc owner ch i s = with_loop i s (\<lambda>l.
     assertE ''channel->ownerLoop() == this'' (owner = i) (assertInLoopThread t l (removeChannel rc ch)))"

text \<open>In its thread the loop hands a channel of its own to its poller; otherwise the process stops.\<close>

lemma loop_channel_ops:
  assumes "lo_objs s i = Some l"
  shows "Channel_update t rc i ch s = (if lo_tid l = t then updateChannel rc ch else abortNotInLoopThread)"
    "loop_removeChannel t rc i ch i s = (if lo_tid l = t then removeChannel rc ch else abortNotInLoopThread)"
    "j \<noteq> i \<Longrightarrow> loop_updateChannel t rc j ch i s = Inl (Assertion ''channel->ownerLoop() == this'')"
    "j \<noteq> i \<Longrightarrow> loop_removeChannel t rc j ch i s = Inl (Assertion ''channel->ownerLoop() == this'')"
  using assms by (simp_all add: Channel_update_def loop_updateChannel_def loop_removeChannel_def with_loop_def
      assertInLoopThread_def)

datatype lo_op =
    Construct int loop_env nat | Destruct int nat | Enter int nat | Leave nat

text \<open>A new loop gets a number that has not been used.\<close>

fun lo_step :: "lo_op \<Rightarrow> loops_state \<Rightarrow> (loops_state \<times> lo_eff list) result" where
  "lo_step (Construct t env i) s = EventLoop_construct t env i s"
| "lo_step (Destruct t i) s = EventLoop_destroy t i s"
| "lo_step (Enter t i) s = loop_enter t i s"
| "lo_step (Leave i) s = loop_leave i s"

text \<open>Loops are destroyed in the threads they were made in, and new ones have new numbers.\<close>

fun at_home :: "lo_op list \<Rightarrow> loops_state \<Rightarrow> bool" where
  "at_home [] s \<longleftrightarrow> True"
| "at_home (e # ops) s \<longleftrightarrow>
     (case e of
        Destruct t i \<Rightarrow> (case lo_objs s i of None \<Rightarrow> True | Some l \<Rightarrow> lo_tid l = t)
      | Construct t env i \<Rightarrow> lo_objs s i = None
      | _ \<Rightarrow> True) \<and>
     (case lo_step e s of Inl f \<Rightarrow> True | Inr (s', es) \<Rightarrow> at_home ops s')"

text \<open>Answers of a kernel that refuses nothing.\<close>

definition good_env :: loop_env where
  "good_env = \<lparr>k_epoll = 4, k_timer = 5, k_timer_ctl = 0, k_event = 6, k_event_ctl = 0\<rparr>"

lemmas loop_evals = good_env_def loops_init_def EventLoop_construct_def EventLoop_destroy_def with_loop_def
  EPoller_construct_def createTimerfd_def createEventfd_def Channel_new_def enableReading_def updateChannel_def
  update_def kNew_def kAdded_def Let_def

lemma enableReading_fd: "enableReading rc ch = Inr (ch', cs) \<Longrightarrow> ch_fd ch' = ch_fd ch"
  by (auto simp: enableReading_def updateChannel_def update_def Let_def split: if_splits)

text \<open>What making a loop does when it succeeds.\<close>

lemma construct_cases:
  assumes "EventLoop_construct t env i s = Inr (s', es)"
  obtains l cs1 cs2 where "t_loopInThisThread s t = None" "lo_tid l = t"
    "t_loopInThisThread s' = (t_loopInThisThread s)(t \<mapsto> i)" "lo_objs s' = (lo_objs s)(i \<mapsto> l)"
    "es = [LoOpen (lo_epollfd l), LoOpen (ch_fd (lo_timer l))] @ map (LoCtl i) cs1 @
       [LoOpen (ch_fd (lo_wakeup l))] @ map (LoCtl i) cs2"
proof -
  from assms obtain ep tm tch cs1 fd ch cs2 where
      "enableReading (k_timer_ctl env) (setReadCallback (Channel_new tm)) = Inr (tch, cs1)"
      "enableReading (k_event_ctl env) (setReadCallback (Channel_new fd)) = Inr (ch, cs2)"
      and r: "t_loopInThisThread s t = None"
      "s' = s\<lparr>t_loopInThisThread := (t_loopInThisThread s)(t \<mapsto> i),
          lo_objs := (lo_objs s)(i \<mapsto> \<lparr>lo_tid = t, lo_looping = False, lo_epollfd = ep, lo_timer = tch, lo_wakeup = ch\<rparr>)\<rparr>"
      "es = [LoOpen ep, LoOpen tm] @ map (LoCtl i) cs1 @ [LoOpen fd] @ map (LoCtl i) cs2"
    by (auto simp: EventLoop_construct_def split: if_splits)
  from this(1,2)[THEN enableReading_fd] have "ch_fd tch = tm" "ch_fd ch = fd" by (simp_all add: Channel_new_def)
  then show ?thesis using that [of "\<lparr>lo_tid = t, lo_looping = False, lo_epollfd = ep, lo_timer = tch, lo_wakeup = ch\<rparr>"] r
    by simp
qed

text \<open>A thread that has a loop makes no other, whatever the kernel answers.\<close>

lemma bindE_fatal:
  "(\<exists>m. x = Inl (Fatal m)) \<or> (\<exists>r. x = Inr r) \<Longrightarrow> (\<And>r. x = Inr r \<Longrightarrow> \<exists>m. f r = Inl (Fatal m)) \<Longrightarrow>
     \<exists>m. bindE x f = Inl (Fatal m)"
  by auto

lemma construct_refused:
  assumes "t_loopInThisThread s t = Some j"
  shows "\<exists>m. EventLoop_construct t env i s = Inl (Fatal m)"
proof -
  have "(\<exists>m. enableReading rc (setReadCallback (Channel_new fd)) = Inl (Fatal m)) \<or>
      (\<exists>r. enableReading rc (setReadCallback (Channel_new fd)) = Inr r)" for rc fd
    by (auto simp: Channel_new_def enableReading_def updateChannel_def update_def kNew_def kAdded_def Let_def)
  then show ?thesis using assms
    unfolding EventLoop_construct_def
    by (intro bindE_fatal; simp add: EPoller_construct_def createTimerfd_def createEventfd_def split: prod.split)
qed

lemma destroy_cases:
  assumes "EventLoop_destroy t i s = Inr (s', es)"
  obtains l where "lo_objs s i = Some l" "t_loopInThisThread s' = (t_loopInThisThread s)(t := None)"
    "lo_objs s' = (lo_objs s)(i := None)"
    "es = [LoClose (ch_fd (lo_wakeup l)), LoClose (ch_fd (lo_timer l)), LoClose (lo_epollfd l)]"
  using assms by (auto simp: EventLoop_destroy_def with_loop_def split: option.splits)

section \<open>One loop per thread\<close>

definition loops_inv :: "loops_state \<Rightarrow> bool" where
  "loops_inv s \<longleftrightarrow> (\<forall>t i. t_loopInThisThread s t = Some i \<longleftrightarrow> (\<exists>l. lo_objs s i = Some l \<and> lo_tid l = t))"

lemma loops_step_inv:
  assumes "loops_inv s" "lo_step e s = Inr (s', es)" "at_home [e] s"
  shows "loops_inv s'"
proof (cases e)
  case (Construct t env i)
  then obtain l where "t_loopInThisThread s t = None" "lo_objs s i = None" "lo_tid l = t"
      "t_loopInThisThread s' = (t_loopInThisThread s)(t \<mapsto> i)" "lo_objs s' = (lo_objs s)(i \<mapsto> l)"
    using assms(2,3) by (auto elim!: construct_cases)
  then show ?thesis using assms(1) unfolding loops_inv_def by (auto split: if_splits) (metis option.distinct(1))+
next
  case (Destruct t i)
  then obtain l where "lo_objs s i = Some l" "lo_tid l = t" "t_loopInThisThread s' = (t_loopInThisThread s)(t := None)"
      "lo_objs s' = (lo_objs s)(i := None)"
    using assms(2,3) by (auto elim!: destroy_cases)
  then show ?thesis using assms(1) unfolding loops_inv_def by (auto split: if_splits) (metis option.inject)+
next
  case (Enter t i)
  then show ?thesis using assms(1,2)
    by (auto simp: loop_enter_def with_loop_def assertInLoopThread_def loops_inv_def split: option.splits if_splits)
next
  case (Leave i)
  then show ?thesis using assms(1,2)
    by (auto simp: loop_leave_def with_loop_def loops_inv_def split: option.splits if_splits)
qed

lemma loops_run_inv:
  "loops_inv s \<Longrightarrow> run_steps lo_step ops s = Inr (s', es) \<Longrightarrow> at_home ops s \<Longrightarrow> loops_inv s'"
proof (induction ops arbitrary: s es)
  case (Cons e ops)
  obtain s1 es1 es2 where 1: "lo_step e s = Inr (s1, es1)" "run_steps lo_step ops s1 = Inr (s', es2)"
    using Cons.prems(2) by auto
  have "at_home [e] s" "at_home ops s1" using Cons.prems(3) 1(1) by (simp_all split: lo_op.splits)
  then show ?case using loops_step_inv [OF Cons.prems(1) 1(1)] Cons.IH [OF _ 1(2)] by blast
qed simp

section \<open>Descriptors\<close>

fun opened_fds :: "lo_eff list \<Rightarrow> int multiset" where
  "opened_fds [] = {#}"
| "opened_fds (LoOpen fd # es) = add_mset fd (opened_fds es)"
| "opened_fds (_ # es) = opened_fds es"

fun closed_fds :: "lo_eff list \<Rightarrow> int multiset" where
  "closed_fds [] = {#}"
| "closed_fds (LoClose fd # es) = add_mset fd (closed_fds es)"
| "closed_fds (_ # es) = closed_fds es"

lemma fds_append [simp]:
  "opened_fds (es @ fs) = opened_fds es + opened_fds fs" "closed_fds (es @ fs) = closed_fds es + closed_fds fs"
  by (induction es rule: opened_fds.induct; simp)+

lemma fds_ctl [simp]: "opened_fds (map (LoCtl i) cs) = {#}" "closed_fds (map (LoCtl i) cs) = {#}"
  by (induction cs) simp_all

definition held :: "loops_state \<Rightarrow> nat \<Rightarrow> int multiset" where
  "held s i = (case lo_objs s i of None \<Rightarrow> {#}
     | Some l \<Rightarrow> {#lo_epollfd l, ch_fd (lo_timer l), ch_fd (lo_wakeup l)#})"

fun op_loop :: "lo_op \<Rightarrow> nat" where
  "op_loop (Construct t env i) = i"
| "op_loop (Destruct t i) = i"
| "op_loop (Enter t i) = i"
| "op_loop (Leave i) = i"

text \<open>What was opened is what was closed and what is held, all numbers being below \<open>n\<close>.\<close>

lemma step_fds:
  assumes "lo_step e s = Inr (s', es)" "at_home [e] s" "op_loop e < n"
  shows "opened_fds es + (\<Sum>i<n. held s i) = closed_fds es + (\<Sum>i<n. held s' i)"
proof -
  have upd: "(\<Sum>j<n. (f(i := x)) j) + f i = (\<Sum>j<n. f j) + x" if "i < n" for f :: "nat \<Rightarrow> int multiset" and i x
    using that sum.remove [of "{..<n}" i f] sum.remove [of "{..<n}" i "f(i := x)"] by (simp add: ac_simps)
  show ?thesis
  proof (cases e)
    case (Construct t env i)
    then obtain l cs1 cs2 where "lo_objs s' = (lo_objs s)(i \<mapsto> l)" "lo_objs s i = None"
        "es = [LoOpen (lo_epollfd l), LoOpen (ch_fd (lo_timer l))] @ map (LoCtl i) cs1 @
          [LoOpen (ch_fd (lo_wakeup l))] @ map (LoCtl i) cs2"
      using assms(1,2) by (auto elim!: construct_cases)
    moreover from this have "held s' = (held s)(i := opened_fds es)" "held s i = {#}"
      by (auto simp: held_def fun_eq_iff)
    ultimately show ?thesis using upd [of i "held s" "opened_fds es"] Construct assms(3) by (simp add: ac_simps)
  next
    case (Destruct t i)
    then obtain l where l: "lo_objs s i = Some l" "lo_objs s' = (lo_objs s)(i := None)"
        "es = [LoClose (ch_fd (lo_wakeup l)), LoClose (ch_fd (lo_timer l)), LoClose (lo_epollfd l)]"
      using assms(1) by (auto elim!: destroy_cases)
    then have "held s' = (held s)(i := {#})" "held s i = closed_fds es"
      by (auto simp: held_def fun_eq_iff)
    then show ?thesis using upd [of i "held s" "{#}"] Destruct assms(3) l(3) by (simp add: ac_simps)
  next
    case (Enter t i)
    then have "held s' = held s" "es = []" using assms(1)
      by (auto simp: loop_enter_def with_loop_def assertInLoopThread_def held_def fun_eq_iff split: option.splits if_splits)
    then show ?thesis by simp
  next
    case (Leave i)
    then have "held s' = held s" "es = []" using assms(1)
      by (auto simp: loop_leave_def with_loop_def held_def fun_eq_iff split: option.splits if_splits)
    then show ?thesis by simp
  qed
qed

lemma run_fds:
  "run_steps lo_step ops s = Inr (s', es) \<Longrightarrow> at_home ops s \<Longrightarrow> \<forall>e\<in>set ops. op_loop e < n \<Longrightarrow>
     opened_fds es + (\<Sum>i<n. held s i) = closed_fds es + (\<Sum>i<n. held s' i)"
proof (induction ops arbitrary: s es)
  case (Cons e ops)
  obtain s1 es1 es2 where 1: "lo_step e s = Inr (s1, es1)" "run_steps lo_step ops s1 = Inr (s', es2)" "es = es1 @ es2"
    using Cons.prems(1) by auto
  have h: "at_home [e] s" "at_home ops s1" using Cons.prems(2) 1(1) by (simp_all split: lo_op.splits)
  have "opened_fds es1 + (\<Sum>i<n. held s i) = closed_fds es1 + (\<Sum>i<n. held s1 i)"
    by (rule step_fds [OF 1(1) h(1)]) (use Cons.prems(3) in simp)
  moreover have "opened_fds es2 + (\<Sum>i<n. held s1 i) = closed_fds es2 + (\<Sum>i<n. held s' i)"
    by (rule Cons.IH [OF 1(2) h(2)]) (use Cons.prems(3) in simp)
  ultimately have "opened_fds es2 + opened_fds es1 + (\<Sum>i<n. held s i) = closed_fds es2 + closed_fds es1 + (\<Sum>i<n. held s' i)"
    by (metis add.assoc add.commute)
  then show ?case using 1(3) by (simp add: ac_simps)
qed simp

text \<open>C24: One loop per thread. However loops are made, entered, left and destroyed in the threads they
  belong to, a thread never has two of them, \<open>t_loopInThisThread\<close> names the one it has, and making a
  second one in a thread stops the process; and when no loop is left, each descriptor opened for one has
  been closed exactly once. The guard fails if a loop is destroyed in another thread than its own,
  because the destructor clears the pointer of the thread it runs in: that thread can then make a
  second loop, and the thread the loop was made in can make none.\<close>

theorem one_loop_per_thread:
  assumes "run_steps lo_step ops loops_init = Inr (s, es)" "at_home ops loops_init"
  shows "(\<forall>i j l m. lo_objs s i = Some l \<longrightarrow> lo_objs s j = Some m \<longrightarrow> lo_tid l = lo_tid m \<longrightarrow> i = j) \<and>
    (\<forall>i l. lo_objs s i = Some l \<longrightarrow> t_loopInThisThread s (lo_tid l) = Some i) \<and>
    (\<forall>i l env j. lo_objs s i = Some l \<longrightarrow> (\<exists>m. lo_step (Construct (lo_tid l) env j) s = Inl (Fatal m))) \<and>
    (lo_objs s = Map.empty \<longrightarrow> opened_fds es = closed_fds es) \<and>
    (\<exists>s' es'. run_steps lo_step [Construct 1 good_env 0, Construct 2 good_env 1, Destruct 2 0, Construct 2 good_env 2]
         loops_init = Inr (s', es') \<and>
       map_option lo_tid (lo_objs s' 1) = Some 2 \<and> map_option lo_tid (lo_objs s' 2) = Some 2 \<and>
       lo_step (Construct 1 good_env 3) s' = Inl (Fatal ''Another EventLoop exists in this thread''))"
proof -
  have "loops_inv loops_init" by (simp add: loops_inv_def loops_init_def)
  from loops_run_inv [OF this assms] have inv: "loops_inv s" .
  then have names: "\<forall>i l. lo_objs s i = Some l \<longrightarrow> t_loopInThisThread s (lo_tid l) = Some i"
    unfolding loops_inv_def by blast
  then have "\<forall>i j l m. lo_objs s i = Some l \<longrightarrow> lo_objs s j = Some m \<longrightarrow> lo_tid l = lo_tid m \<longrightarrow> i = j"
    by (metis option.inject)
  moreover have "\<forall>i l env j. lo_objs s i = Some l \<longrightarrow> (\<exists>m. lo_step (Construct (lo_tid l) env j) s = Inl (Fatal m))"
    using names by (auto intro!: construct_refused)
  moreover have "opened_fds es = closed_fds es" if "lo_objs s = Map.empty"
  proof -
    obtain n where "\<forall>e\<in>set ops. op_loop e < n"
      using finite_nat_set_iff_bounded [of "op_loop ` set ops"] by auto
    from run_fds [OF assms this] that show ?thesis by (simp add: held_def loops_init_def)
  qed
  moreover have "\<exists>s' es'. run_steps lo_step [Construct 1 good_env 0, Construct 2 good_env 1, Destruct 2 0, Construct 2 good_env 2]
         loops_init = Inr (s', es') \<and>
       map_option lo_tid (lo_objs s' 1) = Some 2 \<and> map_option lo_tid (lo_objs s' 2) = Some 2 \<and>
       lo_step (Construct 1 good_env 3) s' = Inl (Fatal ''Another EventLoop exists in this thread'')"
    by (simp add: loop_evals)
  ultimately show ?thesis using names by blast
qed

theorem one_loop_per_thread_witness:
  "\<exists>s es. run_steps lo_step [Construct 1 good_env 0, Construct 2 good_env 1, Destruct 1 0, Destruct 2 1] loops_init =
     Inr (s, es) \<and> opened_fds es = closed_fds es \<and> opened_fds es \<noteq> {#}"
proof -
  let ?ops = "[Construct 1 good_env 0, Construct 2 good_env 1, Destruct 1 0, Destruct 2 1]"
  obtain s es where run: "run_steps lo_step ?ops loops_init = Inr (s, es)" "lo_objs s = Map.empty" "opened_fds es \<noteq> {#}"
    by (simp add: loop_evals fun_eq_iff)
  have "at_home ?ops loops_init" by (simp add: loop_evals)
  from one_loop_per_thread [OF run(1) this] run show ?thesis by metis
qed

end
