(* ===== verification/TimerQueue.thy ===== *)
theory TimerQueue
  imports Prelude "HOL-Library.Product_Lexorder" "HOL-Library.Multiset"
begin

text \<open>
  Timers (include/net/Timer.h, include/net/TimerQueue.h, src/net/Timer.cpp,
  src/net/TimerQueue.cpp) and the time stamps they use (include/utils/DateTime.h,
  src/utils/DateTime.cpp). Timers live in a heap indexed by address, so that use after free and
  double deletion are faults. \<open>timers_\<close>, a \<open>std::set\<close> of pairs of time and address, is a strictly
  sorted list; \<open>activeTimers_\<close> and \<open>cancelingTimers_\<close>, of which only membership and size matter,
  are sets. The allocator is an argument \<open>alloc\<close> that maps the live addresses to a new one. An
  interval, a \<open>double\<close> in the code, enters through its two uses: the test \<open>interval > 0.0\<close> and
  its conversion to microseconds. The clock readings are arguments.
\<close>

section \<open>Time stamps and timers\<close>

type_synonym datetime = u64
type_synonym ptr = nat

definition addTime :: "datetime \<Rightarrow> u64 \<Rightarrow> datetime" where
  "addTime timestamp delta = timestamp + delta"

definition valid :: "datetime \<Rightarrow> bool" where
  "valid t \<longleftrightarrow> t > 0"

definition invalid :: datetime where
  "invalid = 0"

record timer =
  expiration :: datetime
  interval_us :: u64
  repeats :: bool
  sequence :: u64

definition Timer_new :: "datetime \<Rightarrow> u64 \<Rightarrow> bool \<Rightarrow> u64 \<Rightarrow> timer" where
  "Timer_new when delta rep numCreated =
     \<lparr>expiration = when, interval_us = delta, repeats = rep, sequence = numCreated\<rparr>"

declare Timer_new_def [simp]

definition restart :: "datetime \<Rightarrow> timer \<Rightarrow> timer" where
  "restart now t =
     (if repeats t then t\<lparr>expiration := addTime now (interval_us t)\<rparr> else t\<lparr>expiration := invalid\<rparr>)"

text \<open>The delay until \<open>when\<close>, in seconds and nanoseconds, but at least 100 microseconds.\<close>

definition howMuchTimeFromNow :: "datetime \<Rightarrow> datetime \<Rightarrow> int \<times> int" where
  "howMuchTimeFromNow now when =
     (let microseconds = sint (when - now);
          microseconds1 = (if microseconds < 100 then 100 else microseconds)
      in (microseconds1 div (1000 * 1000), microseconds1 mod (1000 * 1000) * 1000))"

section \<open>State\<close>

text \<open>\<open>armed\<close> is the expiration the timer descriptor was last set to, until it fires.\<close>

record timerq =
  timers :: "(datetime \<times> ptr) list"
  activeTimers :: "(ptr \<times> u64) set"
  cancelingTimers :: "(ptr \<times> u64) set"
  callingExpiredTimers :: bool
  heap :: "ptr \<rightharpoonup> timer"
  numCreated :: u64
  armed :: "datetime option"

definition TimerQueue_new :: timerq where
  "TimerQueue_new =
     \<lparr>timers = [], activeTimers = {}, cancelingTimers = {}, callingExpiredTimers = False,
      heap = Map.empty, numCreated = 0, armed = None\<rparr>"

datatype tq_eff = ESetTimer int int | ERun ptr | ETimerId ptr u64

definition deref :: "ptr \<Rightarrow> timerq \<Rightarrow> timer result" where
  "deref p q = (case heap q p of None \<Rightarrow> Inl (BadAccess ''timer'') | Some t \<Rightarrow> Inr t)"

definition delete_timer :: "ptr \<Rightarrow> timerq \<Rightarrow> timerq result" where
  "delete_timer p q = bindE (deref p q) (\<lambda>_. Inr (q\<lparr>heap := (heap q)(p := None)\<rparr>))"

definition assert_sizes :: "timerq \<Rightarrow> 'a result \<Rightarrow> 'a result" where
  "assert_sizes q m =
     assertE ''timers_.size() == activeTimers_.size()'' (length (timers q) = card (activeTimers q)) m"

definition resetTimerfd :: "datetime \<Rightarrow> datetime \<Rightarrow> timerq \<Rightarrow> timerq \<times> tq_eff list" where
  "resetTimerfd now expir q =
     (let (sec, nsec) = howMuchTimeFromNow now expir in (q\<lparr>armed := Some expir\<rparr>, [ESetTimer sec nsec]))"

section \<open>Operations\<close>

definition insert_timer :: "ptr \<Rightarrow> timerq \<Rightarrow> (bool \<times> timerq) result" where
  "insert_timer p q = assert_sizes q
     (bindE (deref p q) (\<lambda>t.
      (let when = expiration t;
           earliestChanged = (timers q = [] \<or> when < fst (hd (timers q)));
           q1 = q\<lparr>timers := insort_insert (when, p) (timers q),
                  activeTimers := insert (p, sequence t) (activeTimers q)\<rparr>
       in assert_sizes q1 (Inr (earliestChanged, q1)))))"

definition addTimerInLoop :: "datetime \<Rightarrow> ptr \<Rightarrow> timerq \<Rightarrow> (timerq \<times> tq_eff list) result" where
  "addTimerInLoop now p q =
     bindE (insert_timer p q) (\<lambda>(earliestChanged, q1).
       if earliestChanged then bindE (deref p q1) (\<lambda>t. Inr (resetTimerfd now (expiration t) q1))
       else Inr (q1, []))"

text \<open>\<open>addTimer\<close>, called in the loop thread: it makes the timer and puts it in.\<close>

definition addTimer ::
  "(ptr set \<Rightarrow> ptr) \<Rightarrow> datetime \<Rightarrow> datetime \<Rightarrow> u64 \<Rightarrow> bool \<Rightarrow> timerq \<Rightarrow> (timerq \<times> tq_eff list) result" where
  "addTimer alloc now when delta rep q =
     (let p = alloc (dom (heap q));
          t = Timer_new when delta rep (numCreated q);
          q1 = q\<lparr>heap := (heap q)(p \<mapsto> t), numCreated := numCreated q + 1\<rparr>
      in bindE (addTimerInLoop now p q1) (\<lambda>(q2, es). Inr (q2, es @ [ETimerId p (sequence t)])))"

definition cancelInLoop :: "ptr \<Rightarrow> u64 \<Rightarrow> timerq \<Rightarrow> (timerq \<times> tq_eff list) result" where
  "cancelInLoop p seq q =
     (let k = (p, seq) in
      if k \<in> activeTimers q then
        bindE (deref p q) (\<lambda>t.
        bindE (delete_timer p (q\<lparr>timers := removeAll (expiration t, p) (timers q)\<rparr>)) (\<lambda>q1.
        (let q2 = q1\<lparr>activeTimers := activeTimers q1 - {k}\<rparr> in assert_sizes q2 (Inr (q2, [])))))
      else
        (let q2 = (if callingExpiredTimers q then q\<lparr>cancelingTimers := insert k (cancelingTimers q)\<rparr>
                   else q)
         in assert_sizes q2 (Inr (q2, []))))"

fun erase_active :: "(datetime \<times> ptr) list \<Rightarrow> timerq \<Rightarrow> timerq result" where
  "erase_active [] q = Inr q"
| "erase_active ((e, p) # es) q =
     bindE (deref p q) (\<lambda>t. erase_active es (q\<lparr>activeTimers := activeTimers q - {(p, sequence t)}\<rparr>))"

text \<open>
  \<open>lower_bound\<close> of \<open>(now, nullptr)\<close> splits the set at the first entry that is not less than it.
\<close>

definition getExpired :: "datetime \<Rightarrow> timerq \<Rightarrow> ((datetime \<times> ptr) list \<times> timerq) result" where
  "getExpired now q =
     (let sentry = (now, 0 :: ptr);
          expired = takeWhile (\<lambda>e. e < sentry) (timers q);
          rest = dropWhile (\<lambda>e. e < sentry) (timers q)
      in assertE ''it == timers_.end() || now < it->first'' (rest = [] \<or> now < fst (hd rest))
           (bindE (erase_active expired (q\<lparr>timers := rest\<rparr>)) (\<lambda>q1.
            assert_sizes q1 (Inr (expired, q1)))))"

fun reset_each :: "(datetime \<times> ptr) list \<Rightarrow> datetime \<Rightarrow> timerq \<Rightarrow> timerq result" where
  "reset_each [] now q = Inr q"
| "reset_each ((e, p) # es) now q =
     bindE (deref p q) (\<lambda>t.
     bindE (if repeats t \<and> (p, sequence t) \<notin> cancelingTimers q
            then bindE (insert_timer p (q\<lparr>heap := (heap q)(p \<mapsto> restart now t)\<rparr>)) (\<lambda>(_, q1). Inr q1)
            else delete_timer p q) (\<lambda>q1.
     reset_each es now q1))"

definition reset ::
  "(datetime \<times> ptr) list \<Rightarrow> datetime \<Rightarrow> datetime \<Rightarrow> timerq \<Rightarrow> (timerq \<times> tq_eff list) result" where
  "reset expired now clock q =
     bindE (reset_each expired now q) (\<lambda>q1.
     bindE (if timers q1 \<noteq> [] then bindE (deref (snd (hd (timers q1))) q1) (\<lambda>t. Inr (expiration t))
            else Inr invalid) (\<lambda>nextExpire.
     Inr (if valid nextExpire then resetTimerfd clock nextExpire q1 else (q1, []))))"

text \<open>What a timer callback does to the queue, in the loop thread.\<close>

datatype tq_act = ActAdd datetime datetime u64 bool | ActCancel ptr u64

fun do_tq_act :: "(ptr set \<Rightarrow> ptr) \<Rightarrow> tq_act \<Rightarrow> timerq \<Rightarrow> (timerq \<times> tq_eff list) result" where
  "do_tq_act alloc (ActAdd now when delta rep) q = addTimer alloc now when delta rep q"
| "do_tq_act alloc (ActCancel p seq) q = cancelInLoop p seq q"

definition run_timer ::
  "(ptr set \<Rightarrow> ptr) \<Rightarrow> (ptr \<Rightarrow> tq_act list) \<Rightarrow> datetime \<times> ptr \<Rightarrow> timerq \<Rightarrow> (timerq \<times> tq_eff list) result" where
  "run_timer alloc cbs e q =
     bindE (deref (snd e) q) (\<lambda>t.
     bindE (run_steps (do_tq_act alloc) (cbs (snd e)) q) (\<lambda>(q1, es). Inr (q1, ERun (snd e) # es)))"

definition timer_handleRead ::
  "(ptr set \<Rightarrow> ptr) \<Rightarrow> (ptr \<Rightarrow> tq_act list) \<Rightarrow> datetime \<Rightarrow> datetime \<Rightarrow> timerq \<Rightarrow>
     (timerq \<times> tq_eff list) result" where
  "timer_handleRead alloc cbs now clock q =
     bindE (getExpired now (q\<lparr>armed := None\<rparr>)) (\<lambda>(expired, q1).
     bindE (run_steps (run_timer alloc cbs) expired
              (q1\<lparr>callingExpiredTimers := True, cancelingTimers := {}\<rparr>)) (\<lambda>(q2, es1).
     bindE (reset expired now clock (q2\<lparr>callingExpiredTimers := False\<rparr>)) (\<lambda>(q3, es2).
     Inr (q3, es1 @ es2))))"

datatype tq_op = OpAct tq_act | OpExpire "ptr \<Rightarrow> tq_act list" datetime datetime

fun tq_step :: "(ptr set \<Rightarrow> ptr) \<Rightarrow> tq_op \<Rightarrow> timerq \<Rightarrow> (timerq \<times> tq_eff list) result" where
  "tq_step alloc (OpAct a) q = do_tq_act alloc a q"
| "tq_step alloc (OpExpire cbs now clock) q = timer_handleRead alloc cbs now clock q"

section \<open>Invariant\<close>

text \<open>
  Outside the handling of expired timers the live timers are exactly the entries of \<open>timers_\<close>;
  during it, the timers \<open>ex\<close> taken out are live too.
\<close>

definition entry_ok :: "(ptr \<rightharpoonup> timer) \<Rightarrow> datetime \<times> ptr \<Rightarrow> bool" where
  "entry_ok h e \<longleftrightarrow> (\<exists>t. h (snd e) = Some t \<and> expiration t = fst e)"

definition key :: "(ptr \<rightharpoonup> timer) \<Rightarrow> ptr \<Rightarrow> ptr \<times> u64" where
  "key h p = (p, sequence (the (h p)))"

definition tq_inv_ex :: "ptr list \<Rightarrow> timerq \<Rightarrow> bool" where
  "tq_inv_ex ex q \<longleftrightarrow>
     sorted (timers q) \<and> distinct (map snd (timers q) @ ex) \<and>
     (\<forall>e\<in>set (timers q). entry_ok (heap q) e) \<and>
     dom (heap q) = set (map snd (timers q) @ ex) \<and>
     activeTimers q = key (heap q) ` set (map snd (timers q)) \<and> 0 \<notin> dom (heap q)"

definition tq_inv :: "timerq \<Rightarrow> bool" where
  "tq_inv q \<longleftrightarrow> tq_inv_ex [] q \<and> \<not> callingExpiredTimers q"

definition alloc_ok :: "(ptr set \<Rightarrow> ptr) \<Rightarrow> bool" where
  "alloc_ok alloc \<longleftrightarrow> (\<forall>S. finite S \<longrightarrow> alloc S \<notin> S \<and> alloc S \<noteq> 0)"

lemma tq_inv_ex_fields [simp]:
  "tq_inv_ex ex (q\<lparr>armed := a\<rparr>) = tq_inv_ex ex q"
  "tq_inv_ex ex (q\<lparr>cancelingTimers := c\<rparr>) = tq_inv_ex ex q"
  "tq_inv_ex ex (q\<lparr>callingExpiredTimers := b\<rparr>) = tq_inv_ex ex q"
  by (auto simp: tq_inv_ex_def)

lemma inv_sizes: "tq_inv_ex ex q \<Longrightarrow> assert_sizes q m = m"
proof -
  assume inv: "tq_inv_ex ex q"
  have "inj_on (key (heap q)) S" for S by (rule inj_onI) (simp add: key_def)
  then have "card (activeTimers q) = card (set (map snd (timers q)))"
    using inv by (simp add: tq_inv_ex_def card_image)
  also have "\<dots> = length (timers q)" using inv distinct_card [of "map snd (timers q)"] by (simp add: tq_inv_ex_def)
  finally show ?thesis by (simp add: assert_sizes_def)
qed

lemma new_inv [simp]: "tq_inv TimerQueue_new"
  by (simp add: tq_inv_def tq_inv_ex_def TimerQueue_new_def)

lemma deref_live: "p \<in> dom (heap q) \<Longrightarrow> \<exists>t. deref p q = Inr t \<and> heap q p = Some t"
  by (auto simp: deref_def)

lemma tq_invD:
  assumes "tq_inv_ex ex q"
  shows "sorted (timers q)" "distinct (map snd (timers q) @ ex)"
    "e \<in> set (timers q) \<Longrightarrow> entry_ok (heap q) e"
    "dom (heap q) = snd ` set (timers q) \<union> set ex"
    "activeTimers q = key (heap q) ` snd ` set (timers q)" "0 \<notin> dom (heap q)"
  using assms by (auto simp: tq_inv_ex_def)

text \<open>Inserting a live timer that is not in the set.\<close>

lemma insert_timer_inv:
  assumes inv: "tq_inv_ex (ex1 @ p # ex2) q0" and q: "q = q0\<lparr>heap := (heap q0)(p \<mapsto> t)\<rparr>"
    and seq: "sequence t = sequence (the (heap q0 p))"
  shows "\<exists>q1. insert_timer p q = Inr (timers q = [] \<or> expiration t < fst (hd (timers q)), q1) \<and>
     tq_inv_ex (ex1 @ ex2) q1 \<and>
     q1 = q\<lparr>timers := insort (expiration t, p) (timers q),
           activeTimers := insert (p, sequence t) (activeTimers q)\<rparr>"
proof -
  note D = tq_invD [OF inv]
  have fresh: "p \<notin> snd ` set (timers q0)" using D(2) by (simp add: image_iff)
  then have new: "(expiration t, p) \<notin> set (timers q)" by (force simp: q)
  have key: "key (heap q) = key (heap q0)" by (rule ext) (simp add: key_def q seq)
  have inv': "tq_inv_ex (ex1 @ p # ex2) q"
    unfolding tq_inv_ex_def
  proof (intro conjI)
    show "sorted (timers q)" "distinct (map snd (timers q) @ ex1 @ p # ex2)" using D(1,2) by (simp_all add: q)
    show "\<forall>e\<in>set (timers q). entry_ok (heap q) e"
      using D(3) fresh by (auto simp: q entry_ok_def)
    show "dom (heap q) = set (map snd (timers q) @ ex1 @ p # ex2)" using D(4) by (auto simp: q)
    show "activeTimers q = key (heap q) ` set (map snd (timers q))" using D(5) by (simp add: key) (simp add: q)
    show "0 \<notin> dom (heap q)" using D(4,6) by (auto simp: q)
  qed
  note E = tq_invD [OF inv']
  let ?q1 = "q\<lparr>timers := insort (expiration t, p) (timers q),
           activeTimers := insert (p, sequence t) (activeTimers q)\<rparr>"
  have "mset (map snd (insort (expiration t, p) (timers q)) @ ex1 @ ex2) =
      mset (map snd (timers q) @ ex1 @ p # ex2)"
    by simp
  then have d: "distinct (map snd (insort (expiration t, p) (timers q)) @ ex1 @ ex2)"
    using E(2) mset_eq_imp_distinct_iff by blast
  have inv1: "tq_inv_ex (ex1 @ ex2) ?q1"
    unfolding tq_inv_ex_def
  proof (intro conjI)
    show "sorted (timers ?q1)" using E(1) by (simp add: sorted_insort)
    show "distinct (map snd (timers ?q1) @ ex1 @ ex2)" using d by simp
    show "\<forall>e\<in>set (timers ?q1). entry_ok (heap ?q1) e"
      using E(3) by (auto simp: set_insort_key entry_ok_def q)
    show "dom (heap ?q1) = set (map snd (timers ?q1) @ ex1 @ ex2)"
      using E(4) by (auto simp: set_insort_key)
    show "activeTimers ?q1 = key (heap ?q1) ` set (map snd (timers ?q1))"
      using E(5) by (simp add: set_insort_key) (simp add: key_def q)
    show "0 \<notin> dom (heap ?q1)" using E(6) by simp
  qed
  have "deref p q = Inr t" by (simp add: deref_def q)
  then show ?thesis
    using inv1 new
    by (simp add: insert_timer_def Let_def insort_insert_insort inv_sizes [OF inv'] inv_sizes [OF inv1])
qed

text \<open>The fields other than the sets, on the timers \<open>ex\<close> taken out.\<close>

definition keeps :: "ptr list \<Rightarrow> timerq \<Rightarrow> timerq \<Rightarrow> bool" where
  "keeps ex q q' \<longleftrightarrow> (\<forall>p\<in>set ex. heap q' p = heap q p) \<and>
     callingExpiredTimers q' = callingExpiredTimers q \<and>
     cancelingTimers q \<subseteq> cancelingTimers q'"

lemma keeps_refl [simp]: "keeps ex q q" by (simp add: keeps_def)

lemma keeps_trans: "keeps ex q q1 \<Longrightarrow> keeps ex q1 q2 \<Longrightarrow> keeps ex q q2"
  by (auto simp: keeps_def)

lemma addTimer_inv:
  assumes al: "alloc_ok alloc" and inv: "tq_inv_ex ex q"
  shows "\<exists>q' es. addTimer alloc now when delta rep q = Inr (q', es) \<and> tq_inv_ex ex q' \<and> keeps ex q q' \<and>
     timers q' = insort (when, alloc (dom (heap q))) (timers q) \<and>
     armed q' = (if timers q = [] \<or> when < fst (hd (timers q)) then Some when else armed q) \<and>
     (\<forall>p. ERun p \<notin> set es)"
proof -
  note D = tq_invD [OF inv]
  let ?p = "alloc (dom (heap q))"
  let ?t = "\<lparr>expiration = when, interval_us = delta, repeats = rep, sequence = numCreated q\<rparr>"
  let ?q1 = "q\<lparr>heap := (heap q)(?p \<mapsto> ?t), numCreated := numCreated q + 1\<rparr>"
  have "finite (dom (heap q))" using D(4) by simp
  then have fresh: "?p \<notin> dom (heap q)" "?p \<noteq> 0" using al by (simp_all add: alloc_ok_def)
  then have np: "?p \<notin> snd ` set (timers q)" "?p \<notin> set ex" using D(4) by auto
  have inv0: "tq_inv_ex ([] @ ?p # ex) ?q1"
    unfolding tq_inv_ex_def
  proof (intro conjI)
    show "sorted (timers ?q1)" using D(1) by simp
    show "distinct (map snd (timers ?q1) @ [] @ ?p # ex)" using D(2) np by auto
    show "\<forall>e\<in>set (timers ?q1). entry_ok (heap ?q1) e"
    proof
      fix e assume e: "e \<in> set (timers ?q1)"
      then have "snd e \<in> snd ` set (timers q)" by simp
      then have "snd e \<noteq> ?p" using np(1) by metis
      then show "entry_ok (heap ?q1) e" using D(3) [of e] e by (simp add: entry_ok_def)
    qed
    show "dom (heap ?q1) = set (map snd (timers ?q1) @ [] @ ?p # ex)" using D(4) by auto
    have "key (heap q) ` snd ` set (timers q) = key (heap ?q1) ` snd ` set (timers q)"
    proof (rule image_cong [OF refl])
      fix x assume "x \<in> snd ` set (timers q)"
      then have "x \<noteq> ?p" using np(1) by metis
      then show "key (heap q) x = key (heap ?q1) x" by (simp add: key_def)
    qed
    then show "activeTimers ?q1 = key (heap ?q1) ` set (map snd (timers ?q1))"
      using D(5) by simp
    show "0 \<notin> dom (heap ?q1)" using D(6) fresh by auto
  qed
  obtain q2 where q2: "insert_timer ?p ?q1 = Inr (timers q = [] \<or> when < fst (hd (timers q)), q2)"
      "tq_inv_ex ex q2"
      "q2 = ?q1\<lparr>timers := insort (when, ?p) (timers q),
               activeTimers := insert (?p, numCreated q) (activeTimers q)\<rparr>"
    using insert_timer_inv [OF inv0, of ?q1 ?t] by auto
  have inv3: "tq_inv_ex ex (q2\<lparr>armed := a\<rparr>)" for a using q2(2) by simp
  show ?thesis using q2(1,2) inv3 np
    by (auto simp: addTimer_def addTimerInLoop_def Let_def q2(3) deref_def resetTimerfd_def keeps_def
        split: prod.splits)
qed

lemma key_minus:
  "key h p = (p, seq) \<Longrightarrow> key h ` S - {(p, seq)} = key (h(p := None)) ` (S - {p})"
  by (auto simp: key_def image_iff)

lemma removeAll_inv:
  assumes inv: "tq_inv_ex ex q" and t: "heap q p = Some t" and p: "p \<in> snd ` set (timers q)"
  shows "tq_inv_ex ex (q\<lparr>timers := removeAll (expiration t, p) (timers q), heap := (heap q)(p := None),
     activeTimers := activeTimers q - {(p, sequence t)}\<rparr>)"
proof -
  note D = tq_invD [OF inv]
  let ?q = "q\<lparr>timers := removeAll (expiration t, p) (timers q), heap := (heap q)(p := None),
     activeTimers := activeTimers q - {(p, sequence t)}\<rparr>"
  have only: "e = (expiration t, p)" if "e \<in> set (timers q)" "snd e = p" for e
    using D(3) [OF that(1)] that(2) t by (cases e) (simp add: entry_ok_def)
  have pex: "p \<notin> set ex" using D(2) p by auto
  have snds: "snd ` set (timers ?q) = snd ` set (timers q) - {p}" using only by force
  show ?thesis unfolding tq_inv_ex_def
  proof (intro conjI)
    show "sorted (timers ?q)" using D(1) by (simp add: removeAll_filter_not_eq sorted_wrt_filter)
    show "distinct (map snd (timers ?q) @ ex)"
      using D(2) by (auto simp: removeAll_filter_not_eq distinct_map_filter)
    show "\<forall>e\<in>set (timers ?q). entry_ok (heap ?q) e"
      using D(3) only by (auto simp: entry_ok_def)
    show "dom (heap ?q) = set (map snd (timers ?q) @ ex)"
      using D(4) pex snds by auto
    have "key (heap q) p = (p, sequence t)" using t by (simp add: key_def)
    note km = key_minus [OF this, of "snd ` set (timers q)"]
    show "activeTimers ?q = key (heap ?q) ` set (map snd (timers ?q))"
      unfolding set_map snds using km D(5) by simp
    show "0 \<notin> dom (heap ?q)" using D(6) by simp
  qed
qed

lemma cancel_inv:
  assumes inv: "tq_inv_ex ex q"
  shows "\<exists>q'. cancelInLoop p seq q = Inr (q', []) \<and> tq_inv_ex ex q' \<and> keeps ex q q' \<and> armed q' = armed q \<and>
     set (timers q') = {e \<in> set (timers q). \<not> (snd e = p \<and> key (heap q) p = (p, seq))} \<and>
     (callingExpiredTimers q \<longrightarrow> p \<in> set ex \<longrightarrow> (p, seq) \<in> cancelingTimers q')"
proof (cases "(p, seq) \<in> activeTimers q")
  case True
  note D = tq_invD [OF inv]
  have p: "p \<in> snd ` set (timers q)" and k: "key (heap q) p = (p, seq)"
    using True D(5) by (auto simp: key_def)
  have "p \<in> dom (heap q)" unfolding D(4) using p by blast
  then obtain t where t: "heap q p = Some t" by blast
  have sq: "sequence t = seq" using k t by (simp add: key_def)
  have pex: "p \<notin> set ex" using D(2) p by auto
  let ?q = "q\<lparr>timers := removeAll (expiration t, p) (timers q), heap := (heap q)(p := None),
     activeTimers := activeTimers q - {(p, seq)}\<rparr>"
  have inv': "tq_inv_ex ex ?q" using removeAll_inv [OF inv t(1) p] unfolding sq .
  have dl: "delete_timer p (q\<lparr>timers := removeAll (expiration t, p) (timers q)\<rparr>) =
      Inr (q\<lparr>timers := removeAll (expiration t, p) (timers q), heap := (heap q)(p := None)\<rparr>)"
    using t by (simp add: delete_timer_def deref_def)
  have eq: "cancelInLoop p seq q = Inr (?q, [])"
    using True t dl by (simp add: cancelInLoop_def Let_def deref_def inv_sizes [OF inv'])
  have only: "e = (expiration t, p)" if "e \<in> set (timers q)" "snd e = p" for e
    using D(3) [OF that(1)] that(2) t by (cases e) (simp add: entry_ok_def)
  have "set (timers ?q) = {e \<in> set (timers q). \<not> (snd e = p \<and> key (heap q) p = (p, seq))}"
  proof (rule set_eqI)
    fix e
    show "e \<in> set (timers ?q) \<longleftrightarrow> e \<in> {e \<in> set (timers q). \<not> (snd e = p \<and> key (heap q) p = (p, seq))}"
      using only [of e] k by (cases "snd e = p") auto
  qed
  then show ?thesis using eq inv' pex by (auto simp: keeps_def)
next
  case False
  note D = tq_invD [OF inv]
  let ?q = "if callingExpiredTimers q then q\<lparr>cancelingTimers := insert (p, seq) (cancelingTimers q)\<rparr> else q"
  have inv': "tq_inv_ex ex ?q" using inv by simp
  have eq: "cancelInLoop p seq q = Inr (?q, [])"
    using False by (simp add: cancelInLoop_def Let_def inv_sizes [OF inv'] del: if_split)
  have "set (timers ?q) = {e \<in> set (timers q). \<not> (snd e = p \<and> key (heap q) p = (p, seq))}"
    using False D(5) by (auto simp: image_iff)
  then show ?thesis using eq inv' by (auto simp: keeps_def)
qed


lemma acts_inv:
  assumes al: "alloc_ok alloc"
  shows "tq_inv_ex ex q \<Longrightarrow> \<exists>q' es. run_steps (do_tq_act alloc) acts q = Inr (q', es) \<and>
     tq_inv_ex ex q' \<and> keeps ex q q' \<and> (\<forall>p. ERun p \<notin> set es) \<and>
     (\<forall>p seq. ActCancel p seq \<in> set acts \<longrightarrow> callingExpiredTimers q \<longrightarrow> p \<in> set ex \<longrightarrow>
        (p, seq) \<in> cancelingTimers q')"
proof (induction acts arbitrary: q)
  case Nil
  then show ?case by simp
next
  case (Cons a acts)
  obtain q1 es1 where 1: "do_tq_act alloc a q = Inr (q1, es1)" "tq_inv_ex ex q1" "keeps ex q q1"
      "\<forall>p. ERun p \<notin> set es1"
      "\<forall>p seq. a = ActCancel p seq \<longrightarrow> callingExpiredTimers q \<longrightarrow> p \<in> set ex \<longrightarrow>
        (p, seq) \<in> cancelingTimers q1"
  proof (cases a)
    case (ActAdd now w delta rep)
    then show ?thesis using that addTimer_inv [OF al Cons.prems, of now w delta rep] by auto
  next
    case (ActCancel p seq)
    then show ?thesis using that cancel_inv [OF Cons.prems, of p seq] by auto
  qed
  obtain q2 es2 where 2: "run_steps (do_tq_act alloc) acts q1 = Inr (q2, es2)" "tq_inv_ex ex q2"
      "keeps ex q1 q2" "\<forall>p. ERun p \<notin> set es2"
      "\<forall>p seq. ActCancel p seq \<in> set acts \<longrightarrow> callingExpiredTimers q1 \<longrightarrow> p \<in> set ex \<longrightarrow>
        (p, seq) \<in> cancelingTimers q2"
    using Cons.IH [OF 1(2)] by blast
  have "(p, seq) \<in> cancelingTimers q2"
    if "ActCancel p seq \<in> set (a # acts)" "callingExpiredTimers q" "p \<in> set ex" for p seq
    using that 1(3,5) 2(3,5) by (auto simp: keeps_def)
  then show ?case using 1(1,4) 2(1,2,4) keeps_trans [OF 1(3) 2(3)] by auto
qed

section \<open>Expiry\<close>

lemma erase_active_ok:
  "\<forall>e\<in>set es. snd e \<in> dom (heap q) \<Longrightarrow>
     erase_active es q = Inr (q\<lparr>activeTimers := activeTimers q - key (heap q) ` snd ` set es\<rparr>)"
proof (induction es arbitrary: q)
  case Nil
  then show ?case by simp
next
  case (Cons e es)
  obtain d p where e: "e = (d, p)" by (cases e)
  then obtain t where t: "heap q p = Some t" using Cons.prems by auto
  let ?q = "q\<lparr>activeTimers := activeTimers q - {(p, sequence t)}\<rparr>"
  have "erase_active es ?q = Inr (?q\<lparr>activeTimers := activeTimers ?q - key (heap ?q) ` snd ` set es\<rparr>)"
    by (rule Cons.IH) (use Cons.prems in simp)
  moreover have "key (heap q) p = (p, sequence t)" using t by (simp add: key_def)
  moreover have "activeTimers q - {(p, sequence t)} - key (heap q) ` snd ` set es =
      activeTimers q - key (heap q) ` snd ` set (e # es)"
    using calculation(2) e by auto
  ultimately show ?case using t by (simp add: e deref_def)
qed

lemma less_sentry: "e < (now, 0 :: nat) \<longleftrightarrow> fst e < (now :: datetime)"
  by (cases e) auto

lemma sorted_take_filter:
  "sorted xs \<Longrightarrow> takeWhile (\<lambda>e. fst e < now) xs = filter (\<lambda>e. fst e < (now :: datetime)) (xs :: (datetime \<times> ptr) list)"
  "sorted xs \<Longrightarrow> dropWhile (\<lambda>e. fst e < now) xs = filter (\<lambda>e. \<not> fst e < now) xs"
proof -
  assume s: "sorted xs"
  have ge: "\<forall>x\<in>set ys. \<not> fst x < now" if "sorted (y # ys)" "\<not> fst y < now"
    for y and ys :: "(datetime \<times> ptr) list"
    using that by (fastforce simp: less_eq_prod_def)
  show "takeWhile (\<lambda>e. fst e < now) xs = filter (\<lambda>e. fst e < now) xs" using s
  proof (induction xs)
    case (Cons y ys)
    then show ?case using ge [of y ys] by (cases "fst y < now") (auto simp: filter_False)
  qed simp
  show "dropWhile (\<lambda>e. fst e < now) xs = filter (\<lambda>e. \<not> fst e < now) xs" using s
  proof (induction xs)
    case (Cons y ys)
    then show ?case using ge [of y ys] by (cases "fst y < now") (auto simp: filter_True)
  qed simp
qed

text \<open>\<open>getExpired\<close> on a consistent queue: the assert fails exactly for a timer due right now.\<close>

lemma getExpired_ok:
  fixes now :: datetime
  assumes inv: "tq_inv_ex xs q"
  defines "ex \<equiv> filter (\<lambda>e. fst e < now) (timers q)"
  defines "rest \<equiv> filter (\<lambda>e. \<not> fst e < now) (timers q)"
  defines "q1 \<equiv> q\<lparr>timers := rest, activeTimers := key (heap q) ` snd ` set rest\<rparr>"
  shows "getExpired now q =
      (if now \<in> fst ` set (timers q) then Inl (Assertion ''it == timers_.end() || now < it->first'')
       else Inr (ex, q1))"
    "tq_inv_ex (map snd ex @ xs) q1"
proof -
  note D = tq_invD [OF inv]
  have split: "timers q = ex @ rest"
    using sorted_take_filter [OF D(1), of now] takeWhile_dropWhile_id [of "\<lambda>e. fst e < now" "timers q"]
    by (simp add: ex_def rest_def)
  have tw: "takeWhile (\<lambda>e. e < (now, 0)) (timers q) = ex" "dropWhile (\<lambda>e. e < (now, 0)) (timers q) = rest"
    using sorted_take_filter [OF D(1)] by (simp_all add: less_sentry ex_def rest_def)
  have srest: "sorted rest" using D(1) by (simp add: rest_def sorted_wrt_filter)
  have mem: "set (timers q) = set ex \<union> set rest" using split by simp
  have exlt: "\<forall>e\<in>set ex. fst e < now" by (simp add: ex_def)
  have as: "(rest = [] \<or> now < fst (hd rest)) \<longleftrightarrow> now \<notin> fst ` set (timers q)"
  proof (cases rest)
    case Nil
    then show ?thesis using mem exlt by auto
  next
    case (Cons e es)
    have ge: "\<forall>x\<in>set rest. now \<le> fst x" by (auto simp: rest_def not_less)
    have hd: "\<forall>x\<in>set rest. fst e \<le> fst x" using srest Cons by (auto simp: less_eq_prod_def)
    have "now \<in> fst ` set (timers q) \<longleftrightarrow> now \<in> fst ` set rest" using mem exlt by auto
    also have "\<dots> \<longleftrightarrow> fst e = now"
      using ge hd Cons by (auto simp: image_iff intro!: antisym)
    finally show ?thesis using ge Cons by (auto simp: order.order_iff_strict)
  qed
  have inj: "key (heap q) ` snd ` set (timers q) - key (heap q) ` snd ` set ex = key (heap q) ` snd ` set rest"
  proof -
    have "snd ` set ex \<inter> snd ` set rest = {}" using D(2) split by auto
    then show ?thesis using split by (auto simp: key_def)
  qed
  show inv1: "tq_inv_ex (map snd ex @ xs) q1"
    unfolding tq_inv_ex_def
  proof (intro conjI)
    show "sorted (timers q1)" using srest by (simp add: q1_def)
    show "distinct (map snd (timers q1) @ map snd ex @ xs)" using D(2) split by (auto simp: q1_def)
    show "\<forall>e\<in>set (timers q1). entry_ok (heap q1) e" using D(3) split by (auto simp: q1_def)
    show "dom (heap q1) = set (map snd (timers q1) @ map snd ex @ xs)" using D(4) split by (auto simp: q1_def)
    show "activeTimers q1 = key (heap q1) ` set (map snd (timers q1))" by (simp add: q1_def)
    show "0 \<notin> dom (heap q1)" using D(6) by (simp add: q1_def)
  qed
  have "\<forall>e\<in>set ex. snd e \<in> dom (heap q)" using D(4) split by auto
  then have er: "erase_active ex (q\<lparr>timers := rest\<rparr>) = Inr q1"
    using erase_active_ok [of ex "q\<lparr>timers := rest\<rparr>"] D(5) inj by (simp add: q1_def)
  show "getExpired now q =
      (if now \<in> fst ` set (timers q) then Inl (Assertion ''it == timers_.end() || now < it->first'')
       else Inr (ex, q1))"
    unfolding getExpired_def Let_def tw using er as by (simp add: inv_sizes [OF inv1])
qed


text \<open>Which of the timers taken out go back, and when.\<close>

definition renewed :: "timerq \<Rightarrow> datetime \<Rightarrow> ptr \<Rightarrow> bool" where
  "renewed q now p \<longleftrightarrow> (\<exists>t. heap q p = Some t \<and> repeats t \<and> (p, sequence t) \<notin> cancelingTimers q)"

definition readded :: "timerq \<Rightarrow> datetime \<Rightarrow> ptr set \<Rightarrow> (datetime \<times> ptr) set" where
  "readded q now S =
     (\<lambda>p. (addTime now (interval_us (the (heap q p))), p)) ` {p \<in> S. renewed q now p}"

lemma readded_insert:
  "readded q now (insert p S) =
     (if renewed q now p then insert (addTime now (interval_us (the (heap q p))), p) (readded q now S)
      else readded q now S)"
  by (auto simp: readded_def)

lemma readded_cong:
  assumes "p \<notin> S" "\<forall>x. x \<noteq> p \<longrightarrow> heap q1 x = heap q x" "cancelingTimers q1 = cancelingTimers q"
  shows "readded q1 now S = readded q now S"
proof -
  have eq: "heap q1 x = heap q x" if "x \<in> S" for x using assms(1,2) that by metis
  then have "{p \<in> S. renewed q1 now p} = {p \<in> S. renewed q now p}"
    using assms(3) by (auto simp: renewed_def)
  then show ?thesis unfolding readded_def by (intro image_cong) (auto simp: eq)
qed

lemma reset_each_inv:
  "tq_inv_ex (map snd es @ xs) q \<Longrightarrow> \<exists>q'. reset_each es now q = Inr q' \<and> tq_inv_ex xs q' \<and>
     callingExpiredTimers q' = callingExpiredTimers q \<and> armed q' = armed q \<and>
     set (timers q') = set (timers q) \<union> readded q now (snd ` set es)"
proof (induction es arbitrary: q)
  case Nil
  then show ?case by (simp add: readded_def)
next
  case (Cons e es)
  obtain d p where e: "e = (d, p)" by (cases e)
  have inv: "tq_inv_ex ([] @ p # map snd es @ xs) q" using Cons.prems e by simp
  note D = tq_invD [OF inv]
  obtain t where t: "heap q p = Some t" using D(4) by (metis Un_iff append_Nil domD list.set_intros(1))
  have pes: "p \<notin> snd ` set es" "p \<notin> set xs" using D(2) by simp_all
  show ?case
  proof (cases "repeats t \<and> (p, sequence t) \<notin> cancelingTimers q")
    case True
    let ?q = "q\<lparr>heap := (heap q)(p \<mapsto> restart now t)\<rparr>"
    have "sequence (restart now t) = sequence (the (heap q p))" using t by (simp add: restart_def)
    then obtain b q1 where q1: "insert_timer p ?q = Inr (b, q1)" "tq_inv_ex (map snd es @ xs) q1"
        "q1 = ?q\<lparr>timers := insort (expiration (restart now t), p) (timers ?q),
               activeTimers := insert (p, sequence (restart now t)) (activeTimers ?q)\<rparr>"
      using insert_timer_inv [OF inv refl] by auto
    have ren: "renewed q now p" using True t by (simp add: renewed_def)
    obtain q' where q': "reset_each es now q1 = Inr q'" "tq_inv_ex xs q'"
        "callingExpiredTimers q' = callingExpiredTimers q1" "armed q' = armed q1"
        "set (timers q') = set (timers q1) \<union> readded q1 now (snd ` set es)"
      using Cons.IH [OF q1(2)] by blast
    have same: "\<forall>x. x \<noteq> p \<longrightarrow> heap q1 x = heap q x" "cancelingTimers q1 = cancelingTimers q"
      by (simp_all add: q1(3))
    have ts: "set (timers q1) = insert (addTime now (interval_us t), p) (set (timers q))"
      using True by (simp add: q1(3) set_insort_key restart_def)
    have "set (timers q') = set (timers q) \<union> readded q now (snd ` set (e # es))"
      unfolding q'(5) ts readded_cong [OF pes(1) same] using ren t by (simp add: e readded_insert)
    moreover have "callingExpiredTimers q' = callingExpiredTimers q" "armed q' = armed q"
      using q'(3,4) by (simp_all add: q1(3))
    ultimately show ?thesis using q'(1,2) t True q1(1) by (simp add: e deref_def)
  next
    case False
    let ?q = "q\<lparr>heap := (heap q)(p := None)\<rparr>"
    have np: "p \<notin> snd ` set (timers q)" using D(2) by (auto simp: image_iff)
    have inv': "tq_inv_ex (map snd es @ xs) ?q"
      unfolding tq_inv_ex_def
    proof (intro conjI)
      show "sorted (timers ?q)" "distinct (map snd (timers ?q) @ map snd es @ xs)" using D(1,2) by simp_all
      show "\<forall>e\<in>set (timers ?q). entry_ok (heap ?q) e"
      proof
        fix x assume x: "x \<in> set (timers ?q)"
        then have "snd x \<in> snd ` set (timers q)" by simp
        then have "snd x \<noteq> p" using np by metis
        then show "entry_ok (heap ?q) x" using D(3) [of x] x by (simp add: entry_ok_def)
      qed
      show "dom (heap ?q) = set (map snd (timers ?q) @ map snd es @ xs)" using D(4) np pes by auto
      have "key (heap q) ` snd ` set (timers q) = key (heap ?q) ` snd ` set (timers q)"
      proof (rule image_cong [OF refl])
        fix x assume "x \<in> snd ` set (timers q)"
        then have "x \<noteq> p" using np by metis
        then show "key (heap q) x = key (heap ?q) x" by (simp add: key_def)
      qed
      then show "activeTimers ?q = key (heap ?q) ` set (map snd (timers ?q))" using D(5) by simp
      show "0 \<notin> dom (heap ?q)" using D(6) by simp
    qed
    obtain q' where q': "reset_each es now ?q = Inr q'" "tq_inv_ex xs q'"
        "callingExpiredTimers q' = callingExpiredTimers ?q" "armed q' = armed ?q"
        "set (timers q') = set (timers ?q) \<union> readded ?q now (snd ` set es)"
      using Cons.IH [OF inv'] by blast
    have nren: "\<not> renewed q now p" using False t by (simp add: renewed_def)
    have "set (timers q') = set (timers q) \<union> readded q now (snd ` set (e # es))"
      using q'(5) readded_cong [OF pes(1), of ?q q now] nren by (simp add: e readded_insert)
    moreover have "delete_timer p q = Inr ?q" using t by (simp add: delete_timer_def deref_def)
    then have "reset_each (e # es) now q = Inr q'"
      using q'(1) t by (simp add: e deref_def if_not_P [OF False])
    ultimately show ?thesis using q'(2-4) by simp
  qed
qed

lemma reset_inv:
  assumes inv: "tq_inv_ex (map snd es @ xs) q"
  shows "\<exists>q' effs. reset es now clock q = Inr (q', effs) \<and> tq_inv_ex xs q' \<and>
     callingExpiredTimers q' = callingExpiredTimers q \<and> (\<forall>p. ERun p \<notin> set effs) \<and>
     set (timers q') = set (timers q) \<union> readded q now (snd ` set es) \<and>
     (timers q' \<noteq> [] \<longrightarrow> fst (hd (timers q')) \<noteq> 0 \<longrightarrow> armed q' = Some (fst (hd (timers q'))))"
proof -
  obtain q1 where q1: "reset_each es now q = Inr q1" "tq_inv_ex xs q1"
      "callingExpiredTimers q1 = callingExpiredTimers q"
      "set (timers q1) = set (timers q) \<union> readded q now (snd ` set es)"
    using reset_each_inv [OF inv] by blast
  show ?thesis
  proof (cases "timers q1")
    case Nil
    then have "reset es now clock q = Inr (q1, [])" using q1(1) by (simp add: reset_def valid_def invalid_def)
    then show ?thesis using q1 Nil by (intro exI [of _ q1] exI [of _ "[]"]) simp
  next
    case (Cons e rest)
    have "entry_ok (heap q1) e" using tq_invD(3) [OF q1(2), of e] Cons by simp
    then obtain t where t: "deref (snd e) q1 = Inr t" "expiration t = fst e"
      by (auto simp: entry_ok_def deref_def)
    then have eq: "reset es now clock q = Inr (if valid (fst e) then resetTimerfd clock (fst e) q1 else (q1, []))"
      using q1(1) Cons by (simp add: reset_def)
    show ?thesis
    proof (cases "valid (fst e)")
      case True
      obtain a b where "howMuchTimeFromNow clock (fst e) = (a, b)" by fastforce
      then have "reset es now clock q = Inr (q1\<lparr>armed := Some (fst e)\<rparr>, [ESetTimer a b])"
        using eq True by (simp add: resetTimerfd_def)
      then show ?thesis using q1 Cons
        by (intro exI [of _ "q1\<lparr>armed := Some (fst e)\<rparr>"] exI [of _ "[ESetTimer a b]"]) simp
    next
      case False
      then have "reset es now clock q = Inr (q1, [])" "fst e = 0" using eq by (simp_all add: valid_def word_gt_0)
      then show ?thesis using q1 Cons by (intro exI [of _ q1] exI [of _ "[]"]) simp
    qed
  qed
qed


text \<open>Running the callbacks of the timers taken out.\<close>

lemma run_timers_inv:
  assumes al: "alloc_ok alloc"
  shows "tq_inv_ex ex q \<Longrightarrow> snd ` set es \<subseteq> set ex \<Longrightarrow> callingExpiredTimers q \<Longrightarrow>
     \<exists>q' effs. run_steps (run_timer alloc cbs) es q = Inr (q', effs) \<and> tq_inv_ex ex q' \<and> keeps ex q q' \<and>
       filter (\<lambda>e. \<exists>p. e = ERun p) effs = map (ERun \<circ> snd) es \<and>
       (\<forall>p seq. (\<exists>e\<in>set es. ActCancel p seq \<in> set (cbs (snd e))) \<longrightarrow> p \<in> set ex \<longrightarrow>
          (p, seq) \<in> cancelingTimers q')"
proof (induction es arbitrary: q)
  case Nil
  then show ?case by simp
next
  case (Cons e es)
  have "snd e \<in> dom (heap q)" using Cons.prems(2) tq_invD(4) [OF Cons.prems(1)] by auto
  then obtain t where t: "deref (snd e) q = Inr t" using deref_live by blast
  obtain q1 es1 where 1: "run_steps (do_tq_act alloc) (cbs (snd e)) q = Inr (q1, es1)" "tq_inv_ex ex q1"
      "keeps ex q q1" "\<forall>p. ERun p \<notin> set es1"
      "\<forall>p seq. ActCancel p seq \<in> set (cbs (snd e)) \<longrightarrow> callingExpiredTimers q \<longrightarrow> p \<in> set ex \<longrightarrow>
        (p, seq) \<in> cancelingTimers q1"
    using acts_inv [OF al Cons.prems(1), of "cbs (snd e)"] by blast
  have c1: "callingExpiredTimers q1" using 1(3) Cons.prems(3) by (simp add: keeps_def)
  obtain q2 es2 where 2: "run_steps (run_timer alloc cbs) es q1 = Inr (q2, es2)" "tq_inv_ex ex q2"
      "keeps ex q1 q2" "filter (\<lambda>e. \<exists>p. e = ERun p) es2 = map (ERun \<circ> snd) es"
      "\<forall>p seq. (\<exists>e\<in>set es. ActCancel p seq \<in> set (cbs (snd e))) \<longrightarrow> p \<in> set ex \<longrightarrow>
        (p, seq) \<in> cancelingTimers q2"
    using Cons.IH [OF 1(2) _ c1] Cons.prems(2) by auto
  have st: "run_timer alloc cbs e q = Inr (q1, ERun (snd e) # es1)"
    using t 1(1) by (simp add: run_timer_def)
  note c5 = 1(5) and d5 = 2(5) and f2 = 2(3)
  have none: "filter (\<lambda>e. \<exists>p. e = ERun p) es1 = []" using 1(4) by (auto simp: filter_empty_conv)
  have canc: "(p, seq) \<in> cancelingTimers q2"
    if some: "\<exists>e'\<in>set (e # es). ActCancel p seq \<in> set (cbs (snd e'))" and pex: "p \<in> set ex" for p seq
  proof -
    consider "ActCancel p seq \<in> set (cbs (snd e))" | "\<exists>e\<in>set es. ActCancel p seq \<in> set (cbs (snd e))"
      using some by auto
    then show ?thesis
    proof cases
      case 1
      then show ?thesis using Cons.prems(3) pex c5 f2 by (auto simp: keeps_def)
    next
      case 2
      then show ?thesis using pex d5 by blast
    qed
  qed
  show ?case
    using st 2(1,2,4) keeps_trans [OF 1(3) 2(3)] none canc
    by (intro exI [of _ q2] exI [of _ "(ERun (snd e) # es1) @ es2"]) auto
qed

lemma timer_handleRead_due:
  assumes "tq_inv_ex xs q" "now \<in> fst ` set (timers q)"
  shows "timer_handleRead alloc cbs now clock q = Inl (Assertion ''it == timers_.end() || now < it->first'')"
proof -
  have "tq_inv_ex xs (q\<lparr>armed := None\<rparr>)" using assms(1) by simp
  from getExpired_ok(1) [OF this, of now] assms(2) show ?thesis by (simp add: timer_handleRead_def)
qed

text \<open>The whole handler, with the state \<open>q2\<close> after the callbacks; \<open>xs\<close> are live timers not yet inserted.\<close>

lemma timer_handleRead_ex:
  fixes now :: datetime
  assumes al: "alloc_ok alloc" and inv: "tq_inv_ex xs q" "\<not> callingExpiredTimers q" and nd: "now \<notin> fst ` set (timers q)"
  defines "ex \<equiv> filter (\<lambda>e. fst e < now) (timers q)"
  obtains q2 q' es where "timer_handleRead alloc cbs now clock q = Inr (q', es)" "tq_inv_ex xs q'" "\<not> callingExpiredTimers q'"
    "filter (\<lambda>e. \<exists>p. e = ERun p) es = map (ERun \<circ> snd) ex"
    "set (timers q') = set (timers q2) \<union> readded q2 now (snd ` set ex)"
    "\<And>p. p \<in> snd ` set ex \<Longrightarrow> heap q2 p = heap q p"
    "\<And>p seq e. e \<in> set ex \<Longrightarrow> ActCancel p seq \<in> set (cbs (snd e)) \<Longrightarrow> p \<in> snd ` set ex \<Longrightarrow>
       (p, seq) \<in> cancelingTimers q2"
    "tq_inv_ex (map snd ex @ xs) q2"
    "(\<forall>p. cbs p = []) \<longrightarrow> cancelingTimers q2 = {} \<and> timers q2 = filter (\<lambda>e. \<not> fst e < now) (timers q)"
    "timers q' \<noteq> [] \<longrightarrow> fst (hd (timers q')) \<noteq> 0 \<longrightarrow> armed q' = Some (fst (hd (timers q')))"
proof -
  let ?q = "q\<lparr>armed := None\<rparr>"
  let ?rest = "filter (\<lambda>e. \<not> fst e < now) (timers q)"
  let ?q1 = "?q\<lparr>timers := ?rest, activeTimers := key (heap q) ` snd ` set ?rest\<rparr>"
  let ?q1' = "?q1\<lparr>callingExpiredTimers := True, cancelingTimers := {}\<rparr>"
  have inv0: "tq_inv_ex xs ?q" using inv by simp
  have g: "getExpired now ?q = Inr (ex, ?q1)" "tq_inv_ex (map snd ex @ xs) ?q1"
    using getExpired_ok [OF inv0, of now] nd by (simp_all add: ex_def)
  have inv1: "tq_inv_ex (map snd ex @ xs) ?q1'" unfolding tq_inv_ex_fields using g(2) .
  obtain q2 es1 where 2: "run_steps (run_timer alloc cbs) ex ?q1' = Inr (q2, es1)" "tq_inv_ex (map snd ex @ xs) q2"
      "keeps (map snd ex @ xs) ?q1' q2" "filter (\<lambda>e. \<exists>p. e = ERun p) es1 = map (ERun \<circ> snd) ex"
      "\<forall>p seq. (\<exists>e\<in>set ex. ActCancel p seq \<in> set (cbs (snd e))) \<longrightarrow> p \<in> set (map snd ex @ xs) \<longrightarrow>
        (p, seq) \<in> cancelingTimers q2"
    using run_timers_inv [OF al inv1, of ex cbs] by auto
  let ?q2 = "q2\<lparr>callingExpiredTimers := False\<rparr>"
  have inv2: "tq_inv_ex (map snd ex @ xs) ?q2" using 2(2) by simp
  obtain q' es2 where 3: "reset ex now clock ?q2 = Inr (q', es2)" "tq_inv_ex xs q'"
      "callingExpiredTimers q' = callingExpiredTimers ?q2" "\<forall>p. ERun p \<notin> set es2"
      "set (timers q') = set (timers ?q2) \<union> readded ?q2 now (snd ` set ex)"
      "timers q' \<noteq> [] \<longrightarrow> fst (hd (timers q')) \<noteq> 0 \<longrightarrow> armed q' = Some (fst (hd (timers q')))"
    using reset_inv [OF inv2, of now clock] by blast
  have none: "filter (\<lambda>e. \<exists>p. e = ERun p) es2 = []" using 3(4) by (auto simp: filter_empty_conv)
  have rd: "readded ?q2 now S = readded q2 now S" for S by (simp add: readded_def renewed_def)
  have eq: "timer_handleRead alloc cbs now clock q = Inr (q', es1 @ es2)"
    using g(1) 2(1) 3(1) by (simp add: timer_handleRead_def)
  have nocb: "cancelingTimers q2 = {} \<and> timers q2 = ?rest" if "\<forall>p. cbs p = []"
  proof -
    have one: "run_timer alloc cbs e s = Inr (s', os) \<Longrightarrow> s' = s" for e s s' os
      using that by (auto simp: run_timer_def)
    have "run_steps (run_timer alloc cbs) xs s = Inr (s', os) \<Longrightarrow> s' = s" for xs s s' os
    proof (induction xs arbitrary: s os)
      case (Cons x xs)
      then show ?case using one [of x s] by fastforce
    qed simp
    then have "q2 = ?q1'" using 2(1) by blast
    then show ?thesis by simp
  qed
  have hp: "\<forall>p\<in>snd ` set ex. heap q2 p = heap q p" using 2(3) by (simp add: keeps_def)
  show thesis
  proof (rule that [OF eq])
    show "tq_inv_ex xs q'" by fact
    show "\<not> callingExpiredTimers q'" using 3(3) by simp
    show "filter (\<lambda>e. \<exists>p. e = ERun p) (es1 @ es2) = map (ERun \<circ> snd) ex" using 2(4) none by simp
    show "set (timers q') = set (timers q2) \<union> readded q2 now (snd ` set ex)" using 3(5) rd by simp
    show "p \<in> snd ` set ex \<Longrightarrow> heap q2 p = heap q p" for p using hp by blast
    show "e \<in> set ex \<Longrightarrow> ActCancel p seq \<in> set (cbs (snd e)) \<Longrightarrow> p \<in> snd ` set ex \<Longrightarrow>
       (p, seq) \<in> cancelingTimers q2" for p seq e using 2(5) unfolding set_append set_map by blast
    show "tq_inv_ex (map snd ex @ xs) q2" by fact
    show "(\<forall>p. cbs p = []) \<longrightarrow> cancelingTimers q2 = {} \<and> timers q2 = ?rest" using nocb by blast
    show "timers q' \<noteq> [] \<longrightarrow> fst (hd (timers q')) \<noteq> 0 \<longrightarrow> armed q' = Some (fst (hd (timers q')))" by fact
  qed
qed

lemma timer_handleRead_ok:
  fixes now :: datetime
  assumes al: "alloc_ok alloc" and inv: "tq_inv q" and nd: "now \<notin> fst ` set (timers q)"
  defines "ex \<equiv> filter (\<lambda>e. fst e < now) (timers q)"
  obtains q2 q' es where "timer_handleRead alloc cbs now clock q = Inr (q', es)" "tq_inv q'"
    "filter (\<lambda>e. \<exists>p. e = ERun p) es = map (ERun \<circ> snd) ex"
    "set (timers q') = set (timers q2) \<union> readded q2 now (snd ` set ex)"
    "\<And>p. p \<in> snd ` set ex \<Longrightarrow> heap q2 p = heap q p"
    "\<And>p seq e. e \<in> set ex \<Longrightarrow> ActCancel p seq \<in> set (cbs (snd e)) \<Longrightarrow> p \<in> snd ` set ex \<Longrightarrow>
       (p, seq) \<in> cancelingTimers q2"
    "tq_inv_ex (map snd ex) q2"
    "(\<forall>p. cbs p = []) \<longrightarrow> cancelingTimers q2 = {} \<and> timers q2 = filter (\<lambda>e. \<not> fst e < now) (timers q)"
    "timers q' \<noteq> [] \<longrightarrow> fst (hd (timers q')) \<noteq> 0 \<longrightarrow> armed q' = Some (fst (hd (timers q')))"
proof -
  have inv': "tq_inv_ex [] q" "\<not> callingExpiredTimers q" using inv by (simp_all add: tq_inv_def)
  show thesis
  proof (rule timer_handleRead_ex [OF al inv' nd, of cbs clock], fold ex_def, goal_cases)
    case (1 q2 q' es)
    have "tq_inv q'" using 1(2,3) by (simp add: tq_inv_def)
    from that [OF 1(1) this 1(4,5) 1(6) 1(7) _ 1(9,10)] 1(8) show ?case by simp
  qed
qed

section \<open>Properties\<close>

definition due_assertion :: fault where
  "due_assertion = Assertion ''it == timers_.end() || now < it->first''"

text \<open>An allocator: the address after the largest live one.\<close>

definition next_alloc :: "ptr set \<Rightarrow> ptr" where
  "next_alloc S = Suc (Max (insert 0 S))"

lemma next_alloc_ok [simp]: "alloc_ok next_alloc"
proof -
  have "next_alloc S \<notin> S" if "finite S" for S
  proof
    assume "next_alloc S \<in> S"
    then have "next_alloc S \<le> Max (insert 0 S)" using that by (intro Max_ge) auto
    then show False by (simp add: next_alloc_def)
  qed
  then show ?thesis by (simp add: alloc_ok_def next_alloc_def)
qed

lemma tq_step_safe:
  assumes "alloc_ok alloc" "tq_inv q"
  shows "(\<exists>q' es. tq_step alloc op q = Inr (q', es) \<and> tq_inv q') \<or> tq_step alloc op q = Inl due_assertion"
proof (cases op)
  case (OpAct a)
  then show ?thesis
    using acts_inv [OF assms(1), of "[]" q "[a]"] assms(2) by (auto simp: tq_inv_def keeps_def)
next
  case (OpExpire cbs now clock)
  show ?thesis
  proof (cases "now \<in> fst ` set (timers q)")
    case True
    then show ?thesis using timer_handleRead_due [of "[]" q] assms(2) OpExpire by (simp add: due_assertion_def tq_inv_def)
  next
    case False
    obtain q' es where "timer_handleRead alloc cbs now clock q = Inr (q', es)" "tq_inv q'"
      by (rule timer_handleRead_ok [OF assms False, of cbs clock])
    then show ?thesis using OpExpire by simp
  qed
qed

text \<open>The queue as a monitored machine: with a sound allocator it tolerates one fault.\<close>

interpretation tm: monitor "tq_step alloc" "\<lambda>_ :: unit. \<lambda>q. alloc_ok alloc \<and> tq_inv q" "\<lambda>_ _ _. True" "\<lambda>_ g. g"
  "\<lambda>_ f. f = due_assertion" "\<lambda>_. True" for alloc
proof unfold_locales
  fix q q' :: timerq and e os f
  assume "alloc_ok alloc \<and> tq_inv q"
  then have safe: "(\<exists>q' es. tq_step alloc e q = Inr (q', es) \<and> tq_inv q') \<or> tq_step alloc e q = Inl due_assertion"
    and al: "alloc_ok alloc" using tq_step_safe [of alloc q e] by simp_all
  show "(alloc_ok alloc \<and> tq_inv q') \<and> True \<and> list_all (\<lambda>_. True) os" if "tq_step alloc e q = Inr (q', os)"
    using safe al that by (auto simp: list_all_iff)
  show "f = due_assertion" if "tq_step alloc e q = Inl f" using safe that by auto
qed

text \<open>The timer queue is memory safe. Whatever timers are added and cancelled, by its owner
  and by the callbacks of expiring timers, no timer is used after its deletion, deleted twice or
  lost: a run from the empty queue either keeps the invariant (the two sets hold the same timers,
  which are exactly the live ones) or stops at the one assert of \<open>getExpired\<close>.\<close>

theorem timers_memory_safe:
  assumes "alloc_ok alloc"
  shows "case run_steps (tq_step alloc) ops TimerQueue_new of
      Inr (q, es) \<Rightarrow> tq_inv q
    | Inl f \<Rightarrow> f = due_assertion"
  using tm.run_monitored [where s = TimerQueue_new and es = ops and alloc = alloc] assms new_inv by (auto split: sum.splits)

theorem timers_memory_safe_witness:
  "\<exists>q es. run_steps (tq_step next_alloc)
       [OpAct (ActAdd 100 200 50 True), OpExpire (\<lambda>p. [ActCancel 1 0]) 300 300] TimerQueue_new = Inr (q, es) \<and>
     tq_inv q"
proof -
  let ?ops = "[OpAct (ActAdd 100 200 50 True), OpExpire (\<lambda>p. [ActCancel 1 0]) 300 300]"
  obtain q es where q: "run_steps (tq_step next_alloc) ?ops TimerQueue_new = Inr (q, es)"
    by (simp add: TimerQueue_new_def addTimer_def addTimerInLoop_def insert_timer_def assert_sizes_def
        deref_def next_alloc_def Let_def resetTimerfd_def howMuchTimeFromNow_def timer_handleRead_def
        getExpired_def run_timer_def cancelInLoop_def reset_def delete_timer_def valid_def invalid_def
        assertE_def insort_insert_key_def)
  have "tq_inv q" using timers_memory_safe [OF next_alloc_ok, of ?ops] unfolding q by simp
  then show ?thesis using q by blast
qed

text \<open>Exactly the timers whose time is past run, each once, in the order of their time (and,
  at equal times, their address), and the descriptor is then set to the earliest timer left.\<close>

theorem expired_timers_run:
  assumes "alloc_ok alloc" "tq_inv q" "now \<notin> fst ` set (timers q)"
  shows "\<exists>q' es. timer_handleRead alloc cbs now clock q = Inr (q', es) \<and> tq_inv q' \<and>
     filter (\<lambda>e. \<exists>p. e = ERun p) es = map (ERun \<circ> snd) (filter (\<lambda>e. fst e < now) (timers q)) \<and>
     (timers q' \<noteq> [] \<longrightarrow> fst (hd (timers q')) \<noteq> 0 \<longrightarrow> armed q' = Some (fst (hd (timers q'))))"
  by (rule timer_handleRead_ok [OF assms, of cbs clock]) blast

text \<open>A queue with one periodic timer and one that fires once.\<close>

definition two_timers :: timerq where
  "two_timers =
     \<lparr>timers = [(200, 1), (250, 2)], activeTimers = {(1, 0), (2, 1)}, cancelingTimers = {},
      callingExpiredTimers = False,
      heap = [1 \<mapsto> \<lparr>expiration = 200, interval_us = 50, repeats = True, sequence = 0\<rparr>,
              2 \<mapsto> \<lparr>expiration = 250, interval_us = 0, repeats = False, sequence = 1\<rparr>],
      numCreated = 2, armed = Some 200\<rparr>"

lemma two_timers_inv [simp]: "tq_inv two_timers"
  by (auto simp: tq_inv_def tq_inv_ex_def two_timers_def entry_ok_def key_def)

theorem expired_timers_run_witness:
  "\<exists>q' es. timer_handleRead next_alloc (\<lambda>p. []) 300 301 two_timers = Inr (q', es) \<and>
     filter (\<lambda>e. \<exists>p. e = ERun p) es = [ERun 1, ERun 2]"
proof -
  have "300 \<notin> fst ` set (timers two_timers)" by (simp add: two_timers_def)
  from expired_timers_run [OF next_alloc_ok two_timers_inv this, of "\<lambda>p. []" 301]
  show ?thesis by (auto simp: two_timers_def)
qed

text \<open>Periodic timers are renewed. When the callbacks do not touch the queue, the timers after
  an expiry are those that were not due, and, for each expired periodic timer, the same timer one
  interval after now; expired timers that fire once are gone.\<close>

theorem periodic_renewal:
  assumes "alloc_ok alloc" "tq_inv q" "now \<notin> fst ` set (timers q)"
  shows "\<exists>q' es. timer_handleRead alloc (\<lambda>p. []) now clock q = Inr (q', es) \<and>
     set (timers q') = {e \<in> set (timers q). now < fst e} \<union>
       {(addTime now (interval_us t), p) | d p t. (d, p) \<in> set (timers q) \<and> d < now \<and>
          heap q p = Some t \<and> repeats t}"
proof -
  let ?ex = "filter (\<lambda>e. fst e < now) (timers q)"
  obtain q2 q' es where q: "timer_handleRead alloc (\<lambda>p. []) now clock q = Inr (q', es)"
      "set (timers q') = set (timers q2) \<union> readded q2 now (snd ` set ?ex)"
      "\<And>p. p \<in> snd ` set ?ex \<Longrightarrow> heap q2 p = heap q p" "cancelingTimers q2 = {}"
      "timers q2 = filter (\<lambda>e. \<not> fst e < now) (timers q)"
    by (rule timer_handleRead_ok [OF assms, of "\<lambda>p. []" clock]) blast
  have rd: "readded q2 now (snd ` set ?ex) = {(addTime now (interval_us t), p) | d p t.
      (d, p) \<in> set (timers q) \<and> d < now \<and> heap q p = Some t \<and> repeats t}"
    (is "?A = ?B")
  proof
    show "?A \<subseteq> ?B"
    proof
      fix x assume "x \<in> ?A"
      then obtain e t where e: "e \<in> set ?ex" "heap q2 (snd e) = Some t" "repeats t"
          "x = (addTime now (interval_us t), snd e)"
        by (auto simp: readded_def renewed_def)
      then have "heap q (snd e) = Some t" using q(3) by force
      then show "x \<in> ?B" using e by (cases e) auto
    qed
    show "?B \<subseteq> ?A"
    proof
      fix x assume "x \<in> ?B"
      then obtain d p t where x: "(d, p) \<in> set ?ex" "heap q p = Some t" "repeats t"
          "x = (addTime now (interval_us t), p)" by auto
      then have "heap q2 p = Some t" "p \<in> snd ` set ?ex" using q(3) by force+
      then show "x \<in> ?A" using x q(4) by (force simp: readded_def renewed_def)
    qed
  qed
  have "set (timers q2) = {e \<in> set (timers q). now < fst e}"
    using q(5) assms(3) by (auto simp: order.order_iff_strict not_less)
  then show ?thesis using q(1,2) rd by auto
qed

theorem periodic_renewal_witness:
  "\<exists>q' es. timer_handleRead next_alloc (\<lambda>p. []) 300 301 two_timers = Inr (q', es) \<and>
     (350, 1) \<in> set (timers q')"
proof -
  have "300 \<notin> fst ` set (timers two_timers)" by (simp add: two_timers_def)
  from periodic_renewal [OF next_alloc_ok two_timers_inv this, of 301]
  obtain q' es where q: "timer_handleRead next_alloc (\<lambda>p. []) 300 301 two_timers = Inr (q', es)"
    "set (timers q') = {e \<in> set (timers two_timers). 300 < fst e} \<union>
       {(addTime 300 (interval_us t), p) | d p t. (d, p) \<in> set (timers two_timers) \<and> d < 300 \<and>
          heap two_timers p = Some t \<and> repeats t}" by blast
  have "(350, 1) = (addTime 300 (interval_us (the (heap two_timers 1))), 1 :: ptr)"
    by (simp add: addTime_def two_timers_def)
  moreover have "(200, 1) \<in> set (timers two_timers)" "\<exists>t. heap two_timers 1 = Some t \<and> repeats t"
    by (simp_all add: two_timers_def)
  ultimately have "(350, 1) \<in> set (timers q')" unfolding q(2) by force
  then show ?thesis using q(1) by blast
qed

text \<open>A timer cancelled while it fires is not renewed. If a callback of an expired timer
  cancels an expired timer (itself, or another one of the same expiry), that timer is deleted, even
  if it is periodic.\<close>

theorem cancel_while_firing:
  assumes "alloc_ok alloc" "tq_inv q" "now \<notin> fst ` set (timers q)"
    and "(d, p) \<in> set (timers q)" "d < now" "heap q p = Some t"
    and "(d2, p2) \<in> set (timers q)" "d2 < now" "ActCancel p (sequence t) \<in> set (cbs p2)"
  shows "\<exists>q' es. timer_handleRead alloc cbs now clock q = Inr (q', es) \<and> heap q' p = None"
proof -
  let ?ex = "filter (\<lambda>e. fst e < now) (timers q)"
  obtain q2 q' es where q: "timer_handleRead alloc cbs now clock q = Inr (q', es)" "tq_inv q'"
      "set (timers q') = set (timers q2) \<union> readded q2 now (snd ` set ?ex)"
      "\<And>p. p \<in> snd ` set ?ex \<Longrightarrow> heap q2 p = heap q p" "tq_inv_ex (map snd ?ex) q2"
      "\<And>p seq e. e \<in> set ?ex \<Longrightarrow> ActCancel p seq \<in> set (cbs (snd e)) \<Longrightarrow> p \<in> snd ` set ?ex \<Longrightarrow>
         (p, seq) \<in> cancelingTimers q2"
    by (rule timer_handleRead_ok [OF assms(1-3), of cbs clock]) blast
  have p: "p \<in> snd ` set ?ex" using assms(4,5) by force
  have e2: "(d2, p2) \<in> set ?ex" using assms(7,8) by simp
  have c: "(p, sequence t) \<in> cancelingTimers q2" using q(6) [OF e2] p assms(9) by simp
  have "heap q2 p = Some t" using q(4) [OF p] assms(6) by simp
  then have "p \<notin> snd ` readded q2 now (snd ` set ?ex)" using c by (auto simp: readded_def renewed_def)
  moreover have "p \<notin> snd ` set (timers q2)" using tq_invD(2) [OF q(5)] p by auto
  ultimately have "p \<notin> snd ` set (timers q')" using q(3) by (metis UnE image_Un)
  then have "p \<notin> dom (heap q')" using q(2) tq_invD(4) [of "[]" q'] by (simp add: tq_inv_def)
  then show ?thesis using q(1) by (auto simp: domIff)
qed

theorem cancel_while_firing_witness:
  "\<exists>q' es. timer_handleRead next_alloc (\<lambda>p. if p = 2 then [ActCancel 1 0] else []) 300 301 two_timers =
     Inr (q', es) \<and> heap q' 1 = None"
proof -
  have h: "heap two_timers 1 = Some \<lparr>expiration = 200, interval_us = 50, repeats = True, sequence = 0\<rparr>"
    by (simp add: two_timers_def)
  have t: "300 \<notin> fst ` set (timers two_timers)" "(200, 1) \<in> set (timers two_timers)"
    "(250, 2) \<in> set (timers two_timers)" by (simp_all add: two_timers_def)
  show ?thesis
    by (rule cancel_while_firing [OF next_alloc_ok two_timers_inv t(1,2) _ h t(3)]) simp_all
qed

text \<open>A timer that is due at the very microsecond of the clock reading aborts the process:
  \<open>lower_bound\<close> finds it (its address is not less than \<open>nullptr\<close>) and the assert
  \<open>now < it->first\<close> fails.\<close>

theorem due_now_asserts:
  assumes "alloc_ok alloc" "tq_inv q" "now \<in> fst ` set (timers q)"
  shows "timer_handleRead alloc cbs now clock q = Inl (Assertion ''it == timers_.end() || now < it->first'')"
  using assms(2,3) timer_handleRead_due [of "[]" q] by (simp add: tq_inv_def)

theorem due_now_asserts_witness:
  "timer_handleRead next_alloc (\<lambda>p. []) 200 201 two_timers =
     Inl (Assertion ''it == timers_.end() || now < it->first'')"
  by (rule due_now_asserts [OF next_alloc_ok two_timers_inv]) (simp add: two_timers_def)

text \<open>The descriptor never fires later than the earliest timer.\<close>

definition armed_ok :: "timerq \<Rightarrow> bool" where
  "armed_ok q \<longleftrightarrow> (timers q \<noteq> [] \<longrightarrow> (\<exists>d. armed q = Some d \<and> d \<le> fst (hd (timers q))))"

lemma hd_le: "sorted xs \<Longrightarrow> x \<in> set xs \<Longrightarrow> fst (hd xs) \<le> fst (x :: datetime \<times> ptr)"
  by (cases xs) (auto simp: less_eq_prod_def)

text \<open>No timer is slept through. Every operation of the queue keeps the timer descriptor set
  to a time not later than the earliest timer, as long as no timer has the time stamp 0 (which
  stands for "invalid").\<close>

theorem earliest_armed:
  assumes "alloc_ok alloc" "tq_inv q" "armed_ok q" "tq_step alloc op q = Inr (q', es)"
    and "0 \<notin> fst ` set (timers q')"
  shows "armed_ok q'"
proof (cases op)
  case (OpExpire cbs now clock)
  then have "now \<notin> fst ` set (timers q)" "timers q' \<noteq> [] \<longrightarrow> fst (hd (timers q')) \<noteq> 0 \<longrightarrow> armed q' = Some (fst (hd (timers q')))"
  proof -
    show n: "now \<notin> fst ` set (timers q)"
      using timer_handleRead_due [of "[]" q now alloc cbs clock] assms(2,4) OpExpire by (auto simp: tq_inv_def)
    obtain q1 es1 where "timer_handleRead alloc cbs now clock q = Inr (q1, es1)"
        "timers q1 \<noteq> [] \<longrightarrow> fst (hd (timers q1)) \<noteq> 0 \<longrightarrow> armed q1 = Some (fst (hd (timers q1)))"
      by (rule timer_handleRead_ok [OF assms(1,2) n, of cbs clock])
    then show "timers q' \<noteq> [] \<longrightarrow> fst (hd (timers q')) \<noteq> 0 \<longrightarrow> armed q' = Some (fst (hd (timers q')))"
      using assms(4) OpExpire by simp
  qed
  moreover have "timers q' \<noteq> [] \<longrightarrow> fst (hd (timers q')) \<noteq> 0" using assms(5) by (metis hd_in_set image_eqI)
  ultimately show ?thesis by (auto simp: armed_ok_def)
next
  case (OpAct a)
  have inv: "tq_inv_ex [] q" using assms(2) by (simp add: tq_inv_def)
  note D = tq_invD [OF inv]
  show ?thesis
  proof (cases a)
    case (ActAdd now w delta rep)
    let ?e = "(w, alloc (dom (heap q)))"
    have q': "timers q' = insort ?e (timers q)"
      "armed q' = (if timers q = [] \<or> w < fst (hd (timers q)) then Some w else armed q)"
      using addTimer_inv [OF assms(1) inv, of now w delta rep] assms(4) OpAct ActAdd by auto
    have "hd (timers q') = ?e \<or> hd (timers q') = hd (timers q) \<and> timers q \<noteq> []"
      unfolding q'(1) by (cases "timers q") auto
    moreover have "fst (hd (timers q')) \<le> w"
      using hd_le [of "timers q'" ?e] D(1) by (simp add: q'(1) sorted_insort set_insort_key)
    ultimately show ?thesis using assms(3) q'(2)
      by (auto simp: armed_ok_def not_less split: if_splits)
  next
    case (ActCancel p seq)
    have q': "set (timers q') \<subseteq> set (timers q)" "armed q' = armed q"
      using cancel_inv [OF inv, of p seq] assms(4) OpAct ActCancel by auto
    show ?thesis unfolding armed_ok_def
    proof
      assume ne: "timers q' \<noteq> []"
      then have "hd (timers q') \<in> set (timers q)" using q'(1) hd_in_set by blast
      then have "fst (hd (timers q)) \<le> fst (hd (timers q'))" "timers q \<noteq> []"
        using hd_le [OF D(1)] by auto
      then show "\<exists>d. armed q' = Some d \<and> d \<le> fst (hd (timers q'))"
        using assms(3) q'(2) by (auto simp: armed_ok_def)
    qed
  qed
qed

theorem earliest_armed_witness:
  "\<exists>q' es. tq_step next_alloc (OpAct (ActCancel 1 0)) two_timers = Inr (q', es) \<and>
     timers q' = [(250, 2)] \<and> armed_ok q'"
proof -
  have "\<exists>q' es. tq_step next_alloc (OpAct (ActCancel 1 0)) two_timers = Inr (q', es) \<and> timers q' = [(250, 2)]"
    by (simp add: two_timers_def cancelInLoop_def deref_def delete_timer_def assert_sizes_def Let_def)
  moreover have "armed_ok two_timers" by (simp add: armed_ok_def two_timers_def)
  ultimately show ?thesis
    using earliest_armed [OF next_alloc_ok two_timers_inv, of "OpAct (ActCancel 1 0)"] by fastforce
qed

section \<open>Delays\<close>

text \<open>The delay given to the timer descriptor is well-formed and never zero (a zero time would
  disarm it): the nanoseconds are below one second, and the whole is the distance to the
  expiration as a signed number of microseconds, but at least 100 of them.\<close>

theorem timer_delay:
  "case howMuchTimeFromNow now when of (sec, nsec) \<Rightarrow>
     0 \<le> sec \<and> 0 \<le> nsec \<and> nsec < 1000000000 \<and>
     sec * 1000000000 + nsec = 1000 * max 100 (sint (when - now)) \<and> (sec, nsec) \<noteq> (0, 0)"
proof -
  define m where "m = max 100 (sint (when - now))"
  have m: "100 \<le> m" by (simp add: m_def)
  have h: "howMuchTimeFromNow now when = (m div 1000000, m mod 1000000 * 1000)"
    by (simp add: howMuchTimeFromNow_def m_def Let_def)
  obtain q r where qr: "m div 1000000 = q" "m mod 1000000 = r" by blast
  have "m = q * 1000000 + r" unfolding qr [symmetric] by simp
  moreover have "r < 1000000" "0 \<le> r" unfolding qr [symmetric] by simp_all
  moreover have "0 \<le> q" using m unfolding qr [symmetric] by simp
  ultimately show ?thesis using m unfolding h m_def [symmetric] prod.case qr by auto
qed

end
