(* ===== verification/LoopTimers.thy ===== *)
theory LoopTimers
  imports TimerQueue
begin

text \<open>
  Timers as the users of a loop see them: \<open>EventLoop::runAt\<close>, \<open>runAfter\<close>, \<open>runEvery\<close> and \<open>cancel\<close>
  (src/net/EventLoop.cpp), \<open>TimerQueue::addTimer\<close> called from another thread, and the destructor of
  the queue (src/net/TimerQueue.cpp). Delays are in microseconds; \<open>t1\<close> is the clock when the user calls,
  \<open>t2\<close> when the descriptor is set.
\<close>

section \<open>Operations\<close>

definition runAt :: "(ptr set \<Rightarrow> ptr) \<Rightarrow> datetime \<Rightarrow> datetime \<Rightarrow> timerq \<Rightarrow> (timerq \<times> tq_eff list) result" where
  "runAt alloc t2 time q = addTimer alloc t2 time 0 False q"

definition runAfter ::
  "(ptr set \<Rightarrow> ptr) \<Rightarrow> datetime \<Rightarrow> datetime \<Rightarrow> u64 \<Rightarrow> timerq \<Rightarrow> (timerq \<times> tq_eff list) result" where
  "runAfter alloc t1 t2 delay q = runAt alloc t2 (addTime t1 delay) q"

text \<open>\<open>pos\<close> tells whether the interval, a \<open>double\<close>, is positive.\<close>

definition runEvery ::
  "(ptr set \<Rightarrow> ptr) \<Rightarrow> datetime \<Rightarrow> datetime \<Rightarrow> u64 \<Rightarrow> bool \<Rightarrow> timerq \<Rightarrow> (timerq \<times> tq_eff list) result" where
  "runEvery alloc t1 t2 interval pos q = addTimer alloc t2 (addTime t1 interval) interval pos q"

definition loop_cancel :: "ptr \<Rightarrow> u64 \<Rightarrow> timerq \<Rightarrow> (timerq \<times> tq_eff list) result" where
  "loop_cancel p seq q = cancelInLoop p seq q"

text \<open>
  \<open>addTimer\<close> in a thread other than the loop's: the timer is made, a functor queued, and then the
  identifier is made from the timer; \<open>meanwhile\<close> is what the loop thread does before that.
\<close>

definition addTimer_outside ::
  "(ptr set \<Rightarrow> ptr) \<Rightarrow> datetime \<Rightarrow> u64 \<Rightarrow> bool \<Rightarrow> (ptr \<Rightarrow> timerq \<Rightarrow> (timerq \<times> tq_eff list) result) \<Rightarrow>
     timerq \<Rightarrow> (timerq \<times> tq_eff list) result" where
  "addTimer_outside alloc when delta rep meanwhile q =
     (let p = alloc (dom (heap q));
          t = Timer_new when delta rep (numCreated q);
          q1 = q\<lparr>heap := (heap q)(p \<mapsto> t), numCreated := numCreated q + 1\<rparr>
      in bindE (meanwhile p q1) (\<lambda>(q2, es).
         bindE (deref p q2) (\<lambda>t. Inr (q2, es @ [ETimerId p (sequence t)]))))"

fun delete_entries :: "(datetime \<times> ptr) list \<Rightarrow> timerq \<Rightarrow> timerq result" where
  "delete_entries [] q = Inr q"
| "delete_entries ((e, p) # es) q = bindE (delete_timer p q) (delete_entries es)"

definition TimerQueue_destroy :: "timerq \<Rightarrow> timerq result" where
  "TimerQueue_destroy q = delete_entries (timers q) q"

section \<open>Deleting all timers\<close>

lemma delete_entries_all:
  "distinct (map snd es) \<Longrightarrow> snd ` set es \<subseteq> dom (heap q) \<Longrightarrow>
     \<exists>q'. delete_entries es q = Inr q' \<and> dom (heap q') = dom (heap q) - snd ` set es"
proof (induction es arbitrary: q)
  case (Cons x es)
  obtain e p where x: "x = (e, p)" by (cases x)
  then obtain t where "deref p q = Inr t" using Cons.prems(2) deref_live [of p q] by auto
  then have d: "delete_timer p q = Inr (q\<lparr>heap := (heap q)(p := None)\<rparr>)" by (simp add: delete_timer_def)
  have "snd ` set es \<subseteq> dom (heap (q\<lparr>heap := (heap q)(p := None)\<rparr>))"
    using Cons.prems x by auto
  from Cons.IH [OF _ this] Cons.prems(1) show ?case using d x by (auto split: if_splits)
qed simp

text \<open>No timer leaks and none is deleted twice. Over any run of additions, cancellations and
  expirations in the loop thread (with whatever the callbacks add and cancel), followed by the
  destructor, every timer made has been deleted exactly once: deleting one again would be a fault, and
  none is left.\<close>

theorem timers_all_freed:
  assumes "alloc_ok alloc"
  shows "case run_steps (tq_step alloc) ops TimerQueue_new of
      Inl f \<Rightarrow> f = due_assertion
    | Inr (q, es) \<Rightarrow> (\<exists>q'. TimerQueue_destroy q = Inr q' \<and> heap q' = Map.empty)"
proof -
  have "\<exists>q'. TimerQueue_destroy q = Inr q' \<and> heap q' = Map.empty" if "tq_inv q" for q
  proof -
    have inv: "tq_inv_ex [] q" using that by (simp add: tq_inv_def)
    note D = tq_invD [OF inv]
    obtain q' where "delete_entries (timers q) q = Inr q'" "dom (heap q') = {}"
      using delete_entries_all [of "timers q" q] D(2,4) by auto
    then show ?thesis by (auto simp: TimerQueue_destroy_def)
  qed
  then show ?thesis using tm.run_monitored [where s = TimerQueue_new and es = ops and alloc = alloc] assms new_inv by (auto split: sum.splits)
qed

section \<open>Delays and intervals\<close>

text \<open>A new timer fires at the first expiration after its time and at none before.\<close>

lemma filter_one: "distinct (map snd xs) \<Longrightarrow> (d, p) \<in> set xs \<Longrightarrow> filter (\<lambda>e. snd e = p) xs = [(d, p)]"
  by (induction xs) (auto simp: filter_empty_conv image_iff)

lemma addTimer_heap:
  "addTimer alloc t2 time delta rep q = Inr (q1, es) \<Longrightarrow>
     heap q1 (alloc (dom (heap q))) =
       Some \<lparr>expiration = time, interval_us = delta, repeats = rep, sequence = numCreated q\<rparr>"
  by (auto simp: addTimer_def addTimerInLoop_def insert_timer_def assert_sizes_def deref_def resetTimerfd_def Let_def
      split: if_splits prod.splits)

lemma new_timer_fires:
  assumes "alloc_ok alloc" "tq_inv q" "addTimer alloc t2 time delta rep q = Inr (q1, es1)"
    "now \<notin> fst ` set (timers q1)" "p = alloc (dom (heap q))"
  shows "\<exists>q2 es2. timer_handleRead alloc cbs now clock q1 = Inr (q2, es2) \<and>
    filter (\<lambda>e. e = ERun p) es2 = (if time < now then [ERun p] else []) \<and>
    (rep \<longrightarrow> (\<forall>p. cbs p = []) \<longrightarrow> time < now \<longrightarrow> (addTime now delta, p) \<in> set (timers q2))"
proof -
  have inv: "tq_inv_ex [] q" using assms(2) by (simp add: tq_inv_def)
  have q1: "tq_inv q1" "timers q1 = insort (time, p) (timers q)"
    using addTimer_inv [OF assms(1) inv, of t2 time delta rep] assms(2,3,5) by (auto simp: tq_inv_def keeps_def)
  let ?ex = "filter (\<lambda>e. fst e < now) (timers q1)"
  obtain q' q2 es2 where q2: "timer_handleRead alloc cbs now clock q1 = Inr (q2, es2)"
      "filter (\<lambda>e. \<exists>p. e = ERun p) es2 = map (ERun \<circ> snd) ?ex"
      "set (timers q2) = set (timers q') \<union> readded q' now (snd ` set ?ex)"
      "\<And>p. p \<in> snd ` set ?ex \<Longrightarrow> heap q' p = heap q1 p" "(\<forall>p. cbs p = []) \<longrightarrow> cancelingTimers q' = {}"
    by (rule timer_handleRead_ok [OF assms(1) q1(1) assms(4), of cbs clock]) blast
  have D: "distinct (map snd (timers q1))" using q1(1) tq_invD(2) [of "[]" q1] by (simp add: tq_inv_def)
  have mem: "(time, p) \<in> set (timers q1)" by (simp add: q1(2) set_insort_key)
  have "filter (\<lambda>e. e = ERun p) es2 = filter (\<lambda>e. e = ERun p) (filter (\<lambda>e. \<exists>p. e = ERun p) es2)"
    by (auto simp: filter_filter intro!: filter_cong)
  also have "\<dots> = map (ERun \<circ> snd) (filter (\<lambda>e. fst e < now) (filter (\<lambda>e. snd e = p) (timers q1)))"
    unfolding q2(2) by (simp add: filter_map o_def conj_commute)
  also have "filter (\<lambda>e. snd e = p) (timers q1) = [(time, p)]" by (rule filter_one [OF D mem])
  finally have runs: "filter (\<lambda>e. e = ERun p) es2 = (if time < now then [ERun p] else [])" by simp
  have "(addTime now delta, p) \<in> set (timers q2)" if "rep" "\<forall>p. cbs p = []" "time < now"
  proof -
    have p: "p \<in> snd ` set ?ex" using mem that(3) by force
    then have "heap q' p = Some \<lparr>expiration = time, interval_us = delta, repeats = rep, sequence = numCreated q\<rparr>"
      using q2(4) addTimer_heap [OF assms(3)] assms(5) by simp
    then have "renewed q' now p" "interval_us (the (heap q' p)) = delta" using q2(5) that(1,2) by (simp_all add: renewed_def)
    then have "(addTime now delta, p) \<in> readded q' now (snd ` set ?ex)"
      unfolding readded_def using p by (intro image_eqI [of _ _ p]) simp_all
    then show ?thesis using q2(3) by blast
  qed
  then show ?thesis using q2(1) runs by blast
qed

text \<open>C27: A delay is kept. A callback given to \<open>runAfter\<close> is run by the first expiration that is handled
  later than the delay after the call, exactly once, and by none handled earlier; one given to
  \<open>runEvery\<close> with a positive interval is run the same way and, unless callbacks interfere, is due again
  one interval after the expiration that ran it.\<close>

theorem run_after_and_every:
  assumes "alloc_ok alloc" "tq_inv q"
    and "runAfter alloc t1 t2 d q = Inr (q1, es1) \<or> runEvery alloc t1 t2 d True q = Inr (q1, es1)"
    and "now \<notin> fst ` set (timers q1)" "p = alloc (dom (heap q))"
  shows "\<exists>q2 es2. timer_handleRead alloc cbs now clock q1 = Inr (q2, es2) \<and>
      filter (\<lambda>e. e = ERun p) es2 = (if addTime t1 d < now then [ERun p] else []) \<and>
      (runEvery alloc t1 t2 d True q = Inr (q1, es1) \<longrightarrow> (\<forall>p. cbs p = []) \<longrightarrow> addTime t1 d < now \<longrightarrow>
         (addTime now d, p) \<in> set (timers q2))"
proof (cases "runEvery alloc t1 t2 d True q = Inr (q1, es1)")
  case True
  from new_timer_fires [OF assms(1,2) True [unfolded runEvery_def] assms(4,5), of cbs clock]
  show ?thesis by (simp add: True)
next
  case False
  then have "addTimer alloc t2 (addTime t1 d) 0 False q = Inr (q1, es1)"
    using assms(3) by (simp add: runAfter_def runAt_def)
  from new_timer_fires [OF assms(1,2) this assms(4,5), of cbs clock] False show ?thesis by auto
qed

text \<open>The allocator of the examples takes the first free address.\<close>

theorem run_after_and_every_witness:
  "\<exists>q1 es1 q2 es2. runEvery next_alloc 100 101 50 True TimerQueue_new = Inr (q1, es1) \<and>
     timer_handleRead next_alloc (\<lambda>p. []) 160 160 q1 = Inr (q2, es2) \<and>
     filter (\<lambda>e. e = ERun (next_alloc {})) es2 = [ERun (next_alloc {})] \<and> (210, next_alloc {}) \<in> set (timers q2)"
proof -
  obtain q1 es1 where 1: "runEvery next_alloc 100 101 50 True TimerQueue_new = Inr (q1, es1)" "timers q1 = [(150, next_alloc {})]"
    using addTimer_inv [OF next_alloc_ok, of "[]" TimerQueue_new 101 "addTime 100 50" 50 True] new_inv
    by (auto simp: runEvery_def tq_inv_def addTime_def) (auto simp: TimerQueue_new_def)
  have "\<exists>q2 es2. timer_handleRead next_alloc (\<lambda>p. []) 160 160 q1 = Inr (q2, es2) \<and>
      filter (\<lambda>e. e = ERun (next_alloc {})) es2 = (if addTime 100 50 < (160 :: datetime) then [ERun (next_alloc {})] else []) \<and>
      (runEvery next_alloc 100 101 50 True TimerQueue_new = Inr (q1, es1) \<longrightarrow> (\<forall>p. (\<lambda>p :: ptr. [] :: tq_act list) p = []) \<longrightarrow>
         addTime 100 50 < (160 :: datetime) \<longrightarrow> (addTime 160 50, next_alloc {}) \<in> set (timers q2))"
    by (rule run_after_and_every [OF next_alloc_ok new_inv]) (use 1 in \<open>simp_all add: TimerQueue_new_def\<close>)
  then show ?thesis using 1(1) by (auto simp: addTime_def)
qed

section \<open>Adding a timer from another thread\<close>

text \<open>Adding a timer from another thread can use the timer after it was deleted. \<open>addTimer\<close> queues
  the insertion and then reads the sequence number of the timer to make its identifier. If the loop
  thread inserts the timer and handles an expiration later than its time before that read, a timer
  that does not repeat has been deleted. If the loop thread has only inserted it, the identifier is
  right.\<close>

theorem addTimer_outside_dangles:
  assumes "alloc_ok alloc" "tq_inv q" "time < now" "now \<notin> fst ` set (timers q)"
  shows "addTimer_outside alloc time delta False
      (\<lambda>p q1. bindE (addTimerInLoop t2 p q1) (\<lambda>(q2, es). timer_handleRead alloc (\<lambda>p. []) now clock q2)) q =
      Inl (BadAccess ''timer'') \<and>
    (\<exists>q' es. addTimer_outside alloc time delta False (addTimerInLoop t2) q =
      Inr (q', es @ [ETimerId (alloc (dom (heap q))) (numCreated q)]))"
proof -
  define p where "p = alloc (dom (heap q))"
  define t where "t = \<lparr>expiration = time, interval_us = delta, repeats = False, sequence = numCreated q\<rparr>"
  define q0 where "q0 = q\<lparr>heap := (heap q)(p \<mapsto> t), numCreated := numCreated q + 1\<rparr>"
  have inv: "tq_inv_ex [] q" using assms(2) by (simp add: tq_inv_def)
  obtain q1 es1 where 1: "addTimer alloc t2 time delta False q = Inr (q1, es1)" "tq_inv q1"
      "timers q1 = insort (time, p) (timers q)"
    using addTimer_inv [OF assms(1) inv, of t2 time delta False] assms(2) by (auto simp: tq_inv_def keeps_def p_def)
  then obtain es0 where in_loop: "addTimerInLoop t2 p q0 = Inr (q1, es0)"
    by (auto simp: addTimer_def Let_def p_def q0_def t_def)
  have heap: "heap q1 p = Some t" using addTimer_heap [OF 1(1)] by (simp add: p_def t_def)
  have outside: "addTimer_outside alloc time delta False f q =
      bindE (f p q0) (\<lambda>(q2, es). bindE (deref p q2) (\<lambda>t. Inr (q2, es @ [ETimerId p (sequence t)])))" for f
    by (simp add: addTimer_outside_def Let_def p_def q0_def t_def)
  have D: "distinct (map snd (timers q1))" using 1(2) tq_invD(2) [of "[]" q1] by (simp add: tq_inv_def)
  have only: "e = (time, p)" if "e \<in> set (timers q1)" "snd e = p" for e
  proof -
    have "filter (\<lambda>e. snd e = p) (timers q1) = [(time, p)]"
      by (rule filter_one [OF D]) (simp add: 1(3) set_insort_key)
    moreover have "e \<in> set (filter (\<lambda>e. snd e = p) (timers q1))" using that by simp
    ultimately show ?thesis by simp
  qed
  have nd: "now \<notin> fst ` set (timers q1)" using assms(3,4) by (auto simp: 1(3) set_insort_key)
  let ?ex = "filter (\<lambda>e. fst e < now) (timers q1)"
  obtain q' q2 es2 where 2: "timer_handleRead alloc (\<lambda>p. []) now clock q1 = Inr (q2, es2)" "tq_inv q2"
      "set (timers q2) = set (timers q') \<union> readded q' now (snd ` set ?ex)"
      "\<And>p. p \<in> snd ` set ?ex \<Longrightarrow> heap q' p = heap q1 p" "timers q' = filter (\<lambda>e. \<not> fst e < now) (timers q1)"
    by (rule timer_handleRead_ok [OF assms(1) 1(2) nd, of "\<lambda>p. []" clock]) blast
  have "p \<in> snd ` set ?ex" using assms(3) by (force simp: 1(3) set_insort_key)
  then have "\<not> renewed q' now p" using 2(4) heap by (simp add: renewed_def t_def)
  then have "p \<notin> snd ` readded q' now (snd ` set ?ex)" by (auto simp: readded_def)
  moreover have "p \<notin> snd ` set (timers q')" using only assms(3) 2(5) by fastforce
  ultimately have "p \<notin> snd ` set (timers q2)" using 2(3) by (simp add: image_Un)
  then have "p \<notin> dom (heap q2)" using 2(2) tq_invD(4) [of "[]" q2] by (simp add: tq_inv_def)
  then have "heap q2 p = None" by (simp add: domIff)
  then have "deref p q2 = Inl (BadAccess ''timer'')" by (simp add: deref_def)
  then have dangles: "addTimer_outside alloc time delta False
      (\<lambda>p q1. bindE (addTimerInLoop t2 p q1) (\<lambda>(q2, es). timer_handleRead alloc (\<lambda>p. []) now clock q2)) q =
      Inl (BadAccess ''timer'')"
    unfolding outside using in_loop 2(1) by simp
  have "addTimer_outside alloc time delta False (addTimerInLoop t2) q = Inr (q1, es0 @ [ETimerId p (numCreated q)])"
    unfolding outside using in_loop heap by (simp add: deref_def t_def)
  then show ?thesis using dangles by (auto simp: p_def)
qed

theorem addTimer_outside_dangles_witness:
  "addTimer_outside next_alloc 150 0 False
      (\<lambda>p q1. bindE (addTimerInLoop 101 p q1) (\<lambda>(q2, es). timer_handleRead next_alloc (\<lambda>p. []) 160 160 q2)) TimerQueue_new =
      Inl (BadAccess ''timer'')"
  by (rule addTimer_outside_dangles [OF next_alloc_ok new_inv, THEN conjunct1]) (simp_all add: TimerQueue_new_def)

theorem timers_all_freed_witness:
  "\<exists>q es q'. run_steps (tq_step next_alloc) [OpAct (ActAdd 100 150 0 False)] TimerQueue_new = Inr (q, es) \<and>
     dom (heap q) \<noteq> {} \<and> TimerQueue_destroy q = Inr q' \<and> heap q' = Map.empty"
proof -
  let ?ops = "[OpAct (ActAdd 100 150 0 False)]"
  obtain q es where add: "addTimer next_alloc 100 150 0 False TimerQueue_new = Inr (q, es)"
    using addTimer_inv [OF next_alloc_ok, of "[]" TimerQueue_new 100 150 0 False] new_inv
    by (auto simp: tq_inv_def)
  then have q: "run_steps (tq_step next_alloc) ?ops TimerQueue_new = Inr (q, es)" "dom (heap q) \<noteq> {}"
    using addTimer_heap [OF add] by (auto simp: dom_def)
  then show ?thesis using timers_all_freed [OF next_alloc_ok, of ?ops] by auto
qed

end
