(* ===== verification/Condition.thy ===== *)
theory Condition
  imports Prelude
begin

text \<open>
  Condition variables (include/utils/Condition.h): the threads that wait, in no particular order, each with the
  seconds it waits at most. A waiting thread returns when it is notified, when its time is over, or for no
  reason, which the standard permits. The object brings its own mutex, which a call of \<open>wait\<close> locks only around the
  wait; \<open>notify\<close> and \<open>notifyall\<close> lock nothing.
\<close>

section \<open>State\<close>

record condition =
  cond_waiters :: "(int \<times> int option) list"

definition Condition_new :: condition where
  "Condition_new = \<lparr>cond_waiters = []\<rparr>"

definition cond_waiting :: "int \<Rightarrow> condition \<Rightarrow> bool" where
  "cond_waiting t c \<longleftrightarrow> t \<in> fst ` set (cond_waiters c)"

section \<open>Operations\<close>

text \<open>The threads \<open>t\<close> begin to wait.\<close>

definition Condition_wait :: "int \<Rightarrow> condition \<Rightarrow> condition" where
  "Condition_wait t c = c\<lparr>cond_waiters := cond_waiters c @ [(t, None)]\<rparr>"

definition Condition_waitForSeconds :: "int \<Rightarrow> int \<Rightarrow> condition \<Rightarrow> condition" where
  "Condition_waitForSeconds t seconds c = c\<lparr>cond_waiters := cond_waiters c @ [(t, Some seconds)]\<rparr>"

text \<open>\<open>notify_one\<close> wakes one of the waiting threads, which \<open>pick\<close> chooses, if there is any.\<close>

definition Condition_notify :: "nat \<Rightarrow> condition \<Rightarrow> int option \<times> condition" where
  "Condition_notify pick c =
     (if cond_waiters c = [] then (None, c)
      else (let i = pick mod length (cond_waiters c) in
            (Some (fst (cond_waiters c ! i)),
             c\<lparr>cond_waiters := take i (cond_waiters c) @ drop (Suc i) (cond_waiters c)\<rparr>)))"

definition Condition_notifyall :: "condition \<Rightarrow> int list \<times> condition" where
  "Condition_notifyall c = (map fst (cond_waiters c), c\<lparr>cond_waiters := []\<rparr>)"

text \<open>How a wait ends. A thread that waits without a limit has no timeout.\<close>

datatype wake = Notified | Timeout | Spurious

definition Condition_wake :: "int \<Rightarrow> wake \<Rightarrow> condition \<Rightarrow> condition option" where
  "Condition_wake t w c =
     (case List.extract (\<lambda>(u, limit). u = t \<and> (w = Timeout \<longrightarrow> limit \<noteq> None)) (cond_waiters c) of
        None \<Rightarrow> None
      | Some (ys, x, zs) \<Rightarrow> if w = Notified then None else Some (c\<lparr>cond_waiters := ys @ zs\<rparr>))"

text \<open>What \<open>waitForSeconds\<close> returns.\<close>

definition waitForSeconds_result :: "wake \<Rightarrow> bool" where
  "waitForSeconds_result w \<longleftrightarrow> w \<noteq> Timeout"

section \<open>Lemmas\<close>

text \<open>A notification is not remembered, and it wakes one thread at most.\<close>

lemma notify_none: "cond_waiters c = [] \<Longrightarrow> Condition_notify pick c = (None, c)"
  by (simp add: Condition_notify_def)

lemma notify_one:
  assumes "cond_waiters c \<noteq> []" "Condition_notify pick c = (r, c')"
  shows "\<exists>t. r = Some t \<and> cond_waiting t c \<and> length (cond_waiters c') + 1 = length (cond_waiters c)"
proof -
  let ?i = "pick mod length (cond_waiters c)"
  have i: "?i < length (cond_waiters c)" using assms(1) by simp
  then have "fst (cond_waiters c ! ?i) \<in> fst ` set (cond_waiters c)" by simp
  moreover have "?i + (length (cond_waiters c) - Suc ?i) + 1 = length (cond_waiters c)" using i by linarith
  ultimately show ?thesis using assms by (auto simp: Condition_notify_def Let_def cond_waiting_def)
qed

text \<open>Without a limit only a notification ends a wait, or chance.\<close>

lemma wait_untimed:
  assumes "\<forall>x\<in>set (cond_waiters c). fst x = t \<longrightarrow> snd x = None"
  shows "Condition_wake t Timeout c = None"
  using assms by (auto simp: Condition_wake_def extract_None_iff split: option.splits dest!: extract_SomeE)

end
