(* ===== verification/EventLoopThread.thy ===== *)
theory EventLoopThread
  imports EventLoop Condition
begin

text \<open>
  Loops in threads of their own (include/net/EventLoopThread.h, src/net/EventLoopThread.cpp),
  which start with a condition variable (theory Condition), and the pool that
  hands them out (include/net/EventLoopThreadPool.h, src/net/EventLoopThreadPool.cc).
\<close>

section \<open>Starting a loop thread\<close>

text \<open>
  \<open>startLoop\<close> tests \<open>loop_\<close> under \<open>mutex_\<close>, unlocks it, and then waits on \<open>cond_\<close>, which locks a
  mutex of its own; \<open>threadFunc\<close> sets \<open>loop_\<close> and notifies under \<open>mutex_\<close>. Wakeups by chance, which the standard
  permits but nobody may count on, are left out. The starter is the thread 0.
\<close>

datatype starter = Testing_loop | Unlocked | Waiting | Woken | Returned

record elt =
  starter :: starter
  loop_set :: bool
  elt_cond :: condition

definition elt_init :: elt where
  "elt_init = \<lparr>starter = Testing_loop, loop_set = False, elt_cond = Condition_new\<rparr>"

inductive startLoop_step :: "elt \<Rightarrow> elt \<Rightarrow> bool" where
  test_null: "starter s = Testing_loop \<Longrightarrow> \<not> loop_set s \<Longrightarrow>
    startLoop_step s (s\<lparr>starter := Unlocked\<rparr>)"
| test_set: "starter s = Testing_loop \<Longrightarrow> loop_set s \<Longrightarrow>
    startLoop_step s (s\<lparr>starter := Returned\<rparr>)"
| wait: "starter s = Unlocked \<Longrightarrow>
    startLoop_step s (s\<lparr>starter := Waiting, elt_cond := Condition_wait 0 (elt_cond s)\<rparr>)"
| woken: "starter s = Woken \<Longrightarrow> startLoop_step s (s\<lparr>starter := Testing_loop\<rparr>)"

inductive threadFunc_step :: "elt \<Rightarrow> elt \<Rightarrow> bool" where
  publish: "\<not> loop_set s \<Longrightarrow> Condition_notify pick (elt_cond s) = (r, c) \<Longrightarrow>
    threadFunc_step s (s\<lparr>loop_set := True, elt_cond := c,
      starter := (if r = Some 0 then Woken else starter s)\<rparr>)"

inductive elt_reachable :: "elt \<Rightarrow> bool" where
  elt_start: "elt_reachable elt_init"
| elt_starter: "elt_reachable s \<Longrightarrow> startLoop_step s s' \<Longrightarrow> elt_reachable s'"
| elt_thread: "elt_reachable s \<Longrightarrow> threadFunc_step s s' \<Longrightarrow> elt_reachable s'"

inductive_cases startLoop_stepE: "startLoop_step s s'"
inductive_cases threadFunc_stepE: "threadFunc_step s s'"
inductive_simps threadFunc_step_simps: "threadFunc_step s s'"

lemma returned_set: "elt_reachable s \<Longrightarrow> starter s = Returned \<Longrightarrow> loop_set s"
  by (induction rule: elt_reachable.induct)
    (auto simp: elt_init_def elim!: startLoop_stepE threadFunc_stepE)

text \<open>\<open>startLoop\<close> never returns a null loop, but it can hang: the notification is lost when
  the new thread publishes its loop between the starter's unlock and its wait. The system then
  reaches a state with the loop published and the starter waiting, in which neither the starter
  nor the thread has a step left.\<close>

theorem startLoop_lost_notification:
  "(\<forall>s. elt_reachable s \<longrightarrow> starter s = Returned \<longrightarrow> loop_set s) \<and>
   (\<exists>s. elt_reachable s \<and> starter s = Waiting \<and> loop_set s \<and>
      (\<nexists>s'. startLoop_step s s') \<and> (\<nexists>s'. threadFunc_step s s'))"
proof
  show "\<forall>s. elt_reachable s \<longrightarrow> starter s = Returned \<longrightarrow> loop_set s" using returned_set by blast
  let ?s1 = "\<lparr>starter = Unlocked, loop_set = False, elt_cond = Condition_new\<rparr>"
  let ?s2 = "\<lparr>starter = Unlocked, loop_set = True, elt_cond = Condition_new\<rparr>"
  let ?s3 = "\<lparr>starter = Waiting, loop_set = True, elt_cond = Condition_wait 0 Condition_new\<rparr>"
  have "startLoop_step elt_init ?s1" using test_null [of elt_init] by (simp add: elt_init_def)
  then have 1: "elt_reachable ?s1" using elt_start elt_starter by blast
  have "Condition_notify 0 Condition_new = (None, Condition_new)" by (rule notify_none) (simp add: Condition_new_def)
  then have "threadFunc_step ?s1 ?s2" using publish [of ?s1 0 None Condition_new] by simp
  then have 2: "elt_reachable ?s2" using 1 elt_thread by blast
  have "startLoop_step ?s2 ?s3" using wait [of ?s2] by simp
  then have 3: "elt_reachable ?s3" using 2 elt_starter by blast
  have "\<nexists>s'. startLoop_step ?s3 s'" by (auto elim!: startLoop_stepE)
  moreover have "\<nexists>s'. threadFunc_step ?s3 s'" by (simp add: threadFunc_step_simps)
  ultimately show "\<exists>s. elt_reachable s \<and> starter s = Waiting \<and> loop_set s \<and>
      (\<nexists>s'. startLoop_step s s') \<and> (\<nexists>s'. threadFunc_step s s')"
    using 3 by (intro exI [of _ ?s3]) simp
qed

theorem startLoop_lost_notification_witness:
  "\<exists>s. elt_reachable s \<and> starter s = Waiting \<and> loop_set s"
  using startLoop_lost_notification by blast

section \<open>The thread pool\<close>

text \<open>Loops are known by the identifiers of their threads.\<close>

record pool =
  baseLoop :: int
  pool_started :: bool
  numThreads :: int
  next_loop :: nat
  loops :: "int list"

definition EventLoopThreadPool_new :: "int \<Rightarrow> pool" where
  "EventLoopThreadPool_new base =
     \<lparr>baseLoop = base, pool_started = False, numThreads = 0, next_loop = 0, loops = []\<rparr>"

definition pool_setThreadNum :: "int \<Rightarrow> pool \<Rightarrow> pool" where
  "pool_setThreadNum n p = p\<lparr>numThreads := n\<rparr>"

definition pool_inLoop :: "int \<Rightarrow> pool \<Rightarrow> 'a result \<Rightarrow> 'a result" where
  "pool_inLoop t p m = (if t = baseLoop p then m else abortNotInLoopThread)"

text \<open>\<open>started i\<close> is the loop that the \<open>i\<close>-th new thread returns from \<open>startLoop\<close>.\<close>

definition pool_start :: "int \<Rightarrow> (nat \<Rightarrow> int) \<Rightarrow> pool \<Rightarrow> pool result" where
  "pool_start t started p =
     assertE ''!started_'' (\<not> pool_started p)
       (pool_inLoop t p
          (Inr (p\<lparr>pool_started := True, loops := loops p @ map started [0..<nat (numThreads p)]\<rparr>)))"

definition getNextLoop :: "int \<Rightarrow> pool \<Rightarrow> (int \<times> pool) result" where
  "getNextLoop t p = pool_inLoop t p
     (if loops p \<noteq> [] then
        (if next_loop p < length (loops p)
         then Inr (loops p ! next_loop p, p\<lparr>next_loop := (next_loop p + 1) mod length (loops p)\<rparr>)
         else Inl (BadAccess ''loops_[next_]''))
      else Inr (baseLoop p, p))"

definition pool_ok :: "pool \<Rightarrow> bool" where
  "pool_ok p \<longleftrightarrow> (loops p \<noteq> [] \<longrightarrow> next_loop p < length (loops p))"

lemma getNextLoop_ok:
  "pool_ok p \<Longrightarrow> \<exists>l p'. getNextLoop (baseLoop p) p = Inr (l, p') \<and> pool_ok p' \<and> loops p' = loops p \<and>
     baseLoop p' = baseLoop p \<and> l \<in> insert (baseLoop p) (set (loops p)) \<and> pool_started p' = pool_started p"
  by (auto simp: getNextLoop_def pool_inLoop_def pool_ok_def)

fun take_loops :: "nat \<Rightarrow> pool \<Rightarrow> (int list \<times> pool) result" where
  "take_loops 0 p = Inr ([], p)"
| "take_loops (Suc n) p =
     bindE (getNextLoop (baseLoop p) p) (\<lambda>(l, p1).
     bindE (take_loops n p1) (\<lambda>(ls, p2). Inr (l # ls, p2)))"

lemma take_loops_robin:
  "loops p \<noteq> [] \<Longrightarrow> next_loop p < length (loops p) \<Longrightarrow>
     \<exists>p'. take_loops k p = Inr (map (\<lambda>i. loops p ! ((next_loop p + i) mod length (loops p))) [0..<k], p')"
proof (induction k arbitrary: p)
  case 0
  then show ?case by simp
next
  case (Suc k)
  let ?p = "p\<lparr>next_loop := (next_loop p + 1) mod length (loops p)\<rparr>"
  obtain p' where "take_loops k ?p = Inr (map (\<lambda>i. loops ?p ! ((next_loop ?p + i) mod length (loops ?p))) [0..<k], p')"
    using Suc.IH [of ?p] Suc.prems by auto
  moreover have "map f [0..<Suc k] = f 0 # map (\<lambda>i. f (Suc i)) [0..<k]" for f :: "nat \<Rightarrow> int"
    by (simp add: upt_conv_Cons map_Suc_upt [symmetric] o_def del: upt_Suc)
  ultimately show ?case using Suc.prems
    by (simp add: getNextLoop_def pool_inLoop_def mod_add_left_eq del: upt_Suc)
qed

text \<open>Connections are spread evenly. After the pool has started with \<open>n > 0\<close> threads, the
  calls of \<open>getNextLoop\<close> return its loops in turn: the \<open>i\<close>-th call returns loop \<open>i mod n\<close>.\<close>

theorem pool_round_robin:
  assumes "0 < n" "pool_start base started (pool_setThreadNum n (EventLoopThreadPool_new base)) = Inr p"
  shows "\<exists>p'. take_loops k p = Inr (map (\<lambda>i. started (i mod nat n)) [0..<k], p')"
proof -
  have p: "loops p = map started [0..<nat n]" "next_loop p = 0"
    using assms by (auto simp: pool_start_def pool_inLoop_def pool_setThreadNum_def EventLoopThreadPool_new_def)
  have "\<exists>p'. take_loops k p = Inr (map (\<lambda>i. loops p ! ((next_loop p + i) mod length (loops p))) [0..<k], p')"
    by (rule take_loops_robin) (use p assms(1) in auto)
  then show ?thesis using assms(1) by (simp add: p)
qed

theorem pool_round_robin_witness:
  "\<exists>p p'. pool_start 7 (\<lambda>i. 100 + int i) (pool_setThreadNum 3 (EventLoopThreadPool_new 7)) = Inr p \<and>
     take_loops 5 p = Inr ([100, 101, 102, 100, 101], p')"
proof -
  have "\<exists>p. pool_start 7 (\<lambda>i. 100 + int i) (pool_setThreadNum 3 (EventLoopThreadPool_new 7)) = Inr p"
    by (simp add: pool_start_def pool_inLoop_def pool_setThreadNum_def EventLoopThreadPool_new_def)
  then obtain p where p: "pool_start 7 (\<lambda>i. 100 + int i) (pool_setThreadNum 3 (EventLoopThreadPool_new 7)) = Inr p" ..
  from pool_round_robin [OF _ p, of 5] show ?thesis using p by (auto simp: upt_rec)
qed

end
