(* ===== verification/Thread.thy ===== *)
theory Thread
  imports Prelude
begin

text \<open>
  Threads (include/utils/Thread.h, src/utils/Thread.cpp, include/utils/CurrentThread.h): a
  \<open>Thread\<close> starts one POSIX thread, joins it or detaches it, and hands it its function in a
  \<open>ThreadData\<close> that the new thread deletes. The results of the \<open>pthread\<close> calls and the identifiers the
  kernel gives are arguments.
\<close>

section \<open>The object\<close>

record thread =
  th_started :: bool
  th_joined :: bool
  th_tid :: int

definition Thread_new :: thread where
  "Thread_new = \<lparr>th_started = False, th_joined = False, th_tid = 0\<rparr>"

datatype th_eff = TCreate int | TJoin | TDetach

text \<open>\<open>start\<close> returns when the new thread has written its identifier \<open>child\<close>.\<close>

definition Thread_start :: "int \<Rightarrow> int \<Rightarrow> thread \<Rightarrow> (thread \<times> th_eff list) result" where
  "Thread_start rc child s =
     assertE ''!started_'' (\<not> th_started s)
       (let s1 = s\<lparr>th_started := True\<rparr> in
        if rc \<noteq> 0 then Inr (s1\<lparr>th_started := False\<rparr>, [])
        else Inr (s1\<lparr>th_tid := child\<rparr>, [TCreate child]))"

definition Thread_join :: "thread \<Rightarrow> (thread \<times> th_eff list) result" where
  "Thread_join s =
     assertE ''started_'' (th_started s)
       (assertE ''!joined_'' (\<not> th_joined s) (Inr (s\<lparr>th_joined := True\<rparr>, [TJoin])))"

definition Thread_destroy :: "thread \<Rightarrow> th_eff list" where
  "Thread_destroy s = (if th_started s \<and> \<not> th_joined s then [TDetach] else [])"

datatype th_op = Start int int | Join

fun th_step :: "th_op \<Rightarrow> thread \<Rightarrow> (thread \<times> th_eff list) result" where
  "th_step (Start rc child) s = Thread_start rc child s"
| "th_step Join s = Thread_join s"

text \<open>The identifier of the calling thread is asked of the kernel once per thread.\<close>

definition tid :: "int \<Rightarrow> int \<Rightarrow> int \<times> int" where
  "tid gettid t_cachedTid = (let cached = (if t_cachedTid = 0 then gettid else t_cachedTid) in (cached, cached))"

lemma tid_cached: "tid g1 0 = (g1, g1)" "g1 \<noteq> 0 \<Longrightarrow> tid g2 g1 = (g1, g1)"
  by (simp_all add: tid_def)

section \<open>Starting\<close>

text \<open>
  The starter and the new thread side by side: \<open>pthread_create\<close>, then \<open>startThread\<close>, which
  stores its identifier, fulfils the promise \<open>latch_\<close>, runs the function and deletes its data, while
  \<open>start\<close> waits for the promise. \<open>deletes\<close> counts the deletions of the \<open>ThreadData\<close>.
\<close>

datatype start_pc = Creating | Getting | Failed | Started
datatype child_pc = Absent | Entered | Stored | Latched | Returned | Deleted

record handshake =
  starter_at :: start_pc
  child_at :: child_pc
  started_flag :: bool
  tid_known :: bool
  latch :: bool
  deletes :: nat

definition handshake_init :: handshake where
  "handshake_init = \<lparr>starter_at = Creating, child_at = Absent, started_flag = True, tid_known = False,
     latch = False, deletes = 0\<rparr>"

inductive start_step :: "handshake \<Rightarrow> handshake \<Rightarrow> bool" where
  created: "starter_at s = Creating \<Longrightarrow>
    start_step s (s\<lparr>starter_at := Getting, child_at := Entered\<rparr>)"
| not_created: "starter_at s = Creating \<Longrightarrow>
    start_step s (s\<lparr>starter_at := Failed, started_flag := False, deletes := deletes s + 1\<rparr>)"
| store_tid: "child_at s = Entered \<Longrightarrow> start_step s (s\<lparr>child_at := Stored, tid_known := True\<rparr>)"
| set_value: "child_at s = Stored \<Longrightarrow> start_step s (s\<lparr>child_at := Latched, latch := True\<rparr>)"
| func_returns: "child_at s = Latched \<Longrightarrow> start_step s (s\<lparr>child_at := Returned\<rparr>)"
| delete_data: "child_at s = Returned \<Longrightarrow>
    start_step s (s\<lparr>child_at := Deleted, deletes := deletes s + 1\<rparr>)"
| got: "starter_at s = Getting \<Longrightarrow> latch s \<Longrightarrow> start_step s (s\<lparr>starter_at := Started\<rparr>)"

inductive_cases start_stepE: "start_step s s'"

inductive start_reachable :: "handshake \<Rightarrow> bool" where
  start_init: "start_reachable handshake_init"
| start_next: "start_reachable s \<Longrightarrow> start_step s s' \<Longrightarrow> start_reachable s'"

definition handshake_inv :: "handshake \<Rightarrow> bool" where
  "handshake_inv s \<longleftrightarrow>
     (starter_at s \<in> {Creating, Failed} \<longleftrightarrow> child_at s = Absent) \<and>
     (tid_known s \<longleftrightarrow> child_at s \<notin> {Absent, Entered}) \<and>
     (latch s \<longleftrightarrow> child_at s \<notin> {Absent, Entered, Stored}) \<and>
     (starter_at s = Started \<longrightarrow> latch s) \<and>
     (started_flag s \<longleftrightarrow> starter_at s \<noteq> Failed) \<and>
     deletes s = (if starter_at s = Failed \<or> child_at s = Deleted then 1 else 0)"

lemma handshake_holds: "start_reachable s \<Longrightarrow> handshake_inv s"
proof (induction rule: start_reachable.induct)
  case start_init
  then show ?case by (simp add: handshake_inv_def handshake_init_def)
next
  case (start_next s s')
  from start_next(2,3) show ?case by cases (auto simp: handshake_inv_def)
qed

text \<open>The start of a thread always ends: as long as the starter waits, the new thread has a step.\<close>

lemma start_proceeds:
  assumes "start_reachable s" "starter_at s = Getting"
  shows "\<exists>s'. start_step s s'"
proof -
  have "child_at s \<noteq> Absent" "child_at s = Deleted \<longrightarrow> latch s"
    using handshake_holds [OF assms(1)] assms(2) by (auto simp: handshake_inv_def)
  then consider "child_at s = Entered" | "child_at s = Stored" | "child_at s = Latched" | "child_at s = Returned"
    | "latch s" by (cases "child_at s") auto
  then show ?thesis using assms(2) by cases (blast intro: start_step.intros)+
qed

section \<open>Life of a thread\<close>

definition th_ends :: "thread \<Rightarrow> th_eff list \<Rightarrow> bool" where
  "th_ends s es \<longleftrightarrow>
     (if \<not> th_started s then es = [] \<or> (\<exists>t. es = [TCreate t, TJoin] \<or> es = [TCreate t, TDetach])
      else if th_joined s then es = [] else es = [TJoin] \<or> es = [TDetach])"

lemma th_run_ends:
  "run_steps th_step ops s = Inr (s', es) \<Longrightarrow> (th_joined s \<longrightarrow> th_started s) \<Longrightarrow>
     th_ends s (es @ Thread_destroy s')"
proof (induction ops arbitrary: s es)
  case Nil
  then show ?case by (simp add: th_ends_def Thread_destroy_def)
next
  case (Cons e ops)
  then obtain s1 es1 es2 where 1: "th_step e s = Inr (s1, es1)" "run_steps th_step ops s1 = Inr (s', es2)"
      and es: "es = es1 @ es2" by auto
  have "th_joined s1 \<longrightarrow> th_started s1" using 1(1) Cons.prems(2)
    by (cases e) (auto simp: Thread_start_def Thread_join_def Let_def split: if_splits)
  then have IH: "th_ends s1 (es2 @ Thread_destroy s')" by (rule Cons.IH [OF 1(2)])
  then show ?case using 1(1) Cons.prems(2) unfolding es
    by (cases e) (auto simp: Thread_start_def Thread_join_def th_ends_def Let_def split: if_splits)
qed

text \<open>C32: A thread is created at most once, and given back exactly once. Over any calls of \<open>start\<close> and
  \<open>join\<close> that fail no assert, whatever \<open>pthread_create\<close> answers, followed by the destructor, at most
  one POSIX thread is created, and it is joined or detached exactly once, never both. While it starts,
  \<open>start\<close> returns only when the new thread has stored its identifier, and its data is deleted at most
  once, by the new thread after the function has returned, or by the starter if there is no thread.\<close>

theorem thread_given_back_once:
  "(run_steps th_step ops Thread_new = Inr (s, es) \<longrightarrow>
      es @ Thread_destroy s = [] \<or>
      (\<exists>t. es @ Thread_destroy s = [TCreate t, TJoin] \<or> es @ Thread_destroy s = [TCreate t, TDetach])) \<and>
   (start_reachable h \<longrightarrow>
      (starter_at h = Started \<longrightarrow> tid_known h) \<and> deletes h \<le> 1 \<and>
      (deletes h = 1 \<longrightarrow> child_at h = Deleted \<or> starter_at h = Failed \<and> child_at h = Absent))"
proof (intro conjI impI)
  assume "run_steps th_step ops Thread_new = Inr (s, es)"
  from th_run_ends [OF this] show "es @ Thread_destroy s = [] \<or>
      (\<exists>t. es @ Thread_destroy s = [TCreate t, TJoin] \<or> es @ Thread_destroy s = [TCreate t, TDetach])"
    by (simp add: th_ends_def Thread_new_def)
next
  assume "start_reachable h"
  from handshake_holds [OF this] show "starter_at h = Started \<Longrightarrow> tid_known h" "deletes h \<le> 1"
    "deletes h = 1 \<Longrightarrow> child_at h = Deleted \<or> starter_at h = Failed \<and> child_at h = Absent"
    by (auto simp: handshake_inv_def split: if_splits)
qed

theorem thread_given_back_once_witness:
  "\<exists>s es. run_steps th_step [Start 11 0, Start 0 4711, Join] Thread_new = Inr (s, es) \<and>
     es @ Thread_destroy s = [TCreate 4711, TJoin]"
proof -
  have run: "run_steps th_step [Start 11 0, Start 0 4711, Join] Thread_new =
      Inr (\<lparr>th_started = True, th_joined = True, th_tid = 4711\<rparr>, [TCreate 4711, TJoin])"
    by (simp add: Thread_new_def Thread_start_def Thread_join_def)
  have "\<exists>t. [TCreate 4711, TJoin] @ Thread_destroy \<lparr>th_started = True, th_joined = True, th_tid = 4711\<rparr> = [TCreate t, TJoin] \<or>
      [TCreate 4711, TJoin] @ Thread_destroy \<lparr>th_started = True, th_joined = True, th_tid = 4711\<rparr> = [TCreate t, TDetach]"
    using thread_given_back_once [THEN conjunct1, THEN mp, OF run] by simp
  then have "[TCreate 4711, TJoin] @ Thread_destroy \<lparr>th_started = True, th_joined = True, th_tid = 4711\<rparr> = [TCreate 4711, TJoin]"
    by auto
  then show ?thesis by (intro exI conjI) (rule run)
qed

end
