(* ===== verification/LoopThread.thy ===== *)
theory LoopThread
  imports EventLoopThread Thread
begin

text \<open>
  The whole life of an \<open>EventLoopThread\<close> (src/net/EventLoopThread.cpp): \<open>startLoop\<close>, the thread that
  makes a loop on its stack, publishes it and runs it, its user, who may tell the loop to quit, and the
  destructor, which tells the loop to quit and joins the thread. The owner and the thread interleave; a step is what one of them does between
  two accesses to shared state. Waits may end without a notification, and the loop may
  have other events, except where a property says otherwise.
\<close>

section \<open>States and steps\<close>

text \<open>
  The owner: in \<open>startLoop\<close> (testing \<open>loop_\<close>, between unlocking and waiting, waiting), using the loop,
  in a call of \<open>quit\<close> of its own that has set \<open>quit_\<close>, in the destructor (\<open>exiting_\<close> set, \<open>quit_\<close> set, about to write to the wakeup descriptor of a loop that
  exists no more, joining), gone. The thread: not created, constructing its loop, the loop published,
  at the test of \<open>quit_\<close>, in \<open>epoll_wait\<close>, out of the loop, at an assert that failed, returned.
\<close>

datatype owner_pc =
    O_test | O_unlocked | O_waiting | O_using | O_user_quit | O_exiting | O_quit_set | O_dangling | O_joining | O_gone

datatype loop_pc = L_absent | L_begin | L_published | L_testing | L_polling | L_left | L_aborted | L_returned

text \<open>\<open>user_quit\<close>: somebody told the loop to quit before the destructor began.\<close>

record elife =
  owner :: owner_pc
  thread_at :: loop_pc
  loop_ptr :: bool
  notif :: bool
  exiting :: bool
  quit_flagged :: bool
  readable :: bool
  user_quit :: bool

text \<open>\<open>created\<close> tells whether \<open>pthread_create\<close> succeeded; \<open>Thread::start\<close> does not report it.\<close>

definition elife_init :: "bool \<Rightarrow> elife" where
  "elife_init created =
     \<lparr>owner = O_test, thread_at = (if created then L_begin else L_absent), loop_ptr = False, notif = False,
      exiting = False, quit_flagged = False, readable = False, user_quit = False\<rparr>"

inductive owner_step :: "elife \<Rightarrow> elife \<Rightarrow> bool" where
  o_null: "owner s = O_test \<Longrightarrow> \<not> loop_ptr s \<Longrightarrow> owner_step s (s\<lparr>owner := O_unlocked\<rparr>)"
| o_set: "owner s = O_test \<Longrightarrow> loop_ptr s \<Longrightarrow> owner_step s (s\<lparr>owner := O_using\<rparr>)"
| o_wait: "owner s = O_unlocked \<Longrightarrow> owner_step s (s\<lparr>owner := O_waiting, notif := False\<rparr>)"
| o_woken: "owner s = O_waiting \<Longrightarrow> notif s \<Longrightarrow> owner_step s (s\<lparr>owner := O_test, notif := False\<rparr>)"
| o_user_quit: "owner s = O_using \<Longrightarrow> owner_step s (s\<lparr>owner := O_user_quit, quit_flagged := True, user_quit := True\<rparr>)"
| o_user_wakeup: "owner s = O_user_quit \<Longrightarrow> owner_step s (s\<lparr>owner := O_using, readable := True\<rparr>)"
| o_exit: "owner s = O_using \<Longrightarrow> owner_step s (s\<lparr>owner := O_exiting, exiting := True\<rparr>)"
| o_quit: "owner s = O_exiting \<Longrightarrow> thread_at s \<noteq> L_returned \<Longrightarrow>
    owner_step s (s\<lparr>owner := O_quit_set, quit_flagged := True\<rparr>)"
| o_quit_dead: "owner s = O_exiting \<Longrightarrow> thread_at s = L_returned \<Longrightarrow> owner_step s (s\<lparr>owner := O_dangling\<rparr>)"
| o_wakeup: "owner s = O_quit_set \<Longrightarrow> thread_at s \<noteq> L_returned \<Longrightarrow>
    owner_step s (s\<lparr>owner := O_joining, readable := True\<rparr>)"
| o_wakeup_dead: "owner s = O_quit_set \<Longrightarrow> thread_at s = L_returned \<Longrightarrow> owner_step s (s\<lparr>owner := O_dangling\<rparr>)"
| o_join: "owner s = O_joining \<Longrightarrow> thread_at s = L_returned \<Longrightarrow> owner_step s (s\<lparr>owner := O_gone\<rparr>)"

inductive thread_step :: "elife \<Rightarrow> elife \<Rightarrow> bool" where
  t_publish: "thread_at s = L_begin \<Longrightarrow>
    thread_step s (s\<lparr>thread_at := L_published, loop_ptr := True, notif := (owner s = O_waiting)\<rparr>)"
| t_enter: "thread_at s = L_published \<Longrightarrow> thread_step s (s\<lparr>thread_at := L_testing, quit_flagged := False\<rparr>)"
| t_go_on: "thread_at s = L_testing \<Longrightarrow> \<not> quit_flagged s \<Longrightarrow> thread_step s (s\<lparr>thread_at := L_polling\<rparr>)"
| t_woken: "thread_at s = L_polling \<Longrightarrow> readable s \<Longrightarrow>
    thread_step s (s\<lparr>thread_at := L_testing, readable := False\<rparr>)"
| t_leave: "thread_at s = L_testing \<Longrightarrow> quit_flagged s \<Longrightarrow> thread_step s (s\<lparr>thread_at := L_left\<rparr>)"
| t_return: "thread_at s = L_left \<Longrightarrow> exiting s \<Longrightarrow> thread_step s (s\<lparr>thread_at := L_returned\<rparr>)"
| t_abort: "thread_at s = L_left \<Longrightarrow> \<not> exiting s \<Longrightarrow> thread_step s (s\<lparr>thread_at := L_aborted\<rparr>)"

text \<open>What happens besides: a spurious wakeup, an event of another descriptor of the loop.\<close>

inductive world_step :: "elife \<Rightarrow> elife \<Rightarrow> bool" where
  w_spurious: "owner s = O_waiting \<Longrightarrow> world_step s (s\<lparr>owner := O_test\<rparr>)"
| w_event: "thread_at s = L_polling \<Longrightarrow> world_step s (s\<lparr>thread_at := L_testing\<rparr>)"

text \<open>A callback or functor of the loop calls \<open>quit\<close>; in the thread of the loop that writes no wakeup.\<close>

inductive callback_step :: "elife \<Rightarrow> elife \<Rightarrow> bool" where
  c_quit: "thread_at s = L_polling \<Longrightarrow>
    callback_step s (s\<lparr>thread_at := L_testing, quit_flagged := True, user_quit := user_quit s \<or> \<not> exiting s\<rparr>)"

text \<open>A failed assert ends the process. In \<open>life_step\<close> no callback of the loop calls \<open>quit\<close>.\<close>

definition life_step :: "elife \<Rightarrow> elife \<Rightarrow> bool" where
  "life_step s s' \<longleftrightarrow> thread_at s \<noteq> L_aborted \<and> (owner_step s s' \<or> thread_step s s' \<or> world_step s s')"

definition used_step :: "elife \<Rightarrow> elife \<Rightarrow> bool" where
  "used_step s s' \<longleftrightarrow> life_step s s' \<or> thread_at s \<noteq> L_aborted \<and> callback_step s s'"

inductive_cases owner_stepE: "owner_step s s'"
inductive_cases thread_stepE: "thread_step s s'"
inductive_cases world_stepE: "world_step s s'"
inductive_cases callback_stepE: "callback_step s s'"

abbreviation leads_to :: "elife \<Rightarrow> elife \<Rightarrow> bool" where
  "leads_to \<equiv> life_step\<^sup>*\<^sup>*"

abbreviation used_to :: "elife \<Rightarrow> elife \<Rightarrow> bool" where
  "used_to \<equiv> used_step\<^sup>*\<^sup>*"

section \<open>What always holds\<close>

definition life_inv :: "elife \<Rightarrow> bool" where
  "life_inv s \<longleftrightarrow>
     (loop_ptr s \<longleftrightarrow> thread_at s \<notin> {L_absent, L_begin}) \<and>
     (owner s \<notin> {O_test, O_unlocked, O_waiting} \<longrightarrow> loop_ptr s) \<and>
     (exiting s \<longleftrightarrow> owner s \<notin> {O_test, O_unlocked, O_waiting, O_using, O_user_quit}) \<and>
     (quit_flagged s \<longrightarrow> exiting s \<or> user_quit s) \<and>
     (thread_at s \<in> {L_left, L_returned} \<longrightarrow> quit_flagged s) \<and>
     (thread_at s = L_returned \<longrightarrow> exiting s) \<and>
     (thread_at s = L_aborted \<longrightarrow> user_quit s \<and> \<not> exiting s) \<and>
     (owner s = O_gone \<longrightarrow> thread_at s = L_returned) \<and>
     (owner s = O_joining \<longrightarrow> quit_flagged s \<longrightarrow> thread_at s = L_polling \<longrightarrow> readable s)"

lemma owner_step_inv: "owner_step s s' \<Longrightarrow> thread_at s \<noteq> L_aborted \<Longrightarrow> life_inv s \<Longrightarrow> life_inv s'"
  by (induction rule: owner_step.induct; simp add: life_inv_def; blast)

lemma thread_step_inv: "thread_step s s' \<Longrightarrow> life_inv s \<Longrightarrow> life_inv s'"
  by (induction rule: thread_step.induct; simp add: life_inv_def; auto)

lemma world_step_inv: "world_step s s' \<Longrightarrow> life_inv s \<Longrightarrow> life_inv s'"
  by (induction rule: world_step.induct; simp add: life_inv_def; blast)

lemma callback_step_inv: "callback_step s s' \<Longrightarrow> life_inv s \<Longrightarrow> life_inv s'"
  by (induction rule: callback_step.induct; simp add: life_inv_def; blast)

lemma life_step_inv: "life_inv s \<Longrightarrow> life_step s s' \<Longrightarrow> life_inv s'"
  unfolding life_step_def using owner_step_inv thread_step_inv world_step_inv by blast

lemma used_step_inv: "life_inv s \<Longrightarrow> used_step s s' \<Longrightarrow> life_inv s'"
  unfolding used_step_def using life_step_inv callback_step_inv by blast

lemma leads_used: "leads_to s s' \<Longrightarrow> used_to s s'"
  by (rule rtranclp_mono [THEN predicate2D]) (auto simp: used_step_def)

lemma used_holds: "used_to (elife_init created) s \<Longrightarrow> life_inv s"
proof (induction rule: rtranclp_induct)
  case base
  then show ?case by (simp add: life_inv_def elife_init_def)
next
  case (step s s')
  then show ?case using used_step_inv by blast
qed

lemma life_holds: "leads_to (elife_init created) s \<Longrightarrow> life_inv s"
  using used_holds leads_used by blast

section \<open>Shutting down\<close>

lemma left_ends:
  assumes "life_inv s" "owner s = O_joining" "thread_at s \<in> {L_left, L_returned}"
  shows "\<exists>s'. leads_to s s' \<and> owner s' = O_gone"
proof -
  have join: "life_step x (x\<lparr>owner := O_gone\<rparr>)" if "owner x = O_joining" "thread_at x = L_returned" for x
    using o_join [OF that] that(2) by (simp add: life_step_def)
  show ?thesis
  proof (cases "thread_at s = L_left")
    case True
    then have "life_step s (s\<lparr>thread_at := L_returned\<rparr>)" using t_return [of s] assms by (simp add: life_step_def life_inv_def)
    moreover have "life_step (s\<lparr>thread_at := L_returned\<rparr>) (s\<lparr>thread_at := L_returned\<rparr>\<lparr>owner := O_gone\<rparr>)"
      by (rule join) (use assms in simp_all)
    ultimately have "leads_to s (s\<lparr>thread_at := L_returned\<rparr>\<lparr>owner := O_gone\<rparr>)"
      by (rule converse_rtranclp_into_rtranclp [OF _ r_into_rtranclp])
    then show ?thesis by (intro exI [of _ "s\<lparr>thread_at := L_returned\<rparr>\<lparr>owner := O_gone\<rparr>"] conjI) simp_all
  next
    case False
    then have "life_step s (s\<lparr>owner := O_gone\<rparr>)" using join assms by simp
    then have "leads_to s (s\<lparr>owner := O_gone\<rparr>)" by (rule r_into_rtranclp)
    then show ?thesis by (intro exI [of _ "s\<lparr>owner := O_gone\<rparr>"] conjI) simp_all
  qed
qed

lemma testing_ends:
  assumes "life_inv s" "owner s = O_joining" "quit_flagged s" "thread_at s = L_testing"
  shows "\<exists>s'. leads_to s s' \<and> owner s' = O_gone"
proof -
  have step: "life_step s (s\<lparr>thread_at := L_left\<rparr>)" using t_leave [of s] assms by (simp add: life_step_def)
  have "\<exists>s'. leads_to (s\<lparr>thread_at := L_left\<rparr>) s' \<and> owner s' = O_gone"
    by (rule left_ends [OF life_step_inv [OF assms(1) step]]) (use assms in simp_all)
  then show ?thesis using step by (meson converse_rtranclp_into_rtranclp)
qed

lemma joining_ends:
  assumes "life_inv s" "owner s = O_joining" "quit_flagged s" "thread_at s \<noteq> L_published"
  shows "\<exists>s'. leads_to s s' \<and> owner s' = O_gone"
proof (cases "thread_at s = L_polling")
  case True
  then have "readable s" using assms by (simp add: life_inv_def)
  then have step: "life_step s (s\<lparr>thread_at := L_testing, readable := False\<rparr>)"
    using t_woken [of s] True by (simp add: life_step_def)
  have "\<exists>s'. leads_to (s\<lparr>thread_at := L_testing, readable := False\<rparr>) s' \<and> owner s' = O_gone"
    by (rule testing_ends [OF life_step_inv [OF assms(1) step]]) (use assms in simp_all)
  then show ?thesis using step by (meson converse_rtranclp_into_rtranclp)
next
  case False
  then have "thread_at s \<in> {L_testing, L_left, L_returned}"
    using assms by (cases "thread_at s") (auto simp: life_inv_def)
  then show ?thesis using left_ends testing_ends assms by auto
qed

text \<open>C25: An \<open>EventLoopThread\<close> shuts down in order. In every interleaving of the thread with its owner, who may tell
  the loop to quit any number of times, and with callbacks of the loop that do, \<open>startLoop\<close> returns only a loop
  that has been published, the assert of \<open>threadFunc\<close> fails only before the destructor has begun, and only if somebody told
  the loop to quit by then, the thread returns only after the destructor has begun, and the destructor ends only after
  the thread has returned. And when the quit was set after the thread entered its loop, the destructor does end: from
  such a state, once it joins, a few steps lead there. That a quit of the user does make the assert fail is
  \<open>test6_quit_aborts\<close>.\<close>

theorem loop_thread_shutdown:
  assumes "used_to (elife_init created) s"
  shows "(owner s \<notin> {O_test, O_unlocked, O_waiting} \<longrightarrow> loop_ptr s) \<and>
    (thread_at s = L_aborted \<longrightarrow> user_quit s \<and> \<not> exiting s) \<and>
    (thread_at s = L_returned \<longrightarrow> exiting s) \<and> (owner s = O_gone \<longrightarrow> thread_at s = L_returned) \<and>
    (owner s = O_joining \<and> quit_flagged s \<and> thread_at s \<noteq> L_published \<longrightarrow>
       (\<exists>s'. leads_to s s' \<and> owner s' = O_gone))"
proof -
  note inv = used_holds [OF assms]
  have "owner s \<notin> {O_test, O_unlocked, O_waiting} \<longrightarrow> loop_ptr s"
    "thread_at s = L_aborted \<longrightarrow> user_quit s \<and> \<not> exiting s" "thread_at s = L_returned \<longrightarrow> exiting s"
    "owner s = O_gone \<longrightarrow> thread_at s = L_returned" using inv unfolding life_inv_def by blast+
  then show ?thesis using joining_ends [OF inv] by blast
qed

text \<open>The owner tells a loop to quit that has not been entered yet.\<close>

lemma life_steps:
  "owner_step s s' \<Longrightarrow> thread_at s \<noteq> L_aborted \<Longrightarrow> life_step s s'"
  "thread_step s s' \<Longrightarrow> thread_at s \<noteq> L_aborted \<Longrightarrow> life_step s s'"
  by (simp_all add: life_step_def)

definition at_state :: "owner_pc \<Rightarrow> loop_pc \<Rightarrow> bool \<Rightarrow> bool \<Rightarrow> elife" where
  "at_state ow th q r = \<lparr>owner = ow, thread_at = th, loop_ptr = True, notif = False,
     exiting = (ow \<noteq> O_test \<and> ow \<noteq> O_using), quit_flagged = q, readable = r,
     user_quit = False\<rparr>"

lemma exiting_early: "leads_to (elife_init True) (at_state O_exiting L_published False False)"
proof -
  have "life_step (elife_init True) (at_state O_test L_published False False)"
    using t_publish [of "elife_init True", THEN life_steps(2)] by (simp add: elife_init_def at_state_def)
  moreover have "life_step (at_state O_test L_published False False) (at_state O_using L_published False False)"
    using o_set [of "at_state O_test L_published False False", THEN life_steps(1)] by (simp add: at_state_def)
  moreover have "life_step (at_state O_using L_published False False) (at_state O_exiting L_published False False)"
    using o_exit [of "at_state O_using L_published False False", THEN life_steps(1)] by (simp add: at_state_def)
  ultimately show ?thesis by (meson converse_rtranclp_into_rtranclp rtranclp.rtrancl_refl)
qed

lemma quit_lost: "leads_to (elife_init True) (at_state O_joining L_testing False True)"
proof -
  have "life_step (at_state O_exiting L_published False False) (at_state O_quit_set L_published True False)"
    using o_quit [of "at_state O_exiting L_published False False", THEN life_steps(1)] by (simp add: at_state_def)
  moreover have "life_step (at_state O_quit_set L_published True False) (at_state O_joining L_published True True)"
    using o_wakeup [of "at_state O_quit_set L_published True False", THEN life_steps(1)] by (simp add: at_state_def)
  moreover have "life_step (at_state O_joining L_published True True) (at_state O_joining L_testing False True)"
    using t_enter [of "at_state O_joining L_published True True", THEN life_steps(2)] by (simp add: at_state_def)
  ultimately show ?thesis using exiting_early by (meson rtranclp.rtrancl_into_rtrancl)
qed

lemma joins_forever:
  assumes "leads_to s s'" "owner s = O_joining" "\<not> quit_flagged s" "thread_at s \<in> {L_testing, L_polling}"
  shows "owner s' = O_joining \<and> \<not> quit_flagged s' \<and> thread_at s' \<in> {L_testing, L_polling}"
  using assms
proof (induction rule: rtranclp_induct)
  case (step s1 s2)
  then have "owner s1 = O_joining" "\<not> quit_flagged s1" "thread_at s1 \<in> {L_testing, L_polling}" by simp_all
  then show ?case using step(2) unfolding life_step_def
    by (elim conjE disjE owner_stepE thread_stepE world_stepE) simp_all
qed simp

lemma loop_gone_early: "leads_to (elife_init True) (at_state O_dangling L_returned True False)"
proof -
  have "life_step (at_state O_exiting L_published False False) (at_state O_exiting L_testing False False)"
    using t_enter [of "at_state O_exiting L_published False False", THEN life_steps(2)] by (simp add: at_state_def)
  moreover have "life_step (at_state O_exiting L_testing False False) (at_state O_quit_set L_testing True False)"
    using o_quit [of "at_state O_exiting L_testing False False", THEN life_steps(1)] by (simp add: at_state_def)
  moreover have "life_step (at_state O_quit_set L_testing True False) (at_state O_quit_set L_left True False)"
    using t_leave [of "at_state O_quit_set L_testing True False", THEN life_steps(2)] by (simp add: at_state_def)
  moreover have "life_step (at_state O_quit_set L_left True False) (at_state O_quit_set L_returned True False)"
    using t_return [of "at_state O_quit_set L_left True False", THEN life_steps(2)] by (simp add: at_state_def)
  moreover have "life_step (at_state O_quit_set L_returned True False) (at_state O_dangling L_returned True False)"
    using o_wakeup_dead [of "at_state O_quit_set L_returned True False", THEN life_steps(1)] by (simp add: at_state_def)
  ultimately show ?thesis using exiting_early by (meson rtranclp.rtrancl_into_rtrancl)
qed

lemma never_started:
  assumes "leads_to (elife_init False) s"
  shows "owner s \<in> {O_test, O_unlocked, O_waiting} \<and> thread_at s = L_absent \<and> \<not> loop_ptr s"
  using assms
proof (induction rule: rtranclp_induct)
  case base
  then show ?case by (simp add: elife_init_def)
next
  case (step s1 s2)
  from step(2,3) show ?case unfolding life_step_def
    by (elim conjE disjE owner_stepE thread_stepE world_stepE) simp_all
qed

text \<open>C34: The destructor of \<open>EventLoopThread\<close> has two races, and a failed start hangs. It can set \<open>quit_\<close>
  before the thread enters \<open>loop()\<close>, which resets it: the thread then never leaves its loop, whatever
  events it gets (short of a callback that calls \<open>quit\<close>), and the destructor joins forever. It can set \<open>quit_\<close> and lose the processor: the
  thread leaves the loop and destroys it, and \<open>quit()\<close> goes on to use it. And when \<open>pthread_create\<close>
  fails, which \<open>Thread::start\<close> does not report, \<open>startLoop\<close> never returns.\<close>

theorem loop_thread_races:
  "(\<exists>s. leads_to (elife_init True) s \<and> owner s = O_joining \<and> (\<forall>s'. leads_to s s' \<longrightarrow> owner s' = O_joining)) \<and>
   (\<exists>s. leads_to (elife_init True) s \<and> owner s = O_dangling \<and> thread_at s = L_returned) \<and>
   (\<forall>s. leads_to (elife_init False) s \<longrightarrow> owner s \<in> {O_test, O_unlocked, O_waiting})"
proof (intro conjI allI impI)
  have "owner s' = O_joining" if "leads_to (at_state O_joining L_testing False True) s'" for s'
    using joins_forever [OF that] by (simp add: at_state_def)
  then show "\<exists>s. leads_to (elife_init True) s \<and> owner s = O_joining \<and> (\<forall>s'. leads_to s s' \<longrightarrow> owner s' = O_joining)"
    using quit_lost by (intro exI [of _ "at_state O_joining L_testing False True"]) (simp add: at_state_def)
  show "\<exists>s. leads_to (elife_init True) s \<and> owner s = O_dangling \<and> thread_at s = L_returned"
    using loop_gone_early by (intro exI [of _ "at_state O_dangling L_returned True False"]) (simp add: at_state_def)
qed (use never_started in blast)

theorem loop_thread_races_witness:
  "owner (elife_init False) \<in> {O_test, O_unlocked, O_waiting}"
  using loop_thread_races [THEN conjunct2, THEN conjunct2, rule_format, of "elife_init False"] by simp

theorem loop_thread_shutdown_witness:
  "\<exists>s s'. leads_to (elife_init True) s \<and> owner s = O_joining \<and> leads_to s s' \<and> owner s' = O_gone"
proof -
  have "life_step (at_state O_exiting L_published False False) (at_state O_exiting L_testing False False)"
    using t_enter [of "at_state O_exiting L_published False False", THEN life_steps(2)] by (simp add: at_state_def)
  moreover have "life_step (at_state O_exiting L_testing False False) (at_state O_quit_set L_testing True False)"
    using o_quit [of "at_state O_exiting L_testing False False", THEN life_steps(1)] by (simp add: at_state_def)
  moreover have "life_step (at_state O_quit_set L_testing True False) (at_state O_joining L_testing True True)"
    using o_wakeup [of "at_state O_quit_set L_testing True False", THEN life_steps(1)] by (simp add: at_state_def)
  ultimately have "leads_to (elife_init True) (at_state O_joining L_testing True True)"
    using exiting_early by (meson rtranclp.rtrancl_into_rtrancl)
  moreover have "owner (at_state O_joining L_testing True True) = O_joining"
    "quit_flagged (at_state O_joining L_testing True True)" "thread_at (at_state O_joining L_testing True True) \<noteq> L_published"
    by (simp_all add: at_state_def)
  ultimately show ?thesis using loop_thread_shutdown [OF leads_used] by blast
qed

end
