(* ===== verification/Connector.thy ===== *)
theory Connector
  imports EPoller "HOL-Library.Multiset"
begin

text \<open>
  The connector (include/net/Connector.h, src/net/Connector.cc): it opens a non-blocking socket,
  waits for it to become writable, and hands the descriptor over, or closes it and tries again
  after a delay that doubles. Descriptors (a new one for each \<open>connect\<close>), the result of
  \<open>connect(2)\<close>, SO_ERROR and the self-connection test are arguments. A run keeps the functors
  that reset the channel and are still queued (\<open>k_resets\<close>).
\<close>

section \<open>State\<close>

datatype States = CDisconnected | CConnecting | CConnected

definition kMaxRetryDelayMs :: int where "kMaxRetryDelayMs = 30 * 1000"
definition kInitRetryDelayMs :: int where "kInitRetryDelayMs = 500"

record connector =
  k_tid :: int
  connect_flag :: bool
  k_state :: States
  k_chan :: "channel option"
  retryDelayMs :: int
  k_resets :: nat

definition Connector_new :: "int \<Rightarrow> connector" where
  "Connector_new tid =
     \<lparr>k_tid = tid, connect_flag = False, k_state = CDisconnected, k_chan = None,
      retryDelayMs = kInitRetryDelayMs, k_resets = 0\<rparr>"

datatype k_eff =
    KOpen int | KClose int | KCtl ctl | KNewConnection int | KRunAfter int | KCancelTimer
  | KQueueReset | KQueueStart | KLogSysErr int

type_synonym k_result = "(connector \<times> k_eff list) result"

definition then_k :: "k_result \<Rightarrow> (connector \<Rightarrow> k_result) \<Rightarrow> k_result" where
  "then_k r f = bindE r (\<lambda>(k1, es1). bindE (f k1) (\<lambda>(k2, es2). Inr (k2, es1 @ es2)))"

section \<open>Error numbers of connect(2)\<close>

definition EINTR :: int where "EINTR = 4"
definition EAGAIN :: int where "EAGAIN = 11"
definition EADDRINUSE :: int where "EADDRINUSE = 98"
definition EADDRNOTAVAIL :: int where "EADDRNOTAVAIL = 99"
definition ENETUNREACH :: int where "ENETUNREACH = 101"
definition EISCONN :: int where "EISCONN = 106"
definition ECONNREFUSED :: int where "ECONNREFUSED = 111"
definition EINPROGRESS :: int where "EINPROGRESS = 115"

section \<open>Operations\<close>

definition connecting :: "int \<Rightarrow> int \<Rightarrow> connector \<Rightarrow> k_result" where
  "connecting rc sockfd k =
     (let k1 = k\<lparr>k_state := CConnecting\<rparr> in
      assertE ''!channel_'' (k_chan k1 = None)
        (let ch = setErrorCallback (setWriteCallback (Channel_new sockfd)) in
         bindE (enableWriting rc ch) (\<lambda>(ch1, cs). Inr (k1\<lparr>k_chan := Some ch1\<rparr>, map KCtl cs))))"

definition retry :: "int \<Rightarrow> connector \<Rightarrow> k_result" where
  "retry sockfd k =
     (let k1 = k\<lparr>k_state := CDisconnected\<rparr> in
      if connect_flag k1 then
        Inr (k1\<lparr>retryDelayMs := min (retryDelayMs k1 * 2) kMaxRetryDelayMs\<rparr>,
             [KClose sockfd, KRunAfter (retryDelayMs k1)])
      else Inr (k1, [KClose sockfd]))"

text \<open>\<open>connect\<close> opens \<open>sockfd\<close>; \<open>err\<close> is 0 or the errno \<open>connect(2)\<close> left.\<close>

definition connect :: "int \<Rightarrow> int \<Rightarrow> int \<Rightarrow> connector \<Rightarrow> k_result" where
  "connect sockfd err rc k =
     then_k (Inr (k, [KOpen sockfd]))
       (if err \<in> {0, EINPROGRESS, EINTR, EISCONN} then connecting rc sockfd
        else if err \<in> {EAGAIN, EADDRINUSE, EADDRNOTAVAIL, ECONNREFUSED, ENETUNREACH} then retry sockfd
        else (\<lambda>k. Inr (k, [KLogSysErr err, KClose sockfd])))"

definition startInLoop :: "int \<Rightarrow> int \<Rightarrow> int \<Rightarrow> connector \<Rightarrow> k_result" where
  "startInLoop sockfd err rc k =
     assertE ''state_ == kDisconnected'' (k_state k = CDisconnected)
       (if connect_flag k then connect sockfd err rc k else Inr (k, []))"

definition start :: "int \<Rightarrow> int \<Rightarrow> int \<Rightarrow> int \<Rightarrow> connector \<Rightarrow> k_result" where
  "start t sockfd err rc k =
     (let k1 = k\<lparr>connect_flag := True\<rparr> in
      if t = k_tid k1 then startInLoop sockfd err rc k1 else Inr (k1, [KQueueStart]))"

definition k_restart :: "int \<Rightarrow> int \<Rightarrow> int \<Rightarrow> connector \<Rightarrow> k_result" where
  "k_restart sockfd err rc k =
     startInLoop sockfd err rc
       (k\<lparr>k_state := CDisconnected, retryDelayMs := kInitRetryDelayMs, connect_flag := True\<rparr>)"

definition stop :: "connector \<Rightarrow> k_result" where
  "stop k = Inr (k\<lparr>connect_flag := False\<rparr>, [KCancelTimer])"

definition removeAndResetChannel :: "int \<Rightarrow> connector \<Rightarrow> (int \<times> connector \<times> k_eff list) result" where
  "removeAndResetChannel rc k =
     (case k_chan k of
        None \<Rightarrow> Inl (BadAccess ''channel_'')
      | Some ch \<Rightarrow>
          bindE (disableAll rc ch) (\<lambda>(ch1, cs).
          Inr (ch_fd ch1, k\<lparr>k_chan := Some ch1, k_resets := k_resets k + 1\<rparr>, map KCtl cs @ [KQueueReset])))"

definition resetChannel :: "connector \<Rightarrow> k_result" where
  "resetChannel k =
     (case k_chan k of
        None \<Rightarrow> Inr (k, [])
      | Some ch \<Rightarrow> Channel_delete ch (Inr (k\<lparr>k_chan := None\<rparr>, [])))"

text \<open>\<open>so_error\<close> is SO_ERROR of the socket, \<open>self\<close> says that it is connected to itself.\<close>

definition k_handleWrite :: "int \<Rightarrow> int \<Rightarrow> bool \<Rightarrow> connector \<Rightarrow> k_result" where
  "k_handleWrite rc so_error self k =
     (if k_state k = CConnecting then
        assertE ''state_ == kConnecting'' (k_state k = CConnecting)
          (bindE (removeAndResetChannel rc k) (\<lambda>(sockfd, k1, es).
           then_k (Inr (k1, es))
             (if so_error \<noteq> 0 then retry sockfd
              else if self then retry sockfd
              else (\<lambda>k. (let k2 = k\<lparr>k_state := CConnected\<rparr> in
                    if connect_flag k2 then Inr (k2, [KNewConnection sockfd])
                    else Inr (k2, [KClose sockfd]))))))
      else Inr (k, []))"

definition k_handleError :: "int \<Rightarrow> connector \<Rightarrow> k_result" where
  "k_handleError rc k =
     assertE ''state_ == kConnecting'' (k_state k = CConnecting)
       (bindE (removeAndResetChannel rc k) (\<lambda>(sockfd, k1, es). then_k (Inr (k1, es)) (retry sockfd)))"

definition Connector_delete :: "connector \<Rightarrow> k_result" where
  "Connector_delete k = assertE ''!channel_'' (k_chan k = None) (Inr (k, [KCancelTimer]))"

section \<open>Steps\<close>

fun k_callback :: "int \<Rightarrow> int \<Rightarrow> bool \<Rightarrow> ev_cb \<Rightarrow> connector \<Rightarrow> k_result" where
  "k_callback rc so_error self WriteCb k = k_handleWrite rc so_error self k"
| "k_callback rc so_error self ErrorCb k = k_handleError rc k"
| "k_callback rc so_error self _ k = Inr (k, [])"

text \<open>
  \<open>KEvent\<close>: the poller reports \<open>revt\<close> for the channel; it does so only for a channel in its
  interest list. \<open>KTimer\<close> is the retry timer (or a start queued by another thread), \<open>KReset\<close> a
  queued functor that resets the channel.
\<close>

datatype k_op =
    KStart int int int int | KTimer int int int | KRestart int int int | KStop
  | KEvent u32 int int bool | KReset

fun k_step :: "k_op \<Rightarrow> connector \<Rightarrow> k_result" where
  "k_step (KStart t sockfd err rc) k = start t sockfd err rc k"
| "k_step (KTimer sockfd err rc) k = startInLoop sockfd err rc k"
| "k_step (KRestart sockfd err rc) k = k_restart sockfd err rc k"
| "k_step KStop k = stop k"
| "k_step (KEvent revt rc so_error self) k =
     (case k_chan k of
        None \<Rightarrow> Inr (k, [])
      | Some ch \<Rightarrow>
          (if ch_index ch = kAdded
           then handleEvent (the \<circ> k_chan) (\<lambda>ch k. k\<lparr>k_chan := Some ch\<rparr>) (k_callback rc so_error self)
                  (k\<lparr>k_chan := Some (set_revents revt ch)\<rparr>)
           else Inr (k, [])))"
| "k_step KReset k =
     (if 0 < k_resets k then resetChannel (k\<lparr>k_resets := k_resets k - 1\<rparr>) else Inr (k, []))"

section \<open>Descriptors\<close>

text \<open>Opened, closed and handed-over descriptors in a sequence of effects.\<close>

fun opened :: "k_eff list \<Rightarrow> int multiset" where
  "opened [] = {#}"
| "opened (KOpen fd # es) = add_mset fd (opened es)"
| "opened (_ # es) = opened es"

fun released :: "k_eff list \<Rightarrow> int multiset" where
  "released [] = {#}"
| "released (KClose fd # es) = add_mset fd (released es)"
| "released (KNewConnection fd # es) = add_mset fd (released es)"
| "released (_ # es) = released es"

lemma opened_append [simp]: "opened (es @ fs) = opened es + opened fs"
  by (induction es rule: opened.induct) simp_all

lemma released_append [simp]: "released (es @ fs) = released es + released fs"
  by (induction es rule: released.induct) simp_all

lemma ctl_descriptors [simp]: "opened (map KCtl cs) = {#}" "released (map KCtl cs) = {#}"
  by (induction cs) simp_all

text \<open>The descriptor the connector holds: that of a channel that is still registered.\<close>

definition held :: "connector \<Rightarrow> int multiset" where
  "held k = (case k_chan k of None \<Rightarrow> {#} | Some ch \<Rightarrow> if ch_index ch = kAdded then {#ch_fd ch#} else {#})"

definition k_inv :: "connector \<Rightarrow> bool" where
  "k_inv k \<longleftrightarrow>
     (k_state k = CConnecting \<longrightarrow> k_resets k = 0 \<and> (\<exists>ch. k_chan k = Some ch \<and> ch_index ch = kAdded)) \<and>
     (case k_chan k of
        None \<Rightarrow> k_resets k = 0
      | Some ch \<Rightarrow> (if ch_index ch = kAdded then k_resets k = 0 else k_resets k = 1 \<and> ch_index ch = kNew)) \<and>
     500 \<le> retryDelayMs k \<and> retryDelayMs k \<le> 30000"

text \<open>A step that keeps the invariant and accounts for every descriptor.\<close>

definition balanced :: "connector \<Rightarrow> k_eff list \<Rightarrow> connector \<Rightarrow> bool" where
  "balanced k es k' \<longleftrightarrow> k_inv k' \<and> held k + opened es = released es + held k'"

lemma balanced_trans: "balanced k es k1 \<Longrightarrow> balanced k1 fs k2 \<Longrightarrow> balanced k (es @ fs) k2"
  by (auto simp: balanced_def) (metis (no_types, lifting) add.assoc add.commute)

lemma connecting_ok:
  assumes "k_inv k" "connecting rc sockfd k = Inr (k', es)"
  shows "k_inv k' \<and> add_mset sockfd (held k) = released es + held k' \<and> opened es = {#}"
  using assms
  by (auto simp: connecting_def k_inv_def held_def Let_def enableWriting_def updateChannel_def update_def
      Channel_new_def kNew_def kAdded_def split: if_splits option.splits)

lemma retry_ok:
  assumes "k_inv k" "retry sockfd k = Inr (k', es)"
  shows "k_inv k' \<and> held k' = held k \<and> opened es = {#} \<and> released es = {#sockfd#} \<and> k_state k' = CDisconnected"
  using assms
  by (auto simp: retry_def k_inv_def held_def Let_def kMaxRetryDelayMs_def split: if_splits option.splits)

lemma connect_balanced:
  assumes inv: "k_inv k" and st: "connect sockfd err rc k = Inr (k', es)"
  shows "balanced k es k'"
proof -
  consider "err \<in> {0, EINPROGRESS, EINTR, EISCONN}"
    | "err \<notin> {0, EINPROGRESS, EINTR, EISCONN}"
      "err \<in> {EAGAIN, EADDRINUSE, EADDRNOTAVAIL, ECONNREFUSED, ENETUNREACH}"
    | "err \<notin> {0, EINPROGRESS, EINTR, EISCONN}"
      "err \<notin> {EAGAIN, EADDRINUSE, EADDRNOTAVAIL, ECONNREFUSED, ENETUNREACH}" by blast
  then show ?thesis
  proof cases
    case 1
    then obtain es1 where "connecting rc sockfd k = Inr (k', es1)" "es = KOpen sockfd # es1"
      using st by (auto simp: connect_def then_k_def)
    then show ?thesis using connecting_ok [OF inv] by (fastforce simp: balanced_def)
  next
    case 2
    then obtain es1 where "retry sockfd k = Inr (k', es1)" "es = KOpen sockfd # es1"
      using st by (auto simp: connect_def then_k_def)
    then show ?thesis using retry_ok [OF inv] by (fastforce simp: balanced_def)
  next
    case 3
    then have "k' = k" "es = [KOpen sockfd, KLogSysErr err, KClose sockfd]"
      using st by (auto simp: connect_def then_k_def)
    then show ?thesis using inv by (simp add: balanced_def)
  qed
qed

lemma removeAndReset_ok:
  assumes "k_inv k" "k_state k = CConnecting" "removeAndResetChannel rc k = Inr (fd, k1, es)"
  shows "k_inv (k1\<lparr>k_state := CDisconnected\<rparr>) \<and> k_inv (k1\<lparr>k_state := CConnected\<rparr>) \<and> held k = {#fd#} \<and>
    held k1 = {#} \<and> opened es = {#} \<and> released es = {#} \<and> k_chan k1 \<noteq> None \<and>
    connect_flag k1 = connect_flag k \<and> k_tid k1 = k_tid k"
  using assms
  by (auto simp: removeAndResetChannel_def k_inv_def held_def disableAll_def updateChannel_def update_def
      isNoneEvent_def Let_def split: if_splits option.splits)

lemma retry_released:
  assumes "k_inv (k\<lparr>k_state := CDisconnected\<rparr>)" "retry sockfd k = Inr (k', es)"
  shows "k_inv k' \<and> held k' = held k \<and> opened es = {#} \<and> released es = {#sockfd#} \<and> k_chan k' = k_chan k"
  using assms
  by (auto simp: retry_def k_inv_def held_def Let_def kMaxRetryDelayMs_def split: if_splits option.splits)

lemma k_handleWrite_balanced:
  assumes inv: "k_inv k" and st: "k_handleWrite rc so_error self k = Inr (k', es)"
  shows "balanced k es k' \<and> (k_chan k \<noteq> None \<longrightarrow> k_chan k' \<noteq> None)"
proof (cases "k_state k = CConnecting")
  case False
  then show ?thesis using assms by (simp add: k_handleWrite_def balanced_def)
next
  case True
  then obtain fd k1 es1 es2 where 1: "removeAndResetChannel rc k = Inr (fd, k1, es1)" "es = es1 @ es2"
      and 2: "(if so_error \<noteq> 0 then retry fd
              else if self then retry fd
              else (\<lambda>k. (let k2 = k\<lparr>k_state := CConnected\<rparr> in
                    if connect_flag k2 then Inr (k2, [KNewConnection fd])
                    else Inr (k2, [KClose fd])))) k1 = Inr (k', es2)"
    using st by (auto simp: k_handleWrite_def then_k_def)
  note r = removeAndReset_ok [OF inv True 1(1)]
  show ?thesis
  proof (cases "so_error \<noteq> 0 \<or> self")
    case True
    then have "retry fd k1 = Inr (k', es2)" using 2 by (auto split: if_splits)
    then show ?thesis using retry_released [of k1 fd k' es2] r 1(2) by (auto simp: balanced_def)
  next
    case False
    then have "k' = k1\<lparr>k_state := CConnected\<rparr>" "es2 = [KNewConnection fd] \<or> es2 = [KClose fd]"
      using 2 by (auto simp: Let_def split: if_splits)
    moreover have "held (k1\<lparr>k_state := CConnected\<rparr>) = held k1" by (simp add: held_def)
    ultimately show ?thesis using r 1(2) by (auto simp: balanced_def)
  qed
qed

lemma k_handleError_balanced:
  assumes inv: "k_inv k" and st: "k_handleError rc k = Inr (k', es)"
  shows "balanced k es k' \<and> (k_chan k \<noteq> None \<longrightarrow> k_chan k' \<noteq> None)"
proof -
  have c: "k_state k = CConnecting" using st by (simp add: k_handleError_def)
  obtain fd k1 es1 es2 where 1: "removeAndResetChannel rc k = Inr (fd, k1, es1)" "es = es1 @ es2"
      "retry fd k1 = Inr (k', es2)"
    using st by (auto simp: k_handleError_def then_k_def)
  show ?thesis using removeAndReset_ok [OF inv c 1(1)] retry_released [of k1 fd k' es2] 1
    by (auto simp: balanced_def)
qed

lemma k_callbacks_balanced:
  "k_inv k \<Longrightarrow> run_steps (k_callback rc so_error self) cbs k = Inr (k', es) \<Longrightarrow>
     balanced k es k' \<and> (k_chan k \<noteq> None \<longrightarrow> k_chan k' \<noteq> None)"
proof (induction cbs arbitrary: k es)
  case Nil
  then show ?case by (simp add: balanced_def)
next
  case (Cons cb cbs)
  then obtain k1 es1 es2 where 1: "k_callback rc so_error self cb k = Inr (k1, es1)"
      "run_steps (k_callback rc so_error self) cbs k1 = Inr (k', es2)" "es = es1 @ es2" by auto
  have b: "balanced k es1 k1 \<and> (k_chan k \<noteq> None \<longrightarrow> k_chan k1 \<noteq> None)"
  proof (cases cb)
    case WriteCb
    then show ?thesis using 1(1) k_handleWrite_balanced [OF Cons.prems(1)] by simp
  next
    case ErrorCb
    then show ?thesis using 1(1) k_handleError_balanced [OF Cons.prems(1)] by simp
  qed (use 1(1) Cons.prems(1) in \<open>simp_all add: balanced_def\<close>)
  then have "balanced k1 es2 k' \<and> (k_chan k1 \<noteq> None \<longrightarrow> k_chan k' \<noteq> None)"
    using Cons.IH [OF _ 1(2)] by (simp add: balanced_def)
  then show ?case using b balanced_trans 1(3) by blast
qed

lemma flags_balanced:
  assumes "k_inv k" "k_chan k = Some ch" "ch_index ch' = ch_index ch" "ch_fd ch' = ch_fd ch"
  shows "balanced k [] (k\<lparr>k_chan := Some ch'\<rparr>)"
  using assms by (auto simp: balanced_def k_inv_def held_def)

lemma k_step_balanced:
  assumes inv: "k_inv k" and st: "k_step e k = Inr (k', es)"
  shows "balanced k es k'"
proof -
  have up: "k_inv (k\<lparr>connect_flag := b\<rparr>)" "held (k\<lparr>connect_flag := b\<rparr>) = held k" for b
    using inv by (auto simp: k_inv_def held_def split: option.splits)
  have sil: "balanced k es k'" if "k_inv k" "startInLoop sockfd err rc k = Inr (k', es)" for k sockfd err rc
    using that connect_balanced by (auto simp: startInLoop_def balanced_def split: if_splits)
  show ?thesis
  proof (cases e)
    case (KStart t sockfd err rc)
    then show ?thesis
      using st up [of True] sil [OF up(1) [of True]]
      by (auto simp: start_def balanced_def Let_def split: if_splits)
  next
    case (KTimer sockfd err rc)
    then show ?thesis using st sil [OF inv] by simp
  next
    case (KRestart sockfd err rc)
    let ?k = "k\<lparr>k_state := CDisconnected, retryDelayMs := kInitRetryDelayMs, connect_flag := True\<rparr>"
    have "k_inv ?k" "held ?k = held k"
      using inv by (auto simp: k_inv_def held_def kInitRetryDelayMs_def split: option.splits)
    then show ?thesis using st sil [of ?k] KRestart by (simp add: k_restart_def balanced_def)
  next
    case KStop
    then show ?thesis using st up [of False] by (auto simp: stop_def balanced_def)
  next
    case KReset
    then show ?thesis using st inv
      by (auto simp: resetChannel_def Channel_delete_def balanced_def k_inv_def held_def split: if_splits option.splits)
  next
    case (KEvent revt rc so_error self)
    show ?thesis
    proof (cases "\<exists>ch. k_chan k = Some ch \<and> ch_index ch = kAdded")
      case False
      then have "k' = k" "es = []" using st KEvent by (auto split: option.splits)
      then show ?thesis using inv by (simp add: balanced_def)
    next
      case True
      then obtain ch where ch: "k_chan k = Some ch" "ch_index ch = kAdded" by blast
      let ?ch1 = "(set_revents revt ch)\<lparr>eventHandling := True\<rparr>"
      let ?k1 = "k\<lparr>k_chan := Some ?ch1\<rparr>"
      have b1: "balanced k [] ?k1"
        by (rule flags_balanced [OF inv ch(1)]) (simp_all add: set_revents_def)
      obtain k2 where k2: "run_steps (k_callback rc so_error self) (fired (set_revents revt ch)) ?k1 = Inr (k2, es)"
          "k' = k2\<lparr>k_chan := Some ((the (k_chan k2))\<lparr>eventHandling := False\<rparr>)\<rparr>"
        using st KEvent ch by (auto simp: handleEvent_def)
      have i1: "k_inv ?k1" using b1 by (simp add: balanced_def)
      have b2: "balanced ?k1 es k2" "k_chan k2 \<noteq> None" using k_callbacks_balanced [OF i1 k2(1)] by simp_all
      then obtain ch2 where ch2: "k_chan k2 = Some ch2" by blast
      have "k_inv k2" using b2(1) by (simp add: balanced_def)
      then have b3: "balanced k2 [] k'" using k2(2) ch2 by (auto intro!: flags_balanced)
      show ?thesis using balanced_trans [OF balanced_trans [OF b1 b2(1)] b3] by simp
    qed
  qed
qed

lemma Connector_new_inv [simp]: "k_inv (Connector_new tid)" "held (Connector_new tid) = {#}"
  by (simp_all add: k_inv_def held_def Connector_new_def kInitRetryDelayMs_def)

interpretation km: machine k_step k_inv
  by unfold_locales (use k_step_balanced in \<open>auto simp: balanced_def\<close>)

lemma k_run_balanced:
  "k_inv k \<Longrightarrow> run_steps k_step ops k = Inr (k', es) \<Longrightarrow> balanced k es k'"
proof (induction ops arbitrary: k es)
  case Nil
  then show ?case by (simp add: balanced_def)
next
  case (Cons e ops)
  then obtain k1 es1 es2 where 1: "k_step e k = Inr (k1, es1)" "run_steps k_step ops k1 = Inr (k', es2)"
      "es = es1 @ es2" by auto
  have "balanced k es1 k1" using k_step_balanced [OF Cons.prems(1) 1(1)] .
  then show ?case using Cons.IH [OF _ 1(2)] balanced_trans 1(3) by (auto simp: balanced_def)
qed

section \<open>Properties\<close>

text \<open>C26: No descriptor leaks and none is closed twice. Over any run of the connector that does not
  fault (starts, stops, restarts, retry timers, events, resets, any error of any kernel call), every
  socket it opened was closed or handed over exactly once, except the one of a connection attempt
  still being watched.\<close>

theorem connector_descriptors:
  assumes "run_steps k_step ops (Connector_new tid) = Inr (k', es)"
  shows "opened es = released es + held k'"
  using k_run_balanced [OF Connector_new_inv(1) assms] by (simp add: balanced_def)

lemmas k_evals = Connector_new_def start_def startInLoop_def connect_def then_k_def connecting_def
  enableWriting_def updateChannel_def update_def Channel_new_def kNew_def kAdded_def handleEvent_def
  fired_def set_revents_def k_handleWrite_def k_handleError_def removeAndResetChannel_def
  disableAll_def isNoneEvent_def retry_def resetChannel_def Channel_delete_def poll_bits Let_def kInitRetryDelayMs_def
  kMaxRetryDelayMs_def EINPROGRESS_def EINTR_def EISCONN_def EAGAIN_def EADDRINUSE_def
  EADDRNOTAVAIL_def ECONNREFUSED_def ENETUNREACH_def stop_def

theorem connector_descriptors_witness:
  "\<exists>k' es. run_steps k_step
       [KStart 1 5 115 0, KEvent 4 0 111 False, KReset, KTimer 6 115 0, KEvent 4 0 0 False]
       (Connector_new 1) = Inr (k', es) \<and> opened es = {#5, 6#} \<and> released es = {#5, 6#} \<and>
     opened es = released es + held k'"
proof -
  let ?ops = "[KStart 1 5 115 0, KEvent 4 0 111 False, KReset, KTimer 6 115 0, KEvent 4 0 0 False]"
  have "\<exists>k' es. run_steps k_step ?ops (Connector_new 1) = Inr (k', es) \<and> opened es = {#5, 6#} \<and>
      released es = {#5, 6#}"
    by (simp add: k_evals)
  then show ?thesis using connector_descriptors [of ?ops 1] by blast
qed


text \<open>The retry delay doubles up to 30 seconds. A connector whose attempts are refused, one
  after the other, closes each socket and schedules the next attempt after 500 ms, 1 s, 2 s, and
  so on, and never after more than 30 s.\<close>

theorem retry_backoff:
  assumes "k_state k = CDisconnected" "connect_flag k" "retryDelayMs k = min (500 * 2 ^ m) 30000"
    and "err \<in> {EAGAIN, EADDRINUSE, EADDRNOTAVAIL, ECONNREFUSED, ENETUNREACH}"
  shows "\<exists>k'. run_steps k_step (map (\<lambda>fd. KTimer fd err 0) fds) k =
     Inr (k', concat (map (\<lambda>i. [KOpen (fds ! i), KClose (fds ! i), KRunAfter (min (500 * 2 ^ (m + i)) 30000)])
                       [0..<length fds]))"
  using assms(1-3)
proof (induction fds arbitrary: k m)
  case Nil
  then show ?case by simp
next
  case (Cons fd fds)
  let ?k = "k\<lparr>retryDelayMs := min (500 * 2 ^ Suc m) 30000\<rparr>"
  have "err \<notin> {0, EINPROGRESS, EINTR, EISCONN}" using assms(4)
    by (auto simp: k_evals)
  moreover have "min (min (500 * 2 ^ m) 30000 * 2) (30000 :: int) = min (500 * 2 ^ Suc m) 30000" by simp
  ultimately have st: "k_step (KTimer fd err 0) k =
      Inr (?k, [KOpen fd, KClose fd, KRunAfter (min (500 * 2 ^ m) 30000)])"
    using Cons.prems assms(4)
    by (simp add: startInLoop_def connect_def then_k_def retry_def kMaxRetryDelayMs_def Let_def)
  obtain k' where k': "run_steps k_step (map (\<lambda>fd. KTimer fd err 0) fds) ?k =
     Inr (k', concat (map (\<lambda>i. [KOpen (fds ! i), KClose (fds ! i), KRunAfter (min (500 * 2 ^ (Suc m + i)) 30000)])
                       [0..<length fds]))"
    using Cons.IH [of ?k "Suc m"] Cons.prems by auto
  have up: "[0..<length (fd # fds)] = 0 # map Suc [0..<length fds]"
    by (simp add: upt_conv_Cons map_Suc_upt del: upt_Suc)
  show ?case unfolding up using st k' by (simp add: o_def)
qed

theorem retry_backoff_witness:
  "\<exists>k'. run_steps k_step (map (\<lambda>fd. KTimer fd 111 0) [5, 6]) ((Connector_new 1)\<lparr>connect_flag := True\<rparr>) =
     Inr (k', [KOpen 5, KClose 5, KRunAfter 500, KOpen 6, KClose 6, KRunAfter 1000])"
  using retry_backoff [of "(Connector_new 1)\<lparr>connect_flag := True\<rparr>" 0 111 "[5, 6]"]
  by (simp add: Connector_new_def kInitRetryDelayMs_def ECONNREFUSED_def)

text \<open>Starting again while a retry is scheduled aborts the process: the second start connects at
  once, and when the pending retry timer then runs \<open>startInLoop\<close>, its assert finds the state
  \<open>kConnecting\<close>.\<close>

theorem start_during_retry_faults:
  assumes "k_state k = CDisconnected" "k_chan k = None" "0 \<le> rc"
    and "err \<in> {0, EINPROGRESS, EINTR, EISCONN}"
  shows "run_steps k_step [KStart (k_tid k) fd err rc, KTimer fd2 err2 rc2] k =
     Inl (Assertion ''state_ == kDisconnected'')"
proof -
  have "\<exists>k' es. k_step (KStart (k_tid k) fd err rc) k = Inr (k', es) \<and> k_state k' = CConnecting"
    using assms by (simp add: start_def startInLoop_def connect_def then_k_def connecting_def
        enableWriting_def updateChannel_def update_def Channel_new_def kNew_def Let_def)
  then show ?thesis by (auto simp: startInLoop_def)
qed

theorem start_during_retry_faults_witness:
  "run_steps k_step [KStart 1 5 111 0, KStart 1 6 115 0, KTimer 7 115 0] (Connector_new 1) =
     Inl (Assertion ''state_ == kDisconnected'')"
proof -
  obtain k es where k: "k_step (KStart 1 5 111 0) (Connector_new 1) = Inr (k, es)"
      "k_state k = CDisconnected" "k_chan k = None" "k_tid k = 1"
    by (simp add: k_evals)
  have "(115 :: int) \<in> {0, EINPROGRESS, EINTR, EISCONN}" by (simp add: EINPROGRESS_def)
  from start_during_retry_faults [OF k(2,3) _ this, of 0 6 7 115 0]
  have "run_steps k_step [KStart 1 6 115 0, KTimer 7 115 0] k = Inl (Assertion ''state_ == kDisconnected'')"
    using k(4) by simp
  then show ?thesis by (subst run_steps.simps(2)) (simp only: k(1) bindE_simps prod.case)
qed

text \<open>A connector stopped while connecting cannot be started again. The attempt that then
  succeeds closes its socket but leaves the state \<open>kConnected\<close>, and the next \<open>start\<close> fails its
  assert.\<close>

theorem stop_while_connecting_sticks:
  assumes inv: "k_inv k" "k_state k = CConnecting" and ch: "k_chan k = Some ch" "writeCb ch" "0 \<le> rc"
  shows "\<exists>k' es. run_steps k_step [KStop, KEvent POLLOUT rc 0 False, KReset] k = Inr (k', es) \<and>
     released es = {#ch_fd ch#} \<and> k_chan k' = None \<and>
     start (k_tid k) fd err rc2 k' = Inl (Assertion ''state_ == kDisconnected'')"
proof -
  have idx: "ch_index ch = kAdded" "k_resets k = 0" using inv ch(1) by (auto simp: k_inv_def)
  have f: "fired (set_revents POLLOUT ch) = [WriteCb]"
    using ch(2) by (simp add: fired_def set_revents_def poll_bits)
  have up: "disableAll rc c = Inr (c\<lparr>events := kNoneEvent, ch_index := kNew\<rparr>, [Ctl EPOLL_CTL_DEL (ch_fd c) kNoneEvent])"
    if "ch_index c = kAdded" for c
    using that by (simp add: disableAll_def updateChannel_def update_def isNoneEvent_def Let_def)
  show ?thesis using inv(2) ch idx f
    by (simp add: stop_def handleEvent_def k_handleWrite_def removeAndResetChannel_def up set_revents_def
        then_k_def Let_def resetChannel_def Channel_delete_def start_def startInLoop_def)
qed

theorem stop_while_connecting_sticks_witness:
  "\<exists>k k' es. k_step (KStart 1 5 115 0) (Connector_new 1) = Inr (k, [KOpen 5, KCtl (Ctl EPOLL_CTL_ADD 5 4)]) \<and>
     run_steps k_step [KStop, KEvent POLLOUT 0 0 False, KReset] k = Inr (k', es) \<and> released es = {#5#} \<and>
     start 1 6 115 0 k' = Inl (Assertion ''state_ == kDisconnected'')"
proof -
  obtain k ch where k: "k_step (KStart 1 5 115 0) (Connector_new 1) = Inr (k, [KOpen 5, KCtl (Ctl EPOLL_CTL_ADD 5 4)])"
      "k_state k = CConnecting" "k_chan k = Some ch" "writeCb ch" "ch_fd ch = 5" "k_tid k = 1"
    by (simp add: k_evals)
  have "k_inv k" using km.step_inv [OF Connector_new_inv(1) k(1)] .
  from stop_while_connecting_sticks [OF this k(2-4), of 0 6 115 0]
  obtain k' es where "run_steps k_step [KStop, KEvent POLLOUT 0 0 False, KReset] k = Inr (k', es)"
      "released es = {#5#}" "start 1 6 115 0 k' = Inl (Assertion ''state_ == kDisconnected'')"
    unfolding k(5,6) by blast
  then show ?thesis using k(1) by blast
qed

end
