(* ===== verification/LogStream.thy ===== *)
theory LogStream
  imports Prelude "HOL-Library.Signed_Division"
begin

text \<open>
  The formatting layer of the logger: the fixed-size buffer (include/asynLog/FixedBuffer.h), the
  stream with its conversions of integers and pointers (include/asynLog/LogStream.h,
  src/asynlog/LogStream.cpp), the base name of a source file (include/utils/SoruceFile.h) and
  the line a \<open>Logger\<close> writes (src/asynlog/Logging.cpp). Text is a list of characters. The
  specification of the conversions is ordinary decimal and hexadecimal notation.
\<close>

section \<open>The fixed buffer\<close>

definition kSmallBuffer :: nat where "kSmallBuffer = 4000"
definition kLargeBuffer :: nat where "kLargeBuffer = 4000 * 1000"

text \<open>\<open>cur_\<close> is an offset into the array \<open>data_\<close>, whose length is the template argument.\<close>

record fixbuf =
  fb_data :: string
  cur :: nat

definition FixedBuffer_new :: "nat \<Rightarrow> fixbuf" where
  "FixedBuffer_new sz = \<lparr>fb_data = replicate sz (CHR 0x00), cur = 0\<rparr>"

definition fb_length :: "fixbuf \<Rightarrow> nat" where
  "fb_length b = cur b"

definition avail :: "fixbuf \<Rightarrow> int" where
  "avail b = int (length (fb_data b)) - int (cur b)"

definition fb_add :: "nat \<Rightarrow> fixbuf \<Rightarrow> fixbuf" where
  "fb_add len b = b\<lparr>cur := cur b + len\<rparr>"

definition fb_reset :: "fixbuf \<Rightarrow> fixbuf" where
  "fb_reset b = b\<lparr>cur := 0\<rparr>"

definition fb_bzero :: "fixbuf \<Rightarrow> fixbuf" where
  "fb_bzero b = b\<lparr>fb_data := replicate (length (fb_data b)) (CHR 0x00)\<rparr>"

definition fb_append :: "string \<Rightarrow> fixbuf \<Rightarrow> fixbuf result" where
  "fb_append str b =
     (if avail b > int (length str) then
        bindE (write_at (cur b) str (fb_data b)) (\<lambda>d. Inr (fb_add (length str) (b\<lparr>fb_data := d\<rparr>)))
      else Inr b)"

definition fb_toString :: "fixbuf \<Rightarrow> string" where
  "fb_toString b = take (fb_length b) (fb_data b)"

definition fb_ok :: "fixbuf \<Rightarrow> bool" where
  "fb_ok b \<longleftrightarrow> cur b \<le> length (fb_data b)"

section \<open>Conversions\<close>

definition digits :: string where
  "digits = ''9876543210123456789''"

definition digitsHex :: string where
  "digitsHex = ''0123456789ABCDEF''"

text \<open>\<open>zero\<close> points to the tenth character of \<open>digits\<close>; \<open>/\<close> and \<open>%\<close> truncate towards 0.\<close>

definition zero_at :: "int \<Rightarrow> char" where
  "zero_at lsd = digits ! nat (9 + lsd)"

function convert_loop :: "int \<Rightarrow> string" where
  "convert_loop i =
     (let lsd = i smod 10; i1 = i sdiv 10 in
      zero_at lsd # (if i1 \<noteq> 0 then convert_loop i1 else []))"
  by pat_completeness auto
termination
proof (relation "measure (\<lambda>i. nat \<bar>i\<bar>)")
  fix i x xa :: int
  assume x: "x = i smod 10" "xa = i sdiv 10" "xa \<noteq> 0"
  have "\<bar>i sdiv 10\<bar> = \<bar>i\<bar> div 10" by (cases "i = 0") (simp_all add: signed_divide_int_def abs_mult abs_sgn_eq)
  moreover have "i \<noteq> 0"
  proof
    assume "i = 0"
    then have "xa = 0" using x(2) by simp
    then show False using x(3) by simp
  qed
  then have "\<bar>i\<bar> div 10 < \<bar>i\<bar>" by (intro int_div_less_self) auto
  ultimately show "(xa, i) \<in> measure (\<lambda>i. nat \<bar>i\<bar>)" using x(2) by auto
qed simp

declare convert_loop.simps [simp del]

definition convert :: "int \<Rightarrow> string" where
  "convert value = rev (convert_loop value @ (if value < 0 then ''-'' else ''''))"

function convertHex_loop :: "nat \<Rightarrow> string" where
  "convertHex_loop i =
     (let lsd = i mod 16; i1 = i div 16 in
      digitsHex ! lsd # (if i1 \<noteq> 0 then convertHex_loop i1 else []))"
  by pat_completeness auto
termination by (relation "measure id") auto

declare convertHex_loop.simps [simp del]

definition convertHex :: "u64 \<Rightarrow> string" where
  "convertHex value = rev (convertHex_loop (unat value))"

section \<open>Specification: positional notation\<close>

definition digit_char :: "nat \<Rightarrow> char" where
  "digit_char d = digitsHex ! d"

fun numeral_in :: "nat \<Rightarrow> nat \<Rightarrow> string" where
  "numeral_in base n =
     (if n < base \<or> base < 2 then [digit_char n]
      else numeral_in base (n div base) @ [digit_char (n mod base)])"

declare numeral_in.simps [simp del]

abbreviation dec :: "nat \<Rightarrow> string" where
  "dec n \<equiv> numeral_in 10 n"

definition int_str :: "int \<Rightarrow> string" where
  "int_str v = (if v < 0 then ''-'' @ dec (nat (- v)) else dec (nat v))"

text \<open>Reading a numeral back.\<close>

definition char_digit :: "char \<Rightarrow> nat" where
  "char_digit c = (if of_char c < (58 :: nat) then of_char c - 48 else of_char c - 55)"

definition parse_in :: "nat \<Rightarrow> string \<Rightarrow> nat" where
  "parse_in base s = foldl (\<lambda>acc c. base * acc + char_digit c) 0 s"

lemma digit_roundtrip [simp]: "d < 16 \<Longrightarrow> char_digit (digit_char d) = d"
proof -
  assume "d < 16"
  then have "d \<in> set [0, 1, 2, 3, 4, 5, 6, 7, 8, 9, 10, 11, 12, 13, 14, 15]"
    by (simp add: numeral_eq_Suc less_Suc_eq)
  moreover have "\<forall>d\<in>set [0, 1, 2, 3, 4, 5, 6, 7, 8, 9, 10, 11, 12, 13, 14, 15]. char_digit (digit_char d) = d"
    by (simp add: digit_char_def digitsHex_def char_digit_def)
  ultimately show "char_digit (digit_char d) = d" by blast
qed

lemma parse_numeral [simp]:
  "2 \<le> base \<Longrightarrow> base \<le> 16 \<Longrightarrow> parse_in base (numeral_in base n) = n"
proof (induction base n rule: numeral_in.induct)
  case (1 base n)
  show ?case
  proof (cases "n < base")
    case True
    then show ?thesis using 1 by (simp add: numeral_in.simps [of base n] parse_in_def)
  next
    case False
    have "parse_in base (numeral_in base n) =
        base * parse_in base (numeral_in base (n div base)) + char_digit (digit_char (n mod base))"
      using False 1 by (simp add: numeral_in.simps [of base n] parse_in_def)
    moreover have "n mod base < 16" using "1.prems" using mod_less_divisor [of base n] by linarith
    ultimately show ?thesis using 1 False by simp
  qed
qed

lemma dec_inject [simp]: "dec m = dec n \<longleftrightarrow> m = n"
proof
  assume "dec m = dec n"
  then have "parse_in 10 (dec m) = parse_in 10 (dec n)" by simp
  then show "m = n" by simp
qed simp

lemma length_dec_bound: "n < 10 ^ k \<Longrightarrow> 0 < k \<Longrightarrow> length (dec n) \<le> k"
proof (induction k arbitrary: n)
  case (Suc k)
  show ?case
  proof (cases "n < 10")
    case True
    then show ?thesis by (simp add: numeral_in.simps [of 10 n])
  next
    case False
    then have "0 < k" using Suc.prems by (cases k) auto
    moreover have "n div 10 < 10 ^ k" using Suc.prems by (simp add: less_mult_imp_div_less mult.commute)
    ultimately have "length (dec (n div 10)) \<le> k" using Suc.IH by blast
    then show ?thesis using False by (simp add: numeral_in.simps [of 10 n])
  qed
qed simp

lemma zero_at_digit: "\<bar>d\<bar> < 10 \<Longrightarrow> zero_at d = digit_char (nat \<bar>d\<bar>)"
proof -
  assume "\<bar>d\<bar> < 10"
  then have "d \<in> set [-9..9]" unfolding set_upto atLeastAtMost_iff by linarith
  also have "[-9..9] = [-9, -8, -7, -6, -5, -4, -3, -2, -1, 0, 1, 2, 3, 4, 5, 6, 7, 8, 9 :: int]" by code_simp
  finally have "d \<in> set [-9, -8, -7, -6, -5, -4, -3, -2, -1, 0, 1, 2, 3, 4, 5, 6, 7, 8, 9]" .
  moreover have "\<forall>d\<in>set [-9, -8, -7, -6, -5, -4, -3, -2, -1, 0, 1, 2, 3, 4, 5, 6, 7, 8, 9 :: int].
      zero_at d = digit_char (nat \<bar>d\<bar>)"
    by (simp add: zero_at_def digits_def digit_char_def digitsHex_def nat_eq_iff)
  ultimately show ?thesis by blast
qed

text \<open>The loop writes the digits backwards, whatever the sign.\<close>

lemma convert_loop_dec: "rev (convert_loop i) = dec (nat \<bar>i\<bar>)"
proof (induction i rule: convert_loop.induct)
  case (1 i)
  have q: "\<bar>i sdiv 10\<bar> = \<bar>i\<bar> div 10"
    by (cases "i = 0") (simp_all add: signed_divide_int_def abs_mult abs_sgn_eq)
  have r: "\<bar>i smod 10\<bar> = \<bar>i\<bar> mod 10"
    by (cases "i = 0") (simp_all add: signed_modulo_int_def abs_mult abs_sgn_eq)
  have "zero_at (i smod 10) = digit_char (nat \<bar>i smod 10\<bar>)" by (rule zero_at_digit) (simp add: r)
  then have z: "zero_at (i smod 10) = digit_char (nat \<bar>i\<bar> mod 10)" by (simp add: r nat_mod_distrib)
  show ?case
  proof (cases "i sdiv 10 = 0")
    case True
    then have "nat \<bar>i\<bar> < 10" using q by linarith
    then show ?thesis using True z
      by (simp add: convert_loop.simps [of i] numeral_in.simps [of 10 "nat \<bar>i\<bar>"] Let_def)
  next
    case False
    then have "\<not> nat \<bar>i\<bar> < 10" using q by linarith
    moreover have "rev (convert_loop (i sdiv 10)) = dec (nat \<bar>i\<bar> div 10)"
      using "1.IH" [OF refl refl False] q by (simp add: nat_div_distrib)
    ultimately show ?thesis using False z
      by (simp add: convert_loop.simps [of i] numeral_in.simps [of 10 "nat \<bar>i\<bar>"] Let_def)
  qed
qed

lemma convert_int_str: "convert v = int_str v"
  by (simp add: convert_def int_str_def convert_loop_dec)

lemma convertHex_loop_numeral: "rev (convertHex_loop n) = numeral_in 16 n"
proof (induction n rule: convertHex_loop.induct)
  case (1 n)
  then show ?case
    by (cases "n < 16") (simp_all add: convertHex_loop.simps [of n] numeral_in.simps [of 16 n] digit_char_def Let_def div_eq_0_iff)
qed

lemma length_int_str: "- (10 ^ 20) < v \<Longrightarrow> v < 10 ^ 20 \<Longrightarrow> length (int_str v) \<le> 21"
proof -
  assume v: "- (10 ^ 20) < v" "v < 10 ^ 20"
  then have "nat \<bar>v\<bar> < 10 ^ 20" by (simp add: nat_less_iff)
  then have "length (dec (nat \<bar>v\<bar>)) \<le> 20" by (rule length_dec_bound) simp
  then show ?thesis by (cases "v < 0") (simp_all add: int_str_def)
qed

lemma length_hex_bound: "n < 16 ^ k \<Longrightarrow> 0 < k \<Longrightarrow> length (numeral_in 16 n) \<le> k"
proof (induction k arbitrary: n)
  case (Suc k)
  show ?case
  proof (cases "n < 16")
    case True
    then show ?thesis by (simp add: numeral_in.simps [of 16 n])
  next
    case False
    then have "0 < k" using Suc.prems by (cases k) auto
    moreover have "n div 16 < 16 ^ k" using Suc.prems by (simp add: less_mult_imp_div_less mult.commute)
    ultimately have "length (numeral_in 16 (n div 16)) \<le> k" using Suc.IH by blast
    then show ?thesis using False by (simp add: numeral_in.simps [of 16 n])
  qed
qed simp

section \<open>The stream\<close>

definition kMaxNumericSize :: nat where "kMaxNumericSize = 48"

text \<open>
  The arguments of \<open>operator<<\<close>. All integer types go through \<open>formatInteger\<close>; the text of a
  \<open>double\<close> is what \<open>snprintf\<close> made of it.
\<close>

datatype log_arg =
    ABool bool | AInt int | APtr u64 | ADouble string | AChar char | ACStr "string option"
  | AStr string

definition formatInteger :: "int \<Rightarrow> fixbuf \<Rightarrow> fixbuf result" where
  "formatInteger v b =
     (if avail b \<ge> int kMaxNumericSize then
        (let str = convert v in
         bindE (write_at (cur b) (str @ [CHR 0x00]) (fb_data b)) (\<lambda>d.
         Inr (fb_add (length str) (b\<lparr>fb_data := d\<rparr>))))
      else Inr b)"

fun put :: "log_arg \<Rightarrow> fixbuf \<Rightarrow> fixbuf result" where
  "put (ABool v) b = fb_append (if v then ''1'' else ''0'') b"
| "put (AInt v) b = formatInteger v b"
| "put (APtr v) b =
     (if avail b \<ge> int kMaxNumericSize then
        (let str = ''0x'' @ convertHex v in
         bindE (write_at (cur b) (str @ [CHR 0x00]) (fb_data b)) (\<lambda>d.
         Inr (fb_add (length str) (b\<lparr>fb_data := d\<rparr>))))
      else Inr b)"
| "put (ADouble str) b =
     (if avail b \<ge> int kMaxNumericSize then
        bindE (write_at (cur b) (take (kMaxNumericSize - 1) str @ [CHR 0x00]) (fb_data b)) (\<lambda>d.
        Inr (fb_add (length str) (b\<lparr>fb_data := d\<rparr>)))
      else Inr b)"
| "put (AChar c) b = fb_append [c] b"
| "put (ACStr (Some str)) b = fb_append str b"
| "put (ACStr None) b = fb_append ''(null)'' b"
| "put (AStr str) b = fb_append str b"

fun put_all :: "log_arg list \<Rightarrow> fixbuf \<Rightarrow> fixbuf result" where
  "put_all [] b = Inr b"
| "put_all (a # as) b = bindE (put a b) (put_all as)"

text \<open>What an argument stands for, and when a \<open>LogStream\<close> buffer takes it.\<close>

fun arg_text :: "log_arg \<Rightarrow> string" where
  "arg_text (ABool v) = (if v then ''1'' else ''0'')"
| "arg_text (AInt v) = int_str v"
| "arg_text (APtr v) = ''0x'' @ numeral_in 16 (unat v)"
| "arg_text (ADouble str) = str"
| "arg_text (AChar c) = [c]"
| "arg_text (ACStr s) = (case s of None \<Rightarrow> ''(null)'' | Some str \<Rightarrow> str)"
| "arg_text (AStr str) = str"

fun numeric :: "log_arg \<Rightarrow> bool" where
  "numeric (AInt v) = True"
| "numeric (APtr v) = True"
| "numeric (ADouble str) = True"
| "numeric _ = False"

definition fits :: "log_arg \<Rightarrow> fixbuf \<Rightarrow> bool" where
  "fits a b \<longleftrightarrow> (if numeric a then int kMaxNumericSize \<le> avail b
                else int (length (arg_text a)) < avail b)"

text \<open>The ranges of the C++ types: integers of at most 64 bits, and the text of \<open>%.12g\<close>.\<close>

fun arg_ok :: "log_arg \<Rightarrow> bool" where
  "arg_ok (AInt v) = (- (2 ^ 63) \<le> v \<and> v < 2 ^ 64)"
| "arg_ok (ADouble str) = (length str < kMaxNumericSize)"
| "arg_ok _ = True"

lemma numeric_length:
  assumes "arg_ok a" "numeric a"
  shows "length (arg_text a) < kMaxNumericSize"
proof (cases a)
  case (AInt v)
  then have "length (int_str v) \<le> 21" using assms by (intro length_int_str) auto
  then show ?thesis using AInt by (simp add: kMaxNumericSize_def)
next
  case (APtr v)
  have "unat v < 2 ^ 64" using unsigned_less [of v] by simp
  then have "length (numeral_in 16 (unat v)) \<le> 16" by (intro length_hex_bound) simp_all
  then show ?thesis using APtr by (simp add: kMaxNumericSize_def)
qed (use assms in simp_all)

lemma write_current:
  assumes "cur b + length str \<le> length (fb_data b)" "k \<le> length str"
  shows "\<exists>d. write_at (cur b) str (fb_data b) = Inr d \<and> length d = length (fb_data b) \<and>
    take (cur b + k) d = take (cur b) (fb_data b) @ take k str"
  using assms by (simp add: overwrite_def min_def) arith

lemma put_outcome:
  assumes ok: "fb_ok b" and arg: "arg_ok a"
  shows "\<exists>b'. put a b = Inr b' \<and> fb_ok b' \<and> length (fb_data b') = length (fb_data b) \<and>
    fb_toString b' = fb_toString b @ (if fits a b then arg_text a else [])"
proof -
  have ap: "\<exists>b'. fb_append str b = Inr b' \<and> fb_ok b' \<and> length (fb_data b') = length (fb_data b) \<and>
      fb_toString b' = fb_toString b @ (if int (length str) < avail b then str else [])" for str
  proof (cases "int (length str) < avail b")
    case True
    then have fit: "cur b + length str \<le> length (fb_data b)" by (simp add: avail_def)
    from write_current [OF fit order_refl] obtain d where "write_at (cur b) str (fb_data b) = Inr d"
        "length d = length (fb_data b)" "take (cur b + length str) d = take (cur b) (fb_data b) @ str"
      by auto
    then show ?thesis using True fit
      by (simp add: fb_append_def fb_add_def fb_toString_def fb_length_def fb_ok_def)
  qed (use ok in \<open>simp add: fb_append_def\<close>)
  have num: "\<exists>b'. (if avail b \<ge> int kMaxNumericSize then
        bindE (write_at (cur b) (str @ [CHR 0x00]) (fb_data b)) (\<lambda>d.
        Inr (fb_add (length str) (b\<lparr>fb_data := d\<rparr>)))
      else Inr b) = Inr b' \<and> fb_ok b' \<and> length (fb_data b') = length (fb_data b) \<and>
      fb_toString b' = fb_toString b @ (if int kMaxNumericSize \<le> avail b then str else [])"
    if "length str < kMaxNumericSize" for str
  proof (cases "int kMaxNumericSize \<le> avail b")
    case True
    then have fit: "cur b + length (str @ [CHR 0x00]) \<le> length (fb_data b)" using that by (simp add: avail_def)
    from write_current [OF fit, of "length str"] obtain d where
        "write_at (cur b) (str @ [CHR 0x00]) (fb_data b) = Inr d"
        "length d = length (fb_data b)" "take (cur b + length str) d = take (cur b) (fb_data b) @ str"
      by auto
    then show ?thesis using True fit
      by (simp add: fb_add_def fb_toString_def fb_length_def fb_ok_def)
  qed (use ok in simp)
  have plain: ?thesis if "put a b = fb_append (arg_text a) b" "\<not> numeric a"
    using ap [of "arg_text a"] that by (simp add: fits_def split del: if_split cong del: if_weak_cong)
  show ?thesis
  proof (cases a)
    case (AInt v)
    then show ?thesis using num [of "int_str v"] numeric_length [OF arg]
      by (simp add: formatInteger_def convert_int_str fits_def Let_def split del: if_split cong del: if_weak_cong)
  next
    case (APtr v)
    then show ?thesis using num [of "''0x'' @ numeral_in 16 (unat v)"] numeric_length [OF arg]
      by (simp add: convertHex_def convertHex_loop_numeral fits_def Let_def split del: if_split cong del: if_weak_cong)
  next
    case (ADouble str)
    then have "length str < kMaxNumericSize" and t: "take (kMaxNumericSize - Suc 0) str = str"
      using arg by simp_all
    then show ?thesis using num [of str] ADouble
      by (simp add: fits_def t split del: if_split cong del: if_weak_cong)
  next
    case (ABool v)
    then show ?thesis by (intro plain) simp_all
  next
    case (AChar c)
    then show ?thesis by (intro plain) simp_all
  next
    case (ACStr s)
    then show ?thesis by (intro plain; cases s) simp_all
  next
    case (AStr s)
    then show ?thesis by (intro plain) simp_all
  qed
qed


lemma put_all_outcome:
  "fb_ok b \<Longrightarrow> \<forall>a\<in>set as. arg_ok a \<Longrightarrow>
     \<exists>b' kept. put_all as b = Inr b' \<and> fb_ok b' \<and> length (fb_data b') = length (fb_data b) \<and>
       fb_toString b' = fb_toString b @ concat (map arg_text kept) \<and> set kept \<subseteq> set as \<and>
       (cur b + length (concat (map arg_text as)) + kMaxNumericSize \<le> length (fb_data b) \<longrightarrow> kept = as)"
proof (induction as arbitrary: b)
  case Nil
  then show ?case by (intro exI [of _ b] exI [of _ "[]"]) simp
next
  case (Cons a as)
  obtain b1 where b1: "put a b = Inr b1" "fb_ok b1" "length (fb_data b1) = length (fb_data b)"
      "fb_toString b1 = fb_toString b @ (if fits a b then arg_text a else [])"
    using put_outcome [OF Cons.prems(1), of a] Cons.prems(2) by auto
  obtain b' kept where IH: "put_all as b1 = Inr b'" "fb_ok b'" "length (fb_data b') = length (fb_data b1)"
      "fb_toString b' = fb_toString b1 @ concat (map arg_text kept)" "set kept \<subseteq> set as"
      "cur b1 + length (concat (map arg_text as)) + kMaxNumericSize \<le> length (fb_data b1) \<longrightarrow> kept = as"
    using Cons.IH [OF b1(2)] Cons.prems(2) by auto
  have l: "length (fb_toString b) = cur b" "length (fb_toString b1) = cur b1"
    using Cons.prems(1) b1(2) by (simp_all add: fb_toString_def fb_length_def fb_ok_def)
  have "cur b1 = cur b + (if fits a b then length (arg_text a) else 0)"
    using arg_cong [OF b1(4), of length] by (simp add: l)
  moreover have "fits a b"
    if "cur b + length (concat (map arg_text (a # as))) + kMaxNumericSize \<le> length (fb_data b)"
    using that by (auto simp: fits_def avail_def kMaxNumericSize_def)
  ultimately have "(if fits a b then a # kept else kept) = a # as"
    if "cur b + length (concat (map arg_text (a # as))) + kMaxNumericSize \<le> length (fb_data b)"
    using that IH(6) b1(3) by simp
  then show ?case using b1 IH
    by (intro exI [of _ b'] exI [of _ "if fits a b then a # kept else kept"]) auto
qed

text \<open>
  What is left of a sequence of pieces where \<open>free\<close> bytes are free: a piece that does not fit is left out, and the
  next one is tried.
\<close>

fun kept_text :: "nat \<Rightarrow> log_arg list \<Rightarrow> string" where
  "kept_text free [] = []"
| "kept_text free (a # as) =
     (if (if numeric a then kMaxNumericSize \<le> free else length (arg_text a) < free)
      then arg_text a @ kept_text (free - length (arg_text a)) as
      else kept_text free as)"

lemma put_all_kept:
  "fb_ok b \<Longrightarrow> \<forall>a\<in>set as. arg_ok a \<Longrightarrow>
     \<exists>b'. put_all as b = Inr b' \<and> fb_toString b' = fb_toString b @ kept_text (length (fb_data b) - cur b) as"
proof (induction as arbitrary: b)
  case (Cons a as)
  obtain b1 where b1: "put a b = Inr b1" "fb_ok b1" "length (fb_data b1) = length (fb_data b)"
      "fb_toString b1 = fb_toString b @ (if fits a b then arg_text a else [])"
    using put_outcome [OF Cons.prems(1), of a] Cons.prems(2) by auto
  have l: "length (fb_toString b) = cur b" "length (fb_toString b1) = cur b1"
    using Cons.prems(1) b1(2) by (simp_all add: fb_toString_def fb_length_def fb_ok_def)
  have c: "cur b1 = cur b + (if fits a b then length (arg_text a) else 0)"
    using arg_cong [OF b1(4), of length] by (simp add: l)
  have "cur b \<le> length (fb_data b)" using Cons.prems(1) by (simp add: fb_ok_def)
  then have f: "fits a b \<longleftrightarrow> (if numeric a then kMaxNumericSize \<le> length (fb_data b) - cur b
      else length (arg_text a) < length (fb_data b) - cur b)"
    by (auto simp: fits_def avail_def)
  obtain b' where "put_all as b1 = Inr b'" "fb_toString b' = fb_toString b1 @ kept_text (length (fb_data b1) - cur b1) as"
    using Cons.IH [OF b1(2)] Cons.prems(2) by auto
  then show ?case using b1 c f by simp
qed simp

lemma kept_text_shorter: "\<forall>a\<in>set as. arg_ok a \<Longrightarrow> 0 < free \<Longrightarrow> length (kept_text free as) < free"
proof (induction free as rule: kept_text.induct)
  case (2 free a as)
  then have "numeric a \<Longrightarrow> length (arg_text a) < kMaxNumericSize" using numeric_length by simp
  then show ?case using 2 by (auto simp: less_diff_conv add.commute split: if_splits)
qed simp

lemma kept_text_all:
  "length (concat (map arg_text as)) + kMaxNumericSize \<le> free \<Longrightarrow> kept_text free as = concat (map arg_text as)"
  by (induction free as rule: kept_text.induct) (auto simp: kMaxNumericSize_def)

section \<open>Time, source file and log line\<close>

text \<open>The fields of \<open>struct tm\<close> as \<open>localtime\<close> fills them in are an argument.\<close>

record date =
  year :: nat
  month :: nat
  day :: nat
  hour :: nat
  minute :: nat
  second :: nat

definition pad :: "nat \<Rightarrow> nat \<Rightarrow> string" where
  "pad w n = replicate (w - length (dec n)) (CHR ''0'') @ dec n"

definition toIsoString :: "date \<Rightarrow> string" where
  "toIsoString da = take 63
     (pad 4 (year da) @ ''-'' @ pad 2 (month da) @ ''-'' @ pad 2 (day da) @ '' '' @
      pad 2 (hour da) @ '':'' @ pad 2 (minute da) @ '':'' @ pad 2 (second da))"

fun strrchr :: "string \<Rightarrow> char \<Rightarrow> nat option" where
  "strrchr [] c = None"
| "strrchr (x # xs) c =
     (case strrchr xs c of Some i \<Rightarrow> Some (Suc i) | None \<Rightarrow> if x = c then Some 0 else None)"

definition SourceFile :: "string \<Rightarrow> string" where
  "SourceFile filename =
     (case strrchr filename (CHR ''/'') of None \<Rightarrow> filename | Some i \<Rightarrow> drop (Suc i) filename)"

datatype LogLevel = TRACE | DEBUG | INFO | WARN | ERROR | FATAL

text \<open>The levels in the order of the enumeration.\<close>

fun level_num :: "LogLevel \<Rightarrow> nat" where
  "level_num TRACE = 0"
| "level_num DEBUG = 1"
| "level_num INFO = 2"
| "level_num WARN = 3"
| "level_num ERROR = 4"
| "level_num FATAL = 5"

lemma level_num_inject: "level_num a = level_num b \<Longrightarrow> a = b"
  by (cases a; cases b) simp_all

instantiation LogLevel :: linorder
begin

definition less_eq_LogLevel :: "LogLevel \<Rightarrow> LogLevel \<Rightarrow> bool" where
  "a \<le> b \<longleftrightarrow> level_num a \<le> level_num b"

definition less_LogLevel :: "LogLevel \<Rightarrow> LogLevel \<Rightarrow> bool" where
  "a < b \<longleftrightarrow> level_num a < level_num b"

instance
  by standard (auto simp: less_eq_LogLevel_def less_LogLevel_def intro: level_num_inject)

end

text \<open>
  \<open>initLogLevel\<close>, from the presence of the two environment variables; and whether a macro \<open>LOG_...\<close>
  makes a logger when the global level is \<open>g\<close>: only the three lowest ones look at it.
\<close>

definition initLogLevel :: "bool \<Rightarrow> bool \<Rightarrow> LogLevel" where
  "initLogLevel asynlog_trace asynlog_debug =
     (if asynlog_trace then TRACE else if asynlog_debug then DEBUG else INFO)"

fun log_macro :: "LogLevel \<Rightarrow> LogLevel \<Rightarrow> bool" where
  "log_macro g TRACE = (g \<le> TRACE)"
| "log_macro g DEBUG = (g \<le> DEBUG)"
| "log_macro g INFO = (g \<le> INFO)"
| "log_macro g _ = True"

text \<open>Up to WARN the global level is a threshold; above it, warnings still appear.\<close>

lemma log_macro_threshold: "g \<le> WARN \<Longrightarrow> log_macro g l \<longleftrightarrow> g \<le> l"
  by (cases l; cases g) (simp_all add: less_eq_LogLevel_def)

lemma log_macro_warn: "log_macro ERROR WARN" "log_macro FATAL ERROR"
  by simp_all

fun LogLevelName :: "LogLevel \<Rightarrow> string" where
  "LogLevelName TRACE = '' [TRACE] ''"
| "LogLevelName DEBUG = '' [DEBUG] ''"
| "LogLevelName INFO = '' [INFO]  ''"
| "LogLevelName WARN = '' [WARN]  ''"
| "LogLevelName ERROR = '' [ERROR] ''"
| "LogLevelName FATAL = '' [FATAL] ''"

text \<open>
  The constructor of \<open>Impl\<close>: the time, the thread, the level, and the text of a saved errno
  (\<open>strerror\<close> is an argument); the text of the message; and \<open>finish\<close>.
\<close>

definition Impl_args :: "(int \<Rightarrow> string) \<Rightarrow> date \<Rightarrow> int \<Rightarrow> LogLevel \<Rightarrow> int \<Rightarrow> log_arg list" where
  "Impl_args strerror now tid level savedErrno =
     [AStr (toIsoString now), AInt tid, ACStr (Some (LogLevelName level))] @
     (if savedErrno \<noteq> 0
      then [ACStr (Some (strerror savedErrno)), ACStr (Some '' (errno=''), AInt savedErrno,
            ACStr (Some '') '')]
      else [])"

definition finish_args :: "string \<Rightarrow> int \<Rightarrow> log_arg list" where
  "finish_args file line =
     [ACStr (Some '' - ''), AStr (SourceFile file), AChar (CHR '':''), AInt line, AChar (CHR 0x0A)]"

text \<open>A \<open>Logger\<close> from construction to destruction: its line, and whether the process aborts.\<close>

definition Logger_emit ::
  "(int \<Rightarrow> string) \<Rightarrow> date \<Rightarrow> int \<Rightarrow> LogLevel \<Rightarrow> int \<Rightarrow> string option \<Rightarrow> log_arg list \<Rightarrow>
     string \<Rightarrow> int \<Rightarrow> (string \<times> bool) result" where
  "Logger_emit strerror now tid level savedErrno func user file line =
     bindE (put_all (Impl_args strerror now tid level savedErrno) (FixedBuffer_new kSmallBuffer)) (\<lambda>b1.
     bindE (put_all (case func of None \<Rightarrow> [] | Some f \<Rightarrow> [ACStr (Some f), AChar (CHR '' '')]) b1) (\<lambda>b2.
     bindE (put_all user b2) (\<lambda>b3.
     bindE (put_all (finish_args file line) b3) (\<lambda>b4.
     Inr (fb_toString b4, level = FATAL)))))"

lemma put_all_append: "put_all (as @ bs) b = bindE (put_all as b) (put_all bs)"
proof (induction as arbitrary: b)
  case (Cons a as)
  then show ?case by (cases "put a b") simp_all
qed simp

text \<open>Everything that goes into the line, in order.\<close>

definition logger_args ::
  "(int \<Rightarrow> string) \<Rightarrow> date \<Rightarrow> int \<Rightarrow> LogLevel \<Rightarrow> int \<Rightarrow> string option \<Rightarrow> log_arg list \<Rightarrow>
     string \<Rightarrow> int \<Rightarrow> log_arg list" where
  "logger_args strerror now tid level savedErrno func user file line =
     Impl_args strerror now tid level savedErrno @
     (case func of None \<Rightarrow> [] | Some f \<Rightarrow> [ACStr (Some f), AChar (CHR '' '')]) @ user @
     finish_args file line"

lemma bindE_assoc:
  "bindE (bindE m f) g = bindE m (\<lambda>x. bindE (f x) g)"
  by (cases m) simp_all

lemma Logger_emit_put:
  "Logger_emit strerror now tid level savedErrno func user file line =
     bindE (put_all (logger_args strerror now tid level savedErrno func user file line)
              (FixedBuffer_new kSmallBuffer)) (\<lambda>b. Inr (fb_toString b, level = FATAL))"
  by (simp add: Logger_emit_def logger_args_def put_all_append bindE_assoc)

lemma strrchr_last:
  "strrchr s c = Some i \<Longrightarrow> i < length s \<and> s ! i = c \<and> c \<notin> set (drop (Suc i) s)"
  "strrchr s c = None \<Longrightarrow> c \<notin> set s"
proof (induction s arbitrary: i)
  case (Cons x xs)
  {
    case 1
    then show ?case using Cons.IH by (auto split: option.splits if_splits)
  next
    case 2
    then show ?case using Cons.IH(2) by (auto split: option.splits if_splits)
  }
qed simp_all

lemma emit_kept:
  assumes "\<forall>a\<in>set user. arg_ok a" "arg_ok (AInt tid)" "arg_ok (AInt savedErrno)" "arg_ok (AInt line)"
  shows "Logger_emit strerror now tid level savedErrno func user file line =
      Inr (kept_text 4000 (logger_args strerror now tid level savedErrno func user file line), level = FATAL) \<and>
    length (kept_text 4000 (logger_args strerror now tid level savedErrno func user file line)) < 4000"
proof -
  let ?as = "logger_args strerror now tid level savedErrno func user file line"
  let ?b = "FixedBuffer_new kSmallBuffer"
  have ok: "fb_ok ?b" "fb_toString ?b = []" "length (fb_data ?b) - cur ?b = 4000"
    by (simp_all add: fb_ok_def FixedBuffer_new_def fb_toString_def fb_length_def kSmallBuffer_def)
  have args: "\<forall>a\<in>set ?as. arg_ok a"
    using assms(1-4) by (auto simp: logger_args_def Impl_args_def finish_args_def split: option.splits)
  obtain b' where "put_all ?as ?b = Inr b'" "fb_toString b' = kept_text 4000 ?as"
    using put_all_kept [OF ok(1) args] unfolding ok(2,3) by auto
  then show ?thesis using kept_text_shorter [OF args, of 4000] by (simp add: Logger_emit_put)
qed

section \<open>Properties\<close>

text \<open>C31: Integers are printed exactly. For every value of every integer type up to 64 bits,
  signed or unsigned, the table-driven loop of \<open>convert\<close> produces the ordinary decimal notation,
  which reads back as the value, and it stays within the 48 bytes the stream reserves, with its
  terminator.\<close>

theorem convert_decimal:
  assumes "- (2 ^ 63) \<le> v" "v < 2 ^ 64"
  shows "convert v = (if v < 0 then ''-'' else '''') @ dec (nat \<bar>v\<bar>) \<and>
    parse_in 10 (dec (nat \<bar>v\<bar>)) = nat \<bar>v\<bar> \<and> length (convert v) + 1 \<le> kMaxNumericSize"
proof -
  have "length (int_str v) \<le> 21" using assms by (intro length_int_str) simp_all
  then show ?thesis by (auto simp: convert_int_str int_str_def kMaxNumericSize_def)
qed

theorem convert_decimal_witness:
  "convert (- 9223372036854775808) = ''-9223372036854775808'' \<and> convert 18446744073709551615 = ''18446744073709551615''"
proof -
  have "dec 9223372036854775808 = ''9223372036854775808''" "dec 18446744073709551615 = ''18446744073709551615''"
    by (simp_all add: numeral_in.simps digit_char_def digitsHex_def)
  then show ?thesis
    using convert_decimal [of "- 9223372036854775808"] convert_decimal [of 18446744073709551615] by simp
qed

text \<open>Pointers are printed exactly: \<open>convertHex\<close> gives the hexadecimal notation, which reads
  back as the value, in at most 16 digits.\<close>

theorem convertHex_roundtrip:
  "parse_in 16 (convertHex v) = unat v \<and> length (convertHex v) \<le> 16"
proof -
  have "unat v < 16 ^ 16" using unsigned_less [of v] by simp
  then have "length (numeral_in 16 (unat v)) \<le> 16" by (intro length_hex_bound) simp_all
  then show ?thesis by (simp add: convertHex_def convertHex_loop_numeral)
qed

text \<open>What a logger hands over.\<close>

lemma emit_outcome:
  assumes "\<forall>a\<in>set user. arg_ok a" "arg_ok (AInt tid)" "arg_ok (AInt savedErrno)" "arg_ok (AInt line)"
  shows "\<exists>kept. set kept \<subseteq> set (logger_args strerror now tid level savedErrno func user file line) \<and>
    Logger_emit strerror now tid level savedErrno func user file line =
      Inr (concat (map arg_text kept), level = FATAL) \<and>
    (length (concat (map arg_text (logger_args strerror now tid level savedErrno func user file line))) + 48 \<le> 4000 \<longrightarrow>
       kept = logger_args strerror now tid level savedErrno func user file line)"
proof -
  let ?as = "logger_args strerror now tid level savedErrno func user file line"
  have ok: "fb_ok (FixedBuffer_new kSmallBuffer)" "fb_toString (FixedBuffer_new kSmallBuffer) = []"
    by (simp_all add: fb_ok_def FixedBuffer_new_def fb_toString_def fb_length_def)
  have "\<forall>a\<in>set ?as. arg_ok a"
    using assms by (auto simp: logger_args_def Impl_args_def finish_args_def split: option.splits)
  from put_all_outcome [OF ok(1) this] obtain b kept where
      b: "put_all ?as (FixedBuffer_new kSmallBuffer) = Inr b" "fb_toString b = concat (map arg_text kept)"
        "set kept \<subseteq> set ?as"
      and k: "cur (FixedBuffer_new kSmallBuffer) + length (concat (map arg_text ?as)) + kMaxNumericSize
        \<le> length (fb_data (FixedBuffer_new kSmallBuffer)) \<longrightarrow> kept = ?as"
    unfolding ok(2) by auto
  have "length (concat (map arg_text ?as)) + 48 \<le> 4000 \<longrightarrow> kept = ?as"
    using k by (simp add: FixedBuffer_new_def kSmallBuffer_def kMaxNumericSize_def)
  then show ?thesis using b by (intro exI [of _ kept]) (simp add: Logger_emit_put)
qed

text \<open>C30: A log line never overruns its buffer, and a short one is complete. Whatever is written
  to a \<open>Logger\<close>, every piece goes into the 4000 bytes whole or not at all, without an access
  outside them; and if the pieces together leave 48 bytes free, the line is their concatenation
  in order, from the time to the newline.\<close>

theorem log_line:
  assumes "\<forall>a\<in>set user. arg_ok a" "arg_ok (AInt tid)" "arg_ok (AInt savedErrno)" "arg_ok (AInt line)"
  shows "\<exists>kept. set kept \<subseteq> set (logger_args strerror now tid level savedErrno func user file line) \<and>
    Logger_emit strerror now tid level savedErrno func user file line =
      Inr (concat (map arg_text kept), level = FATAL) \<and>
    (length (concat (map arg_text (logger_args strerror now tid level savedErrno func user file line))) + 48 \<le> 4000 \<longrightarrow>
       kept = logger_args strerror now tid level savedErrno func user file line)"
  by (rule emit_outcome [OF assms])

theorem log_line_witness:
  "Logger_emit (\<lambda>_. ''error'') \<lparr>year = 2024, month = 5, day = 6, hour = 7, minute = 8, second = 9\<rparr> 42 WARN 0 None
     [AStr ''fd '', AInt (- 1)] ''src/net/a.cpp'' 17 =
   Inr (''2024-05-06 07:08:0942 [WARN]  fd -1 - a.cpp:17'' @ [CHR 0x0A], False)"
proof -
  let ?d = "\<lparr>year = 2024, month = 5, day = 6, hour = 7, minute = 8, second = 9\<rparr>"
  let ?as = "logger_args (\<lambda>_. ''error'') ?d 42 WARN 0 None [AStr ''fd '', AInt (- 1)] ''src/net/a.cpp'' 17"
  have t: "concat (map arg_text ?as) = ''2024-05-06 07:08:0942 [WARN]  fd -1 - a.cpp:17'' @ [CHR 0x0A]"
    by (simp add: logger_args_def Impl_args_def finish_args_def toIsoString_def pad_def numeral_in.simps
        digit_char_def digitsHex_def int_str_def SourceFile_def)
  obtain kept where "Logger_emit (\<lambda>_. ''error'') ?d 42 WARN 0 None [AStr ''fd '', AInt (- 1)] ''src/net/a.cpp'' 17 =
      Inr (concat (map arg_text kept), WARN = FATAL)" "length (concat (map arg_text ?as)) + 48 \<le> 4000 \<longrightarrow> kept = ?as"
    using log_line [of "[AStr ''fd '', AInt (- 1)]" 42 0 17 "\<lambda>_. ''error''" ?d WARN None "''src/net/a.cpp''"]
    by auto
  moreover have "length (concat (map arg_text ?as)) + 48 \<le> 4000" unfolding t by simp
  ultimately show ?thesis using t by simp
qed

end
