(* ===== verification/TcpServer.thy ===== *)
theory TcpServer
  imports EventLoopThread LogStream TcpConnection
begin

text \<open>
  The server (include/net/TcpServer.h, src/net/TcpServer.cpp) and its acceptor
  (include/net/Acceptor.h, src/net/Acceptor.cpp): accepting connections, naming them, giving
  each to a loop of the pool, and removing them when they close. A connection object is known by
  the number it was made with; its name is that of \<open>TcpConnection::name\<close>.
\<close>

section \<open>The acceptor\<close>

record acceptor =
  a_chan :: channel
  a_hasCallback :: bool
  a_listenning :: bool

definition Acceptor_new :: "int \<Rightarrow> acceptor" where
  "Acceptor_new fd =
     \<lparr>a_chan = setReadCallback (Channel_new fd), a_hasCallback = False, a_listenning = False\<rparr>"

definition setNewConnectionCallback :: "acceptor \<Rightarrow> acceptor" where
  "setNewConnectionCallback a = a\<lparr>a_hasCallback := True\<rparr>"

lemmas acceptor_setter [simp] = setNewConnectionCallback_def

text \<open>\<open>listen\<close>, in the loop's thread.\<close>

definition Acceptor_listen :: "int \<Rightarrow> acceptor \<Rightarrow> (acceptor \<times> ctl list) result" where
  "Acceptor_listen rc a =
     (let a1 = a\<lparr>a_listenning := True\<rparr> in
      bindE (enableReading rc (a_chan a1)) (\<lambda>(ch, cs). Inr (a1\<lparr>a_chan := ch\<rparr>, cs)))"

text \<open>What \<open>handleRead\<close> does with the result of \<open>accept\<close>.\<close>

datatype accepted_fd = NewConnection int | CloseFd int | NoConnection

definition Acceptor_handleRead :: "int \<Rightarrow> acceptor \<Rightarrow> accepted_fd" where
  "Acceptor_handleRead connfd a =
     (if connfd \<ge> 0 then (if a_hasCallback a then NewConnection connfd else CloseFd connfd)
      else NoConnection)"

section \<open>The server\<close>

record server =
  srv_tid :: int
  srv_name :: string
  srv_started :: bool
  nextConnId :: int
  connections :: "string \<rightharpoonup> int \<times> int"
  threadPool :: pool
  srv_acceptor :: acceptor

text \<open>\<open>connections\<close> maps a name to the number of the connection and the thread of its loop.\<close>

definition TcpServer_new :: "int \<Rightarrow> string \<Rightarrow> int \<Rightarrow> server" where
  "TcpServer_new tid listenAddr fd =
     \<lparr>srv_tid = tid, srv_name = listenAddr, srv_started = False, nextConnId = 1,
      connections = Map.empty, threadPool = EventLoopThreadPool_new tid,
      srv_acceptor = setNewConnectionCallback (Acceptor_new fd)\<rparr>"

definition setThreadNum :: "int \<Rightarrow> server \<Rightarrow> server result" where
  "setThreadNum n s =
     assertE ''0 <= numThreads'' (0 \<le> n) (Inr (s\<lparr>threadPool := pool_setThreadNum n (threadPool s)\<rparr>))"

text \<open>
  \<open>start\<close> in the thread \<open>t\<close>. The listening runs through the base loop's \<open>runInLoop\<close>: at once in its thread,
  and as a functor, \<open>QueueListen\<close>, from another one.
\<close>

datatype start_eff = StartCtl ctl | QueueListen

definition TcpServer_start :: "int \<Rightarrow> (nat \<Rightarrow> int) \<Rightarrow> int \<Rightarrow> server \<Rightarrow> (server \<times> start_eff list) result" where
  "TcpServer_start t started rc s =
     bindE (if \<not> srv_started s
            then bindE (pool_start t started (threadPool s)) (\<lambda>p.
                 Inr (s\<lparr>srv_started := True, threadPool := p\<rparr>))
            else Inr s) (\<lambda>s1.
     (if \<not> a_listenning (srv_acceptor s1)
      then (if t = srv_tid s1
            then bindE (Acceptor_listen rc (srv_acceptor s1)) (\<lambda>(a, cs). Inr (s1\<lparr>srv_acceptor := a\<rparr>, map StartCtl cs))
            else Inr (s1, [QueueListen]))
      else Inr (s1, [])))"

datatype srv_eff = Establish_in int int string | QueueDestroy int int

text \<open>\<open>snprintf\<close> into \<open>char buf[32]\<close>: at most 31 characters.\<close>

definition conn_name :: "string \<Rightarrow> int \<Rightarrow> string" where
  "conn_name name i = name @ take 31 (''#'' @ int_str i)"

definition newConnection :: "int \<Rightarrow> server \<Rightarrow> (server \<times> srv_eff list) result" where
  "newConnection t s =
     (if t = srv_tid s then
        (let i = nextConnId s;
             connName = conn_name (srv_name s) i;
             s1 = s\<lparr>nextConnId := i + 1\<rparr>
         in bindE (getNextLoop t (threadPool s1)) (\<lambda>(ioLoop, p).
            Inr (s1\<lparr>threadPool := p, connections := (connections s1)(connName \<mapsto> (i, ioLoop))\<rparr>,
                 [Establish_in ioLoop i connName])))
      else abortNotInLoopThread)"

text \<open>The connection passed in knows its number, name and loop.\<close>

definition removeConnectionInLoop :: "int \<Rightarrow> int \<Rightarrow> int \<Rightarrow> server \<Rightarrow> (server \<times> srv_eff list) result" where
  "removeConnectionInLoop t i ioLoop s =
     (if t = srv_tid s then
        (let connName = conn_name (srv_name s) i;
             n = (if connections s connName = None then 0 else 1 :: nat)
         in assertE ''n == 1'' (n = 1)
              (Inr (s\<lparr>connections := (connections s)(connName := None)\<rparr>, [QueueDestroy ioLoop i])))
      else abortNotInLoopThread)"

datatype srv_op = Accept | Remove int int

fun server_step :: "srv_op \<Rightarrow> server \<Rightarrow> (server \<times> srv_eff list) result" where
  "server_step Accept s = newConnection (srv_tid s) s"
| "server_step (Remove i ioLoop) s = removeConnectionInLoop (srv_tid s) i ioLoop s"

section \<open>Names are unique\<close>

lemma int_str_inject: "0 \<le> i \<Longrightarrow> 0 \<le> j \<Longrightarrow> int_str i = int_str j \<longleftrightarrow> i = j"
  by (auto simp: int_str_def)

lemma conn_name_eq:
  assumes "0 \<le> i" "i \<le> 2 ^ 31"
  shows "conn_name name i = name @ ''#'' @ int_str i"
proof -
  have "length (int_str i) \<le> 21" using assms by (intro length_int_str) simp_all
  then have "length (int_str i) \<le> 30" by simp
  then show ?thesis by (simp add: conn_name_def)
qed

lemma conn_name_inject:
  assumes "0 \<le> i" "i \<le> 2 ^ 31" "0 \<le> j" "j \<le> 2 ^ 31"
  shows "conn_name name i = conn_name name j \<longleftrightarrow> i = j"
  using assms by (simp add: conn_name_eq int_str_inject)

section \<open>Refinement of a set of numbered connections\<close>

record srv_spec =
  next_number :: int
  live :: "int set"
  spec_pool :: pool
  spec_name :: string

fun spec_step :: "srv_op \<Rightarrow> srv_spec \<Rightarrow> (srv_spec \<times> srv_eff list) result" where
  "spec_step Accept a =
     bindE (getNextLoop (baseLoop (spec_pool a)) (spec_pool a)) (\<lambda>(l, p).
     Inr (a\<lparr>next_number := next_number a + 1, live := insert (next_number a) (live a), spec_pool := p\<rparr>,
          [Establish_in l (next_number a) (spec_name a @ ''#'' @ int_str (next_number a))]))"
| "spec_step (Remove i l) a =
     (if i \<in> live a then Inr (a\<lparr>live := live a - {i}\<rparr>, [QueueDestroy l i])
      else Inl (Assertion ''n == 1''))"

definition srv_abs :: "server \<Rightarrow> srv_spec" where
  "srv_abs s =
     \<lparr>next_number = nextConnId s,
      live = {i. 0 \<le> i \<and> i \<le> 2 ^ 31 \<and> conn_name (srv_name s) i \<in> dom (connections s)},
      spec_pool = threadPool s, spec_name = srv_name s\<rparr>"

definition srv_inv :: "server \<Rightarrow> bool" where
  "srv_inv s \<longleftrightarrow> 1 \<le> nextConnId s \<and> pool_ok (threadPool s) \<and> baseLoop (threadPool s) = srv_tid s"

definition srv_budget :: "server \<Rightarrow> nat \<Rightarrow> bool" where
  "srv_budget s n \<longleftrightarrow> nextConnId s + int n \<le> 2 ^ 31"

fun srv_cost :: "srv_op \<Rightarrow> nat" where
  "srv_cost Accept = 1"
| "srv_cost (Remove i l) = 0"

text \<open>Connection numbers of removals are those of connections, hence in range.\<close>

fun op_in_range :: "srv_op \<Rightarrow> bool" where
  "op_in_range Accept = True"
| "op_in_range (Remove i l) = (0 \<le> i \<and> i \<le> 2 ^ 31)"

definition server_step' :: "srv_op \<Rightarrow> server \<Rightarrow> (server \<times> srv_eff list) result" where
  "server_step' e s = (if op_in_range e then server_step e s else Inl (BadAccess ''connection''))"

definition spec_step' :: "srv_op \<Rightarrow> srv_spec \<Rightarrow> (srv_spec \<times> srv_eff list) result" where
  "spec_step' e a = (if op_in_range e then spec_step e a else Inl (BadAccess ''connection''))"

lemma server_step_sim:
  assumes inv: "srv_inv s" and bud: "srv_budget s (srv_cost e)" and r: "op_in_range e"
  shows "abs_result srv_abs (server_step e s) = spec_step e (srv_abs s)"
proof (cases e)
  case Accept
  let ?i = "nextConnId s"
  have i: "0 \<le> ?i" "?i \<le> 2 ^ 31" using inv bud Accept by (simp_all add: srv_inv_def srv_budget_def)
  obtain l p where lp: "getNextLoop (srv_tid s) (threadPool s) = Inr (l, p)"
    using getNextLoop_ok [of "threadPool s"] inv by (auto simp: srv_inv_def)
  have nm: "conn_name (srv_name s) ?i = srv_name s @ ''#'' @ int_str ?i"
    by (rule conn_name_eq [OF i])
  have "{j. 0 \<le> j \<and> j \<le> 2 ^ 31 \<and> conn_name (srv_name s) j \<in> insert (conn_name (srv_name s) ?i) (dom (connections s))}
      = insert ?i {j. 0 \<le> j \<and> j \<le> 2 ^ 31 \<and> conn_name (srv_name s) j \<in> dom (connections s)}"
    using i conn_name_inject [OF _ _ i] by auto
  then show ?thesis using Accept lp inv
    by (simp add: newConnection_def srv_abs_def srv_inv_def nm Let_def)
next
  case (Remove i l)
  then have i: "0 \<le> i" "i \<le> 2 ^ 31" using r by simp_all
  have "{j. 0 \<le> j \<and> j \<le> 2 ^ 31 \<and> conn_name (srv_name s) j \<in> dom (connections s) - {conn_name (srv_name s) i}}
      = {j. 0 \<le> j \<and> j \<le> 2 ^ 31 \<and> conn_name (srv_name s) j \<in> dom (connections s)} - {i}"
    using i conn_name_inject [OF _ _ i] by auto
  moreover have "i \<in> live (srv_abs s) \<longleftrightarrow> connections s (conn_name (srv_name s) i) \<noteq> None"
    using i by (auto simp: srv_abs_def)
  ultimately show ?thesis using Remove
    by (cases "connections s (conn_name (srv_name s) i)")
      (simp_all add: removeConnectionInLoop_def srv_abs_def Let_def)
qed

interpretation sv: simulation server_step' srv_inv spec_step' srv_abs "\<lambda>s es. srv_budget s (sum_list (map srv_cost es))"
proof unfold_locales
  fix s e es
  assume "srv_inv s" "srv_budget s (sum_list (map srv_cost (e # es)))"
  then have "srv_inv s" "srv_budget s (srv_cost e)" by (simp_all add: srv_budget_def)
  then show "abs_result srv_abs (server_step' e s) = spec_step' e (srv_abs s)"
    using server_step_sim by (simp add: server_step'_def spec_step'_def)
next
  fix s e es s' os
  let ?n = "sum_list (map srv_cost es)"
  assume inv: "srv_inv s" and bud: "srv_budget s (sum_list (map srv_cost (e # es)))" and st: "server_step' e s = Inr (s', os)"
  show "srv_inv s' \<and> srv_budget s' ?n"
  proof (cases e)
    case Accept
    then show ?thesis using inv bud st getNextLoop_ok [of "threadPool s"]
      by (auto simp: server_step'_def newConnection_def srv_inv_def srv_budget_def Let_def)
  next
    case (Remove i l)
    then show ?thesis using inv bud st
      by (auto simp: server_step'_def removeConnectionInLoop_def srv_inv_def srv_budget_def Let_def
          assertE_def split: if_splits)
  qed
qed

text \<open>C19: The server keeps exactly the connections that are open. Over any sequence of accepted
  connections and removals (fewer than 2 to the 31 accepts), the map of named connections behaves
  as a set of connection numbers: each accepted connection gets a fresh name of the form
  \<open>name#number\<close> and the next loop of the pool, a removal takes out that connection and no other
  and queues its destruction in its loop, and the assert fails exactly for a connection that is
  not open any more.\<close>

theorem server_refines_set:
  assumes "srv_inv s" "nextConnId s + int (length ops) \<le> 2 ^ 31" "\<forall>e\<in>set ops. op_in_range e"
  shows "abs_result srv_abs (run_steps server_step ops s) = run_steps spec_step ops (srv_abs s)"
proof -
  have le: "sum_list (map srv_cost es) \<le> length es" for es
  proof (induction es)
    case (Cons e es)
    then show ?case by (cases e) auto
  qed simp
  then have b: "srv_budget s (sum_list (map srv_cost ops))"
    using assms(2) le [of ops] unfolding srv_budget_def by linarith
  have eq: "\<forall>e\<in>set es. op_in_range e \<Longrightarrow> run_steps server_step' es x = run_steps server_step es x"
      "\<forall>e\<in>set es. op_in_range e \<Longrightarrow> run_steps spec_step' es y = run_steps spec_step es y" for es x y
    by (induction es arbitrary: x y) (auto simp: server_step'_def spec_step'_def)
  show ?thesis using sv.run_sim [OF assms(1) b] eq [OF assms(3)] by simp
qed

theorem server_refines_set_witness:
  "abs_result srv_abs (run_steps server_step [Accept, Accept, Remove 1 7, Remove 1 7] (TcpServer_new 7 ''a:1'' 3)) =
     Inl (Assertion ''n == 1'') \<and>
   (\<exists>a. abs_result srv_abs (run_steps server_step [Accept, Accept, Remove 1 7] (TcpServer_new 7 ''a:1'' 3)) =
     Inr (a, [Establish_in 7 1 ''a:1#1'', Establish_in 7 2 ''a:1#2'', QueueDestroy 7 1]))"
proof -
  let ?s = "TcpServer_new 7 ''a:1'' 3"
  have inv: "srv_inv ?s" "nextConnId ?s = 1"
    by (simp_all add: srv_inv_def TcpServer_new_def pool_ok_def EventLoopThreadPool_new_def)
  have abs: "srv_abs ?s = \<lparr>next_number = 1, live = {}, spec_pool = EventLoopThreadPool_new 7, spec_name = ''a:1''\<rparr>"
    by (simp add: srv_abs_def TcpServer_new_def)
  have d: "int_str 1 = ''1''" "int_str 2 = ''2''"
    by (simp_all add: int_str_def numeral_in.simps digit_char_def digitsHex_def)
  have 1: "abs_result srv_abs (run_steps server_step [Accept, Accept, Remove 1 7, Remove 1 7] ?s) =
      run_steps spec_step [Accept, Accept, Remove 1 7, Remove 1 7] (srv_abs ?s)"
    by (rule server_refines_set) (use inv in simp_all)
  have 2: "abs_result srv_abs (run_steps server_step [Accept, Accept, Remove 1 7] ?s) =
      run_steps spec_step [Accept, Accept, Remove 1 7] (srv_abs ?s)"
    by (rule server_refines_set) (use inv in simp_all)
  show ?thesis unfolding 1 2 abs
    by (simp add: getNextLoop_def pool_inLoop_def EventLoopThreadPool_new_def d)
qed

end
