(* ===== verification/ConnSafety.thy ===== *)
theory ConnSafety
  imports TcpConnection
begin

text \<open>
  When a connection does not crash. A connection that is up, or closed and waiting for its
  destruction, is well-formed; each thing its owner and its loop may do then has an outcome again
  of one of these shapes. The only fault left is the exception of a vector that would outgrow its
  largest size. These lemmas are the connection's side of the server's safety.
\<close>

section \<open>Shapes of a connection\<close>

definition conn_ready :: "conn \<Rightarrow> bool" where
  "conn_ready c \<longleftrightarrow> conn_inv c \<and> buffer_ok (c_in c) \<and> c_closeCb c \<and> c_connCb c"

definition fresh :: "conn \<Rightarrow> bool" where
  "fresh c \<longleftrightarrow> conn_ready c \<and> c_state c = kConnecting \<and> ch_index (c_chan c) = kNew \<and> content (c_out c) = []"

definition up :: "conn \<Rightarrow> bool" where
  "up c \<longleftrightarrow> conn_ready c \<and> c_state c = kConnected \<and> bit (events (c_chan c)) 0"

text \<open>Open in a state of \<open>S\<close>: a connection that is up, or one that was shut down and is still read.\<close>

definition open_in :: "stateE set \<Rightarrow> conn \<Rightarrow> bool" where
  "open_in S c \<longleftrightarrow> conn_ready c \<and> c_state c \<in> S \<and> bit (events (c_chan c)) 0"

abbreviation still_open :: "conn \<Rightarrow> bool" where
  "still_open \<equiv> open_in {kConnected, kDisconnected}"

definition closing :: "conn \<Rightarrow> bool" where
  "closing c \<longleftrightarrow> conn_ready c \<and> c_state c = kConnected \<and> ch_index (c_chan c) = kNew"

definition dead :: "conn \<Rightarrow> bool" where
  "dead c \<longleftrightarrow> conn_ready c \<and> c_state c = kDisconnected \<and> ch_index (c_chan c) = kNew"

lemma open_up: "open_in {kConnected} = up"
  by (auto simp: open_in_def up_def fun_eq_iff)

lemma open_mono: "open_in S c \<Longrightarrow> S \<subseteq> S' \<Longrightarrow> open_in S' c"
  by (auto simp: open_in_def)

lemma open_here: "open_in S c \<Longrightarrow> open_in {c_state c} c"
  by (simp add: open_in_def)

lemma up_open: "up c \<Longrightarrow> still_open c"
  by (simp add: open_in_def up_def)

lemma open_connected: "open_in S c \<Longrightarrow> c_state c = kConnected \<Longrightarrow> up c"
  by (simp add: open_in_def up_def)

lemma open_watched: "open_in S c \<Longrightarrow> events (c_chan c) \<noteq> kNoneEvent"
  using bit_none [of 0] by (metis open_in_def)

lemma open_index: "open_in S c \<Longrightarrow> ch_index (c_chan c) = kAdded"
  using open_watched [of S c] conn_invD(3,4) [of c] unfolding open_in_def conn_ready_def by blast

lemmas up_watched = open_watched [of "{kConnected}", unfolded open_up]
  and up_index = open_index [of "{kConnected}", unfolded open_up]

lemma closing_events: "closing c \<Longrightarrow> events (c_chan c) = kNoneEvent"
  by (simp add: closing_def conn_ready_def conn_inv_def)

text \<open>The effects by which a connection reaches others.\<close>

fun links :: "'u conn_eff list \<Rightarrow> 'u conn_eff list" where
  "links [] = []"
| "links (ECloseCb # es) = ECloseCb # links es"
| "links (EQueue k # es) = EQueue k # links es"
| "links (EConnectionCb on # es) = EConnectionCb on # links es"
| "links (_ # es) = links es"

lemma links_append [simp]: "links (es @ fs) = links es @ links fs"
  by (induction es rule: links.induct) simp_all

lemma links_ctls [simp]: "links (map ECtl cs) = []"
  by (induction cs) simp_all

text \<open>
  An outcome with a connection of shape \<open>P\<close> that is still the same connection, and the links
  \<open>ls\<close>; or the exception of a full vector.
\<close>

definition same_conn :: "conn \<Rightarrow> conn \<Rightarrow> bool" where
  "same_conn c c' \<longleftrightarrow> c_tid c' = c_tid c \<and> ch_fd (c_chan c') = ch_fd (c_chan c) \<and> c_name c' = c_name c"

lemma same_conn_refl [simp]: "same_conn c c"
  by (simp add: same_conn_def)

lemma same_conn_trans: "same_conn c c1 \<Longrightarrow> same_conn c1 c2 \<Longrightarrow> same_conn c c2"
  by (simp add: same_conn_def)

definition fares ::
  "(conn \<Rightarrow> bool) \<Rightarrow> 'u conn_eff list \<Rightarrow> conn \<Rightarrow> (conn \<times> 'u conn_eff list) result \<Rightarrow> bool" where
  "fares P ls c r \<longleftrightarrow>
     r = Inl LengthError \<or> (\<exists>c' es. r = Inr (c', es) \<and> P c' \<and> same_conn c c' \<and> links es = ls)"

lemma fares_full [simp]: "fares P ls c (Inl LengthError)"
  by (simp add: fares_def)

lemma fares_Inr [simp]: "fares P ls c (Inr (c', es)) \<longleftrightarrow> P c' \<and> same_conn c c' \<and> links es = ls"
  by (auto simp: fares_def)

lemma fares_mono: "fares P ls c r \<Longrightarrow> (\<And>c'. P c' \<Longrightarrow> Q c') \<Longrightarrow> fares Q ls c r"
  by (auto simp: fares_def)

lemma fares_bind:
  assumes "fares P ls c r"
    and "\<And>c1 es1. r = Inr (c1, es1) \<Longrightarrow> P c1 \<Longrightarrow> same_conn c c1 \<Longrightarrow> fares Q ms c1 (f c1)"
  shows "fares Q (ls @ ms) c (bindE r (\<lambda>(c1, es1). bindE (f c1) (\<lambda>(c2, es2). Inr (c2, es1 @ es2))))"
proof (cases r)
  case (Inl e)
  then show ?thesis using assms(1) by (simp add: fares_def)
next
  case (Inr p)
  obtain c1 es1 where p: "p = (c1, es1)" by (cases p)
  then have 1: "P c1" "same_conn c c1" "links es1 = ls" using assms(1) Inr by auto
  have "fares Q ms c1 (f c1)" using assms(2) Inr p 1 by blast
  then show ?thesis using Inr p 1 by (auto simp: fares_def intro: same_conn_trans)
qed

lemma fares_andThen:
  assumes "fares P ls c r" "\<And>c1. P c1 \<Longrightarrow> same_conn c c1 \<Longrightarrow> fares Q ms c1 (f c1)"
  shows "fares Q (ls @ ms) c (andThen r f)"
  unfolding andThen_def using assms by (intro fares_bind) blast+

lemma fares_run:
  assumes "\<And>e c. e \<in> set es \<Longrightarrow> P c \<Longrightarrow> fares P [] c (step e c)"
  shows "P c \<Longrightarrow> fares P [] c (run_steps step es c)"
  using assms
proof (induction es arbitrary: c)
  case (Cons e es)
  have "fares P ([] @ []) c (run_steps step (e # es) c)"
    unfolding run_steps.simps by (rule fares_bind [where P = P]) (use Cons in auto)
  then show ?case by simp
qed simp

section \<open>Calls of the user\<close>

text \<open>Calls of a connection that may come into the states \<open>S\<close>, with kernel answers that are no errors of
  \<open>epoll_ctl\<close> and strings that exist: it is shut down only if \<open>kDisconnected\<close> is one of them.\<close>

fun in_turn :: "stateE set \<Rightarrow> 'u conn_call \<Rightarrow> bool" where
  "in_turn S (CallSend w rc m) \<longleftrightarrow> 0 \<le> rc \<and> length m \<le> max_size"
| "in_turn S CallShutdown \<longleftrightarrow> kDisconnected \<in> S"
| "in_turn S (CallNoDelay on) \<longleftrightarrow> True"
| "in_turn S (CallUser u) \<longleftrightarrow> True"

abbreviation good_call :: "'u conn_call \<Rightarrow> bool" where
  "good_call \<equiv> in_turn {kConnected, kDisconnected}"

lemma append_outcome:
  assumes "buffer_ok b" "length data \<le> max_size"
  shows "append data b = Inl LengthError \<or>
    (\<exists>b'. append data b = Inr b' \<and> buffer_ok b' \<and> content b' = content b @ data)"
proof -
  have len: "unat (of_nat (length data) :: size_t) = length data" using assms(2) by simp
  show ?thesis
  proof (cases "append data b")
    case (Inr b')
    then show ?thesis using append_sound [OF assms(1)] by blast
  next
    case (Inl e)
    then have "\<not> room b (length data)" using append_ok [OF assms(1), of data] by auto
    have "ensureWritableBytes (of_nat (length data)) b = Inl LengthError"
    proof (rule ccontr)
      assume "\<not> ?thesis"
      then obtain b1 where b1: "ensureWritableBytes (of_nat (length data)) b = Inr b1" "roomy b (of_nat (length data)) b1"
        using ensureWritableBytes_cases [OF assms(1), of "of_nat (length data)"] assms(2) len by auto
      then have "unat (writerIndex b1) + length data \<le> length (buf b1)"
        using buffer_okD(3) [of b1] len by (auto simp: roomy_def)
      then show False using Inl b1(1) by (simp add: append_def Let_def beginWrite_def write_at_def)
    qed
    then show ?thesis by (simp add: append_def)
  qed
qed

text \<open>What changing the interest of a registered channel leads to.\<close>

lemma update_up:
  fixes pre :: "'u conn_eff list"
  assumes "ch_index (c_chan c) = kAdded" "0 \<le> rc" "ev \<noteq> kNoneEvent"
  shows "with_chan (updateChannel rc ((c_chan c)\<lparr>events := ev\<rparr>)) c pre =
    Inr (c\<lparr>c_chan := (c_chan c)\<lparr>events := ev\<rparr>\<rparr>, pre @ [ECtl (Ctl EPOLL_CTL_MOD (ch_fd (c_chan c)) ev)])"
  using assms by (simp add: with_chan_def updateChannel_def update_def isNoneEvent_def Let_def)

lemma sendInLoop_open:
  fixes c :: conn
  assumes "open_in S c" "0 \<le> rc" "length m \<le> max_size"
  shows "fares (open_in S) [] c (sendInLoop (c_tid c) w rc m c :: (conn \<times> 'u conn_eff list) result)"
proof -
  have inv: "conn_inv c" using assms(1) by (simp add: open_in_def conn_ready_def)
  have tail: "fares (\<lambda>c'. conn_inv c' \<longrightarrow> open_in S c') [] c (if k < length m then
          bindE (append (drop k m) (c_out c)) (\<lambda>out.
            (let c1 = c\<lparr>c_out := out\<rparr> in
             if \<not> isWriting (c_chan c1)
             then with_chan (enableWriting rc (c_chan c1)) c1 (ESend m # effs)
             else Inr (c1, ESend m # effs)))
        else Inr (c, ESend m # effs))" if l: "links effs = []" for k and effs :: "'u conn_eff list"
  proof (cases "append (drop k m) (c_out c)")
    case (Inl e)
    then show ?thesis using append_outcome [OF conn_invD(1) [OF inv], of "drop k m"] assms(1,3) l by auto
  next
    case (Inr b)
    note upd = update_up [of "c\<lparr>c_out := b\<rparr>" rc "events (c_chan c) OR kWriteEvent" "ESend m # effs"]
    have "with_chan (enableWriting rc (c_chan c)) (c\<lparr>c_out := b\<rparr>) (ESend m # effs) =
        Inr (c\<lparr>c_out := b, c_chan := (c_chan c)\<lparr>events := events (c_chan c) OR kWriteEvent\<rparr>\<rparr>,
             (ESend m # effs) @ [ECtl (Ctl EPOLL_CTL_MOD (ch_fd (c_chan c)) (events (c_chan c) OR kWriteEvent))])"
      using upd open_index [OF assms(1)] assms(2) by (simp add: enableWriting_def)
    then show ?thesis using Inr l assms(1)
      by (auto simp: Let_def open_in_def conn_ready_def same_conn_def bit_or_iff)
  qed
  obtain k and effs :: "'u conn_eff list" where ke: "(if \<not> isWriting (c_chan c) \<and> readableBytes (c_out c) = 0 then
           (case w of
              Written n \<Rightarrow>
                (unat n, EWrite (take (unat n) m) #
                    (if unat n < length m then []
                     else if c_wcCb c then [EWriteCompleteQueued] else []))
            | WriteFail err \<Rightarrow> (0, if err \<noteq> EWOULDBLOCK then [ELogSysErr] else []))
         else (0, [])) = (k, effs)" by (rule that [OF surjective_pairing])
  then have "links effs = []" by (auto split: if_splits write_outcome.splits)
  then have "fares (\<lambda>c'. conn_inv c' \<longrightarrow> open_in S c') [] c (sendInLoop (c_tid c) w rc m c :: (conn \<times> 'u conn_eff list) result)"
    using tail [of effs k] ke by (simp only: sendInLoop_def inLoop_def prod.case Let_def if_True simp_thms)
  then show ?thesis
    using faithfulD [OF sendInLoop_faithful [OF inv]] by (fastforce simp: fares_def)
qed

lemmas sendInLoop_fares = sendInLoop_open [of "{kConnected}", unfolded open_up]

lemma do_call_open:
  fixes call :: "'u conn_call"
  assumes "open_in S c" "in_turn S call"
  shows "fares (open_in S) [] c (do_call (c_tid c) call c)"
proof (cases call)
  case (CallSend w rc m)
  then show ?thesis using assms sendInLoop_open [OF assms(1), of rc m w, where ?'u = 'u] by (simp add: send_def)
next
  case CallShutdown
  then show ?thesis using assms
    by (auto simp: shutdown_def shutdownInLoop_def inLoop_def open_in_def conn_ready_def conn_inv_def same_conn_def Let_def)
qed (use assms in \<open>simp_all add: setTcpNoDelay_def\<close>)

lemma calls_open:
  assumes "\<forall>call\<in>set calls. in_turn S call"
  shows "open_in S c \<Longrightarrow> c_tid c = t \<Longrightarrow> fares (open_in S) [] c (run_steps (do_call t) calls c)"
  using assms
proof (induction calls arbitrary: c)
  case (Cons call calls)
  have "fares (open_in S) ([] @ []) c (run_steps (do_call t) (call # calls) c)"
    unfolding run_steps.simps
  proof (rule fares_bind)
    show "fares (open_in S) [] c (do_call t call c)" using do_call_open [OF Cons.prems(1), of call] Cons.prems by simp
    fix c1 assume "open_in S c1" "same_conn c c1"
    then show "fares (open_in S) [] c1 (run_steps (do_call t) calls c1)"
      using Cons.IH [of c1] Cons.prems by (simp add: same_conn_def)
  qed
  then show ?case by simp
qed simp

lemmas calls_fare = calls_open [of _ "{kConnected}", unfolded open_up]

section \<open>Handlers\<close>

text \<open>The assert of \<open>handleClose\<close>: the peer closes a connection that was shut down.\<close>

definition closes_late :: "conn \<Rightarrow> (conn \<times> 'u conn_eff list) result \<Rightarrow> bool" where
  "closes_late c r \<longleftrightarrow> c_state c = kDisconnected \<and> r = Inl (Assertion ''state_ == kConnected'')"

lemma handleClose_fares:
  assumes "up c"
  shows "fares closing [ECloseCb] c (handleClose (c_tid c) rc c)"
  using assms up_index [OF assms] faithfulD [OF handleClose_faithful [of c "c_tid c" rc]]
  by (auto simp: up_def closing_def conn_ready_def handleClose_def inLoop_def andThen_def with_chan_def
      disableAll_def updateChannel_def update_def isNoneEvent_def same_conn_def Let_def fares_def)

lemma handleClose_open:
  assumes "open_in S c" "S \<subseteq> {kConnected, kDisconnected}"
  shows "fares closing [ECloseCb] c (handleClose (c_tid c) rc c) \<or> closes_late c (handleClose (c_tid c) rc c)"
proof (cases "c_state c = kConnected")
  case True
  then show ?thesis using handleClose_fares [OF open_connected [OF assms(1)]] by blast
next
  case False
  then have "c_state c = kDisconnected" using assms by (auto simp: open_in_def)
  then show ?thesis by (simp add: closes_late_def handleClose_def inLoop_def)
qed

text \<open>A message callback that leaves a buffer behind and calls the connection in turn.\<close>

definition good_callback :: "'u message_cb \<Rightarrow> bool" where
  "good_callback mcb \<longleftrightarrow> (\<forall>b. buffer_ok b \<longrightarrow>
     (\<exists>b' calls. mcb b = Inr (b', calls) \<and> buffer_ok b' \<and> (\<forall>call\<in>set calls. good_call call)))"

lemma readFd_outcome:
  assumes "buffer_ok b" "length (readv_data rv) \<le> max_size"
  shows "readFd rv b = Inl LengthError \<or> (\<exists>err b'. readFd rv b = Inr (readv_ret rv, err, b') \<and> buffer_ok b')"
proof (cases "room b (length (readv_data rv))")
  case True
  then show ?thesis using readFd_ok [OF assms(1)] by blast
next
  case False
  then obtain bytes where rv: "rv = ReadBytes bytes" using assms(1) buffer_okD(3,4) [OF assms(1)]
    by (cases rv) (auto simp: room_def readv_data_def)
  note okD = buffer_okD [OF assms(1)]
  have len: "unat (of_nat (length bytes) :: size_t) = length bytes" using assms(2) by (simp add: rv readv_data_def)
  have wr: "unat (writableBytes b) = length (buf b) - unat (writerIndex b)" by (simp add: index_simps assms(1))
  have big: "length (buf b) - unat (writerIndex b) < length bytes"
    using False okD by (simp add: room_def rv readv_data_def)
  let ?front = "take (unat (writableBytes b)) bytes"
  have fit: "unat (writerIndex b) + length ?front \<le> length (buf b)" using okD wr by simp
  let ?b1 = "b\<lparr>buf := overwrite (unat (writerIndex b)) ?front (buf b), writerIndex := of_nat (length (buf b))\<rparr>"
  have full: "?b1 = b\<lparr>buf := overwrite (unat (writerIndex b)) ?front (buf b),
                writerIndex := writerIndex b + of_nat (length ?front)\<rparr>"
    using big okD wr by (simp add: of_nat_diff)
  have b1: "buffer_ok ?b1" using write_behind_ok(1) [OF assms(1) fit, folded full] by simp
  have "length (drop (unat (writableBytes b)) bytes) \<le> max_size" using assms(2) by (simp add: rv readv_data_def)
  from append_outcome [OF b1 this] show ?thesis
    using big fit by (auto simp: readFd_def rv readv_ret_def Let_def size_order len wr)
qed

lemma handleRead_fares:
  assumes "still_open c" "good_callback mcb" "length (readv_data rv) \<le> max_size"
  shows "fares still_open [] c (handleRead (c_tid c) rv rc mcb c) \<or>
    fares closing [ECloseCb] c (handleRead (c_tid c) rv rc mcb c) \<or> closes_late c (handleRead (c_tid c) rv rc mcb c)"
proof -
  have ok: "buffer_ok (c_in c)" using assms(1) by (simp add: open_in_def conn_ready_def)
  have keep: "still_open (c\<lparr>c_in := b\<rparr>)" if "buffer_ok b" for b
    using assms(1) that by (simp add: open_in_def conn_ready_def conn_inv_def)
  from readFd_outcome [OF ok assms(3)] consider "readFd rv (c_in c) = Inl LengthError"
    | err b where "readFd rv (c_in c) = Inr (readv_ret rv, err, b)" "buffer_ok b" by blast
  then show ?thesis
  proof cases
    case 1
    then show ?thesis by (simp add: handleRead_def)
  next
    case (2 err b)
    let ?c = "c\<lparr>c_in := b\<rparr>"
    consider (neg) "readv_ret rv < 0" | (eof) "readv_ret rv = 0" | (nocb) "0 < readv_ret rv" "\<not> c_msgCb c" | (msg) "0 < readv_ret rv" "c_msgCb c"
      by linarith
    then show ?thesis
    proof cases
      case eof
      have "fares closing [ECloseCb] ?c (handleClose (c_tid ?c) rc ?c) \<or> closes_late ?c (handleClose (c_tid ?c) rc ?c)"
        by (rule handleClose_open [OF keep [OF 2(2)]]) simp
      then show ?thesis using 2 eof by (auto simp: handleRead_def fares_def same_conn_def closes_late_def)
    next
      case msg
      obtain b' calls where m: "mcb b = Inr (b', calls)" "buffer_ok b'" "\<forall>call\<in>set calls. good_call call"
        using assms(2) 2(2) by (auto simp: good_callback_def)
      have "fares still_open [] (c\<lparr>c_in := b'\<rparr>) (run_steps (do_call (c_tid c)) calls (c\<lparr>c_in := b'\<rparr>))"
        by (rule calls_open [OF m(3) keep [OF m(2)]]) simp
      then show ?thesis using 2 msg m(1) by (simp add: handleRead_def fares_def same_conn_def)
    qed (use 2 keep in \<open>simp_all add: handleRead_def handleError_def same_conn_def\<close>)
  qed
qed

lemma handleWrite_open:
  assumes "open_in S c" "0 \<le> rc" "\<And>n. w = Written n \<Longrightarrow> unat n \<le> length (content (c_out c))"
  shows "fares (open_in S) [] c (handleWrite (c_tid c) w rc c :: (conn \<times> 'u conn_eff list) result)"
proof (cases "isWriting (c_chan c) \<and> (\<exists>n. w = Written n \<and> 0 < n)")
  case True
  then obtain n where n: "isWriting (c_chan c)" "w = Written n" "0 < n" by blast
  have inv: "conn_inv c" using assms(1) by (simp add: open_in_def conn_ready_def)
  note ok = conn_invD(1) [OF inv]
  let ?q = "content (c_out c)" and ?ev = "events (c_chan c) AND NOT kWriteEvent"
  have b0: "bit ?ev 0" using assms(1) by (simp add: open_in_def bit_and_iff bit_not_iff)
  then have ev: "?ev \<noteq> kNoneEvent" using bit_none [of 0] by metis
  have pk: "peek_string (readableBytes (c_out c)) (c_out c) = Inr ?q"
    using peek_string_ok [OF ok, of "readableBytes (c_out c)"] by (simp add: length_content ok)
  obtain out where out: "retrieve n (c_out c) = Inr out" using retrieve_ok [OF ok assms(3) [OF n(2)]] by blast
  define c1 where "c1 = c\<lparr>c_out := out\<rparr>"
  define c2 where "c2 = c1\<lparr>c_chan := (c_chan c)\<lparr>events := ?ev\<rparr>\<rparr>"
  have quiet: "\<not> isWriting (c_chan c2)"
    by (simp add: isWriting_bit bit_and_iff bit_not_iff kWriteEvent_def POLLOUT_def c2_def)
  note faith = faithfulD [OF handleWrite_faithful [OF inv, of "c_tid c" w rc]]
  have "with_chan (disableWriting rc (c_chan c1)) c1 [EWrite (take (unat n) ?q)] =
      Inr (c2, [EWrite (take (unat n) ?q)] @ [ECtl (Ctl EPOLL_CTL_MOD (ch_fd (c_chan c1)) ?ev) :: 'u conn_eff])"
    using update_up [of c1 rc ?ev "[EWrite (take (unat n) ?q)]"] open_index [OF assms(1)] assms(2) ev
    by (simp add: c1_def c2_def disableWriting_def)
  then have hw: "handleWrite (c_tid c) w rc c = (if readableBytes out = 0
      then Inr (c2, [EWrite (take (unat n) ?q), ECtl (Ctl EPOLL_CTL_MOD (ch_fd (c_chan c1)) ?ev) :: 'u conn_eff] @
        (if c_state c = kDisconnected then [EShutdownWr] else []))
      else Inr (c1, [EWrite (take (unat n) ?q)]))"
    using n pk out quiet by (simp add: handleWrite_def inLoop_def andThen_def shutdownInLoop_def Let_def c1_def c2_def)
  have "fares (\<lambda>c'. conn_inv c' \<longrightarrow> open_in S c') [] c (handleWrite (c_tid c) w rc c :: (conn \<times> 'u conn_eff list) result)"
    unfolding hw using assms(1) b0 by (simp add: open_in_def conn_ready_def same_conn_def c1_def c2_def)
  then show ?thesis using faith by (fastforce simp: fares_def)
next
  case False
  have "peek_string (readableBytes (c_out c)) (c_out c) = Inr (content (c_out c))"
    using peek_string_ok [of "c_out c" "readableBytes (c_out c)"] assms(1)
    by (simp add: length_content open_in_def conn_ready_def conn_inv_def)
  then show ?thesis using assms(1) False
    by (cases w) (auto simp: handleWrite_def inLoop_def)
qed

lemmas handleWrite_fares = handleWrite_open [of "{kConnected}", unfolded open_up]

section \<open>Events\<close>

text \<open>
  What the loop may rely on. The kernel does not report a hang-up without readable data together
  with urgent data or a half-close (for TCP, a hang-up comes with \<open>POLLIN\<close>); a write accepts at most
  the bytes it is given; \<open>epoll_ctl\<close> on a registered descriptor succeeds.
\<close>

definition polite :: "u32 \<Rightarrow> bool" where
  "polite revt \<longleftrightarrow> revt AND POLLHUP = 0 \<or> revt AND POLLIN \<noteq> 0 \<or> revt AND (POLLPRI OR POLLRDHUP) = 0"

definition good_env :: "'u event_env \<Rightarrow> bool" where
  "good_env env \<longleftrightarrow>
     good_callback (env_msg env) \<and> 0 \<le> env_rcWrite env \<and> length (readv_data (env_read env)) \<le> max_size"

fun written_at_most :: "nat \<Rightarrow> write_outcome \<Rightarrow> bool" where
  "written_at_most k (Written n) \<longleftrightarrow> unat n \<le> k"
| "written_at_most k (WriteFail e) \<longleftrightarrow> True"

fun writes_fit :: "int \<Rightarrow> 'u event_env \<Rightarrow> ev_cb list \<Rightarrow> conn \<Rightarrow> bool" where
  "writes_fit t env [] c \<longleftrightarrow> True"
| "writes_fit t env (cb # cbs) c \<longleftrightarrow>
     (cb = WriteCb \<longrightarrow> written_at_most (length (content (c_out c))) (env_write env)) \<and>
     (case conn_callback t env cb c of Inl f \<Rightarrow> True | Inr (c', es) \<Rightarrow> writes_fit t env cbs c')"

definition event_ok :: "u32 \<Rightarrow> 'u event_env \<Rightarrow> conn \<Rightarrow> bool" where
  "event_ok revt env c \<longleftrightarrow> polite revt \<and> good_env env \<and>
     (let c1 = c\<lparr>c_chan := (set_revents revt (c_chan c))\<lparr>eventHandling := True\<rparr>\<rparr>
      in writes_fit (c_tid c) env (fired (c_chan c1)) c1)"

lemma closing_run:
  assumes "set cbs \<subseteq> {ErrorCb, WriteCb}"
  shows "closing c \<Longrightarrow> fares closing [] c (run_steps (conn_callback (c_tid c) env) cbs c)"
  using assms
proof (induction cbs)
  case (Cons cb cbs)
  have "\<not> isWriting (c_chan c)" using closing_events [OF Cons.prems(1)] by simp
  then have "\<exists>es. conn_callback (c_tid c) env cb c = Inr (c, es) \<and> links es = []"
    using Cons.prems(2) by (cases cb) (auto simp: handleError_def handleWrite_def inLoop_def)
  then show ?case using Cons by (auto simp: fares_def)
qed simp

text \<open>Without a hang-up and without anything to read, a connection stays open.\<close>

lemma open_quiet_run:
  assumes "good_env env" "set cbs \<subseteq> {ErrorCb, WriteCb}"
  shows "still_open c \<Longrightarrow> c_tid c = t \<Longrightarrow> writes_fit t env cbs c \<Longrightarrow>
    fares still_open [] c (run_steps (conn_callback t env) cbs c)"
  using assms(2)
proof (induction cbs arbitrary: c)
  case (Cons cb cbs)
  have "fares still_open ([] @ []) c (run_steps (conn_callback t env) (cb # cbs) c)"
    unfolding run_steps.simps
  proof (rule fares_bind)
    show "fares still_open [] c (conn_callback t env cb c)"
    proof (cases "cb = WriteCb")
      case True
      then have "\<And>n. env_write env = Written n \<Longrightarrow> unat n \<le> length (content (c_out c))" using Cons.prems(3) by simp
      then show ?thesis
        using handleWrite_open [OF Cons.prems(1), of "env_rcWrite env" "env_write env"] Cons.prems(2) assms(1) True
        by (simp add: good_env_def)
    next
      case False
      then have "cb = ErrorCb" using Cons.prems(4) by simp
      then show ?thesis using Cons.prems(1) by (simp add: handleError_def)
    qed
    fix c1 es1 assume "conn_callback t env cb c = Inr (c1, es1)" "still_open c1" "same_conn c c1"
    then show "fares still_open [] c1 (run_steps (conn_callback t env) cbs c1)"
      using Cons.IH [of c1] Cons.prems by (simp add: same_conn_def)
  qed
  then show ?case by simp
qed simp

lemma open_run:
  assumes "good_env env"
  shows "still_open c \<Longrightarrow> c_tid c = t \<Longrightarrow> CloseCb \<notin> set cbs \<Longrightarrow> distinct cbs \<Longrightarrow> writes_fit t env cbs c \<Longrightarrow>
    fares still_open [] c (run_steps (conn_callback t env) cbs c) \<or>
    fares closing [ECloseCb] c (run_steps (conn_callback t env) cbs c) \<or>
    closes_late c (run_steps (conn_callback t env) cbs c)"
proof (induction cbs arbitrary: c)
  case (Cons cb cbs)
  let ?r = "conn_callback t env cb c" and ?run = "run_steps (conn_callback t env)"
  let ?same = "\<lambda>c'. still_open c' \<and> c_state c' = c_state c"
  have reads: "cb = ReadCb \<Longrightarrow> fares still_open [] c ?r \<or> fares closing [ECloseCb] c ?r \<or> closes_late c ?r"
    using handleRead_fares [of c "env_msg env" "env_read env" "env_rcRead env"] Cons.prems assms
    by (auto simp: good_env_def)
  have keeps: "fares ?same [] c ?r" if "cb \<noteq> ReadCb"
  proof (cases cb)
    case WriteCb
    then have "\<And>n. env_write env = Written n \<Longrightarrow> unat n \<le> length (content (c_out c))" using Cons.prems(5) by simp
    then have "fares (open_in {c_state c}) [] c ?r"
      using handleWrite_open [OF open_here [OF Cons.prems(1)], of "env_rcWrite env" "env_write env"] Cons.prems(2) assms WriteCb
      by (auto simp: good_env_def)
    then show ?thesis by (rule fares_mono) (use Cons.prems(1) in \<open>auto simp: open_in_def\<close>)
  qed (use that Cons.prems in \<open>auto simp: handleError_def\<close>)
  show ?case
  proof (cases ?r)
    case (Inl f)
    then show ?thesis using reads keeps by (cases "cb = ReadCb") (auto simp: fares_def closes_late_def)
  next
    case (Inr p)
    obtain c1 es1 where p: "p = (c1, es1)" by (cases p)
    have next_fit: "writes_fit t env cbs c1" using Cons.prems(5) Inr p by simp
    have rest: "cb = ReadCb \<Longrightarrow> set cbs \<subseteq> {ErrorCb, WriteCb}"
    proof
      fix x assume "cb = ReadCb" "x \<in> set cbs"
      then have "x \<noteq> CloseCb" "x \<noteq> ReadCb" using Cons.prems(3,4) by auto
      then show "x \<in> {ErrorCb, WriteCb}" by (cases x) simp_all
    qed
    from reads keeps Inr consider (still) "fares still_open [] c ?r" "cb = ReadCb \<or> fares ?same [] c ?r"
      | (closed) "cb = ReadCb" "fares closing [ECloseCb] c ?r"
      by (cases "cb = ReadCb") (auto simp: closes_late_def intro: fares_mono)
    then show ?thesis
    proof cases
      case still
      then have c1: "still_open c1" "same_conn c c1" "links es1 = []" using Inr p by auto
      have "fares still_open [] c1 (?run cbs c1) \<or> fares closing [ECloseCb] c1 (?run cbs c1) \<or> closes_late c1 (?run cbs c1)"
        using Cons.IH [OF c1(1)] c1(2) Cons.prems next_fit by (auto simp: same_conn_def)
      moreover have "c_state c1 = c_state c" if "closes_late c1 (?run cbs c1)"
      proof (cases "cb = ReadCb")
        case True
        have "fares still_open [] c1 (?run cbs c1)"
          using open_quiet_run [OF assms rest [OF True] c1(1) _ next_fit] Cons.prems(2,4) c1(2) by (simp add: same_conn_def)
        then show ?thesis using that by (auto simp: closes_late_def fares_def)
      next
        case False
        then show ?thesis using keeps Inr p by simp
      qed
      ultimately show ?thesis using Inr p c1
        by (auto simp: fares_def closes_late_def intro: same_conn_trans)
    next
      case closed
      then have c1: "closing c1" "same_conn c c1" "links es1 = [ECloseCb]" using Inr p by auto
      have "fares closing [] c1 (?run cbs c1)"
        using closing_run [OF rest [OF closed(1)] c1(1)] c1(2) Cons.prems(2) by (simp add: same_conn_def)
      then show ?thesis using Inr p c1
        by (auto simp: fares_def intro: same_conn_trans)
    qed
  qed
qed simp

lemma fired_distinct: "distinct (fired ch)"
  by (simp add: fired_def)

lemma fired_polite:
  assumes "polite (revents ch)" "CloseCb \<in> set (fired ch)"
  shows "\<exists>cbs. fired ch = CloseCb # cbs \<and> set cbs \<subseteq> {ErrorCb, WriteCb}"
proof -
  have "revents ch AND POLLHUP \<noteq> 0" "revents ch AND POLLIN = 0"
    using assms(2) by (auto simp: fired_def split: if_splits)
  moreover from this have "revents ch AND (POLLPRI OR POLLRDHUP) = 0"
    using assms(1) by (simp add: polite_def)
  ultimately have "revents ch AND (POLLIN OR POLLPRI OR POLLRDHUP) = 0"
    by (simp add: bit.conj_disj_distrib)
  then show ?thesis using assms(2) by (auto simp: fired_def split: if_splits)
qed

text \<open>An event on an open connection leaves it open, closes it and tells the owner once, or closes one that was shut down.\<close>

lemma event_fares:
  assumes "still_open c" "event_ok revt env c"
  shows "fares still_open [] c (conn_step (Event revt env) c) \<or>
    fares closing [ECloseCb] c (conn_step (Event revt env) c) \<or> closes_late c (conn_step (Event revt env) c)"
proof -
  define c1 where "c1 = c\<lparr>c_chan := (set_revents revt (c_chan c))\<lparr>eventHandling := True\<rparr>\<rparr>"
  let ?run = "run_steps (conn_callback (c_tid c1) env) (fired (c_chan c1)) c1"
  let ?after = "\<lambda>(d, es). Inr (d\<lparr>c_chan := (c_chan d)\<lparr>eventHandling := False\<rparr>\<rparr>, es)"
  have env: "polite revt" "good_env env" "writes_fit (c_tid c1) env (fired (c_chan c1)) c1"
    using assms(2) by (simp_all add: event_ok_def c1_def Let_def)
  have c1: "still_open c1" "same_conn c c1" using assms(1)
    by (simp_all add: c1_def open_in_def conn_ready_def conn_inv_def set_revents_def same_conn_def isWriting_bit)
  have step: "conn_step (Event revt env) c = bindE ?run ?after"
    by (simp add: handleEvent_def c1_def set_revents_def fired_def)
  have close: "fares P ls c (bindE ?run ?after)" if "fares P ls c1 ?run"
      "\<And>d h. P d \<Longrightarrow> P (d\<lparr>c_chan := (c_chan d)\<lparr>eventHandling := h\<rparr>\<rparr>)" for P ls
    using that same_conn_trans [OF c1(2)] by (auto simp: fares_def same_conn_def)
  have flag: "still_open d \<Longrightarrow> still_open (d\<lparr>c_chan := (c_chan d)\<lparr>eventHandling := h\<rparr>\<rparr>)"
      "closing d \<Longrightarrow> closing (d\<lparr>c_chan := (c_chan d)\<lparr>eventHandling := h\<rparr>\<rparr>)" for d h
    by (simp_all add: open_in_def closing_def conn_ready_def conn_inv_def isWriting_bit)
  have late: "closes_late c1 r \<Longrightarrow> closes_late c (bindE r ?after)" for r by (auto simp: closes_late_def c1_def)
  show ?thesis
  proof (cases "CloseCb \<in> set (fired (c_chan c1))")
    case False
    from open_run [OF env(2) c1(1) refl False fired_distinct env(3)]
    show ?thesis unfolding step using close flag late by blast
  next
    case True
    have "revents (c_chan c1) = revt" by (simp add: c1_def set_revents_def)
    then obtain cbs where cbs: "fired (c_chan c1) = CloseCb # cbs" "set cbs \<subseteq> {ErrorCb, WriteCb}"
      using fired_polite [OF _ True] env(1) by auto
    note run = cbs(1) run_steps.simps
    show ?thesis
    proof (cases "c_state c1 = kConnected")
      case True
      have "fares closing ([ECloseCb] @ []) c1 ?run"
        unfolding run
      proof (rule fares_bind)
        show "fares closing [ECloseCb] c1 (conn_callback (c_tid c1) env CloseCb c1)"
          using handleClose_fares [OF open_connected [OF c1(1) True]] by simp
        fix d assume "closing d" "same_conn c1 d"
        then show "fares closing [] d (run_steps (conn_callback (c_tid c1) env) cbs d)"
          using closing_run [OF cbs(2), of d env] by (simp add: same_conn_def)
      qed
      then have "fares closing [ECloseCb] c1 ?run" by simp
      from close [OF this flag(2)] show ?thesis unfolding step by blast
    next
      case False
      then have "c_state c1 = kDisconnected" using c1(1) by (auto simp: open_in_def)
      then have "closes_late c1 ?run"
        unfolding run by (simp add: closes_late_def handleClose_def inLoop_def)
      from late [OF this] show ?thesis unfolding step by blast
    qed
  qed
qed

section \<open>Beginning and end\<close>

lemma fresh_fresh_conn: "fresh (fresh_conn t nm fd)"
  by (simp add: fresh_def conn_ready_def) (simp add: conn_evals content_def buffer_ok_def max_size_def)

lemma establish_open:
  assumes "fresh c" "kConnected \<in> S" "0 \<le> rc" "\<forall>call\<in>set calls. in_turn S call"
  shows "fares (open_in S) [EConnectionCb True] c (conn_step (Establish rc calls) c)"
proof -
  let ?ch = "(c_chan c)\<lparr>events := events (c_chan c) OR kReadEvent, ch_index := kAdded\<rparr>"
  define c1 where "c1 = c\<lparr>c_state := kConnected, c_chan := ?ch\<rparr>"
  have none: "events (c_chan c) = kNoneEvent" "c_connCb c" "c_state c = kConnecting" "ch_index (c_chan c) = kNew"
    using assms(1) by (simp_all add: fresh_def conn_ready_def conn_inv_def)
  have "open_in S c1" using assms(1,2) none(1)
    by (simp add: c1_def open_in_def fresh_def conn_ready_def conn_inv_def isWriting_bit bit_or_iff bit_none)
  then have "fares (open_in S) [] c1 (run_steps (do_call (c_tid c)) calls c1)"
    using calls_open [OF assms(4)] by (simp add: c1_def)
  moreover have "connected c1" "same_conn c c1" by (simp_all add: connected_def c1_def same_conn_def)
  moreover have "conn_step (Establish rc calls) c = bindE (run_steps (do_call (c_tid c)) calls c1) (\<lambda>(c2, es).
      Inr (c2, [ECtl (Ctl EPOLL_CTL_ADD (ch_fd (c_chan c)) (events ?ch))] @ EConnectionCb (connected c1) # es))"
    using none assms(3)
    by (cases "run_steps (do_call (c_tid c)) calls c1")
      (simp_all add: connectEstablished_def inLoop_def with_chan_def enableReading_def updateChannel_def
        update_def andThen_def connection_cb_def c1_def Let_def split_def)
  ultimately show ?thesis by (auto simp: fares_def intro: same_conn_trans)
qed

lemmas establish_fares = establish_open [OF _ insertI1, of _ _ _ "{}", unfolded open_up]

lemma links_closed_effects [simp]: "links (closed_effects calls) = []"
  by (induction calls rule: closed_effects.induct) simp_all

lemma destroy_fares:
  assumes "closing c" "0 \<le> rc1"
  shows "fares dead [EConnectionCb False] c (conn_step (Destroy rc1 rc2 calls) c)"
proof -
  have "c_state c = kConnected" "ch_index (c_chan c) = kNew" "events (c_chan c) = kNoneEvent" "c_connCb c"
    using assms(1) closing_events [OF assms(1)] by (simp_all add: closing_def conn_ready_def)
  then show ?thesis using assms
    by (simp add: connectDestroyed_def inLoop_def andThen_def with_chan_def disableAll_def updateChannel_def
        update_def isNoneEvent_def removeChannel_def connection_cb_closed Let_def same_conn_def
        dead_def closing_def conn_ready_def conn_inv_def kNoneEvent_def isWriting_bit)
qed

text \<open>Neither needs room in a buffer while user code does not send.\<close>

lemma establish_quiet: "conn_step (Establish rc []) c \<noteq> Inl LengthError"
  by (auto simp: connectEstablished_def inLoop_def assertE_def andThen_def with_chan_def enableReading_def
      updateChannel_def update_def connection_cb_def bindE_eq_Inl Let_def split: if_splits)

lemma destroy_quiet: "closing c \<Longrightarrow> 0 \<le> rc1 \<Longrightarrow> conn_step (Destroy rc1 rc2 calls) c \<noteq> Inl LengthError"
  using closing_events [of c]
  by (auto simp: closing_def conn_ready_def connectDestroyed_def inLoop_def andThen_def with_chan_def disableAll_def
      updateChannel_def update_def isNoneEvent_def removeChannel_def connection_cb_closed Let_def)

end
