(* ===== verification/ServerSystem.thy ===== *)
theory ServerSystem
  imports TcpServer ConnSafety
begin

text \<open>
  A whole server: the \<open>TcpServer\<close> in its base loop, the loops of its pool with their functor queues
  (src/net/EventLoop.cpp), and the connections (src/net/TcpServer.cpp, src/net/TcpConnection.cpp).
  The components are the definitions of their theories; here their outputs are carried out: a
  closed connection is reported to the server, in the base loop or through its queue, the server
  queues its destruction, and a call from another thread queues its work. Functors run in the order
  they were queued, as \<open>EventLoop\<close> shows; a batch that the loop swapped out is destroyed, with the
  shared pointers its functors hold, when it has run to the end. A connection object lives as long
  as a shared pointer to it does: in the server's map, in a functor, or with the user, who keeps the
  connections that are up (as example/Chat/server.cpp). Using it later is a fault.
\<close>

section \<open>State\<close>

text \<open>\<open>TConn\<close> is a functor of \<open>send\<close> or \<open>shutdown\<close>: it binds the raw pointer \<open>this\<close>.\<close>

datatype stask = TEstablish int | TRemove int | TDestroy int | TConn int conn_task

fun task_id :: "stask \<Rightarrow> int" where
  "task_id (TEstablish i) = i"
| "task_id (TRemove i) = i"
| "task_id (TDestroy i) = i"
| "task_id (TConn i k) = i"

fun holds :: "int \<Rightarrow> stask \<Rightarrow> bool" where
  "holds i (TConn j k) \<longleftrightarrow> False"
| "holds i x \<longleftrightarrow> task_id x = i"

text \<open>\<open>ss_owner\<close>: the \<open>TcpServer\<close> exists; \<open>ss_gone\<close>: the loops that were destroyed with it.\<close>

record ssys =
  ss_srv :: server
  ss_owner :: bool
  ss_gone :: "int set"
  ss_objs :: "int \<rightharpoonup> conn"
  ss_user :: "int set"
  ss_pending :: "int \<Rightarrow> stask list"
  ss_todo :: "int \<Rightarrow> stask list"
  ss_done :: "int \<Rightarrow> stask list"

definition ss_init :: "server \<Rightarrow> ssys" where
  "ss_init srv = \<lparr>ss_srv = srv, ss_owner = True, ss_gone = {}, ss_objs = Map.empty, ss_user = {}, ss_pending = (\<lambda>_. []),
     ss_todo = (\<lambda>_. []), ss_done = (\<lambda>_. [])\<rparr>"

abbreviation base :: "ssys \<Rightarrow> int" where
  "base s \<equiv> srv_tid (ss_srv s)"

definition loop_ids :: "ssys \<Rightarrow> int list" where
  "loop_ids s = base s # loops (threadPool (ss_srv s))"

text \<open>The entry of a connection in the server's map.\<close>

definition entry :: "int \<Rightarrow> ssys \<Rightarrow> (int \<times> int) option" where
  "entry i s = connections (ss_srv s) (conn_name (srv_name (ss_srv s)) i)"

definition alive :: "int \<Rightarrow> ssys \<Rightarrow> bool" where
  "alive i s \<longleftrightarrow> (case entry i s of None \<Rightarrow> False | Some (j, l) \<Rightarrow> j = i) \<or> i \<in> ss_user s \<or>
     list_ex (\<lambda>l. list_ex (holds i) (ss_pending s l @ ss_todo s l @ ss_done s l)) (loop_ids s)"

definition use_conn :: "int \<Rightarrow> ssys \<Rightarrow> conn result" where
  "use_conn i s =
     (case ss_objs s i of
        None \<Rightarrow> Inl (BadAccess ''TcpConnection'')
      | Some c \<Rightarrow> if alive i s then Inr c else Inl (BadAccess ''TcpConnection''))"

text \<open>The callbacks and functors of the server bind the raw pointer to it.\<close>

definition on_server :: "ssys \<Rightarrow> 'a result \<Rightarrow> 'a result" where
  "on_server s m = (if ss_owner s then m else Inl (BadAccess ''TcpServer''))"

definition push :: "int \<Rightarrow> stask \<Rightarrow> ssys \<Rightarrow> ssys" where
  "push l x s = s\<lparr>ss_pending := (ss_pending s)(l := ss_pending s l @ [x])\<rparr>"

section \<open>Carrying out the outputs\<close>

fun queue_destroys :: "srv_eff list \<Rightarrow> ssys \<Rightarrow> ssys" where
  "queue_destroys [] s = s"
| "queue_destroys (QueueDestroy l i # es) s = queue_destroys es (push l (TDestroy i) s)"
| "queue_destroys (_ # es) s = queue_destroys es s"

text \<open>\<open>removeConnectionInLoop\<close> in the thread \<open>t\<close>; the connection tells its name and its loop.\<close>

definition remove_in_loop :: "int \<Rightarrow> int \<Rightarrow> ssys \<Rightarrow> ssys result" where
  "remove_in_loop t i s = on_server s
     (bindE (use_conn i s) (\<lambda>c.
      bindE (removeConnectionInLoop t i (c_tid c) (ss_srv s)) (\<lambda>(srv, es).
      Inr (queue_destroys es (s\<lparr>ss_srv := srv\<rparr>)))))"

definition remove_connection :: "int \<Rightarrow> int \<Rightarrow> ssys \<Rightarrow> ssys result" where
  "remove_connection t i s = on_server s
     (if t = base s then remove_in_loop t i s else Inr (push (base s) (TRemove i) s))"

fun react :: "int \<Rightarrow> int \<Rightarrow> 'u conn_eff list \<Rightarrow> ssys \<Rightarrow> ssys result" where
  "react t i [] s = Inr s"
| "react t i (ECloseCb # es) s = bindE (remove_connection t i s) (react t i es)"
| "react t i (EQueue k # es) s =
     bindE (use_conn i s) (\<lambda>c. react t i es (push (c_tid c) (TConn i k) s))"
| "react t i (EConnectionCb on # es) s =
     react t i es (s\<lparr>ss_user := (if on then insert i (ss_user s) else ss_user s - {i})\<rparr>)"
| "react t i (_ # es) s = react t i es s"

definition conn_do ::
  "int \<Rightarrow> int \<Rightarrow> 'u conn_op \<Rightarrow> ssys \<Rightarrow> (ssys \<times> (int \<times> 'u conn_eff) list) result" where
  "conn_do t i opn s =
     bindE (use_conn i s) (\<lambda>c.
     bindE (conn_step opn c) (\<lambda>(c', es).
     bindE (react t i es (s\<lparr>ss_objs := (ss_objs s)(i \<mapsto> c')\<rparr>)) (\<lambda>s'.
     Inr (s', map (Pair i) es))))"

text \<open>An operation that belongs in the connection's loop.\<close>

definition loop_do ::
  "int \<Rightarrow> int \<Rightarrow> 'u conn_op \<Rightarrow> ssys \<Rightarrow> (ssys \<times> (int \<times> 'u conn_eff) list) result" where
  "loop_do t i opn s =
     bindE (use_conn i s) (\<lambda>c.
     if t = c_tid c then conn_do t i opn s else abortNotInLoopThread)"

text \<open>A call of the user that asks the connection for its loop: \<open>send\<close> and \<open>shutdown\<close> of a connection that is up.\<close>

fun asks_loop :: "'u conn_call \<Rightarrow> conn \<Rightarrow> bool" where
  "asks_loop (CallSend w rc m) c \<longleftrightarrow> connected c"
| "asks_loop CallShutdown c \<longleftrightarrow> connected c"
| "asks_loop _ c \<longleftrightarrow> False"

definition call_conn ::
  "int \<Rightarrow> int \<Rightarrow> 'u conn_call \<Rightarrow> ssys \<Rightarrow> (ssys \<times> (int \<times> 'u conn_eff) list) result" where
  "call_conn t i call s =
     bindE (use_conn i s) (\<lambda>c.
     if asks_loop call c \<and> c_tid c \<in> ss_gone s then Inl (BadAccess ''EventLoop'') else conn_do t i (Call t call) s)"

section \<open>Steps\<close>

text \<open>The kernel's answers and the user's calls while a functor runs.\<close>

record 'u run_env =
  run_rc1 :: int
  run_rc2 :: int
  run_write :: write_outcome
  run_calls :: "'u conn_call list"

fun run_task :: "int \<Rightarrow> 'u run_env \<Rightarrow> stask \<Rightarrow> ssys \<Rightarrow> (ssys \<times> (int \<times> 'u conn_eff) list) result" where
  "run_task l env (TEstablish i) s = loop_do l i (Establish (run_rc1 env) (run_calls env)) s"
| "run_task l env (TRemove i) s = bindE (remove_in_loop l i s) (\<lambda>s'. Inr (s', []))"
| "run_task l env (TDestroy i) s =
     loop_do l i (Destroy (run_rc1 env) (run_rc2 env) (run_calls env)) s"
| "run_task l env (TConn i k) s = loop_do l i (RunTask k (run_write env) (run_rc1 env)) s"

text \<open>\<open>Acceptor::handleRead\<close> calls \<open>newConnection\<close>, which establishes the connection in its loop.\<close>

fun establish_in ::
  "int \<Rightarrow> int \<Rightarrow> 'u conn_call list \<Rightarrow> srv_eff list \<Rightarrow> ssys \<Rightarrow> (ssys \<times> (int \<times> 'u conn_eff) list) result" where
  "establish_in fd rc calls [Establish_in l i nm] s =
     (let s1 = s\<lparr>ss_objs := (ss_objs s)(i \<mapsto> fresh_conn l nm fd)\<rparr> in
      if l = base s1 then loop_do l i (Establish rc calls) s1
      else Inr (push l (TEstablish i) s1, []))"
| "establish_in fd rc calls _ s = Inr (s, [])"

definition accept_conn ::
  "int \<Rightarrow> int \<Rightarrow> 'u conn_call list \<Rightarrow> ssys \<Rightarrow> (ssys \<times> (int \<times> 'u conn_eff) list) result" where
  "accept_conn connfd rc calls s =
     (case Acceptor_handleRead connfd (srv_acceptor (ss_srv s)) of
        NewConnection fd \<Rightarrow>
          bindE (newConnection (base s) (ss_srv s)) (\<lambda>(srv, es).
          establish_in fd rc calls es (s\<lparr>ss_srv := srv\<rparr>))
      | _ \<Rightarrow> Inr (s, []))"

text \<open>
  The listening socket, which the server owns, is readable; a registered connection has an event; a thread calls a
  connection that the user holds; a loop swaps out its functors, runs the next one, or destroys
  the batch it has run. A loop that is gone does nothing any more.
\<close>

datatype 'u ss_label =
    SAccept int int "'u conn_call list" | SEvent int u32 "'u event_env" | SCall int int "'u conn_call"
  | SSwap int | SRun int "'u run_env" | SEnd int

fun ss_step :: "'u ss_label \<Rightarrow> ssys \<Rightarrow> (ssys \<times> (int \<times> 'u conn_eff) list) result" where
  "ss_step (SAccept connfd rc calls) s =
     (if ss_owner s \<and> a_listenning (srv_acceptor (ss_srv s)) then accept_conn connfd rc calls s else Inr (s, []))"
| "ss_step (SEvent i revt env) s =
     (case ss_objs s i of
        None \<Rightarrow> Inr (s, [])
      | Some c \<Rightarrow> if registered (c_chan c) \<noteq> None \<and> c_tid c \<notin> ss_gone s then conn_do (c_tid c) i (Event revt env) s
                  else Inr (s, []))"
| "ss_step (SCall t i call) s =
     (if i \<in> ss_user s then call_conn t i call s else Inr (s, []))"
| "ss_step (SSwap l) s =
     (if l \<notin> ss_gone s \<and> ss_todo s l = [] \<and> ss_done s l = []
      then Inr (s\<lparr>ss_todo := (ss_todo s)(l := ss_pending s l), ss_pending := (ss_pending s)(l := [])\<rparr>, [])
      else Inr (s, []))"
| "ss_step (SRun l env) s =
     (case ss_todo s l of
        [] \<Rightarrow> Inr (s, [])
      | x # xs \<Rightarrow> if l \<in> ss_gone s then Inr (s, []) else run_task l env x
          (s\<lparr>ss_todo := (ss_todo s)(l := xs), ss_done := (ss_done s)(l := ss_done s l @ [x])\<rparr>))"
| "ss_step (SEnd l) s =
     (if ss_todo s l = [] then Inr (s\<lparr>ss_done := (ss_done s)(l := [])\<rparr>, []) else Inr (s, []))"

end
