(* ===== verification/ServerSafety.thy ===== *)
theory ServerSafety
  imports ServerSystem
begin

text \<open>
  What keeps a whole server together: where each of its connections is in its life, which functor
  is due for it and in which loop, and that every step the loops, the kernel and the users in
  their turn may take leads from such a state to such a state.
\<close>

section \<open>The life of a connection\<close>

text \<open>
  A connection is waiting to be established, up or shut down but not closed yet, closed but not yet reported to the server,
  removed from the server but not yet destroyed, or destroyed.
\<close>

datatype phase = Queued | Running | Closed | Removed | Gone

fun shape :: "phase \<Rightarrow> conn \<Rightarrow> bool" where
  "shape Queued c = fresh c"
| "shape Running c = still_open c"
| "shape Closed c = closing c"
| "shape Removed c = closing c"
| "shape Gone c = dead c"

text \<open>The one functor that is due, in the loop \<open>l\<close> of the connection or in the base loop \<open>b\<close>.\<close>

fun due :: "phase \<Rightarrow> int \<Rightarrow> int \<Rightarrow> int \<Rightarrow> (int \<times> stask) option" where
  "due Queued i l b = Some (l, TEstablish i)"
| "due Closed i l b = Some (b, TRemove i)"
| "due Removed i l b = Some (l, TDestroy i)"
| "due _ i l b = None"

fun mapped :: "phase \<Rightarrow> bool" where
  "mapped Removed = False"
| "mapped Gone = False"
| "mapped _ = True"

fun held :: "phase \<Rightarrow> bool" where
  "held Queued = False"
| "held Gone = False"
| "held _ = True"

definition jobs :: "ssys \<Rightarrow> int \<Rightarrow> stask list" where
  "jobs s k = ss_todo s k @ ss_pending s k"

definition life :: "ssys \<Rightarrow> int \<Rightarrow> conn \<Rightarrow> phase \<Rightarrow> bool" where
  "life s i c p \<longleftrightarrow> shape p c \<and> c_tid c \<in> set (loop_ids s) \<and>
     (\<forall>k x. task_id x = i \<and> x \<in> set (jobs s k) \<longleftrightarrow> due p i (c_tid c) (base s) = Some (k, x)) \<and>
     entry i s = (if mapped p then Some (i, c_tid c) else None) \<and>
     (i \<in> ss_user s \<longleftrightarrow> held p)"

section \<open>Well-formed servers\<close>

definition sound :: "ssys \<Rightarrow> bool" where
  "sound s \<longleftrightarrow> ss_owner s \<and> ss_gone s = {} \<and> srv_inv (ss_srv s) \<and> nextConnId (ss_srv s) \<le> 2 ^ 31 \<and>
     dom (ss_objs s) = {1..<nextConnId (ss_srv s)} \<and>
     (\<forall>k. distinct (jobs s k)) \<and> (\<forall>k. \<forall>x\<in>set (jobs s k). task_id x \<in> dom (ss_objs s)) \<and>
     ss_user s \<subseteq> dom (ss_objs s) \<and>
     (\<forall>nm\<in>dom (connections (ss_srv s)). \<exists>i\<in>dom (ss_objs s). nm = conn_name (srv_name (ss_srv s)) i)"

definition well_formed :: "ssys \<Rightarrow> bool" where
  "well_formed s \<longleftrightarrow> sound s \<and> (\<forall>i c. ss_objs s i = Some c \<longrightarrow> (\<exists>p. life s i c p))"

text \<open>A change of state that concerns one connection.\<close>

definition only :: "int \<Rightarrow> ssys \<Rightarrow> ssys \<Rightarrow> bool" where
  "only i s s' \<longleftrightarrow>
     ss_owner s' = ss_owner s \<and> ss_gone s' = ss_gone s \<and> srv_inv (ss_srv s') \<and> loop_ids s' = loop_ids s \<and>
     nextConnId (ss_srv s') = nextConnId (ss_srv s) \<and> srv_name (ss_srv s') = srv_name (ss_srv s) \<and>
     dom (connections (ss_srv s')) \<subseteq> dom (connections (ss_srv s)) \<and>
     dom (ss_objs s') = dom (ss_objs s) \<and>
     (\<forall>j. j \<in> dom (ss_objs s) \<longrightarrow> j \<noteq> i \<longrightarrow> ss_objs s' j = ss_objs s j \<and> entry j s' = entry j s) \<and>
     (\<forall>j. j \<noteq> i \<longrightarrow> (j \<in> ss_user s' \<longleftrightarrow> j \<in> ss_user s)) \<and>
     (\<forall>k. distinct (jobs s' k)) \<and>
     (\<forall>k x. task_id x \<noteq> i \<longrightarrow> (x \<in> set (jobs s' k) \<longleftrightarrow> x \<in> set (jobs s k)))"

lemma base_loop_ids: "loop_ids s' = loop_ids s \<Longrightarrow> base s' = base s"
  by (simp add: loop_ids_def)

lemma life_only:
  assumes "only i s s'" "j \<noteq> i" "ss_objs s j = Some d" "life s j d p"
  shows "life s' j d p"
proof -
  have "base s' = base s" "loop_ids s' = loop_ids s" "entry j s' = entry j s"
    using assms(1-3) base_loop_ids [of s' s] by (auto simp: only_def)
  moreover have "(task_id x = j \<and> x \<in> set (jobs s' k)) = (task_id x = j \<and> x \<in> set (jobs s k))" for k x
    using assms(1,2) by (auto simp: only_def)
  ultimately show ?thesis using assms unfolding life_def only_def by simp
qed

lemma well_formed_only:
  assumes "well_formed s" "i \<in> dom (ss_objs s)" "only i s s'" "life s' i c p" "ss_objs s' i = Some c"
  shows "well_formed s'"
  unfolding well_formed_def
proof (intro conjI allI impI)
  have objs: "task_id x \<in> dom (ss_objs s)" if "x \<in> set (jobs s k)" for x k
    using assms(1) that unfolding well_formed_def sound_def by blast
  have "\<forall>k. \<forall>x\<in>set (jobs s' k). task_id x \<in> dom (ss_objs s)"
  proof (intro allI ballI)
    fix k x assume "x \<in> set (jobs s' k)"
    then show "task_id x \<in> dom (ss_objs s)"
      using objs [of x k] assms(2,3) unfolding only_def by (cases "task_id x = i") blast+
  qed
  moreover have "ss_user s' \<subseteq> dom (ss_objs s)"
  proof
    fix j assume "j \<in> ss_user s'"
    then show "j \<in> dom (ss_objs s)"
      using assms(1-3) unfolding well_formed_def sound_def only_def by (cases "j = i") blast+
  qed
  moreover have "\<forall>nm\<in>dom (connections (ss_srv s')). \<exists>i\<in>dom (ss_objs s). nm = conn_name (srv_name (ss_srv s)) i"
    using assms(1,3) unfolding well_formed_def sound_def only_def by blast
  ultimately show "sound s'" using assms(1,3) unfolding well_formed_def sound_def only_def by simp
  fix j d assume j: "ss_objs s' j = Some d"
  show "\<exists>q. life s' j d q"
  proof (cases "j = i")
    case True
    then show ?thesis using assms(4,5) j by auto
  next
    case False
    have "j \<in> dom (ss_objs s)" using j assms(3) unfolding only_def by blast
    then have "ss_objs s j = Some d" using assms(3) False j unfolding only_def by simp
    then show ?thesis using assms(1,3) False life_only unfolding well_formed_def by blast
  qed
qed

lemma well_formedD:
  assumes "well_formed s"
  shows "srv_inv (ss_srv s)" "nextConnId (ss_srv s) \<le> 2 ^ 31" "1 \<le> nextConnId (ss_srv s)"
    "dom (ss_objs s) = {1..<nextConnId (ss_srv s)}" "distinct (jobs s k)" "ss_owner s" "ss_gone s = {}"
  using assms by (simp_all add: well_formed_def sound_def srv_inv_def)

lemma entry_inject:
  assumes "well_formed s" "i \<in> dom (ss_objs s)" "j \<in> dom (ss_objs s)"
  shows "conn_name name i = conn_name name j \<longleftrightarrow> i = j"
  using well_formedD(2,4) [OF assms(1)] assms(2,3) by (intro conn_name_inject) auto

section \<open>Changes of one connection\<close>

lemma jobs_simps [simp]:
  "jobs (push l x s) k = (if k = l then jobs s k @ [x] else jobs s k)"
  "jobs (s\<lparr>ss_objs := os\<rparr>) k = jobs s k"
  "jobs (s\<lparr>ss_user := us\<rparr>) k = jobs s k"
  "jobs (s\<lparr>ss_srv := srv\<rparr>) k = jobs s k"
  by (simp_all add: jobs_def push_def)

lemma push_fields [simp]:
  "ss_srv (push l x s) = ss_srv s" "ss_owner (push l x s) = ss_owner s" "ss_gone (push l x s) = ss_gone s" "ss_objs (push l x s) = ss_objs s" "ss_user (push l x s) = ss_user s"
  "ss_todo (push l x s) = ss_todo s" "ss_done (push l x s) = ss_done s"
  "loop_ids (push l x s) = loop_ids s" "entry i (push l x s) = entry i s"
  by (simp_all add: push_def loop_ids_def entry_def)

lemma same_server [simp]:
  "loop_ids (s\<lparr>ss_objs := os\<rparr>) = loop_ids s" "entry i (s\<lparr>ss_objs := os\<rparr>) = entry i s"
  "loop_ids (s\<lparr>ss_user := us\<rparr>) = loop_ids s" "entry i (s\<lparr>ss_user := us\<rparr>) = entry i s"
  by (simp_all add: loop_ids_def entry_def)

lemma only_refl: "well_formed s \<Longrightarrow> only i s s"
  by (simp add: only_def well_formedD)

lemma only_objs:
  "only i r s \<Longrightarrow> i \<in> dom (ss_objs r) \<Longrightarrow> only i r (s\<lparr>ss_objs := (ss_objs s)(i \<mapsto> c)\<rparr>)"
  by (simp add: only_def insert_absorb)

lemma only_join: "only i r s \<Longrightarrow> only i r (s\<lparr>ss_user := insert i (ss_user s)\<rparr>)"
  by (simp add: only_def)

lemma only_leave: "only i r s \<Longrightarrow> only i r (s\<lparr>ss_user := ss_user s - {i}\<rparr>)"
  by (simp add: only_def)

lemma only_push:
  "only i r s \<Longrightarrow> x \<notin> set (jobs s l) \<Longrightarrow> task_id x = i \<Longrightarrow> only i r (push l x s)"
  by (auto simp: only_def)

lemma only_erase:
  assumes "only i r s" "well_formed r" "i \<in> dom (ss_objs r)"
  shows "only i r (s\<lparr>ss_srv := (ss_srv s)\<lparr>connections :=
    (connections (ss_srv s))(conn_name (srv_name (ss_srv s)) i := None)\<rparr>\<rparr>)" (is "only i r ?s")
proof -
  have "entry j ?s = entry j s" if "j \<in> dom (ss_objs r)" "j \<noteq> i" for j
    using entry_inject [OF assms(2) that(1) assms(3)] that(2) by (simp add: entry_def)
  then show ?thesis using assms(1) by (auto simp: only_def loop_ids_def srv_inv_def)
qed

lemma only_pop:
  assumes "only i r s" "ss_todo s l = x # xs" "task_id x = i"
  shows "only i r (s\<lparr>ss_todo := (ss_todo s)(l := xs), ss_done := d\<rparr>)" (is "only i r ?s")
proof -
  have split: "jobs s k = (if k = l then x # jobs ?s k else jobs ?s k)" for k
    using assms(2) by (simp add: jobs_def)
  moreover have "distinct (jobs s k)" for k using assms(1) by (simp add: only_def)
  ultimately have 1: "distinct (jobs ?s k)" "task_id y \<noteq> i \<Longrightarrow> y \<in> set (jobs ?s k) \<longleftrightarrow> y \<in> set (jobs s k)" for k y
    using assms(3) by (metis distinct.simps(2)) (metis set_ConsD list.set_intros(2) assms(3) split)
  have "loop_ids ?s = loop_ids s" "entry j ?s = entry j s" for j by (simp_all add: loop_ids_def entry_def)
  then show ?thesis using assms(1) 1 by (simp add: only_def)
qed

section \<open>Reactions\<close>

lemma well_formed_alive:
  assumes "life s i c p" "p \<noteq> Gone"
  shows "alive i s"
  using assms by (cases p) (simp_all add: life_def alive_def)

lemma react_links: "react t i es s = react t i (links es) s"
  by (induction es arbitrary: s rule: links.induct) (auto simp: bindE_def split: sum.splits)

definition safe :: "(ssys \<times> 'o) result \<Rightarrow> bool" where
  "safe r \<longleftrightarrow> (case r of Inl e \<Rightarrow> e = LengthError | Inr (s, os) \<Rightarrow> well_formed s)"

lemma safe_simps [simp]:
  "safe (Inl e) \<longleftrightarrow> e = LengthError"
  "safe (Inr (s, os)) \<longleftrightarrow> well_formed s"
  by (simp_all add: safe_def)

lemma conn_do_safe:
  assumes "ss_objs s i = Some c" "alive i s" "fares P ls c (conn_step opn c)"
    and "\<And>c'. P c' \<Longrightarrow> same_conn c c' \<Longrightarrow>
      \<exists>s'. react t i ls (s\<lparr>ss_objs := (ss_objs s)(i \<mapsto> c')\<rparr>) = Inr s' \<and> well_formed s'"
  shows "safe (conn_do t i opn s)"
proof (cases "conn_step opn c")
  case (Inl e)
  then show ?thesis using assms(1-3) by (simp add: conn_do_def use_conn_def fares_def)
next
  case (Inr r)
  obtain c' es where r: "r = (c', es)" by (cases r)
  then have "P c'" "same_conn c c'" and ls: "links es = ls" using assms(3) Inr by simp_all
  then obtain s' where "react t i ls (s\<lparr>ss_objs := (ss_objs s)(i \<mapsto> c')\<rparr>) = Inr s'" "well_formed s'"
    using assms(4) by blast
  then show ?thesis using assms(1,2) Inr r react_links [of t i es] by (simp add: conn_do_def use_conn_def ls)
qed

text \<open>Removing a connection that is in the map takes it out and queues its destruction.\<close>

lemma remove_in_loop_mapped:
  assumes "ss_owner s" "ss_objs s i = Some c" "entry i s = Some (i, l)"
  shows "remove_in_loop (base s) i s =
    Inr (push (c_tid c) (TDestroy i) (s\<lparr>ss_srv := (ss_srv s)\<lparr>connections :=
      (connections (ss_srv s))(conn_name (srv_name (ss_srv s)) i := None)\<rparr>\<rparr>))"
proof -
  have "alive i s" using assms(3) by (simp add: alive_def)
  then show ?thesis using assms
    by (simp add: remove_in_loop_def on_server_def use_conn_def removeConnectionInLoop_def entry_def)
qed

section \<open>Events, calls and functors\<close>

lemma lifeD:
  assumes "life s i c p"
  shows "shape p c" "c_tid c \<in> set (loop_ids s)"
    "\<And>k x. task_id x = i \<and> x \<in> set (jobs s k) \<longleftrightarrow> due p i (c_tid c) (base s) = Some (k, x)"
    "entry i s = (if mapped p then Some (i, c_tid c) else None)" "i \<in> ss_user s \<longleftrightarrow> held p"
  using assms by (simp_all add: life_def)

lemma registered_running:
  assumes "life s i c p" "registered (c_chan c) \<noteq> None"
  shows "p = Running"
proof (rule ccontr)
  assume "p \<noteq> Running"
  then have "ch_index (c_chan c) = kNew" using lifeD(1) [OF assms(1)]
    by (cases p) (simp_all add: fresh_def closing_def dead_def)
  then show False using assms(2) by (simp add: registered_def kNew_def kAdded_def)
qed

lemma same_phase:
  assumes "well_formed s" "ss_objs s i = Some c" "life s i c p" "shape p c'" "same_conn c c'"
  shows "well_formed (s\<lparr>ss_objs := (ss_objs s)(i \<mapsto> c')\<rparr>)" (is "well_formed ?s")
proof (rule well_formed_only [OF assms(1)])
  show "only i s ?s" by (rule only_objs [OF only_refl [OF assms(1)]]) (use assms(2) in auto)
  show "life ?s i c' p" using assms(3-5) by (simp add: life_def same_conn_def)
qed (use assms(2) in auto)

text \<open>A connection that closes is removed at once, in the base loop, or a removal is queued there.\<close>

lemma close_reported:
  assumes "well_formed s" "ss_objs s i = Some c" "life s i c Running" "closing c'" "same_conn c c'"
  shows "\<exists>s'. react (c_tid c) i ([ECloseCb] :: 'u conn_eff list) (s\<lparr>ss_objs := (ss_objs s)(i \<mapsto> c')\<rparr>) = Inr s' \<and> well_formed s'"
proof -
  let ?s1 = "s\<lparr>ss_objs := (ss_objs s)(i \<mapsto> c')\<rparr>"
  let ?s2 = "?s1\<lparr>ss_srv := (ss_srv ?s1)\<lparr>connections :=
      (connections (ss_srv ?s1))(conn_name (srv_name (ss_srv ?s1)) i := None)\<rparr>\<rparr>"
  note l = lifeD [OF assms(3)]
  have dom: "i \<in> dom (ss_objs s)" using assms(2) by auto
  have tid: "c_tid c' = c_tid c" using assms(5) by (simp add: same_conn_def)
  have owner: "ss_owner s" by (rule well_formedD(6) [OF assms(1)])
  have none: "x \<notin> set (jobs s k)" if "task_id x = i" for x k using l(3) [of x k] that by simp
  have only1: "only i s ?s1" by (rule only_objs [OF only_refl [OF assms(1)] dom])
  show ?thesis
  proof (cases "c_tid c = base s")
    case True
    let ?s' = "push (c_tid c) (TDestroy i) ?s2"
    have "only i s ?s'" by (rule only_push [OF only_erase [OF only1 assms(1) dom]]) (use none in simp_all)
    moreover have "life ?s' i c' Removed" using l none assms(4) True
      by (auto simp: life_def tid entry_def loop_ids_def)
    ultimately have "well_formed ?s'" by (rule well_formed_only [OF assms(1) dom]) simp
    moreover have "remove_in_loop (base ?s1) i ?s1 = Inr ?s'"
      using remove_in_loop_mapped [of ?s1 i c' "c_tid c"] l(4) tid owner by (simp add: fun_upd_def)
    ultimately show ?thesis using True owner by (simp add: remove_connection_def on_server_def)
  next
    case False
    let ?s' = "push (base s) (TRemove i) ?s1"
    have "only i s ?s'" by (rule only_push [OF only1]) (use none in simp_all)
    moreover have "life ?s' i c' Closed" using l none assms(4)
      by (auto simp: life_def tid)
    ultimately have "well_formed ?s'" by (rule well_formed_only [OF assms(1) dom]) simp
    then show ?thesis using False owner by (simp add: remove_connection_def on_server_def)
  qed
qed

lemma event_safe:
  assumes "well_formed s" "ss_objs s i = Some c" "registered (c_chan c) \<noteq> None" "event_ok revt env c"
  shows "safe (conn_do (c_tid c) i (Event revt env) s) \<or> closes_late c (conn_step (Event revt env) c) \<and>
    conn_do (c_tid c) i (Event revt env) s = Inl (Assertion ''state_ == kConnected'')"
proof -
  obtain p where "life s i c p" using assms(1,2) by (auto simp: well_formed_def)
  then have l: "life s i c Running" using registered_running assms(3) by blast
  have up: "still_open c" and alive: "alive i s" using lifeD(1) [OF l] well_formed_alive [OF l] by simp_all
  from event_fares [OF up assms(4)] consider
      (still) "fares still_open [] c (conn_step (Event revt env) c)"
    | (closed) "fares closing [ECloseCb] c (conn_step (Event revt env) c)"
    | (late) "closes_late c (conn_step (Event revt env) c)" by blast
  then show ?thesis
  proof cases
    case still
    have "safe (conn_do (c_tid c) i (Event revt env) s)"
      by (rule conn_do_safe [OF assms(2) alive still]) (use same_phase [OF assms(1,2) l] in simp)
    then show ?thesis ..
  next
    case closed
    have "safe (conn_do (c_tid c) i (Event revt env) s)"
      by (rule conn_do_safe [OF assms(2) alive closed]) (use close_reported [OF assms(1,2) l] in blast)
    then show ?thesis ..
  next
    case late
    then show ?thesis using assms(2) alive by (simp add: closes_late_def conn_do_def use_conn_def del: conn_step.simps)
  qed
qed

lemma call_safe:
  assumes "well_formed s" "ss_objs s i = Some c" "registered (c_chan c) \<noteq> None" "good_call call"
  shows "safe (call_conn (c_tid c) i call s)"
proof -
  obtain p where "life s i c p" using assms(1,2) by (auto simp: well_formed_def)
  then have l: "life s i c Running" using registered_running assms(3) by blast
  have fares: "fares still_open [] c (conn_step (Call (c_tid c) call) c)" and alive: "alive i s"
    using do_call_open [OF _ assms(4)] lifeD(1) [OF l] well_formed_alive [OF l] by simp_all
  have "safe (conn_do (c_tid c) i (Call (c_tid c) call) s)"
    by (rule conn_do_safe [OF assms(2) alive fares]) (use same_phase [OF assms(1,2) l] in simp)
  then show ?thesis using alive assms(2) well_formedD(7) [OF assms(1)] by (simp add: call_conn_def use_conn_def)
qed

section \<open>Running a functor\<close>

text \<open>The functor at the head of a loop's batch is the one that is due for its connection.\<close>

lemma head_due:
  assumes "well_formed s" "ss_todo s l = x # xs"
  shows "\<exists>i c p. task_id x = i \<and> ss_objs s i = Some c \<and> life s i c p \<and> due p i (c_tid c) (base s) = Some (l, x)"
proof -
  have x: "x \<in> set (jobs s l)" using assms(2) by (simp add: jobs_def)
  then have "task_id x \<in> dom (ss_objs s)" using assms(1) unfolding well_formed_def sound_def by blast
  then obtain c p where "ss_objs s (task_id x) = Some c" "life s (task_id x) c p"
    using assms(1) unfolding well_formed_def by blast
  then show ?thesis using lifeD(3) [of s "task_id x" c p x l] x by auto
qed

text \<open>After it has been taken out of the batch, nothing is due for the connection.\<close>

definition pop :: "int \<Rightarrow> stask \<Rightarrow> stask list \<Rightarrow> ssys \<Rightarrow> ssys" where
  "pop l x xs s = s\<lparr>ss_todo := (ss_todo s)(l := xs), ss_done := (ss_done s)(l := ss_done s l @ [x])\<rparr>"

lemma pop_fields [simp]:
  "ss_srv (pop l x xs s) = ss_srv s" "ss_owner (pop l x xs s) = ss_owner s" "ss_gone (pop l x xs s) = ss_gone s" "ss_objs (pop l x xs s) = ss_objs s" "ss_user (pop l x xs s) = ss_user s"
  "loop_ids (pop l x xs s) = loop_ids s" "entry i (pop l x xs s) = entry i s"
  by (simp_all add: pop_def loop_ids_def entry_def)

lemma pop_none:
  assumes "well_formed s" "ss_todo s l = x # xs" "life s i c p" "due p i (c_tid c) (base s) = Some (l, x)"
    "task_id y = i"
  shows "y \<notin> set (jobs (pop l x xs s) k)"
proof
  have split: "jobs s k = (if k = l then x # jobs (pop l x xs s) k else jobs (pop l x xs s) k)"
    using assms(2) by (simp add: jobs_def pop_def)
  assume y: "y \<in> set (jobs (pop l x xs s) k)"
  then have "y \<in> set (jobs s k)" using split by (cases "k = l") simp_all
  then have "k = l" "y = x" using lifeD(3) [OF assms(3), of y k] assms(4,5) by auto
  then show False using y split well_formedD(5) [OF assms(1), of k] by auto
qed

lemma only_popped:
  assumes "well_formed s" "ss_todo s l = x # xs" "task_id x = i"
  shows "only i s (pop l x xs s)"
  unfolding pop_def by (rule only_pop [OF only_refl [OF assms(1)] assms(2,3)])

text \<open>A connection is established and its user takes it.\<close>

lemma established:
  assumes "well_formed s" "i \<in> dom (ss_objs s)" "only i s s0" "ss_objs s0 i = Some c" "shape Queued c"
    "c_tid c \<in> set (loop_ids s0)" "entry i s0 = Some (i, c_tid c)" "\<And>y k. task_id y = i \<Longrightarrow> y \<notin> set (jobs s0 k)"
    "0 \<le> rc" "\<forall>call\<in>set calls. good_call call"
  shows "safe (loop_do (c_tid c) i (Establish rc calls) s0)"
proof -
  have alive: "alive i s0" using assms(7) by (simp add: alive_def)
  have "fares still_open [EConnectionCb True] c (conn_step (Establish rc calls) c)"
    by (rule establish_open) (use assms(5,9,10) in simp_all)
  then have "safe (conn_do (c_tid c) i (Establish rc calls) s0)"
  proof (rule conn_do_safe [OF assms(4) alive])
    fix c' assume c': "still_open c'" "same_conn c c'"
    let ?s1 = "s0\<lparr>ss_objs := (ss_objs s0)(i \<mapsto> c')\<rparr>"
    let ?s' = "?s1\<lparr>ss_user := insert i (ss_user ?s1)\<rparr>"
    have "only i s ?s'" by (intro only_join only_objs assms(2,3))
    moreover have "life ?s' i c' Running" using assms(6-8) c' by (auto simp: life_def same_conn_def)
    ultimately have "well_formed ?s'" by (rule well_formed_only [OF assms(1,2)]) simp
    then show "\<exists>s'. react (c_tid c) i [EConnectionCb True] ?s1 = Inr s' \<and> well_formed s'" by simp
  qed
  then show ?thesis using assms(4) alive by (simp add: loop_do_def use_conn_def)
qed

lemma run_establish_safe:
  assumes "well_formed s" "ss_todo s l = x # xs" "ss_objs s i = Some c" "life s i c Queued"
    "due Queued i (c_tid c) (base s) = Some (l, x)" "0 \<le> run_rc1 env" "\<forall>call\<in>set (run_calls env). good_call call"
  shows "safe (run_task l env x (pop l x xs s))"
proof -
  have x: "x = TEstablish i" "l = c_tid c" using assms(5) by simp_all
  have dom: "i \<in> dom (ss_objs s)" using assms(3) by auto
  have popped: "only i s (pop l x xs s)" by (rule only_popped [OF assms(1,2)]) (simp add: x)
  have "safe (loop_do (c_tid c) i (Establish (run_rc1 env) (run_calls env)) (pop l x xs s))"
    by (rule established [OF assms(1) dom popped _ _ _ _ pop_none [OF assms(1,2,4,5)] assms(6,7)])
      (use lifeD(1,2,4) [OF assms(4)] assms(3) in simp_all)
  then show ?thesis by (simp add: x)
qed

lemma run_remove_safe:
  fixes env :: "'u run_env"
  assumes "well_formed s" "ss_todo s l = x # xs" "ss_objs s i = Some c" "life s i c Closed"
    "due Closed i (c_tid c) (base s) = Some (l, x)"
  shows "safe (run_task l env x (pop l x xs s))"
proof -
  let ?s = "pop l x xs s"
  note L = lifeD [OF assms(4)] and none = pop_none [OF assms(1,2,4,5)]
  have x: "x = TRemove i" "l = base ?s" using assms(5) by simp_all
  have dom: "i \<in> dom (ss_objs s)" using assms(3) by auto
  have popped: "only i s ?s" by (rule only_popped [OF assms(1,2)]) (simp add: x)
  let ?s1 = "?s\<lparr>ss_srv := (ss_srv ?s)\<lparr>connections :=
    (connections (ss_srv ?s))(conn_name (srv_name (ss_srv ?s)) i := None)\<rparr>\<rparr>"
  let ?s' = "push (c_tid c) (TDestroy i) ?s1"
  have "only i s ?s'" by (rule only_push [OF only_erase [OF popped assms(1) dom]]) (use none in simp_all)
  moreover have "(task_id y = i \<and> y \<in> set (jobs ?s' k)) = (due Removed i (c_tid c) (base s) = Some (k, y))" for k y
    using none by auto
  then have "life ?s' i c Removed" using L(1,2,5) by (simp add: life_def entry_def loop_ids_def)
  ultimately have "well_formed ?s'" by (rule well_formed_only [OF assms(1) dom]) (simp add: assms(3))
  moreover have "remove_in_loop (base ?s) i ?s = Inr ?s'"
    by (rule remove_in_loop_mapped) (use L(4) assms(3) well_formedD(6) [OF assms(1)] in simp_all)
  moreover have "run_task l env x ?s = bindE (remove_in_loop (base ?s) i ?s) (\<lambda>s'. Inr (s', []))"
    using x(2) by (simp add: x(1))
  ultimately show ?thesis by simp
qed

lemma run_destroy_safe:
  assumes "well_formed s" "ss_todo s l = x # xs" "ss_objs s i = Some c" "life s i c Removed"
    "due Removed i (c_tid c) (base s) = Some (l, x)" "0 \<le> run_rc1 env"
  shows "safe (run_task l env x (pop l x xs s))"
proof -
  let ?s = "pop l x xs s"
  note L = lifeD [OF assms(4)] and none = pop_none [OF assms(1,2,4,5)]
  have x: "x = TDestroy i" "l = c_tid c" using assms(5) by simp_all
  have dom: "i \<in> dom (ss_objs s)" using assms(3) by auto
  have popped: "only i s ?s" by (rule only_popped [OF assms(1,2)]) (simp add: x)
  have obj: "ss_objs ?s i = Some c" and live: "alive i ?s" using L(5) assms(3) by (simp_all add: alive_def)
  have fares: "fares dead [EConnectionCb False] c (conn_step (Destroy (run_rc1 env) (run_rc2 env) (run_calls env)) c)"
    using destroy_fares L(1) assms(6) by simp
  have "safe (conn_do l i (Destroy (run_rc1 env) (run_rc2 env) (run_calls env)) ?s)"
  proof (rule conn_do_safe [OF obj live fares])
    fix c' assume c': "dead c'" "same_conn c c'"
    let ?s1 = "?s\<lparr>ss_objs := (ss_objs ?s)(i \<mapsto> c')\<rparr>"
    let ?s' = "?s1\<lparr>ss_user := ss_user ?s1 - {i}\<rparr>"
    have "only i s ?s'" by (intro only_leave only_objs popped dom)
    moreover have "life ?s' i c' Gone" using L(2,4,5) none c' by (simp add: life_def same_conn_def)
    ultimately have "well_formed ?s'" by (rule well_formed_only [OF assms(1) dom]) simp
    then show "\<exists>s'. react l i [EConnectionCb False] ?s1 = Inr s' \<and> well_formed s'" by simp
  qed
  then show ?thesis using obj live x by (simp add: loop_do_def use_conn_def)
qed

lemma run_task_safe:
  assumes "well_formed s" "ss_todo s l = x # xs" "0 \<le> run_rc1 env" "\<forall>call\<in>set (run_calls env). good_call call"
  shows "safe (run_task l env x (pop l x xs s))"
proof -
  obtain i c p where i: "ss_objs s i = Some c" "life s i c p" and d: "due p i (c_tid c) (base s) = Some (l, x)"
    using head_due [OF assms(1,2)] by blast
  show ?thesis
  proof (cases p)
    case Queued
    then show ?thesis using run_establish_safe [OF assms(1,2) i(1)] i(2) d assms(3,4) by blast
  next
    case Closed
    then show ?thesis using run_remove_safe [OF assms(1,2) i(1)] i(2) d by blast
  next
    case Removed
    then show ?thesis using run_destroy_safe [OF assms(1,2) i(1)] i(2) d assms(3) by blast
  qed (use d in simp_all)
qed

section \<open>Accepting\<close>

lemma newConnection_ok:
  assumes "srv_inv srv"
  shows "\<exists>l p. newConnection (srv_tid srv) srv =
      Inr (srv\<lparr>nextConnId := nextConnId srv + 1, threadPool := p,
             connections := (connections srv)(conn_name (srv_name srv) (nextConnId srv) \<mapsto> (nextConnId srv, l))\<rparr>,
           [Establish_in l (nextConnId srv) (conn_name (srv_name srv) (nextConnId srv))]) \<and>
    pool_ok p \<and> loops p = loops (threadPool srv) \<and> baseLoop p = srv_tid srv \<and>
    l \<in> set (srv_tid srv # loops (threadPool srv))"
proof -
  obtain l p where lp: "getNextLoop (srv_tid srv) (threadPool srv) = Inr (l, p)"
      "pool_ok p" "loops p = loops (threadPool srv)" "baseLoop p = srv_tid srv" "l \<in> set (srv_tid srv # loops (threadPool srv))"
    using getNextLoop_ok [of "threadPool srv"] assms by (auto simp: srv_inv_def)
  then show ?thesis
    by (intro exI [of _ l] exI [of _ p]) (simp add: newConnection_def Let_def)
qed

text \<open>The state in which a new connection is in the map and has an object, and nothing is due.\<close>

definition admitted :: "int \<Rightarrow> int \<Rightarrow> pool \<Rightarrow> ssys \<Rightarrow> ssys" where
  "admitted fd l p s =
     (let srv = ss_srv s; i = nextConnId srv; nm = conn_name (srv_name srv) i in
      s\<lparr>ss_srv := srv\<lparr>nextConnId := i + 1, threadPool := p, connections := (connections srv)(nm \<mapsto> (i, l))\<rparr>,
        ss_objs := (ss_objs s)(i \<mapsto> fresh_conn l nm fd)\<rparr>)"

lemma admitted_fields [simp]:
  "ss_user (admitted fd l p s) = ss_user s" "ss_owner (admitted fd l p s) = ss_owner s"
  "ss_gone (admitted fd l p s) = ss_gone s" "jobs (admitted fd l p s) k = jobs s k"
  "ss_objs (admitted fd l p s) = (ss_objs s)(nextConnId (ss_srv s) \<mapsto>
     fresh_conn l (conn_name (srv_name (ss_srv s)) (nextConnId (ss_srv s))) fd)"
  "base (admitted fd l p s) = base s"
  by (simp_all add: admitted_def Let_def jobs_def)

lemma admitted_server:
  "loops p = loops (threadPool (ss_srv s)) \<Longrightarrow> loop_ids (admitted fd l p s) = loop_ids s"
  "entry j (admitted fd l p s) =
     (if conn_name (srv_name (ss_srv s)) j = conn_name (srv_name (ss_srv s)) (nextConnId (ss_srv s))
      then Some (nextConnId (ss_srv s), l) else entry j s)"
  by (simp_all add: admitted_def Let_def loop_ids_def entry_def)

lemma admitted_queued:
  assumes "well_formed s" "nextConnId (ss_srv s) < 2 ^ 31" "pool_ok p" "loops p = loops (threadPool (ss_srv s))"
    "baseLoop p = base s" "l \<in> set (loop_ids s)"
  shows "well_formed (push l (TEstablish (nextConnId (ss_srv s))) (admitted fd l p s))" (is "well_formed ?s'")
proof -
  let ?i = "nextConnId (ss_srv s)" and ?nm = "srv_name (ss_srv s)"
  note W = well_formedD [OF assms(1)]
  have sound: "sound s" using assms(1) by (simp add: well_formed_def)
  have new: "?i \<notin> dom (ss_objs s)" "?i \<notin> ss_user s" using sound W(4) unfolding sound_def by fastforce+
  have ids: "task_id x \<in> dom (ss_objs s)" if "x \<in> set (jobs s k)" for x k
    using sound that unfolding sound_def by blast
  have fresh_id: "task_id x \<noteq> ?i" if "x \<in> set (jobs s k)" for x k using ids [OF that] new(1) by metis
  have names: "conn_name ?nm j = conn_name ?nm ?i \<longleftrightarrow> j = ?i" if "j \<in> dom (ss_objs s) \<or> j = ?i" for j
    using that W(2,3,4) by (intro conn_name_inject) auto
  have dom': "dom (ss_objs ?s') = insert ?i (dom (ss_objs s))" by simp
  have range: "insert ?i (dom (ss_objs s)) = {1..<?i + 1}" using W(3) unfolding W(4) by auto
  have srv': "ss_srv ?s' = (ss_srv s)\<lparr>nextConnId := ?i + 1, threadPool := p,
      connections := (connections (ss_srv s))(conn_name ?nm ?i \<mapsto> (?i, l))\<rparr>"
    by (simp add: admitted_def Let_def)
  have jobs': "set (jobs ?s' k) = set (jobs s k) \<union> (if k = l then {TEstablish ?i} else {})" for k by simp
  have "sound ?s'"
    unfolding sound_def
  proof (intro conjI)
    show "ss_owner ?s'" "ss_gone ?s' = {}" using W(6,7) by simp_all
    show "srv_inv (ss_srv ?s')" using assms(3,5) W(3) by (simp add: srv' srv_inv_def del: push_fields)
    show "nextConnId (ss_srv ?s') \<le> 2 ^ 31" using assms(2) by (simp add: srv' del: push_fields)
    show "dom (ss_objs ?s') = {1..<nextConnId (ss_srv ?s')}" unfolding dom' range srv' by simp
    show "\<forall>k. distinct (jobs ?s' k)" using W(5) fresh_id by force
    show "\<forall>k. \<forall>x\<in>set (jobs ?s' k). task_id x \<in> dom (ss_objs ?s')"
      unfolding jobs' dom' using ids by auto
    show "ss_user ?s' \<subseteq> dom (ss_objs ?s')" unfolding dom' using sound by (auto simp: sound_def)
    show "\<forall>nm\<in>dom (connections (ss_srv ?s')). \<exists>i\<in>dom (ss_objs ?s'). nm = conn_name (srv_name (ss_srv ?s')) i"
    proof
      fix nm assume "nm \<in> dom (connections (ss_srv ?s'))"
      then consider "nm = conn_name ?nm ?i" | "nm \<in> dom (connections (ss_srv s))" unfolding srv' by auto
      then have "\<exists>i\<in>insert ?i (dom (ss_objs s)). nm = conn_name ?nm i"
        using sound unfolding sound_def by cases blast+
      then show "\<exists>i\<in>dom (ss_objs ?s'). nm = conn_name (srv_name (ss_srv ?s')) i"
        unfolding dom' srv' by simp
    qed
  qed
  moreover have "\<exists>q. life ?s' j d q" if d: "ss_objs ?s' j = Some d" for j d
  proof (cases "j = ?i")
    case True
    then have "d = fresh_conn l (conn_name ?nm ?i) fd" using d by simp
    then have "shape Queued d" "c_tid d = l" using fresh_fresh_conn by (simp_all add: conn_evals)
    then have "life ?s' j d Queued" using True new(2) assms(6) fresh_id
      by (auto simp: life_def admitted_server assms(4))
    then show ?thesis ..
  next
    case False
    then have "ss_objs s j = Some d" using d by simp
    moreover from this obtain q where q: "life s j d q" using assms(1) unfolding well_formed_def by blast
    ultimately have "entry j ?s' = entry j s" using names [of j] False by (auto simp: admitted_server)
    then have "life ?s' j d q" using q False unfolding life_def
      by (auto simp: admitted_server assms(4))
    then show ?thesis ..
  qed
  ultimately show ?thesis by (simp add: well_formed_def)
qed

lemma accept_safe:
  assumes "well_formed s" "nextConnId (ss_srv s) < 2 ^ 31" "0 \<le> rc" "\<forall>call\<in>set calls. good_call call"
  shows "safe (accept_conn connfd rc calls s)"
proof (cases "Acceptor_handleRead connfd (srv_acceptor (ss_srv s))")
  case (NewConnection fd)
  let ?i = "nextConnId (ss_srv s)"
  let ?nm = "conn_name (srv_name (ss_srv s)) ?i"
  obtain l p where new: "newConnection (base s) (ss_srv s) =
      Inr ((ss_srv s)\<lparr>nextConnId := ?i + 1, threadPool := p, connections := (connections (ss_srv s))(?nm \<mapsto> (?i, l))\<rparr>,
           [Establish_in l ?i ?nm])"
    and p: "pool_ok p" "loops p = loops (threadPool (ss_srv s))" "baseLoop p = base s" "l \<in> set (loop_ids s)"
    using newConnection_ok [OF well_formedD(1) [OF assms(1)]] unfolding loop_ids_def by blast
  let ?a = "admitted fd l p s"
  let ?q = "push l (TEstablish ?i) ?a"
  have q: "well_formed ?q" by (rule admitted_queued [OF assms(1,2) p])
  have run: "accept_conn connfd rc calls s =
      (if l = base s then loop_do l ?i (Establish rc calls) ?a else Inr (?q, []))"
    using NewConnection new by (simp add: accept_conn_def admitted_def Let_def)
  show ?thesis
  proof (cases "l = base s")
    case False
    then show ?thesis using run q by simp
  next
    case True
    let ?c = "fresh_conn l ?nm fd"
    have c: "c_tid ?c = l" "shape Queued ?c" using fresh_fresh_conn by (simp_all add: conn_evals)
    have ids: "task_id x \<noteq> ?i" if "x \<in> set (jobs s k)" for x k
    proof -
      have "task_id x \<in> {1..<?i}"
        using assms(1) that unfolding well_formed_def sound_def by blast
      then show ?thesis by simp
    qed
    have "distinct (jobs ?a k)" for k using well_formedD(5) [OF assms(1)] by simp
    then have only: "only ?i ?q ?a" using well_formedD(1) [OF q] by (auto simp: only_def)
    have "safe (loop_do (c_tid ?c) ?i (Establish rc calls) ?a)"
      by (rule established [OF q _ only _ c(2) _ _ _ assms(3,4)])
        (use c(1) p(2,4) ids in \<open>auto simp: admitted_server\<close>)
    then show ?thesis using run True c(1) by simp
  qed
qed (simp_all add: accept_conn_def assms(1))

section \<open>Every step\<close>

text \<open>
  What the server relies on, step by step: fewer than 2 to the 31 connections are accepted; the
  kernel answers as for \<open>event_ok\<close> and accepts the registrations; user code calls a connection
  that is still registered from the thread of its loop.
\<close>

fun lab_ok :: "'u ss_label \<Rightarrow> ssys \<Rightarrow> bool" where
  "lab_ok (SAccept connfd rc calls) s \<longleftrightarrow>
     nextConnId (ss_srv s) < 2 ^ 31 \<and> 0 \<le> rc \<and> (\<forall>call\<in>set calls. good_call call)"
| "lab_ok (SEvent i revt env) s \<longleftrightarrow>
     (case ss_objs s i of None \<Rightarrow> True | Some c \<Rightarrow> event_ok revt env c)"
| "lab_ok (SCall t i call) s \<longleftrightarrow>
     (case ss_objs s i of None \<Rightarrow> True
      | Some c \<Rightarrow> t = c_tid c \<and> registered (c_chan c) \<noteq> None \<and> good_call call)"
| "lab_ok (SRun l env) s \<longleftrightarrow> 0 \<le> run_rc1 env \<and> (\<forall>call\<in>set (run_calls env). good_call call)"
| "lab_ok (SSwap l) s \<longleftrightarrow> True"
| "lab_ok (SEnd l) s \<longleftrightarrow> True"

fun labs_ok :: "'u ss_label list \<Rightarrow> ssys \<Rightarrow> bool" where
  "labs_ok [] s \<longleftrightarrow> True"
| "labs_ok (lab # labs) s \<longleftrightarrow> lab_ok lab s \<and>
     (case ss_step lab s of Inl f \<Rightarrow> True | Inr (s', es) \<Rightarrow> labs_ok labs s')"

text \<open>Moving functors from one list of a loop to the other, or dropping those that have run.\<close>

lemma well_formed_jobs:
  assumes "well_formed s" "\<And>k. jobs s' k = jobs s k" "ss_srv s' = ss_srv s" "ss_objs s' = ss_objs s" "ss_user s' = ss_user s"
    "ss_owner s' = ss_owner s" "ss_gone s' = ss_gone s"
  shows "well_formed s'"
  using assms(1) unfolding well_formed_def sound_def life_def loop_ids_def entry_def assms(2-7) .

text \<open>The one step that may fail an assert: an event that closes a connection that was shut down.\<close>

definition shut_then_closed :: "'u ss_label \<Rightarrow> ssys \<Rightarrow> bool" where
  "shut_then_closed lab s \<longleftrightarrow> (\<exists>i revt env c. lab = SEvent i revt env \<and> ss_objs s i = Some c \<and> c_state c = kDisconnected)"

lemma step_safe:
  assumes "well_formed s" "lab_ok lab s"
  shows "safe (ss_step lab s) \<or> shut_then_closed lab s \<and> ss_step lab s = Inl (Assertion ''state_ == kConnected'')"
proof (cases lab)
  case (SAccept connfd rc calls)
  then show ?thesis using accept_safe [OF assms(1), of rc calls connfd] assms by auto
next
  case (SEvent i revt env)
  then show ?thesis using event_safe [OF assms(1), of i _ revt env] assms
    by (cases "ss_objs s i") (auto simp: closes_late_def shut_then_closed_def simp del: conn_step.simps)
next
  case (SCall t i call)
  have "i \<in> dom (ss_objs s)" if "i \<in> ss_user s" using assms(1) that unfolding well_formed_def sound_def by blast
  then show ?thesis using SCall call_safe [OF assms(1), of i _ call] assms
    by (cases "ss_objs s i") auto
next
  case (SSwap l)
  then show ?thesis using assms(1) by (auto simp: jobs_def intro!: well_formed_jobs [OF assms(1)])
next
  case (SRun l env)
  then show ?thesis using run_task_safe [OF assms(1), of l] assms by (auto simp: pop_def split: list.splits)
next
  case (SEnd l)
  then show ?thesis using assms(1) by (auto simp: jobs_def intro!: well_formed_jobs [OF assms(1)])
qed

lemma init_well_formed:
  assumes "srv_inv srv" "connections srv = Map.empty" "nextConnId srv = 1"
  shows "well_formed (ss_init srv)"
  using assms by (simp add: well_formed_def sound_def ss_init_def jobs_def)

text \<open>The server as a monitored machine.\<close>

interpretation ssm: monitor ss_step "\<lambda>_ :: unit. well_formed" "\<lambda>_ s labs. labs_ok labs s" "\<lambda>_ g. g"
  "\<lambda>_ f. f \<in> {LengthError, Assertion ''state_ == kConnected''}" "\<lambda>_. True"
proof unfold_locales
  fix s and lab :: "'u ss_label" and labs s' os f
  assume ok: "well_formed s" "labs_ok (lab # labs) s"
  note safe = step_safe [OF ok(1), of lab]
  show "well_formed s' \<and> labs_ok labs s' \<and> list_all (\<lambda>_. True) os"
    if "ss_step lab s = Inr (s', os)" using safe ok(2) that by (simp add: list_all_iff)
  show "f \<in> {LengthError, Assertion ''state_ == kConnected''}" if "ss_step lab s = Inl f" using safe ok(2) that by auto
qed

lemma labs_ok_append:
  "run_steps ss_step labs s = Inr (s', es) \<Longrightarrow> labs_ok (labs @ labs') s \<longleftrightarrow> labs_ok labs s \<and> labs_ok labs' s'"
  by (induction labs arbitrary: s es) auto

lemma ss_run_keeps: "well_formed s \<Longrightarrow> labs_ok labs s \<Longrightarrow> run_steps ss_step labs s = Inr (s', es) \<Longrightarrow> well_formed s'"
  using ssm.run_Inr by blast

text \<open>A run that stops does so at a full vector, or where such an event comes.\<close>

lemma ss_run_stops:
  assumes "well_formed s" "labs_ok labs s" "run_steps ss_step labs s = Inl f"
  shows "f = LengthError \<or> f = Assertion ''state_ == kConnected'' \<and>
    (\<exists>labs1 lab labs2 s1 es. labs = labs1 @ lab # labs2 \<and> run_steps ss_step labs1 s = Inr (s1, es) \<and>
       shut_then_closed lab s1)"
proof -
  obtain labs1 lab labs2 s1 es where 1: "labs = labs1 @ lab # labs2" "run_steps ss_step labs1 s = Inr (s1, es)"
      "ss_step lab s1 = Inl f"
    using run_steps_Inl [OF assms(3)] by blast
  have "labs_ok labs1 s" "lab_ok lab s1" using assms(2) labs_ok_append [OF 1(2), of "lab # labs2"] 1(1) by simp_all
  then have "safe (ss_step lab s1) \<or> shut_then_closed lab s1 \<and> ss_step lab s1 = Inl (Assertion ''state_ == kConnected'')"
    using step_safe [OF ss_run_keeps [OF assms(1) _ 1(2)]] by blast
  then show ?thesis using 1 by auto
qed

end
