(* ===== verification/ServerProgress.thy ===== *)
theory ServerProgress
  imports ServerSafety
begin

text \<open>
  A server from its construction on: every run of its steps is safe, the functors of its loops come
  to an end, and then every closed connection has been destroyed. Last, the one use that the safety
  theorem leaves out: sending on a connection from another thread.
\<close>

section \<open>The functors come to an end\<close>

fun weight :: "stask \<Rightarrow> nat" where
  "weight (TRemove i) = 2"
| "weight _ = 1"

definition work :: "ssys \<Rightarrow> nat" where
  "work s = (\<Sum>l\<in>set (loop_ids s). sum_list (map weight (jobs s l)))"

lemma work_cong: "loop_ids s' = loop_ids s \<Longrightarrow> (\<And>k. jobs s' k = jobs s k) \<Longrightarrow> work s' = work s"
  by (simp add: work_def)

lemma work_change:
  assumes "loop_ids s' = loop_ids s" "l \<in> set (loop_ids s)" "\<And>k. k \<noteq> l \<Longrightarrow> jobs s' k = jobs s k"
    "sum_list (map weight (jobs s l)) = n + m" "sum_list (map weight (jobs s' l)) = m"
  shows "work s = work s' + n"
  using assms sum.remove [of "set (loop_ids s)" l "\<lambda>l. sum_list (map weight (jobs s l))"]
    sum.remove [of "set (loop_ids s)" l "\<lambda>l. sum_list (map weight (jobs s' l))"]
  by (simp add: work_def)

lemma work_pop: "ss_todo s l = x # xs \<Longrightarrow> l \<in> set (loop_ids s) \<Longrightarrow> work s = work (pop l x xs s) + weight x"
  by (rule work_change [of _ _ l]) (simp_all add: jobs_def pop_def loop_ids_def)

lemma work_push: "l \<in> set (loop_ids s) \<Longrightarrow> work (push l x s) = work s + weight x"
  by (rule work_change [of _ _ l]) simp_all

text \<open>A connection that has closed stays closed.\<close>

definition over :: "int \<Rightarrow> ssys \<Rightarrow> bool" where
  "over i s \<longleftrightarrow> (\<exists>c. ss_objs s i = Some c \<and> (closing c \<or> dead c))"

lemma over_only:
  assumes "only i s s'" "over i s \<longrightarrow> over i s'" "over j s"
  shows "over j s'"
  using assms by (cases "j = i") (auto simp: only_def over_def)

text \<open>The next functor of a loop, when the kernel answers it and its user calls nothing.\<close>

definition quiet :: "'u run_env" where
  "quiet = \<lparr>run_rc1 = 0, run_rc2 = 0, run_write = WriteFail 0, run_calls = []\<rparr>"

lemma quiet_ok [simp]: "lab_ok (SRun l quiet) s" "run_calls quiet = []" "run_rc1 quiet = 0"
  by (simp_all add: quiet_def)

lemma conn_do_Inr:
  assumes "ss_objs s i = Some c" "alive i s" "fares P [EConnectionCb on] c (conn_step opn c)"
    "conn_step opn c \<noteq> Inl LengthError"
  shows "\<exists>c' es. P c' \<and> conn_do t i opn s =
    Inr (s\<lparr>ss_objs := (ss_objs s)(i \<mapsto> c'),
           ss_user := (if on then insert i (ss_user s) else ss_user s - {i})\<rparr>, es)"
proof -
  obtain c' es where "conn_step opn c = Inr (c', es)" "P c'" "links es = [EConnectionCb on]"
    using assms(3,4) by (auto simp: fares_def)
  then show ?thesis using assms(1,2) react_links [of t i es]
    by (intro exI [of _ c'] exI [of _ "map (Pair i) es"]) (simp add: conn_do_def use_conn_def)
qed

text \<open>A loop that runs its next functor has less to do.\<close>

lemma run_progress:
  assumes "well_formed s" "ss_todo s l = x # xs"
  shows "\<exists>s' es. ss_step (SRun l (quiet :: 'u run_env)) s = Inr (s', es) \<and> work s' < work s \<and>
    (\<forall>j. over j s \<longrightarrow> over j s')"
proof -
  let ?s = "pop l x xs s" and ?env = "quiet :: 'u run_env"
  have step: "ss_step (SRun l ?env) s = run_task l ?env x ?s"
    using assms(2) well_formedD(7) [OF assms(1)] by (simp add: pop_def)
  obtain i c p where i: "task_id x = i" "ss_objs s i = Some c" and l: "life s i c p"
      and d: "due p i (c_tid c) (base s) = Some (l, x)"
    using head_due [OF assms] by blast
  note L = lifeD [OF l]
  have loop: "l \<in> set (loop_ids s)" using L(2) d by (cases p) (auto simp: loop_ids_def)
  have work: "work s = work ?s + weight x" by (rule work_pop [OF assms(2) loop])
  have popped: "only i s ?s" by (rule only_popped [OF assms i(1)])
  have obj: "ss_objs ?s i = Some c" and alive: "alive i ?s" using i(2) L(4,5) d
    by (cases p; simp add: alive_def)+
  have same_work: "work (?s\<lparr>ss_objs := os, ss_user := us\<rparr>) = work ?s" for os us by (rule work_cong) simp_all
  have keeps: "over j s'" if "only i s s'" "over i s \<longrightarrow> over i s'" "over j s" for s' j
    using over_only [OF that] .
  have dom: "i \<in> dom (ss_objs s)" using i(2) by auto
  show ?thesis
  proof (cases p)
    case Queued
    then have x: "x = TEstablish i" "l = c_tid c" using d by simp_all
    have "fares up [EConnectionCb True] c (conn_step (Establish 0 []) c)"
      using establish_fares [of c 0 "[]"] L(1) Queued by simp
    from conn_do_Inr [OF obj alive this establish_quiet] obtain c' and es :: "(int \<times> 'u conn_eff) list" where
        run: "conn_do l i (Establish 0 []) ?s = Inr (?s\<lparr>ss_objs := (ss_objs ?s)(i \<mapsto> c'),
           ss_user := insert i (ss_user ?s)\<rparr>, es)" (is "_ = Inr (?s', es)") by simp blast
    have "only i s ?s'" using only_join [OF only_objs [OF popped dom]] by simp
    moreover have "\<not> over i s" using L(1) Queued i(2) by (auto simp: over_def fresh_def closing_def dead_def)
    ultimately have "\<forall>j. over j s \<longrightarrow> over j ?s'" using keeps by blast
    moreover have "ss_step (SRun l ?env) s = Inr (?s', es)"
      using run obj alive x step by (simp add: loop_do_def use_conn_def)
    ultimately show ?thesis using work same_work x(1) by auto
  next
    case Closed
    then have x: "x = TRemove i" "l = base ?s" using d by simp_all
    let ?s1 = "?s\<lparr>ss_srv := (ss_srv ?s)\<lparr>connections :=
      (connections (ss_srv ?s))(conn_name (srv_name (ss_srv ?s)) i := None)\<rparr>\<rparr>"
    let ?s' = "push (c_tid c) (TDestroy i) ?s1"
    have "remove_in_loop (base ?s) i ?s = Inr ?s'"
      by (rule remove_in_loop_mapped) (use i(2) L(4) Closed well_formedD(6) [OF assms(1)] in simp_all)
    then have "ss_step (SRun l ?env) s = Inr (?s', [])" unfolding step x(1) run_task.simps using x(2) by simp
    moreover have "work ?s' = work ?s + 1"
      using work_push [of "c_tid c" ?s1 "TDestroy i"] work_cong [of ?s1 ?s] L(2) by (simp add: loop_ids_def)
    moreover have "ss_objs ?s' = ss_objs s" by simp
    then have "\<forall>j. over j s \<longrightarrow> over j ?s'" by (simp add: over_def)
    moreover have "work ?s' < work s" using work x(1) \<open>work ?s' = work ?s + 1\<close> by simp
    ultimately show ?thesis by blast
  next
    case Removed
    then have x: "x = TDestroy i" "l = c_tid c" using d by simp_all
    have c: "closing c" using L(1) Removed by simp
    from conn_do_Inr [OF obj alive destroy_fares [OF c] destroy_quiet [OF c]]
    obtain c' and es :: "(int \<times> 'u conn_eff) list" where
        run: "conn_do l i (Destroy 0 0 []) ?s = Inr (?s\<lparr>ss_objs := (ss_objs ?s)(i \<mapsto> c'),
           ss_user := ss_user ?s - {i}\<rparr>, es)" (is "_ = Inr (?s', es)") and "dead c'" by fastforce
    have "only i s ?s'" using only_leave [OF only_objs [OF popped dom]] by simp
    moreover have "over i ?s'" using \<open>dead c'\<close> by (simp add: over_def)
    ultimately have "\<forall>j. over j s \<longrightarrow> over j ?s'" using keeps by blast
    moreover have "ss_step (SRun l ?env) s = Inr (?s', es)"
      using run obj alive x step by (simp add: loop_do_def use_conn_def quiet_def)
    ultimately show ?thesis using work same_work x(1) by auto
  qed (use d in simp_all)
qed

text \<open>A sequence of steps that only loops take.\<close>

fun loop_label :: "'u ss_label \<Rightarrow> bool" where
  "loop_label (SSwap l) = True"
| "loop_label (SRun l env) = True"
| "loop_label (SEnd l) = True"
| "loop_label _ = False"

definition idle :: "ssys \<Rightarrow> bool" where
  "idle s \<longleftrightarrow> (\<forall>l\<in>set (loop_ids s). ss_todo s l = [] \<and> ss_pending s l = [])"

lemma busy_progress:
  assumes "well_formed s" "\<not> idle s"
  shows "\<exists>labs s' es. list_all loop_label labs \<and> labs_ok labs s \<and>
    run_steps ss_step (labs :: 'u ss_label list) s = Inr (s', es) \<and> work s' < work s \<and>
    (\<forall>j. over j s \<longrightarrow> over j s')"
proof -
  obtain l where l: "ss_todo s l \<noteq> [] \<or> ss_pending s l \<noteq> []" using assms(2) by (auto simp: idle_def)
  show ?thesis
  proof (cases "ss_todo s l")
    case (Cons x xs)
    obtain s' and es :: "(int \<times> 'u conn_eff) list" where
        "ss_step (SRun l quiet) s = Inr (s', es)" "work s' < work s" "\<forall>j. over j s \<longrightarrow> over j s'"
      using run_progress [OF assms(1) Cons] by blast
    then show ?thesis by (intro exI [of _ "[SRun l quiet]"] exI [of _ s'] exI [of _ es]) simp
  next
    case Nil
    let ?s1 = "s\<lparr>ss_done := (ss_done s)(l := [])\<rparr>"
    let ?s2 = "?s1\<lparr>ss_todo := (ss_todo s)(l := ss_pending s l), ss_pending := (ss_pending s)(l := [])\<rparr>"
    obtain x xs where x: "ss_pending s l = x # xs" using l Nil by (cases "ss_pending s l") auto
    have jobs: "jobs ?s2 k = jobs s k" for k using Nil by (simp add: jobs_def)
    have w: "well_formed ?s2" by (rule well_formed_jobs [OF assms(1) jobs]) simp_all
    have gone: "ss_gone s = {}" by (rule well_formedD(7) [OF assms(1)])
    have same: "work ?s2 = work s" "over j ?s2 = over j s" for j
      by (rule work_cong [OF _ jobs]) (simp_all add: loop_ids_def over_def)
    obtain s' and es :: "(int \<times> 'u conn_eff) list" where
        "ss_step (SRun l quiet) ?s2 = Inr (s', es)" "work s' < work s" "\<forall>j. over j s \<longrightarrow> over j s'"
      using run_progress [OF w, of l x xs] x same by auto
    then show ?thesis using Nil gone
      by (intro exI [of _ "[SEnd l, SSwap l, SRun l quiet]"] exI [of _ s'] exI [of _ es]) simp
  qed
qed

lemma drained:
  assumes "well_formed s"
  shows "\<exists>labs s' es. list_all loop_label labs \<and> labs_ok labs s \<and>
    run_steps ss_step (labs :: 'u ss_label list) s = Inr (s', es) \<and> idle s' \<and> (\<forall>j. over j s \<longrightarrow> over j s')"
  using assms
proof (induction "work s" arbitrary: s rule: less_induct)
  case less
  show ?case
  proof (cases "idle s")
    case True
    then show ?thesis by (intro exI [of _ "[]"] exI [of _ s] exI [of _ "[]"]) simp
  next
    case False
    obtain labs s1 and es :: "(int \<times> 'u conn_eff) list" where
        1: "list_all loop_label labs" "labs_ok labs s" "run_steps ss_step labs s = Inr (s1, es)"
          "work s1 < work s" "\<forall>j. over j s \<longrightarrow> over j s1"
      using busy_progress [OF less.prems False, where ?'u = 'u] by blast
    have "well_formed s1" using ss_run_keeps [OF less.prems 1(2,3)] .
    from less.hyps [OF 1(4) this] obtain labs' s' and es' :: "(int \<times> 'u conn_eff) list" where
        2: "list_all loop_label labs'" "labs_ok labs' s1" "run_steps ss_step labs' s1 = Inr (s', es')"
          "idle s'" "\<forall>j. over j s1 \<longrightarrow> over j s'"
      by blast
    then show ?thesis using 1 2
      by (intro exI [of _ "labs @ labs'"] exI [of _ s'] exI [of _ "es @ es'"])
        (simp add: run_steps_append labs_ok_append [OF 1(3)])
  qed
qed

text \<open>When no functor is due, every connection is still open, or destroyed and forgotten.\<close>

lemma idle_settled:
  assumes "well_formed s" "idle s" "ss_objs s i = Some c"
  shows "still_open c \<and> entry i s = Some (i, c_tid c) \<and> i \<in> ss_user s \<or> dead c \<and> entry i s = None \<and> i \<notin> ss_user s"
proof -
  obtain p where p: "life s i c p" using assms(1,3) unfolding well_formed_def by blast
  note L = lifeD [OF p]
  have none: "jobs s l = []" if "l \<in> set (loop_ids s)" for l
    using assms(2) that unfolding idle_def jobs_def by simp
  have "due p i (c_tid c) (base s) = None"
  proof (rule ccontr)
    assume "due p i (c_tid c) (base s) \<noteq> None"
    then obtain k x where "due p i (c_tid c) (base s) = Some (k, x)" by auto
    moreover from this have "k \<in> set (loop_ids s)" using L(2) by (cases p) (auto simp: loop_ids_def)
    ultimately show False using L(3) [of x k] none by auto
  qed
  then show ?thesis using L(1,4,5) by (cases p) simp_all
qed

text \<open>When the batches have been dropped too, nothing holds a destroyed connection any more.\<close>

lemma end_batches:
  assumes "idle s" "set ls \<subseteq> set (loop_ids s)"
  shows "\<exists>es. run_steps ss_step (map SEnd ls :: 'u ss_label list) s =
      Inr (s\<lparr>ss_done := (\<lambda>l. if l \<in> set ls then [] else ss_done s l)\<rparr>, es)"
  using assms
proof (induction ls arbitrary: s)
  case (Cons l ls)
  let ?s1 = "s\<lparr>ss_done := (ss_done s)(l := [])\<rparr>"
  have step: "ss_step (SEnd l :: 'u ss_label) s = Inr (?s1, [])" using Cons.prems by (simp add: idle_def)
  have "idle ?s1" "loop_ids ?s1 = loop_ids s" using Cons.prems by (simp_all add: idle_def loop_ids_def)
  then obtain es :: "(int \<times> 'u conn_eff) list" where "run_steps ss_step (map SEnd ls) ?s1 =
      Inr (?s1\<lparr>ss_done := (\<lambda>k. if k \<in> set ls then [] else ss_done ?s1 k)\<rparr>, es)"
    using Cons.IH [of ?s1] Cons.prems(2) by auto
  moreover have "(\<lambda>k. if k \<in> set ls then [] else ss_done ?s1 k) = (\<lambda>k. if k \<in> set (l # ls) then [] else ss_done s k)"
    by auto
  ultimately show ?case using step by simp
qed simp

lemma idle_released:
  assumes "idle s" "\<forall>l\<in>set (loop_ids s). ss_done s l = []" "entry i s = None" "i \<notin> ss_user s"
  shows "\<not> alive i s"
  using assms by (auto simp: alive_def idle_def list_ex_iff)

lemma drained_released:
  assumes "well_formed s"
  shows "\<exists>labs s' es. list_all loop_label labs \<and> labs_ok labs s \<and>
    run_steps ss_step (labs :: 'u ss_label list) s = Inr (s', es) \<and> well_formed s' \<and> idle s' \<and>
    (\<forall>l\<in>set (loop_ids s'). ss_done s' l = []) \<and> (\<forall>j. over j s \<longrightarrow> over j s')"
proof -
  obtain labs s1 and es1 :: "(int \<times> 'u conn_eff) list" where 1: "list_all loop_label labs" "labs_ok labs s"
      "run_steps ss_step labs s = Inr (s1, es1)" "idle s1" "\<forall>j. over j s \<longrightarrow> over j s1"
    using drained [OF assms, where ?'u = 'u] by blast
  let ?ends = "map SEnd (loop_ids s1) :: 'u ss_label list"
  let ?s' = "s1\<lparr>ss_done := (\<lambda>l. if l \<in> set (loop_ids s1) then [] else ss_done s1 l)\<rparr>"
  obtain es2 :: "(int \<times> 'u conn_eff) list" where 2: "run_steps ss_step ?ends s1 = Inr (?s', es2)"
    using end_batches [OF 1(4) subset_refl] by blast
  have ends: "list_all loop_label ?ends" "labs_ok (map SEnd ls :: 'u ss_label list) x" for ls x
  proof -
    show "list_all loop_label ?ends" by (simp add: list_all_iff)
    show "labs_ok (map SEnd ls :: 'u ss_label list) x" by (induction ls arbitrary: x) (auto split: if_splits)
  qed
  have run: "run_steps ss_step (labs @ ?ends) s = Inr (?s', es1 @ es2)"
    using 1(3) 2 by (simp add: run_steps_append)
  have ok: "labs_ok (labs @ ?ends) s" using labs_ok_append [OF 1(3)] 1(2) ends(2) by simp
  have "well_formed ?s'" using ss_run_keeps [OF assms ok run] .
  moreover have "idle ?s'" "\<forall>l\<in>set (loop_ids ?s'). ss_done ?s' l = []" "over j ?s' = over j s1" for j
    using 1(4) by (simp_all add: idle_def loop_ids_def over_def)
  ultimately show ?thesis using 1(1,5) ends(1) run ok by (intro exI [of _ "labs @ ?ends"]) auto
qed

section \<open>The server's guarantees\<close>

text \<open>A server as its owner makes it: constructed, told the number of its threads, and started.\<close>

definition serve :: "int \<Rightarrow> string \<Rightarrow> int \<Rightarrow> int \<Rightarrow> (nat \<Rightarrow> int) \<Rightarrow> int \<Rightarrow> (server \<times> start_eff list) result" where
  "serve tid listenAddr fd n started rc =
     bindE (setThreadNum n (TcpServer_new tid listenAddr fd)) (TcpServer_start tid started rc)"

lemma serve_ok:
  assumes "serve tid listenAddr fd n started rc = Inr (srv, cs)"
  shows "well_formed (ss_init srv)"
proof (rule init_well_formed)
  let ?s = "TcpServer_new tid listenAddr fd"
  have "\<exists>p a. srv = ?s\<lparr>srv_started := True, threadPool := p, srv_acceptor := a\<rparr> \<and> pool_ok p \<and> baseLoop p = tid"
    using assms unfolding serve_def
    by (auto simp: setThreadNum_def TcpServer_start_def pool_start_def pool_setThreadNum_def pool_inLoop_def
        EventLoopThreadPool_new_def TcpServer_new_def pool_ok_def Acceptor_new_def)
  then show "srv_inv srv" "connections srv = Map.empty" "nextConnId srv = 1"
    by (auto simp: srv_inv_def TcpServer_new_def)
qed

lemma demo_serve:
  "serve 7 ''a:1'' 3 1 (\<lambda>_. 8) 0 = Inr ((TcpServer_new 7 ''a:1'' 3)\<lparr>srv_started := True,
     threadPool := \<lparr>baseLoop = 7, pool_started = True, numThreads = 1, next_loop = 0, loops = [8]\<rparr>,
     srv_acceptor := \<lparr>a_chan = (Channel_new 3)\<lparr>readCb := True, events := kReadEvent, ch_index := kAdded\<rparr>,
       a_hasCallback = True, a_listenning = True\<rparr>\<rparr>, [StartCtl (Ctl EPOLL_CTL_ADD 3 kReadEvent)])"
  by (simp add: serve_def setThreadNum_def TcpServer_start_def TcpServer_new_def pool_start_def pool_setThreadNum_def
      pool_inLoop_def EventLoopThreadPool_new_def Acceptor_new_def Acceptor_listen_def Channel_new_def
      enableReading_def updateChannel_def update_def kNoneEvent_def kNew_def kAdded_def Let_def)


text \<open>A connection is accepted, established in the loop 8, closed by its peer, and removed.\<close>

definition demo_env :: "unit event_env" where
  "demo_env = \<lparr>env_read = ReadFail 11, env_msg = (\<lambda>b. Inr (b, [])), env_write = WriteFail 11,
     env_rcClose = 0, env_rcRead = 0, env_rcWrite = 0\<rparr>"

definition demo_labels :: "unit ss_label list" where
  "demo_labels =
     [SAccept 5 0 [], SSwap 8, SRun 8 quiet, SEvent 1 POLLHUP demo_env, SEnd 8, SSwap 7, SRun 7 quiet, SEnd 7]"

lemmas demo_evals = demo_labels_def demo_env_def ss_init_def accept_conn_def newConnection_def getNextLoop_def
  pool_inLoop_def Acceptor_handleRead_def conn_do_def loop_do_def use_conn_def alive_def entry_def loop_ids_def push_def
  remove_connection_def remove_in_loop_def on_server_def call_conn_def connected_def removeConnectionInLoop_def conn_evals Let_def quiet_def
  handleClose_def TcpServer_new_def poll_bits registered_def

lemma demo_run:
  assumes "serve 7 ''a:1'' 3 1 (\<lambda>_. 8) 0 = Inr (srv, cs)"
  shows "\<exists>s es c. run_steps ss_step demo_labels (ss_init srv) = Inr (s, es) \<and> ss_objs s 1 = Some c \<and> c_tid c = 8 \<and>
    ss_gone s = {} \<and> ss_todo s 8 = [] \<and> ss_pending s 8 = [TDestroy 1] \<and> (\<forall>l. ss_done s l = [])"
  using assms unfolding demo_serve
  by (clarsimp simp: demo_evals)

lemma demo_ok:
  assumes "serve 7 ''a:1'' 3 1 (\<lambda>_. 8) 0 = Inr (srv, cs)"
  shows "labs_ok demo_labels (ss_init srv)"
  using assms unfolding demo_serve
  by (clarsimp simp: demo_evals)
    (simp add: event_ok_def good_env_def polite_def good_callback_def demo_evals readv_data_def max_size_def)




text \<open>C16: Nothing is lost track of. From any state a server used as above, in the same environment, can reach, shutdowns included, the loops by
  themselves have a sequence of steps that runs all their functors; after it each connection that was ever accepted is
  either still open (up, or shut down and not closed by its peer yet), in the server's map under its own name and held by
  its user, or destroyed, out of the map and released, and every connection that had closed before is destroyed.\<close>

theorem closed_connections_destroyed:
  assumes "serve tid listenAddr fd n started rc = Inr (srv, cs)"
    "labs_ok labs (ss_init srv)" "run_steps ss_step (labs :: 'u ss_label list) (ss_init srv) = Inr (s, es)"
  shows "\<exists>more s' es'. list_all loop_label more \<and> run_steps ss_step (more :: 'u ss_label list) s = Inr (s', es') \<and> idle s' \<and>
    (\<forall>i c. ss_objs s' i = Some c \<longrightarrow>
       still_open c \<and> entry i s' = Some (i, c_tid c) \<and> i \<in> ss_user s' \<or> dead c \<and> entry i s' = None \<and> i \<notin> ss_user s' \<and> \<not> alive i s') \<and>
    (\<forall>i c. ss_objs s i = Some c \<longrightarrow> closing c \<longrightarrow> (\<exists>c'. ss_objs s' i = Some c' \<and> dead c'))"
proof -
  have w: "well_formed s" by (rule ss_run_keeps [OF serve_ok [OF assms(1)] assms(2,3)])
  obtain more s' and es' :: "(int \<times> 'u conn_eff) list" where more: "list_all loop_label more"
      "run_steps ss_step more s = Inr (s', es')" "well_formed s'" "idle s'"
      "\<forall>l\<in>set (loop_ids s'). ss_done s' l = []" "\<forall>j. over j s \<longrightarrow> over j s'"
    using drained_released [OF w, where ?'u = 'u] by blast
  have "\<exists>c'. ss_objs s' i = Some c' \<and> dead c'" if "ss_objs s i = Some c" "closing c" for i c
  proof -
    have "over i s'" using more(6) that unfolding over_def by blast
    then obtain c' where c': "ss_objs s' i = Some c'" "closing c' \<or> dead c'" unfolding over_def by blast
    moreover have "\<not> still_open c'" using c'(2) open_index by (fastforce simp: closing_def dead_def)
    ultimately show ?thesis using idle_settled [OF more(3,4) c'(1)] by blast
  qed
  then show ?thesis using more(1,2,4) idle_settled [OF more(3,4)] idle_released [OF more(4,5)] by blast
qed

theorem closed_connections_destroyed_witness:
  "\<exists>srv cs s es c s' c'. serve 7 ''a:1'' 3 1 (\<lambda>_. 8) 0 = Inr (srv, cs) \<and>
     run_steps ss_step demo_labels (ss_init srv) = Inr (s, es) \<and> ss_objs s 1 = Some c \<and> closing c \<and>
     (\<exists>more es'. run_steps ss_step (more :: unit ss_label list) s = Inr (s', es') \<and> ss_objs s' 1 = Some c' \<and> dead c')"
proof -
  obtain srv cs where serve: "serve 7 ''a:1'' 3 1 (\<lambda>_. 8) 0 = Inr (srv, cs)" unfolding demo_serve by blast
  obtain s es c where run: "run_steps ss_step demo_labels (ss_init srv) = Inr (s, es)" "ss_objs s 1 = Some c"
      "c_tid c = 8" "ss_pending s 8 = [TDestroy 1]"
    using demo_run [OF serve] by blast
  have w: "well_formed s" by (rule ss_run_keeps [OF serve_ok [OF serve] demo_ok [OF serve] run(1)])
  then obtain p where p: "life s 1 c p" using run(2) unfolding well_formed_def by blast
  have "p = Removed" using lifeD(3) [OF p, of "TDestroy 1" 8] run(3,4) by (cases p) (auto simp: jobs_def)
  then have "closing c" using lifeD(1) [OF p] by simp
  then show ?thesis
    using closed_connections_destroyed [OF serve demo_ok [OF serve] run(1)] serve run(1,2) by blast
qed

text \<open>C33: Sending from another thread can use a connection that has been destroyed. \<open>send\<close> binds the
  raw pointer \<open>this\<close> in the functor it queues. When the loop of a closed connection has swapped out
  the functor that destroys it, a thread that still holds the connection may send: the state is still
  \<open>kConnected\<close>, so the functor is queued, and the loop runs it after the last shared pointer is gone.
  This holds in every state the server can reach that has such a batch, for every message.\<close>

theorem cross_thread_send_dangles:
  assumes "serve tid listenAddr fd n started rc = Inr (srv, cs)"
    "labs_ok labs (ss_init srv)" "run_steps ss_step (labs :: 'u ss_label list) (ss_init srv) = Inr (s, es)"
    "ss_objs s i = Some c" "ss_todo s (c_tid c) = [TDestroy i]" "ss_pending s (c_tid c) = []"
    "\<forall>l. ss_done s l = []" "t \<noteq> c_tid c"
  shows "run_steps ss_step ([SCall t i (CallSend w rc' m), SRun (c_tid c) quiet, SEnd (c_tid c), SSwap (c_tid c),
    SRun (c_tid c) env] :: 'u ss_label list) s = Inl (BadAccess ''TcpConnection'')"
proof -
  let ?l = "c_tid c"
  have w: "well_formed s" by (rule ss_run_keeps [OF serve_ok [OF assms(1)] assms(2,3)])
  then obtain p where p: "life s i c p" using assms(4) unfolding well_formed_def by blast
  note L = lifeD [OF p]
  have "TDestroy i \<in> set (jobs s ?l)" using assms(5) by (simp add: jobs_def)
  then have rem: "p = Removed" using L(3) [of "TDestroy i" ?l] by (cases p) simp_all
  have c: "closing c" "i \<in> ss_user s" "entry i s = None" using L(1,4,5) rem by simp_all
  have user: "alive i s" using c(2) by (simp add: alive_def)
  have gone: "ss_gone s = {}" by (rule well_formedD(7) [OF w])
  let ?s1 = "push ?l (TConn i (TaskSend m)) s"
  let ?s2 = "pop ?l (TDestroy i) [] ?s1"
  have s1: "ss_step (SCall t i (CallSend w rc' m) :: 'u ss_label) s = Inr (?s1, [(i, EQueue (TaskSend m))])"
  proof -
    have "c_state c = kConnected" using c(1) by (simp add: closing_def)
    moreover have "s\<lparr>ss_objs := (ss_objs s)(i \<mapsto> c)\<rparr> = s" using assms(4) by (simp add: fun_upd_idem)
    ultimately show ?thesis using c(2) user assms(4,8) gone
      by (simp add: call_conn_def conn_do_def use_conn_def send_def)
  qed
  have obj: "ss_objs ?s2 i = Some c" "alive i ?s2" using assms(4) c(2) by (simp_all add: alive_def)
  obtain c' and es2 :: "(int \<times> 'u conn_eff) list" where
      "conn_do ?l i (Destroy 0 0 []) ?s2 = Inr (?s2\<lparr>ss_objs := (ss_objs ?s2)(i \<mapsto> c'), ss_user := ss_user ?s2 - {i}\<rparr>, es2)"
      (is "_ = Inr (?s3, es2)")
    using conn_do_Inr [OF obj destroy_fares [OF c(1)] destroy_quiet [OF c(1)]] by simp blast
  then have s2: "ss_step (SRun ?l (quiet :: 'u run_env)) ?s1 = Inr (?s3, es2)"
    using assms(5) obj gone by (simp add: pop_def loop_do_def use_conn_def quiet_def)
  let ?s4 = "?s3\<lparr>ss_done := (ss_done s)(?l := [])\<rparr>"
  let ?s5 = "?s4\<lparr>ss_todo := (ss_todo s)(?l := [TConn i (TaskSend m)]), ss_pending := (ss_pending s)(?l := [])\<rparr>"
  let ?s6 = "pop ?l (TConn i (TaskSend m)) [] ?s5"
  have s45: "ss_step (SEnd ?l :: 'u ss_label) ?s3 = Inr (?s4, [])" "ss_step (SSwap ?l :: 'u ss_label) ?s4 = Inr (?s5, [])"
    using assms(6) gone by (simp_all add: pop_def push_def)
  have other: "\<not> holds i x" if "x \<in> set (jobs s k)" "k \<noteq> ?l" for x k
    using L(3) [of x k] that rem by (cases "(i, x)" rule: holds.cases) auto
  have "\<not> alive i ?s6"
    using c(3) assms(7) other by (auto simp: alive_def pop_def push_def list_ex_iff jobs_def entry_def loop_ids_def)
  then have "use_conn i ?s6 = Inl (BadAccess ''TcpConnection'')"
    by (simp add: use_conn_def split: option.splits)
  then have "ss_step (SRun ?l env) ?s5 = Inl (BadAccess ''TcpConnection'')"
    using gone by (simp add: pop_def loop_do_def)
  then show ?thesis by (simp only: run_steps.simps s1 s2 s45 bindE_simps prod.case)
qed

theorem cross_thread_send_dangles_witness:
  "\<exists>srv cs s es env. serve 7 ''a:1'' 3 1 (\<lambda>_. 8) 0 = Inr (srv, cs) \<and>
     run_steps ss_step (demo_labels @ [SSwap 8]) (ss_init srv) = Inr (s, es) \<and>
     run_steps ss_step ([SCall 9 1 (CallSend (WriteFail 11) 0 [65]), SRun 8 quiet, SEnd 8, SSwap 8, SRun 8 env] :: unit ss_label list) s =
       Inl (BadAccess ''TcpConnection'')"
proof -
  obtain srv cs where serve: "serve 7 ''a:1'' 3 1 (\<lambda>_. 8) 0 = Inr (srv, cs)" unfolding demo_serve by blast
  obtain s0 es0 c where run: "run_steps ss_step demo_labels (ss_init srv) = Inr (s0, es0)" "ss_objs s0 1 = Some c"
      "c_tid c = 8" "ss_gone s0 = {}" "ss_todo s0 8 = []" "ss_pending s0 8 = [TDestroy 1]" "\<forall>l. ss_done s0 l = []"
    using demo_run [OF serve] by blast
  let ?s = "s0\<lparr>ss_todo := (ss_todo s0)(8 := [TDestroy 1]), ss_pending := (ss_pending s0)(8 := [])\<rparr>"
  have ok: "labs_ok (demo_labels @ [SSwap 8]) (ss_init srv)"
    using demo_ok [OF serve] labs_ok_append [OF run(1)] by simp
  have run': "run_steps ss_step (demo_labels @ [SSwap 8]) (ss_init srv) = Inr (?s, es0)"
    using run by (simp add: run_steps_append)
  have "run_steps ss_step ([SCall 9 1 (CallSend (WriteFail 11) 0 [65]), SRun (c_tid c) quiet, SEnd (c_tid c), SSwap (c_tid c),
      SRun (c_tid c) quiet] :: unit ss_label list) ?s = Inl (BadAccess ''TcpConnection'')"
    by (rule cross_thread_send_dangles [OF serve ok run']) (use run in simp_all)
  then show ?thesis using serve run' unfolding run(3) by blast
qed


end
