(* ===== verification/ServerDestroy.thy ===== *)
theory ServerDestroy
  imports ServerProgress
begin

text \<open>
  The end of a server (src/net/TcpServer.cpp, src/net/EventLoopThreadPool.cc). The destructors are
  empty: the members are destroyed, first the map of connections, then the pool, whose threads quit
  their loops and are joined, then the acceptor with its socket. The connections that the user holds
  go on living, with their callbacks bound to the server and, in the loops of the pool, with a pointer
  to a loop that is gone. The steps before and after are those of the theory ServerSystem, which asks in each
  whether the server and the loop it uses exist.
\<close>

section \<open>Operations\<close>

definition EventLoopThreadPool_delete :: "pool \<Rightarrow> pool" where
  "EventLoopThreadPool_delete p = p\<lparr>loops := []\<rparr>"

text \<open>The loops of the pool are destroyed with the functors still queued in them.\<close>

definition TcpServer_delete :: "ssys \<Rightarrow> ssys" where
  "TcpServer_delete s =
     (let p = threadPool (ss_srv s); gone = set (loops p);
          kept = (\<lambda>q l. if l \<in> gone then [] else q l) in
      s\<lparr>ss_srv := (ss_srv s)\<lparr>connections := Map.empty, threadPool := EventLoopThreadPool_delete p\<rparr>,
        ss_owner := False, ss_gone := gone,
        ss_pending := kept (ss_pending s), ss_todo := kept (ss_todo s), ss_done := kept (ss_done s)\<rparr>)"

section \<open>What is left of the connections\<close>

abbreviation pool_loops :: "ssys \<Rightarrow> int set" where
  "pool_loops s \<equiv> set (loops (threadPool (ss_srv s)))"

lemma delete_simps [simp]:
  "ss_objs (TcpServer_delete s) = ss_objs s" "ss_user (TcpServer_delete s) = ss_user s"
  "base (TcpServer_delete s) = base s" "\<not> ss_owner (TcpServer_delete s)" "ss_gone (TcpServer_delete s) = pool_loops s"
  "l \<notin> pool_loops s \<Longrightarrow> ss_todo (TcpServer_delete s) l = ss_todo s l"
  "set (jobs (TcpServer_delete s) k) \<subseteq> set (jobs s k)"
  by (auto simp: TcpServer_delete_def jobs_def Let_def)

lemma held_alive: "i \<in> ss_user s \<Longrightarrow> alive i s"
  by (simp add: alive_def)

lemma close_links: "ECloseCb \<in> set es \<Longrightarrow> ECloseCb \<in> set (links es)"
  by (induction es rule: links.induct) auto

text \<open>A connection that closes when its server is gone calls it.\<close>

lemma close_calls_server:
  assumes "still_open c" "event_ok revt env c" "conn_step (Event revt env) c = Inr (c', es)" "ECloseCb \<in> set es"
    and "ss_objs s i = Some c" "alive i s" "\<not> ss_owner s" "registered (c_chan c) \<noteq> None" "c_tid c \<notin> ss_gone s"
  shows "ss_step (SEvent i revt env) s = Inl (BadAccess ''TcpServer'')"
proof -
  have "links es = [ECloseCb]"
    using event_fares [OF assms(1,2)] close_links [OF assms(4)] unfolding assms(3) by (auto simp: closes_late_def)
  then have "react (c_tid c) i es s1 = remove_connection (c_tid c) i s1" for s1
    using react_links [of "c_tid c" i es] by (cases "remove_connection (c_tid c) i s1") simp_all
  then show ?thesis using assms(3,5-9)
    by (simp add: conn_do_def use_conn_def remove_connection_def on_server_def del: conn_step.simps)
qed

text \<open>C35: Destroying a server leaves its connections behind. Take any state a started server can reach, and a
  connection that is still open there. As long as the server exists no step of the server used in turn touches a destroyed object. After the
  destructor the user still holds the connection, and nothing is queued that would ever tell him that it is down.
  If the connection lives in the base loop, each event that closes it makes it call the destroyed server; if it lives in a loop of the pool
  and is up, sending on it asks a loop that is gone; and if the base loop still has a removal to run, that runs on the
  destroyed server.\<close>

theorem server_destroy_dangles:
  assumes "serve tid listenAddr fd n started rc = Inr (srv, cs)"
    "labs_ok labs (ss_init srv)" "run_steps ss_step (labs :: 'u ss_label list) (ss_init srv) = Inr (s, es)"
    "ss_objs s i = Some c" "registered (c_chan c) \<noteq> None"
  shows "(\<forall>(lab :: 'u ss_label) msg. lab_ok lab s \<longrightarrow> ss_step lab s \<noteq> Inl (BadAccess msg)) \<and>
    i \<in> ss_user (TcpServer_delete s) \<and> (\<forall>k. TDestroy i \<notin> set (jobs (TcpServer_delete s) k)) \<and>
    (c_tid c \<notin> pool_loops s \<and> event_ok revt env c \<and> conn_step (Event revt env) c = Inr (c', es') \<and> ECloseCb \<in> set es' \<longrightarrow>
       ss_step (SEvent i revt env :: 'u ss_label) (TcpServer_delete s) = Inl (BadAccess ''TcpServer'')) \<and>
    (c_tid c \<in> pool_loops s \<and> connected c \<longrightarrow>
       ss_step (SCall t i (CallSend w rc' m) :: 'u ss_label) (TcpServer_delete s) = Inl (BadAccess ''EventLoop'')) \<and>
    (base s \<notin> pool_loops s \<and> ss_todo s (base s) = TRemove j # xs \<longrightarrow>
       ss_step (SRun (base s) renv :: 'u ss_label) (TcpServer_delete s) = Inl (BadAccess ''TcpServer''))"
proof -
  let ?d = "TcpServer_delete s"
  have w: "well_formed s" by (rule ss_run_keeps [OF serve_ok [OF assms(1)] assms(2,3)])
  then obtain p where p: "life s i c p" using assms(4) unfolding well_formed_def by blast
  have run: "p = Running" by (rule registered_running [OF p assms(5)])
  note L = lifeD [OF p]
  have user: "i \<in> ss_user s" and opn: "still_open c" using L(1,5) run by simp_all
  have live: "alive i ?d" using user by (simp add: held_alive)
  have "TDestroy i \<notin> set (jobs s k)" for k using L(3) [of "TDestroy i" k] run by simp
  then have jobs: "\<forall>k. TDestroy i \<notin> set (jobs ?d k)" using delete_simps(7) by blast
  have before: "\<forall>(lab :: 'u ss_label) msg. lab_ok lab s \<longrightarrow> ss_step lab s \<noteq> Inl (BadAccess msg)"
    using step_safe [OF w] by fastforce
  have closes: "ss_step (SEvent i revt env :: 'u ss_label) ?d = Inl (BadAccess ''TcpServer'')"
    if "c_tid c \<notin> pool_loops s \<and> event_ok revt env c \<and> conn_step (Event revt env) c = Inr (c', es') \<and> ECloseCb \<in> set es'"
    by (rule close_calls_server [OF opn, where c' = c' and es = es']) (use that live assms(4,5) in simp_all)
  have sends: "ss_step (SCall t i (CallSend w rc' m) :: 'u ss_label) ?d = Inl (BadAccess ''EventLoop'')"
    if "c_tid c \<in> pool_loops s \<and> connected c"
    using that user live assms(4) by (simp add: call_conn_def use_conn_def)
  have removes: "ss_step (SRun (base s) renv :: 'u ss_label) ?d = Inl (BadAccess ''TcpServer'')"
    if "base s \<notin> pool_loops s \<and> ss_todo s (base s) = TRemove j # xs"
    using that by (simp add: remove_in_loop_def on_server_def)
  show ?thesis using before user jobs closes sends removes by simp
qed

text \<open>A server without threads whose peer hangs up.\<close>

lemmas destroy_evals = demo_evals serve_def setThreadNum_def TcpServer_start_def pool_start_def pool_setThreadNum_def
  EventLoopThreadPool_new_def Acceptor_new_def Acceptor_listen_def Channel_new_def enableReading_def
  updateChannel_def update_def kNoneEvent_def kNew_def kAdded_def

lemma hangup_ok: "event_ok POLLHUP demo_env c"
proof -
  have "writes_fit t demo_env cbs d" for t cbs d
    by (induction cbs arbitrary: d) (auto simp: demo_env_def split: sum.split)
  then show ?thesis
    by (simp add: event_ok_def good_env_def polite_def good_callback_def demo_env_def readv_data_def max_size_def poll_bits Let_def)
qed

theorem server_destroy_dangles_witness:
  "\<exists>srv cs s es. serve 7 ''a:1'' 3 0 (\<lambda>_. 8) 0 = Inr (srv, cs) \<and>
     run_steps ss_step ([SAccept 5 0 []] :: unit ss_label list) (ss_init srv) = Inr (s, es) \<and>
     (\<exists>s1 es1. ss_step (SEvent 1 POLLHUP demo_env) s = Inr (s1, es1)) \<and>
     ss_step (SEvent 1 POLLHUP demo_env) (TcpServer_delete s) = Inl (BadAccess ''TcpServer'')"
proof -
  let ?labs = "[SAccept 5 0 []] :: unit ss_label list"
  obtain srv cs where serve: "serve 7 ''a:1'' 3 0 (\<lambda>_. 8) 0 = Inr (srv, cs)" by (simp add: destroy_evals)
  have ok: "labs_ok ?labs (ss_init srv)" using serve by (auto simp: destroy_evals)
  have "\<exists>s es c c' es'. run_steps ss_step ?labs (ss_init srv) = Inr (s, es) \<and> ss_objs s 1 = Some c \<and>
      registered (c_chan c) \<noteq> None \<and> c_tid c \<notin> pool_loops s \<and>
      conn_step (Event POLLHUP demo_env) c = Inr (c', es') \<and> ECloseCb \<in> set es' \<and>
      (\<exists>s1 es1. ss_step (SEvent 1 POLLHUP (demo_env :: unit event_env)) s = Inr (s1, es1))"
    using serve by (auto simp: destroy_evals)
  then obtain s es c c' es' where run: "run_steps ss_step ?labs (ss_init srv) = Inr (s, es)" "ss_objs s 1 = Some c"
      "registered (c_chan c) \<noteq> None" and
      ev: "c_tid c \<notin> pool_loops s" "conn_step (Event POLLHUP demo_env) c = Inr (c', es')" "ECloseCb \<in> set es'" and
      before: "\<exists>s1 es1. ss_step (SEvent 1 POLLHUP (demo_env :: unit event_env)) s = Inr (s1, es1)"
    by blast
  have "event_ok POLLHUP demo_env c" by (rule hangup_ok)
  with ev have "c_tid c \<notin> pool_loops s \<and> event_ok POLLHUP demo_env c \<and>
      conn_step (Event POLLHUP demo_env) c = Inr (c', es') \<and> ECloseCb \<in> set es'" by blast
  from server_destroy_dangles [OF serve ok run, THEN conjunct2, THEN conjunct2, THEN conjunct2, THEN conjunct1, THEN mp, OF this]
  show ?thesis using serve run(1) before by blast
qed

end
