(* ===== verification/InetAddress.thy ===== *)
theory InetAddress
  imports LogStream
begin

text \<open>
  IPv4 socket addresses (include/net/InetAddress.h, src/net/InetAddress.cpp). A
  \<open>struct sockaddr_in\<close> holds its address and its port as bytes in network order. The functions
  of the C library that convert between addresses and text are written out: \<open>inet_ntop\<close>
  gives the dotted quad; \<open>inet_pton\<close> accepts four decimal fields from 0 to 255 without leading
  zeros and leaves its target alone when it fails. Error logging is output.
\<close>

section \<open>Dotted quads\<close>

fun inet_ntop :: "byte list \<Rightarrow> string" where
  "inet_ntop [a, b, c, d] =
     dec (unat a) @ ''.'' @ dec (unat b) @ ''.'' @ dec (unat c) @ ''.'' @ dec (unat d)"
| "inet_ntop _ = ''INVALID''"

fun splitBy :: "char \<Rightarrow> string \<Rightarrow> string list" where
  "splitBy sep [] = [[]]"
| "splitBy sep (c # cs) =
     (if c = sep then [] # splitBy sep cs
      else (case splitBy sep cs of f # fs \<Rightarrow> (c # f) # fs | [] \<Rightarrow> [[c]]))"

definition is_digit :: "char \<Rightarrow> bool" where
  "is_digit c \<longleftrightarrow> c \<in> set ''0123456789''"

definition octet :: "string \<Rightarrow> byte option" where
  "octet s =
     (if s \<noteq> [] \<and> length s \<le> 3 \<and> list_all is_digit s \<and> (hd s = CHR ''0'' \<longrightarrow> length s = 1) \<and>
         parse_in 10 s \<le> 255
      then Some (of_nat (parse_in 10 s)) else None)"

fun octets :: "string list \<Rightarrow> byte list option" where
  "octets [] = Some []"
| "octets (f # fs) =
     (case (octet f, octets fs) of (Some b, Some bs) \<Rightarrow> Some (b # bs) | _ \<Rightarrow> None)"

definition inet_pton :: "string \<Rightarrow> byte list option" where
  "inet_pton s = (let fs = splitBy (CHR ''.'') s in if length fs = 4 then octets fs else None)"

section \<open>Addresses\<close>

definition AF_INET :: u16 where "AF_INET = 2"
definition kInaddrAny :: u32 where "kInaddrAny = 0"

record inet =
  sin_family :: u16
  sin_port :: "byte list"
  sin_addr :: "byte list"

definition inet_bzero :: inet where
  "inet_bzero = \<lparr>sin_family = 0, sin_port = [0, 0], sin_addr = [0, 0, 0, 0]\<rparr>"

definition InetAddress_any :: "u16 \<Rightarrow> inet" where
  "InetAddress_any port =
     inet_bzero\<lparr>sin_family := AF_INET, sin_addr := be32_bytes kInaddrAny, sin_port := be16_bytes port\<rparr>"

text \<open>The second component tells whether the error was logged.\<close>

definition InetAddress_ip :: "string \<Rightarrow> u16 \<Rightarrow> inet \<times> bool" where
  "InetAddress_ip ip port =
     (let a = inet_bzero\<lparr>sin_family := AF_INET, sin_port := be16_bytes port\<rparr> in
      case inet_pton ip of None \<Rightarrow> (a, True) | Some bs \<Rightarrow> (a\<lparr>sin_addr := bs\<rparr>, False))"

definition toIp :: "inet \<Rightarrow> string" where
  "toIp a = take 63 (inet_ntop (sin_addr a))"

definition toPort :: "inet \<Rightarrow> u16" where
  "toPort a = be16_value (sin_port a)"

text \<open>\<open>snprintf\<close> into \<open>buf[32]\<close>, and into the rest of \<open>buf[64]\<close>.\<close>

definition toHostPort :: "inet \<Rightarrow> string" where
  "toHostPort a = take 31 (inet_ntop (sin_addr a) @ '':'' @ dec (unat (be16_value (sin_port a))))"

definition toIpPort :: "inet \<Rightarrow> string" where
  "toIpPort a =
     (let buf = inet_ntop (sin_addr a) in
      buf @ take (63 - length buf) ('':'' @ dec (unat (be16_value (sin_port a)))))"

text \<open>\<open>isSelfConnect\<close>, with the answers of \<open>getsockname\<close> and \<open>getpeername\<close>.\<close>

definition isSelfConnect :: "inet \<Rightarrow> inet \<Rightarrow> bool" where
  "isSelfConnect localaddr peeraddr \<longleftrightarrow>
     sin_port localaddr = sin_port peeraddr \<and> sin_addr localaddr = sin_addr peeraddr"

definition inet_ok :: "inet \<Rightarrow> bool" where
  "inet_ok a \<longleftrightarrow> length (sin_port a) = 2 \<and> length (sin_addr a) = 4"

section \<open>Text and back\<close>

lemma digit_char_is_digit: "d < 10 \<Longrightarrow> is_digit (digit_char d)"
proof -
  assume "d < 10"
  then have "d \<in> set [0, 1, 2, 3, 4, 5, 6, 7, 8, 9]" by (simp add: numeral_eq_Suc less_Suc_eq)
  moreover have "\<forall>d\<in>set [0, 1, 2, 3, 4, 5, 6, 7, 8, 9]. is_digit (digit_char d)"
    by (simp add: digit_char_def digitsHex_def is_digit_def)
  ultimately show ?thesis by blast
qed

lemma dec_digits: "c \<in> set (dec n) \<Longrightarrow> is_digit c"
proof (induction "10 :: nat" n rule: numeral_in.induct)
  case (1 n)
  then show ?case
    by (cases "n < 10") (auto simp: numeral_in.simps [of 10 n] intro: digit_char_is_digit)
qed

lemma dec_nonempty [simp]: "dec n \<noteq> []"
  by (simp add: numeral_in.simps [of 10 n])

lemma dec_small: "n < 10 \<Longrightarrow> dec n = [digit_char n]"
  by (simp add: numeral_in.simps [of 10 n])

lemma dec_step: "\<not> n < 10 \<Longrightarrow> dec n = dec (n div 10) @ [digit_char (n mod 10)]"
  by (simp add: numeral_in.simps [of 10 n])

lemma dec_no_leading_zero: "hd (dec n) = CHR ''0'' \<longleftrightarrow> n = 0"
proof (induction "10 :: nat" n rule: numeral_in.induct)
  case (1 n)
  show ?case
  proof (cases "n < 10")
    case True
    then have "n \<in> set [0, 1, 2, 3, 4, 5, 6, 7, 8, 9]" by (simp add: numeral_eq_Suc less_Suc_eq)
    moreover have "\<forall>n\<in>set [0, 1, 2, 3, 4, 5, 6, 7, 8, 9]. digit_char n = CHR ''0'' \<longleftrightarrow> n = 0"
      by (simp add: digit_char_def digitsHex_def)
    ultimately have "digit_char n = CHR ''0'' \<longleftrightarrow> n = 0" by blast
    then show ?thesis using True by (simp add: dec_small)
  next
    case False
    then show ?thesis using 1 by (simp add: numeral_in.simps [of 10 n] div_eq_0_iff)
  qed
qed

lemma octet_dec [simp]: "octet (dec (unat (b :: byte))) = Some b"
proof -
  have b: "unat b < 256" using unsigned_less [of b] by simp
  then have "length (dec (unat b)) \<le> 3" by (intro length_dec_bound) simp_all
  moreover have "hd (dec (unat b)) = CHR ''0'' \<longrightarrow> length (dec (unat b)) = 1"
    by (auto simp: dec_no_leading_zero dec_small)
  ultimately show ?thesis using b by (auto simp: octet_def list_all_iff dec_digits)
qed

lemma splitBy_sep: "sep \<notin> set f \<Longrightarrow> splitBy sep (f @ sep # s) = f # splitBy sep s"
  by (induction f) auto

lemma splitBy_last: "sep \<notin> set f \<Longrightarrow> splitBy sep f = [f]"
  by (induction f) auto

lemma dec_no_sep [simp]: "CHR ''.'' \<notin> set (dec n)" "CHR '':'' \<notin> set (dec n)"
  using dec_digits [of _ n] by (auto simp: is_digit_def)

lemma quad_cases:
  assumes "length bs = 4"
  obtains a b c d where "bs = [a, b, c, d]"
  using assms by (auto simp: numeral_eq_Suc length_Suc_conv)

lemma inet_pton_ntop: "length bs = 4 \<Longrightarrow> inet_pton (inet_ntop bs) = Some bs"
  by (elim quad_cases) (simp add: inet_pton_def Let_def splitBy_sep splitBy_last)

lemma length_dec_byte: "length (dec (unat (b :: byte))) \<le> 3"
proof -
  have "unat b < 2 ^ LENGTH(8)" by (rule unsigned_less)
  then show ?thesis by (intro length_dec_bound) simp_all
qed

lemma length_ntop: "length bs = 4 \<Longrightarrow> length (inet_ntop bs) \<le> 15"
proof (elim quad_cases)
  fix a b c d assume "bs = [a, b, c, d]"
  then show ?thesis
    using length_dec_byte [of a] length_dec_byte [of b] length_dec_byte [of c] length_dec_byte [of d] by simp
qed

lemma length_dec_port: "length (dec (unat (p :: u16))) \<le> 5"
proof -
  have "unat p < 2 ^ LENGTH(16)" by (rule unsigned_less)
  then show ?thesis by (intro length_dec_bound) simp_all
qed

lemma length_toHostPort: "inet_ok a \<Longrightarrow> length (toHostPort a) \<le> 21"
  using length_ntop [of "sin_addr a"] length_dec_port [of "toPort a"]
  by (simp add: inet_ok_def toHostPort_def toPort_def)

lemma toHostPort_text: "inet_ok a \<Longrightarrow> toHostPort a = inet_ntop (sin_addr a) @ '':'' @ dec (unat (toPort a))"
  using length_ntop [of "sin_addr a"] length_dec_port [of "toPort a"]
  by (simp add: inet_ok_def toHostPort_def toPort_def)

lemma toIpPort_text: "inet_ok a \<Longrightarrow> toIpPort a = inet_ntop (sin_addr a) @ '':'' @ dec (unat (toPort a))"
  using length_ntop [of "sin_addr a"] length_dec_port [of "toPort a"]
  by (simp add: inet_ok_def toIpPort_def toPort_def Let_def)

lemma ntop_no_colon: "length bs = 4 \<Longrightarrow> CHR '':'' \<notin> set (inet_ntop bs)"
  by (elim quad_cases) simp

section \<open>Properties\<close>

text \<open>An address made from the text of four bytes and a port is that address: nothing is
  logged, its port and its text are what went in, and none of the three texts is cut short by
  its buffer.\<close>

theorem address_roundtrip:
  assumes "length bs = 4"
  shows "\<exists>a. InetAddress_ip (inet_ntop bs) port = (a, False) \<and> inet_ok a \<and> sin_addr a = bs \<and>
     toPort a = port \<and> toIp a = inet_ntop bs \<and>
     toHostPort a = inet_ntop bs @ '':'' @ dec (unat port) \<and> toIpPort a = toHostPort a"
proof -
  let ?a = "inet_bzero\<lparr>sin_family := AF_INET, sin_port := be16_bytes port, sin_addr := bs\<rparr>"
  have "InetAddress_ip (inet_ntop bs) port = (?a, False)"
    by (simp add: InetAddress_ip_def inet_pton_ntop [OF assms] Let_def)
  moreover have ok: "inet_ok ?a" by (simp add: inet_ok_def inet_bzero_def be16_bytes_def assms)
  moreover have "toPort ?a = port" by (simp add: toPort_def inet_bzero_def)
  moreover have "toIp ?a = inet_ntop bs" using length_ntop [OF assms] by (simp add: toIp_def)
  ultimately show ?thesis
    using toHostPort_text [OF ok] toIpPort_text [OF ok] by (intro exI [of _ ?a]) simp
qed

theorem address_roundtrip_witness:
  "inet_ntop [127, 0, 0, 1] = ''127.0.0.1'' \<and>
   (\<exists>a. InetAddress_ip ''127.0.0.1'' 8080 = (a, False) \<and> toHostPort a = ''127.0.0.1:8080'')"
proof -
  have n: "inet_ntop [127, 0, 0, 1] = ''127.0.0.1''" "dec (unat (8080 :: u16)) = ''8080''"
    by (simp_all add: dec_step dec_small digit_char_def digitsHex_def)
  show ?thesis using address_roundtrip [of "[127, 0, 0, 1]" 8080] n by auto
qed

text \<open>Two addresses have the same \<open>ip:port\<close> text exactly when they are the same endpoint, that
  is when \<open>isSelfConnect\<close> says so.\<close>

theorem same_text_same_endpoint:
  assumes "inet_ok a" "inet_ok b"
  shows "toHostPort a = toHostPort b \<longleftrightarrow> isSelfConnect a b"
proof
  assume "toHostPort a = toHostPort b"
  then have "splitBy (CHR '':'') (toHostPort a) = splitBy (CHR '':'') (toHostPort b)" by simp
  then have eq: "inet_ntop (sin_addr a) = inet_ntop (sin_addr b)" "dec (unat (toPort a)) = dec (unat (toPort b))"
    using assms by (simp_all add: toHostPort_text splitBy_sep splitBy_last ntop_no_colon inet_ok_def)
  have len: "length (sin_addr a) = 4" "length (sin_addr b) = 4" using assms by (simp_all add: inet_ok_def)
  have "Some (sin_addr a) = inet_pton (inet_ntop (sin_addr b))"
    unfolding eq(1) [symmetric] by (rule inet_pton_ntop [OF len(1), symmetric])
  then have "sin_addr a = sin_addr b" by (simp only: inet_pton_ntop [OF len(2)] option.inject)
  moreover have "toPort a = toPort b" using eq(2) by (simp add: word_eq_iff_unsigned [where 'a = nat])
  then have "sin_port a = sin_port b"
    using be16_value_inject [of "sin_port a" "sin_port b"] assms by (simp add: toPort_def inet_ok_def)
  ultimately show "isSelfConnect a b" by (simp add: isSelfConnect_def)
next
  assume "isSelfConnect a b"
  then show "toHostPort a = toHostPort b" by (simp add: isSelfConnect_def toHostPort_def)
qed

theorem same_text_same_endpoint_witness:
  "toHostPort (InetAddress_any 80) \<noteq> toHostPort (InetAddress_any 81)"
proof -
  have "inet_ok (InetAddress_any 80)" "inet_ok (InetAddress_any 81)"
    by (simp_all add: inet_ok_def InetAddress_any_def inet_bzero_def be16_bytes_def)
  from same_text_same_endpoint [OF this] show ?thesis
    by (simp add: isSelfConnect_def InetAddress_any_def be16_bytes_def)
qed

end
