(* ===== verification/TcpClient.thy ===== *)
theory TcpClient
  imports Connector TcpConnection InetAddress
begin

text \<open>
  The client (include/net/TcpClient.h, src/net/TcpClient.cpp): one connector and at most one
  connection, known by the number it was made with. What the client asks of the connection and
  of its loop is output.
\<close>

section \<open>State\<close>

record client =
  cl_tid :: int
  cl_retry :: bool
  cl_connect :: bool
  cl_nextConnId :: int
  connection :: "int option"
  cl_connector :: connector

definition TcpClient_new :: "int \<Rightarrow> client" where
  "TcpClient_new tid =
     \<lparr>cl_tid = tid, cl_retry = False, cl_connect = False, cl_nextConnId = 1, connection = None,
      cl_connector = Connector_new tid\<rparr>"

definition enableRetry :: "client \<Rightarrow> client" where
  "enableRetry c = c\<lparr>cl_retry := True\<rparr>"

datatype cl_eff =
    CConnector k_eff | CEstablish int string int | CShutdown int | CQueueDestroy int
  | CSetCloseCallback int | CRunAfter

definition lift_k :: "client \<Rightarrow> k_result \<Rightarrow> (client \<times> cl_eff list) result" where
  "lift_k c r = bindE r (\<lambda>(k, es). Inr (c\<lparr>cl_connector := k\<rparr>, map CConnector es))"

section \<open>Operations\<close>

definition client_connect :: "int \<Rightarrow> int \<Rightarrow> int \<Rightarrow> int \<Rightarrow> client \<Rightarrow> (client \<times> cl_eff list) result" where
  "client_connect t fd err rc c =
     lift_k (c\<lparr>cl_connect := True\<rparr>) (start t fd err rc (cl_connector c))"

definition client_disconnect :: "client \<Rightarrow> (client \<times> cl_eff list) result" where
  "client_disconnect c =
     Inr (c\<lparr>cl_connect := False\<rparr>, case connection c of None \<Rightarrow> [] | Some i \<Rightarrow> [CShutdown i])"

definition client_stop :: "client \<Rightarrow> (client \<times> cl_eff list) result" where
  "client_stop c = lift_k (c\<lparr>cl_connect := False\<rparr>) (stop (cl_connector c))"

text \<open>\<open>snprintf(buf, 32, ":%s#%d", ...)\<close> keeps at most 31 characters.\<close>

definition client_conn_name :: "string \<Rightarrow> int \<Rightarrow> string" where
  "client_conn_name hostport i = take 31 ('':'' @ hostport @ ''#'' @ int_str i)"

definition client_newConnection :: "int \<Rightarrow> string \<Rightarrow> int \<Rightarrow> client \<Rightarrow> (client \<times> cl_eff list) result" where
  "client_newConnection t hostport sockfd c =
     (if t = cl_tid c then
        (let i = cl_nextConnId c in
         Inr (c\<lparr>cl_nextConnId := i + 1, connection := Some i\<rparr>,
              [CEstablish i (client_conn_name hostport i) sockfd]))
      else abortNotInLoopThread)"

definition client_removeConnection ::
  "int \<Rightarrow> int \<Rightarrow> int \<Rightarrow> int \<Rightarrow> int \<Rightarrow> client \<Rightarrow> (client \<times> cl_eff list) result" where
  "client_removeConnection t i fd err rc c =
     (if t = cl_tid c then
        assertE ''connection_ == conn'' (connection c = Some i)
          (let c1 = c\<lparr>connection := None\<rparr> in
           bindE (if cl_retry c1 \<and> cl_connect c1
                  then lift_k c1 (k_restart fd err rc (cl_connector c1)) else Inr (c1, []))
             (\<lambda>(c2, es). Inr (c2, CQueueDestroy i # es)))
      else abortNotInLoopThread)"

definition TcpClient_delete :: "client \<Rightarrow> (client \<times> cl_eff list) result" where
  "TcpClient_delete c =
     (case connection c of
        Some i \<Rightarrow> Inr (c, [CSetCloseCallback i])
      | None \<Rightarrow> bindE (lift_k c (stop (cl_connector c))) (\<lambda>(c1, es). Inr (c1, es @ [CRunAfter])))"

text \<open>An event of the connector, with the new connection it may lead to.\<close>

fun handed :: "k_eff list \<Rightarrow> int option" where
  "handed [] = None"
| "handed (KNewConnection fd # es) = Some fd"
| "handed (_ # es) = handed es"

definition client_event :: "string \<Rightarrow> k_op \<Rightarrow> client \<Rightarrow> (client \<times> cl_eff list) result" where
  "client_event hostport e c =
     bindE (k_step e (cl_connector c)) (\<lambda>(k, es).
     (let c1 = c\<lparr>cl_connector := k\<rparr> in
      case handed es of
        None \<Rightarrow> Inr (c1, map CConnector es)
      | Some fd \<Rightarrow> bindE (client_newConnection (cl_tid c1) hostport fd c1) (\<lambda>(c2, es2).
          Inr (c2, map CConnector es @ es2))))"

section \<open>Properties\<close>

text \<open>Reconnection. When the current connection closes, its destruction is queued and the client
  forgets it; a new attempt is made at once, with the retry delay back at 500 ms, exactly if retry
  is enabled and the user has not disconnected; a connection that is not the current one fails
  the assert.\<close>

theorem client_reconnects:
  assumes "connection c = Some i" "k_chan (cl_connector c) = None"
  shows "\<exists>c' es. client_removeConnection (cl_tid c) i fd ECONNREFUSED 0 c = Inr (c', CQueueDestroy i # es) \<and>
     connection c' = None \<and>
     es = (if cl_retry c \<and> cl_connect c
           then map CConnector [KOpen fd, KClose fd, KRunAfter 500] else []) \<and>
     (j \<noteq> i \<longrightarrow> client_removeConnection (cl_tid c) j fd ECONNREFUSED 0 c =
        Inl (Assertion ''connection_ == conn''))"
  using assms
  by (simp add: client_removeConnection_def lift_k_def k_restart_def startInLoop_def connect_def then_k_def
      retry_def kInitRetryDelayMs_def kMaxRetryDelayMs_def ECONNREFUSED_def EINPROGRESS_def EINTR_def
      EISCONN_def Let_def)

theorem client_reconnects_witness:
  "\<exists>c' es. client_removeConnection 1 5 9 ECONNREFUSED 0
       ((TcpClient_new 1)\<lparr>connection := Some 5, cl_connect := True, cl_retry := True\<rparr>) =
     Inr (c', [CQueueDestroy 5, CConnector (KOpen 9), CConnector (KClose 9), CConnector (KRunAfter 500)])"
  using client_reconnects [of "(TcpClient_new 1)\<lparr>connection := Some 5, cl_connect := True, cl_retry := True\<rparr>" 5 9]
  by (auto simp: TcpClient_new_def Connector_new_def)

text \<open>A client that has been connected cannot connect again. After the connection has closed
  without a retry, the connector is still in the state \<open>kConnected\<close>, and the next \<open>connect\<close> fails the
  assert of \<open>startInLoop\<close>.\<close>

theorem client_connect_again_faults:
  assumes "connection c = Some i" "k_state (cl_connector c) = CConnected"
    and "\<not> (cl_retry c \<and> cl_connect c)" "k_tid (cl_connector c) = cl_tid c"
  shows "\<exists>c' es. client_removeConnection (cl_tid c) i fd err rc c = Inr (c', es) \<and>
     client_connect (cl_tid c) fd err rc c' = Inl (Assertion ''state_ == kDisconnected'')"
  using assms
  by (auto simp: client_removeConnection_def client_connect_def lift_k_def start_def startInLoop_def Let_def)

theorem client_connect_again_faults_witness:
  "\<exists>c1 e1 c2 e2 c3 e3 c4 e4. client_connect 1 5 115 0 (TcpClient_new 1) = Inr (c1, e1) \<and>
     client_event ''h:1'' (KEvent 4 0 0 False) c1 = Inr (c2, e2) \<and> connection c2 = Some 1 \<and>
     client_disconnect c2 = Inr (c3, e3) \<and> client_removeConnection 1 1 6 115 0 c3 = Inr (c4, e4) \<and>
     client_connect 1 6 115 0 c4 = Inl (Assertion ''state_ == kDisconnected'')"
proof -
  obtain c1 e1 c2 e2 c3 e3 where c: "client_connect 1 5 115 0 (TcpClient_new 1) = Inr (c1, e1)"
      "client_event ''h:1'' (KEvent 4 0 0 False) c1 = Inr (c2, e2)" "connection c2 = Some 1"
      "client_disconnect c2 = Inr (c3, e3)" "connection c3 = Some 1"
      "k_state (cl_connector c3) = CConnected" "\<not> cl_connect c3" "k_tid (cl_connector c3) = 1" "cl_tid c3 = 1"
    by (simp add: client_connect_def TcpClient_new_def lift_k_def client_event_def client_newConnection_def
        client_disconnect_def k_evals)
  from client_connect_again_faults [OF c(5,6), of 6 115 0] c show ?thesis by auto
qed

section \<open>Connection names\<close>

lemma client_conn_name_text:
  assumes "inet_ok a" "0 \<le> i" "i < 10 ^ 8"
  shows "client_conn_name (toHostPort a) i = '':'' @ toHostPort a @ ''#'' @ int_str i"
proof -
  have "length (dec (nat i)) \<le> 8" using assms(2,3) by (intro length_dec_bound) (simp_all add: nat_less_iff)
  then have "length (int_str i) \<le> 8" using assms(2) by (simp add: int_str_def)
  then show ?thesis using length_toHostPort [OF assms(1)] by (simp add: client_conn_name_def)
qed

text \<open>The 32 bytes of the buffer are enough for the names of a client's connections: below
  100000000 connections no name is cut short, and connections have different names.\<close>

theorem client_names_distinct:
  assumes "inet_ok a" "0 \<le> i" "i < 10 ^ 8" "0 \<le> j" "j < 10 ^ 8"
  shows "client_conn_name (toHostPort a) i = '':'' @ toHostPort a @ ''#'' @ int_str i \<and>
     (client_conn_name (toHostPort a) i = client_conn_name (toHostPort a) j \<longleftrightarrow> i = j)"
  using assms by (auto simp: client_conn_name_text int_str_def)

theorem client_names_distinct_witness:
  "client_conn_name (toHostPort (InetAddress_any 80)) 7 = '':0.0.0.0:80#7'' \<and>
   client_conn_name (toHostPort (InetAddress_any 80)) 7 \<noteq> client_conn_name (toHostPort (InetAddress_any 80)) 8"
proof -
  have ok: "inet_ok (InetAddress_any 80)"
    by (simp add: inet_ok_def InetAddress_any_def inet_bzero_def be16_bytes_def)
  have "toHostPort (InetAddress_any 80) = ''0.0.0.0:80''" "int_str 7 = ''7''"
    by (simp_all add: toHostPort_def InetAddress_any_def be32_bytes_def kInaddrAny_def dec_step dec_small
        digit_char_def digitsHex_def int_str_def)
  then have full: "'':'' @ toHostPort (InetAddress_any 80) @ ''#'' @ int_str 7 = '':0.0.0.0:80#7''" by simp
  note names = client_names_distinct [OF ok, of 7 8]
  have "client_conn_name (toHostPort (InetAddress_any 80)) 7 = '':0.0.0.0:80#7''"
    using names unfolding full by simp
  moreover have "client_conn_name (toHostPort (InetAddress_any 80)) 7 \<noteq>
      client_conn_name (toHostPort (InetAddress_any 80)) 8"
    using names [THEN conjunct2, simplified] by simp
  ultimately show ?thesis by (rule conjI)
qed

end
