(* ===== verification/Socket.thy ===== *)
theory Socket
  imports InetAddress TcpServer
begin

text \<open>
  The socket wrappers (include/net/Socket.h, src/net/Socket.cpp), the addresses of a socket
  (src/net/InetAddress.cpp), and the listening socket of an \<open>Acceptor\<close>. The results of the system calls
  are arguments, the calls made and the errors logged are the output.
\<close>

section \<open>Wrappers\<close>

datatype sockopt = SO_REUSEADDR | TCP_NODELAY | SO_KEEPALIVE | SO_REUSEPORT

datatype sock_eff =
    SSetOpt int sockopt nat | SBind int inet | SListen int int | SShutdownWr int | SClose int | SLog string

text \<open>\<open>LOG_SYSFATAL\<close> aborts, \<open>LOG_SYSERR\<close> only logs.\<close>

definition createNBListenSocket :: "int \<Rightarrow> int result" where
  "createNBListenSocket sockfd =
     (if sockfd < 0 then Inl (Fatal ''sockets::createNBListenSocket'') else Inr sockfd)"

definition socket_Close :: "int \<Rightarrow> int \<Rightarrow> sock_eff list" where
  "socket_Close rc fd = SClose fd # (if rc < 0 then [SLog ''sockets::close''] else [])"

definition getSocketError :: "int \<Rightarrow> int \<Rightarrow> int \<Rightarrow> int" where
  "getSocketError rc err optval = (if rc < 0 then err else optval)"

record socket =
  socket_fd :: int

definition Socket_delete :: "int \<Rightarrow> socket \<Rightarrow> sock_eff list" where
  "Socket_delete rc s = socket_Close rc (socket_fd s)"

definition bindAddress :: "int \<Rightarrow> inet \<Rightarrow> socket \<Rightarrow> sock_eff list result" where
  "bindAddress rc addr s =
     (if rc < 0 then Inl (Fatal ''sockets::bind'') else Inr [SBind (socket_fd s) addr])"

definition Socket_listen :: "int \<Rightarrow> socket \<Rightarrow> sock_eff list result" where
  "Socket_listen rc s =
     (if rc < 0 then Inl (Fatal ''sockets::listen'') else Inr [SListen (socket_fd s) 4096])"

text \<open>The address starts zeroed, so a failed \<open>accept\<close> leaves \<open>0.0.0.0:0\<close> of no family behind.\<close>

definition Socket_accept :: "int \<Rightarrow> inet \<Rightarrow> int \<times> inet \<times> sock_eff list" where
  "Socket_accept connfd client_addr =
     (if connfd < 0 then (connfd, inet_bzero, [SLog ''Socket::accept'']) else (connfd, client_addr, []))"

definition setOpt :: "sockopt \<Rightarrow> bool \<Rightarrow> socket \<Rightarrow> sock_eff" where
  "setOpt o1 on s = SSetOpt (socket_fd s) o1 (if on then 1 else 0)"

definition setReuseAddr :: "bool \<Rightarrow> socket \<Rightarrow> sock_eff list" where
  "setReuseAddr on s = [setOpt SO_REUSEADDR on s]"

definition Socket_setTcpNoDelay :: "bool \<Rightarrow> socket \<Rightarrow> sock_eff list" where
  "Socket_setTcpNoDelay on s = [setOpt TCP_NODELAY on s]"

definition setKeepAlive :: "bool \<Rightarrow> socket \<Rightarrow> sock_eff list" where
  "setKeepAlive on s = [setOpt SO_KEEPALIVE on s]"

text \<open>On Linux \<open>SO_REUSEPORT\<close> is defined.\<close>

definition setReusePort :: "int \<Rightarrow> bool \<Rightarrow> socket \<Rightarrow> sock_eff list" where
  "setReusePort rc on s =
     setOpt SO_REUSEPORT on s # (if rc < 0 \<and> on then [SLog ''SO_REUSEPORT failed.''] else [])"

definition shutdownWrite :: "int \<Rightarrow> socket \<Rightarrow> sock_eff list" where
  "shutdownWrite rc s = SShutdownWr (socket_fd s) # (if rc < 0 then [SLog ''sockets::shutdownWrite''] else [])"

text \<open>When the call fails the address stays zeroed.\<close>

definition getLocalAddr :: "int \<Rightarrow> inet \<Rightarrow> inet \<times> sock_eff list" where
  "getLocalAddr rc addr = (if rc < 0 then (inet_bzero, [SLog ''sockets::getLocalAddr'']) else (addr, []))"

definition getPeerAddr :: "int \<Rightarrow> inet \<Rightarrow> inet \<times> sock_eff list" where
  "getPeerAddr rc addr = (if rc < 0 then (inet_bzero, [SLog ''sockets::getLocalAddr'']) else (addr, []))"

section \<open>The listening socket\<close>

text \<open>What the kernel answers while a server comes up.\<close>

record listen_env =
  le_socket :: int
  le_bind :: int
  le_listen :: int
  le_ctl :: int

text \<open>The constructor of \<open>Acceptor\<close>, with the system calls it makes, and \<open>Acceptor::listen\<close>.\<close>

definition Acceptor_construct :: "listen_env \<Rightarrow> inet \<Rightarrow> (acceptor \<times> socket \<times> sock_eff list) result" where
  "Acceptor_construct env addr =
     bindE (createNBListenSocket (le_socket env)) (\<lambda>fd.
     (let s = \<lparr>socket_fd = fd\<rparr> in
      bindE (bindAddress (le_bind env) addr s) (\<lambda>es.
      Inr (Acceptor_new fd, s, setReuseAddr True s @ es))))"

definition Acceptor_start :: "listen_env \<Rightarrow> inet \<Rightarrow> (acceptor \<times> sock_eff list \<times> ctl list) result" where
  "Acceptor_start env addr =
     bindE (Acceptor_construct env addr) (\<lambda>(a, s, es1).
     bindE (Socket_listen (le_listen env) s) (\<lambda>es2.
     bindE (Acceptor_listen (le_ctl env) a) (\<lambda>(a1, cs). Inr (a1, es1 @ es2, cs))))"

text \<open>The acceptor's \<open>handleRead\<close> with its system calls: a descriptor nobody takes is closed.\<close>

definition accept_and_dispatch :: "int \<Rightarrow> inet \<Rightarrow> int \<Rightarrow> acceptor \<Rightarrow> accepted_fd \<times> inet \<times> sock_eff list" where
  "accept_and_dispatch connfd client_addr close_rc a =
     (let (fd, peer, es) = Socket_accept connfd client_addr in
      case Acceptor_handleRead fd a of
        CloseFd d \<Rightarrow> (CloseFd d, peer, es @ socket_Close close_rc d)
      | r \<Rightarrow> (r, peer, es))"

text \<open>A server comes up completely or stops. Constructing an acceptor and letting it listen makes the
  address reusable, binds the socket to the given address and listens, in this order and on one
  descriptor, which the poller then watches for reading; if the kernel refuses the socket, the address
  or the listening, the process stops at that call. Later, each descriptor \<open>accept\<close> returns is handed to
  the callback with the peer's address, or closed if there is no callback, and a failed \<open>accept\<close> is
  logged and nothing else.\<close>

theorem acceptor_comes_up:
  assumes "0 \<le> le_ctl env"
  shows "Acceptor_start env addr =
      (if le_socket env < 0 then Inl (Fatal ''sockets::createNBListenSocket'')
       else if le_bind env < 0 then Inl (Fatal ''sockets::bind'')
       else if le_listen env < 0 then Inl (Fatal ''sockets::listen'')
       else Inr ((Acceptor_new (le_socket env))
                   \<lparr>a_listenning := True,
                    a_chan := (a_chan (Acceptor_new (le_socket env)))\<lparr>events := kReadEvent, ch_index := kAdded\<rparr>\<rparr>,
                 [SSetOpt (le_socket env) SO_REUSEADDR 1, SBind (le_socket env) addr, SListen (le_socket env) 4096],
                 [Ctl EPOLL_CTL_ADD (le_socket env) kReadEvent])) \<and>
    accept_and_dispatch connfd peer rc a =
      (if connfd < 0 then (NoConnection, inet_bzero, [SLog ''Socket::accept''])
       else if a_hasCallback a then (NewConnection connfd, peer, [])
       else (CloseFd connfd, peer, socket_Close rc connfd))"
  using assms
  by (auto simp: Acceptor_start_def Acceptor_construct_def createNBListenSocket_def bindAddress_def Socket_listen_def
      setReuseAddr_def setOpt_def Acceptor_listen_def Acceptor_new_def Channel_new_def enableReading_def
      updateChannel_def update_def kNew_def kAdded_def kNoneEvent_def Let_def
      accept_and_dispatch_def Socket_accept_def Acceptor_handleRead_def)

theorem acceptor_comes_up_witness:
  "Acceptor_start \<lparr>le_socket = 3, le_bind = -1, le_listen = 0, le_ctl = 0\<rparr> (InetAddress_any 80) =
     Inl (Fatal ''sockets::bind'')"
  using acceptor_comes_up [of "\<lparr>le_socket = 3, le_bind = -1, le_listen = 0, le_ctl = 0\<rparr>" "InetAddress_any 80"]
  by simp

end
