(* ===== verification/AsyncLogging.thy ===== *)
theory AsyncLogging
  imports LogStream
begin

text \<open>
  The asynchronous back end of the logger (include/asynLog/AsyncLogging.h,
  src/asynlog/AsyncLogging.cpp): producers append lines to the current one of a pair of buffers
  under a lock, the logging thread takes all full buffers and the current one, writes them, and
  recycles two of them. A buffer is the text it holds; a moved-from \<open>unique_ptr\<close> is \<open>None\<close>, and
  using it is a fault. The logging thread holds the lock while it waits, so taking the buffers is
  one step; the test of its loop is another, for \<open>stop\<close> needs no lock. The capacity \<open>cap\<close> of a buffer is \<open>kLargeBuffer\<close> in the code.
\<close>

section \<open>State\<close>

datatype al_phase = ATesting | ATaking | AWriting | ARecycling | AExited

text \<open>\<open>written\<close> is what was handed to the log file, \<open>accepted\<close> the lines appended so far.\<close>

record alog =
  currentBuffer :: "string option"
  nextBuffer :: "string option"
  buffers :: "string list"
  running_flag :: bool
  first_round :: bool
  newBuffer1 :: "string option"
  newBuffer2 :: "string option"
  buffersToWrite :: "string list"
  al_phase :: al_phase
  written :: string
  accepted :: string

definition AsyncLogging_start :: alog where
  "AsyncLogging_start =
     \<lparr>currentBuffer = Some [], nextBuffer = Some [], buffers = [], running_flag = True,
      first_round = True, newBuffer1 = Some [], newBuffer2 = Some [], buffersToWrite = [],
      al_phase = ATesting, written = [], accepted = []\<rparr>"

text \<open>\<open>FixedBuffer::append\<close> on the text.\<close>

definition buf_append :: "nat \<Rightarrow> string \<Rightarrow> string \<Rightarrow> string" where
  "buf_append cap line b = (if cap - length b > length line then b @ line else b)"

definition al_append :: "nat \<Rightarrow> string \<Rightarrow> alog \<Rightarrow> alog result" where
  "al_append cap line s =
     (case currentBuffer s of
        None \<Rightarrow> Inl (BadAccess ''currentBuffer_'')
      | Some b \<Rightarrow>
          (if cap - length b > length line then
             Inr (s\<lparr>currentBuffer := Some (buf_append cap line b), accepted := accepted s @ line\<rparr>)
           else
             (let fresh = (case nextBuffer s of Some n \<Rightarrow> n | None \<Rightarrow> [])
              in Inr (s\<lparr>buffers := buffers s @ [b], nextBuffer := None,
                        currentBuffer := Some (buf_append cap line fresh),
                        accepted := accepted s @ (if cap - length fresh > length line then line else [])\<rparr>))))"

definition al_stop :: "alog \<Rightarrow> alog" where
  "al_stop s = s\<lparr>running_flag := False\<rparr>"

section \<open>The logging thread\<close>

text \<open>The loop test, and the critical section that takes the buffers.\<close>

definition al_test :: "alog \<Rightarrow> alog" where
  "al_test s =
     (if running_flag s \<or> first_round s then s\<lparr>first_round := False, al_phase := ATaking\<rparr>
      else s\<lparr>al_phase := AExited\<rparr>)"

definition al_take :: "alog \<Rightarrow> alog result" where
  "al_take s =
     (case currentBuffer s of
        None \<Rightarrow> Inl (BadAccess ''currentBuffer_'')
      | Some b \<Rightarrow>
          (let s1 = s\<lparr>currentBuffer := newBuffer1 s, newBuffer1 := None,
                     buffersToWrite := buffers s @ [b], buffers := [], al_phase := AWriting\<rparr>
           in Inr (if nextBuffer s1 = None
                   then s1\<lparr>nextBuffer := newBuffer2 s1, newBuffer2 := None\<rparr> else s1)))"

definition al_write :: "alog \<Rightarrow> alog result" where
  "al_write s = Inr (s\<lparr>written := written s @ concat (buffersToWrite s), al_phase := ARecycling\<rparr>)"

text \<open>\<open>back()\<close> and \<open>pop_back()\<close> of an empty vector are faults.\<close>

definition pop_buffer :: "string list \<Rightarrow> string list result" where
  "pop_buffer bs = (if bs = [] then Inl (BadAccess ''buffersToWrite.back()'') else Inr (butlast bs))"

definition al_recycle :: "alog \<Rightarrow> alog result" where
  "al_recycle s =
     (let bs = (if length (buffersToWrite s) > 2 then take 2 (buffersToWrite s) else buffersToWrite s) in
      bindE (if newBuffer1 s = None then bindE (pop_buffer bs) (\<lambda>bs'. Inr (Some [], bs'))
             else Inr (newBuffer1 s, bs)) (\<lambda>(n1, bs1).
      bindE (if newBuffer2 s = None then bindE (pop_buffer bs1) (\<lambda>bs'. Inr (Some [], bs'))
             else Inr (newBuffer2 s, bs1)) (\<lambda>(n2, bs2).
      Inr (s\<lparr>newBuffer1 := n1, newBuffer2 := n2, buffersToWrite := [], al_phase := ATesting\<rparr>))))"

definition al_thread :: "alog \<Rightarrow> alog result" where
  "al_thread s =
     (case al_phase s of
        ATesting \<Rightarrow> Inr (al_test s)
      | ATaking \<Rightarrow> al_take s
      | AWriting \<Rightarrow> al_write s
      | ARecycling \<Rightarrow> al_recycle s
      | AExited \<Rightarrow> Inr s)"

datatype al_op = AppendLine string | ThreadStep | Stop

fun al_step :: "nat \<Rightarrow> al_op \<Rightarrow> alog \<Rightarrow> (alog \<times> unit list) result" where
  "al_step cap (AppendLine line) s = bindE (al_append cap line s) (\<lambda>s'. Inr (s', []))"
| "al_step cap ThreadStep s = bindE (al_thread s) (\<lambda>s'. Inr (s', []))"
| "al_step cap Stop s = Inr (al_stop s, [])"

section \<open>Invariant\<close>

text \<open>Text on its way, oldest first.\<close>

definition in_flight :: "alog \<Rightarrow> string" where
  "in_flight s = (if al_phase s = AWriting then concat (buffersToWrite s) else []) @
     concat (buffers s) @ (case currentBuffer s of None \<Rightarrow> [] | Some b \<Rightarrow> b)"

text \<open>
  A spare buffer is missing only where a full one is queued, so the vector of written buffers is
  never too short to recycle from. Only the loop test of the first round finds \<open>first\<close> set.
\<close>

definition al_inv :: "nat \<Rightarrow> alog \<Rightarrow> bool" where
  "al_inv cap s \<longleftrightarrow>
     accepted s = written s @ in_flight s \<and> currentBuffer s \<noteq> None \<and>
     (nextBuffer s = None \<longrightarrow> buffers s \<noteq> []) \<and> (nextBuffer s = None \<or> nextBuffer s = Some []) \<and>
     (newBuffer1 s = None \<or> newBuffer1 s = Some []) \<and> (newBuffer2 s = None \<or> newBuffer2 s = Some []) \<and>
     (first_round s \<longrightarrow> al_phase s = ATesting) \<and>
     (case al_phase s of
        ATesting \<Rightarrow> newBuffer1 s \<noteq> None \<and> newBuffer2 s \<noteq> None
      | ATaking \<Rightarrow> newBuffer1 s \<noteq> None \<and> newBuffer2 s \<noteq> None
      | AExited \<Rightarrow> \<not> running_flag s
      | _ \<Rightarrow> newBuffer1 s = None \<and> buffersToWrite s \<noteq> [] \<and>
             (newBuffer2 s = None \<longrightarrow> 2 \<le> length (buffersToWrite s)))"

lemma al_append_inv:
  assumes "al_inv cap s"
  shows "\<exists>s'. al_append cap line s = Inr s' \<and> al_inv cap s' \<and>
    accepted s' = accepted s @ (if length line < cap then line else [])"
proof -
  obtain b where b: "currentBuffer s = Some b" using assms by (auto simp: al_inv_def)
  show ?thesis
  proof (cases "cap - length b > length line")
    case True
    then show ?thesis using assms b
      by (auto simp: al_append_def al_inv_def in_flight_def buf_append_def split: al_phase.splits)
  next
    case False
    have "nextBuffer s = None \<or> nextBuffer s = Some []" using assms by (simp add: al_inv_def)
    then have n: "(case nextBuffer s of Some n \<Rightarrow> n | None \<Rightarrow> []) = []" by auto
    show ?thesis using False assms b
      by (auto simp: al_append_def al_inv_def in_flight_def buf_append_def n Let_def split: al_phase.splits)
  qed
qed

lemma al_test_inv:
  assumes "al_inv cap s" "al_phase s = ATesting"
  shows "al_inv cap (al_test s) \<and> accepted (al_test s) = accepted s"
  using assms by (auto simp: al_test_def al_inv_def in_flight_def)

lemma al_take_inv:
  assumes "al_inv cap s" "al_phase s = ATaking"
  shows "\<exists>s'. al_take s = Inr s' \<and> al_inv cap s' \<and> accepted s' = accepted s"
proof -
  obtain b where b: "currentBuffer s = Some b" using assms by (auto simp: al_inv_def)
  then show ?thesis using assms
    by (auto simp: al_take_def al_inv_def in_flight_def Let_def Suc_le_eq)
qed

lemma al_recycle_inv:
  assumes "al_inv cap s" "al_phase s = ARecycling"
  shows "\<exists>s'. al_recycle s = Inr s' \<and> al_inv cap s' \<and> accepted s' = accepted s"
proof -
  let ?bs = "if length (buffersToWrite s) > 2 then take 2 (buffersToWrite s) else buffersToWrite s"
  have ne: "?bs \<noteq> []" "newBuffer2 s = None \<longrightarrow> butlast ?bs \<noteq> []"
    using assms by (auto simp: al_inv_def butlast_take) (auto simp: butlast_conv_take)
  then show ?thesis using assms
    by (auto simp: al_recycle_def al_inv_def in_flight_def pop_buffer_def Let_def)
qed

lemma al_step_inv:
  assumes "al_inv cap s"
  shows "\<exists>s'. al_step cap op s = Inr (s', []) \<and> al_inv cap s' \<and>
    accepted s' = accepted s @ (case op of AppendLine line \<Rightarrow> if length line < cap then line else [] | _ \<Rightarrow> [])"
proof (cases op)
  case (AppendLine line)
  then show ?thesis using al_append_inv [OF assms, of line] by auto
next
  case Stop
  then show ?thesis using assms
    by (auto simp: al_stop_def al_inv_def in_flight_def split: al_phase.splits)
next
  case ThreadStep
  show ?thesis
  proof (cases "al_phase s")
    case ATesting
    then show ?thesis using al_test_inv [OF assms] ThreadStep by (auto simp: al_thread_def)
  next
    case ATaking
    then show ?thesis using al_take_inv [OF assms] ThreadStep by (auto simp: al_thread_def)
  next
    case AWriting
    then show ?thesis using assms ThreadStep
      by (auto simp: al_thread_def al_write_def al_inv_def in_flight_def)
  next
    case ARecycling
    then show ?thesis using al_recycle_inv [OF assms] ThreadStep by (auto simp: al_thread_def)
  next
    case AExited
    then show ?thesis using assms ThreadStep by (auto simp: al_thread_def)
  qed
qed

lemma start_inv [simp]: "al_inv cap AsyncLogging_start"
  by (simp add: al_inv_def AsyncLogging_start_def in_flight_def)

interpretation am: machine "al_step cap" "al_inv cap" for cap
proof unfold_locales
  fix s s' :: alog and e os
  assume "al_inv cap s" "al_step cap e s = Inr (s', os)"
  then show "al_inv cap s'" using al_step_inv [of cap s e] by auto
qed

section \<open>Properties\<close>

text \<open>The lines appended in a sequence of operations; a line as long as a buffer is dropped.\<close>

fun appended :: "nat \<Rightarrow> al_op list \<Rightarrow> string" where
  "appended cap [] = []"
| "appended cap (AppendLine line # ops) = (if length line < cap then line else []) @ appended cap ops"
| "appended cap (_ # ops) = appended cap ops"

lemma fold_appended: "fold (\<lambda>opn g. g @ appended cap [opn]) ops g = g @ appended cap ops"
  by (induction cap ops arbitrary: g rule: appended.induct) simp_all

text \<open>The logger as a monitored machine: the history is what it has accepted.\<close>

interpretation ah: silent_machine "al_step cap" "\<lambda>g s. al_inv cap s \<and> accepted s = g" "\<lambda>_ _ _. True"
  "\<lambda>opn g. g @ appended cap [opn]" for cap
proof unfold_locales
  fix g s and e :: al_op and es
  assume "al_inv cap s \<and> accepted s = g"
  then show "\<exists>s'. al_step cap e s = Inr (s', []) \<and> (al_inv cap s' \<and> accepted s' = g @ appended cap [e]) \<and> True"
    using al_step_inv [of cap s e] by (cases e) auto
qed

lemma al_run:
  "al_inv cap s \<Longrightarrow> \<exists>s'. run_steps (al_step cap) ops s = Inr (s', []) \<and> al_inv cap s' \<and>
     accepted s' = accepted s @ appended cap ops"
  using ah.run_silent [of cap s "accepted s" ops] by (simp add: fold_appended)

text \<open>The asynchronous logger neither loses, duplicates nor reorders lines while it runs.
  Whatever the interleaving of appending threads with the logging thread, no null or empty buffer
  is ever used, and the lines appended so far (those shorter than a buffer) are exactly what was
  written, what the logging thread is about to write, the full buffers and the current buffer, in
  this order.\<close>

theorem async_log_order:
  "\<exists>s. run_steps (al_step cap) ops AsyncLogging_start = Inr (s, []) \<and>
     appended cap ops = written s @ in_flight s"
proof -
  obtain s where s: "run_steps (al_step cap) ops AsyncLogging_start = Inr (s, [])" "al_inv cap s"
      "accepted s = accepted AsyncLogging_start @ appended cap ops"
    using al_run [OF start_inv, of cap ops] by blast
  have "accepted AsyncLogging_start = []" by (simp add: AsyncLogging_start_def)
  then show ?thesis using s by (auto simp: al_inv_def)
qed

text \<open>A full round writes everything. While the logger runs, four steps of the logging thread
  from its loop test write every line appended before them.\<close>

theorem async_round_flushes:
  assumes "run_steps (al_step cap) ops AsyncLogging_start = Inr (s, os)" "al_phase s = ATesting"
    and "running_flag s"
  shows "\<exists>s'. run_steps (al_step cap) [ThreadStep, ThreadStep, ThreadStep, ThreadStep] s = Inr (s', []) \<and>
     written s' = appended cap ops \<and> al_phase s' = ATesting \<and> in_flight s' = []"
proof -
  have inv: "al_inv cap s" using am.run_inv [OF start_inv assms(1)] .
  obtain s0 where "run_steps (al_step cap) ops AsyncLogging_start = Inr (s0, [])"
      "accepted s0 = appended cap ops"
    using al_run [OF start_inv, of cap ops] by (auto simp: AsyncLogging_start_def)
  then have acc: "accepted s = appended cap ops" using assms(1) by simp
  obtain b where b: "currentBuffer s = Some b" "newBuffer1 s = Some []" "newBuffer2 s = Some []"
      "accepted s = written s @ concat (buffers s) @ b" "nextBuffer s = None \<longrightarrow> buffers s \<noteq> []"
    using inv assms(2) by (auto simp: al_inv_def in_flight_def)
  have 0: "al_step cap ThreadStep s = Inr (al_test s, [])" using assms(2) by (simp add: al_thread_def)
  let ?s1 = "s\<lparr>first_round := False, currentBuffer := Some [], newBuffer1 := None,
       buffersToWrite := buffers s @ [b], buffers := [], al_phase := AWriting\<rparr>"
  define s1 where "s1 = (if nextBuffer s = None then ?s1\<lparr>nextBuffer := Some [], newBuffer2 := None\<rparr> else ?s1)"
  have 1: "al_step cap ThreadStep (al_test s) = Inr (s1, [])"
    using assms(2,3) b by (simp add: al_thread_def al_test_def al_take_def s1_def Let_def)
  have inv1: "al_inv cap s1" using am.step_inv [OF am.step_inv [OF inv 0] 1] .
  define s2 where "s2 = s1\<lparr>written := written s1 @ concat (buffersToWrite s1), al_phase := ARecycling\<rparr>"
  have 2: "al_step cap ThreadStep s1 = Inr (s2, [])"
    by (simp add: al_thread_def al_write_def s1_def s2_def)
  have inv2: "al_inv cap s2" using am.step_inv [OF inv1 2] .
  have f2: "al_phase s2 = ARecycling" "buffers s2 = []" "currentBuffer s2 = Some []"
      "written s2 = written s @ concat (buffers s) @ b"
    by (simp_all add: s2_def s1_def)
  obtain s3 where 3: "al_recycle s2 = Inr s3" using al_recycle_inv [OF inv2 f2(1)] by blast
  then have f3: "al_phase s3 = ATesting" "buffers s3 = []" "currentBuffer s3 = Some []" "written s3 = written s2"
    using f2 by (auto simp: al_recycle_def Let_def)
  have "al_step cap ThreadStep s2 = Inr (s3, [])" using 3 f2(1) by (simp add: al_thread_def)
  then show ?thesis using 0 1 2 f3 f2(4) acc b(4) by (simp add: in_flight_def del: al_step.simps)
qed

theorem async_round_flushes_witness:
  "\<exists>s s'. run_steps (al_step 10) [AppendLine ''one'', AppendLine ''two'', AppendLine ''three''] AsyncLogging_start = Inr (s, []) \<and>
     run_steps (al_step 10) [ThreadStep, ThreadStep, ThreadStep, ThreadStep] s = Inr (s', []) \<and> written s' = ''onetwothree''"
proof -
  let ?ops = "[AppendLine ''one'', AppendLine ''two'', AppendLine ''three'']"
  obtain s where s: "run_steps (al_step 10) ?ops AsyncLogging_start = Inr (s, [])" "al_phase s = ATesting" "running_flag s"
    by (simp add: AsyncLogging_start_def al_append_def buf_append_def Let_def)
  from async_round_flushes [OF s] show ?thesis using s(1) by auto
qed

text \<open>A line appended after the last round before a stop is never written. The logging thread
  leaves its loop at the test of \<open>running_\<close> without taking the current buffer once more.\<close>

theorem stop_loses_lines:
  assumes "length line < cap" "0 < length line"
  shows "\<exists>s. run_steps (al_step cap)
       [ThreadStep, ThreadStep, ThreadStep, AppendLine line, Stop, ThreadStep, ThreadStep] AsyncLogging_start = Inr (s, []) \<and>
     al_phase s = AExited \<and> written s = [] \<and> in_flight s = line"
  using assms
  by (simp add: AsyncLogging_start_def al_thread_def al_test_def al_take_def al_write_def al_append_def buf_append_def
      al_stop_def al_recycle_def pop_buffer_def in_flight_def Let_def)

theorem stop_loses_lines_witness:
  "\<exists>s. run_steps (al_step kLargeBuffer)
       [ThreadStep, ThreadStep, ThreadStep, AppendLine ''bye'', Stop, ThreadStep, ThreadStep] AsyncLogging_start = Inr (s, []) \<and>
     al_phase s = AExited \<and> written s = [] \<and> in_flight s = ''bye''"
  using stop_loses_lines [of "''bye''" kLargeBuffer] by (simp add: kLargeBuffer_def)

end
