(* ===== verification/LogBackend.thy ===== *)
theory LogBackend
  imports AsyncLogging Thread
begin

text \<open>
  From a logging macro to the asynchronous back end (include/asynLog/Logging.h, src/asynlog/Logging.cpp,
  src/asynlog/AsyncLogging.cpp): the global level, the global output and flush functions, the
  thread-local pointer \<open>g_asyncLog\<close> they go through, and the objects of class \<open>AsyncLogging\<close> with their
  threads. \<open>t\<close> is the calling thread; objects are known by numbers.
\<close>

section \<open>State\<close>

datatype out_fun = DefaultOutput | AsyncOutput
datatype flush_fun = DefaultFlush | AsyncFlush

record logobj =
  ob_log :: alog
  ob_thread :: thread

record logging =
  g_logLevel :: LogLevel
  g_output :: out_fun
  g_flush :: flush_fun
  g_asyncLog :: "int \<rightharpoonup> nat"
  log_objs :: "nat \<rightharpoonup> logobj"
  stdout_text :: string
  aborted :: bool

definition logging_init :: "bool \<Rightarrow> bool \<Rightarrow> logging" where
  "logging_init asynlog_trace asynlog_debug =
     \<lparr>g_logLevel = initLogLevel asynlog_trace asynlog_debug, g_output = DefaultOutput, g_flush = DefaultFlush,
      g_asyncLog = Map.empty, log_objs = Map.empty, stdout_text = [], aborted = False\<rparr>"

definition setLogLevel :: "LogLevel \<Rightarrow> logging \<Rightarrow> logging" where
  "setLogLevel level s = s\<lparr>g_logLevel := level\<rparr>"

definition setOutput :: "out_fun \<Rightarrow> logging \<Rightarrow> logging" where
  "setOutput func s = s\<lparr>g_output := func\<rparr>"

definition setFlush :: "flush_fun \<Rightarrow> logging \<Rightarrow> logging" where
  "setFlush func s = s\<lparr>g_flush := func\<rparr>"

section \<open>Objects of class AsyncLogging\<close>

text \<open>\<open>running_\<close> is not initialised: \<open>garbage\<close> is what it happens to be.\<close>

definition AsyncLogging_construct :: "int \<Rightarrow> bool \<Rightarrow> nat \<Rightarrow> logging \<Rightarrow> logging" where
  "AsyncLogging_construct t garbage i s =
     s\<lparr>log_objs := (log_objs s)(i \<mapsto>
         \<lparr>ob_log = AsyncLogging_start\<lparr>running_flag := garbage\<rparr>, ob_thread = Thread_new\<rparr>),
       g_asyncLog := (g_asyncLog s)(t \<mapsto> i)\<rparr>"

definition with_log :: "nat \<Rightarrow> logging \<Rightarrow> (logobj \<Rightarrow> logging result) \<Rightarrow> logging result" where
  "with_log i s f = (case log_objs s i of None \<Rightarrow> Inl (BadAccess ''AsyncLogging'') | Some ob \<Rightarrow> f ob)"

definition set_log :: "nat \<Rightarrow> logobj \<Rightarrow> logging \<Rightarrow> logging" where
  "set_log i ob s = s\<lparr>log_objs := (log_objs s)(i \<mapsto> ob)\<rparr>"

definition AsyncLogging_launch :: "int \<Rightarrow> int \<Rightarrow> int \<Rightarrow> nat \<Rightarrow> logging \<Rightarrow> logging result" where
  "AsyncLogging_launch t rc child i s =
     assertE ''g_asyncLog != nullptr'' (g_asyncLog s t \<noteq> None)
       (let s1 = setFlush AsyncFlush (setOutput AsyncOutput s) in
        with_log i s1 (\<lambda>ob.
          bindE (Thread_start rc child (ob_thread ob)) (\<lambda>(th, es).
          Inr (set_log i \<lparr>ob_log = (ob_log ob)\<lparr>running_flag := True\<rparr>, ob_thread = th\<rparr> s1))))"

text \<open>
  Joining waits for the logging thread to leave its loop. Once \<open>running_\<close> is false, five of its steps
  are enough (lemma \<open>drained_exits\<close>).
\<close>

fun drain :: "nat \<Rightarrow> alog \<Rightarrow> alog result" where
  "drain 0 l = Inr l"
| "drain (Suc n) l = bindE (al_thread l) (drain n)"

definition AsyncLogging_stop :: "nat \<Rightarrow> logging \<Rightarrow> logging result" where
  "AsyncLogging_stop i s =
     with_log i s (\<lambda>ob.
       bindE (Thread_join (ob_thread ob)) (\<lambda>(th, es).
       bindE (drain 5 (al_stop (ob_log ob))) (\<lambda>l.
       Inr (set_log i \<lparr>ob_log = l, ob_thread = th\<rparr> s))))"

text \<open>The pointers to a destroyed object stay.\<close>

definition AsyncLogging_delete :: "nat \<Rightarrow> logging \<Rightarrow> logging result" where
  "AsyncLogging_delete i s =
     with_log i s (\<lambda>ob.
       bindE (if running_flag (ob_log ob) then AsyncLogging_stop i s else Inr s) (\<lambda>s1.
       Inr (s1\<lparr>log_objs := (log_objs s1)(i := None)\<rparr>)))"

definition log_thread_step :: "nat \<Rightarrow> logging \<Rightarrow> logging result" where
  "log_thread_step i s =
     with_log i s (\<lambda>ob.
       if th_started (ob_thread ob) then
         bindE (al_thread (ob_log ob)) (\<lambda>l. Inr (set_log i (ob\<lparr>ob_log := l\<rparr>) s))
       else Inr s)"

section \<open>Logging\<close>

text \<open>The two functions \<open>start\<close> installs go through the pointer of the thread that calls them.\<close>

definition through_pointer :: "int \<Rightarrow> logging \<Rightarrow> (nat \<Rightarrow> logging result) \<Rightarrow> logging result" where
  "through_pointer t s f =
     (case g_asyncLog s t of None \<Rightarrow> Inl (BadAccess ''g_asyncLog'') | Some i \<Rightarrow> f i)"

definition call_output :: "nat \<Rightarrow> int \<Rightarrow> string \<Rightarrow> logging \<Rightarrow> logging result" where
  "call_output cap t text s =
     (case g_output s of
        DefaultOutput \<Rightarrow> Inr (s\<lparr>stdout_text := stdout_text s @ text\<rparr>)
      | AsyncOutput \<Rightarrow> through_pointer t s (\<lambda>i. with_log i s (\<lambda>ob.
          bindE (al_append cap text (ob_log ob)) (\<lambda>l. Inr (set_log i (ob\<lparr>ob_log := l\<rparr>) s)))))"

definition call_flush :: "int \<Rightarrow> logging \<Rightarrow> logging result" where
  "call_flush t s =
     (case g_flush s of
        DefaultFlush \<Rightarrow> Inr s
      | AsyncFlush \<Rightarrow> through_pointer t s (\<lambda>i. AsyncLogging_stop i s))"

definition Logger_delete :: "nat \<Rightarrow> int \<Rightarrow> string \<Rightarrow> bool \<Rightarrow> logging \<Rightarrow> logging result" where
  "Logger_delete cap t text fatal s =
     bindE (call_output cap t text s) (\<lambda>s1.
     if fatal then bindE (call_flush t s1) (\<lambda>s2. Inr (s2\<lparr>aborted := True\<rparr>)) else Inr s1)"

text \<open>
  A statement \<open>LOG_... << user\<close>: the macro looks at the level, the line is formatted, the destructor
  hands it over.
\<close>

definition log_statement ::
  "(int \<Rightarrow> string) \<Rightarrow> date \<Rightarrow> nat \<Rightarrow> int \<Rightarrow> LogLevel \<Rightarrow> int \<Rightarrow> string option \<Rightarrow> log_arg list \<Rightarrow> string \<Rightarrow> int \<Rightarrow>
     logging \<Rightarrow> logging result" where
  "log_statement strerror now cap t level errno func user file line s =
     (if log_macro (g_logLevel s) level then
        bindE (Logger_emit strerror now t level errno func user file line) (\<lambda>(text, fatal).
        Logger_delete cap t text fatal s)
      else Inr s)"

section \<open>Stopping\<close>

lemma al_stop_inv: "al_inv cap l \<Longrightarrow> al_inv cap (al_stop l)"
  by (auto simp: al_stop_def al_inv_def in_flight_def split: al_phase.splits)

lemma exited_stays: "al_phase l = AExited \<Longrightarrow> drain n l = Inr l"
  by (induction n) (simp_all add: al_thread_def)

text \<open>The logging thread will take the buffers, whatever becomes of \<open>running_\<close>.\<close>

definition will_take :: "alog \<Rightarrow> bool" where
  "will_take l \<longleftrightarrow> al_phase l = ATaking \<or> al_phase l = ATesting \<and> first_round l"

text \<open>What has been written when the logging thread, told to stop now, has left its loop.\<close>

definition stop_outcome :: "alog \<Rightarrow> string" where
  "stop_outcome l = (if will_take l then accepted l
     else written l @ (if al_phase l = AWriting then concat (buffersToWrite l) else []))"

lemma thread_frame: "al_thread l = Inr l' \<Longrightarrow> running_flag l' = running_flag l"
  by (auto simp: al_thread_def al_test_def al_take_def al_write_def al_recycle_def Let_def
      split: al_phase.splits option.splits if_splits)

text \<open>A step leaves the outcome as it is; only the loop test, passed while the logger runs, extends it to everything.\<close>

lemma thread_outcome:
  assumes inv: "al_inv cap l" and step: "al_thread l = Inr l'"
  shows "stop_outcome l' = (if al_phase l = ATesting \<and> running_flag l then accepted l else stop_outcome l)"
proof (cases "al_phase l")
  case ATesting
  then show ?thesis using step inv
    by (auto simp: al_thread_def al_test_def stop_outcome_def will_take_def)
next
  case ATaking
  then show ?thesis using step inv
    by (auto simp: al_thread_def al_take_def stop_outcome_def will_take_def al_inv_def in_flight_def Let_def
        split: option.splits if_splits)
next
  case AWriting
  then show ?thesis using step inv
    by (auto simp: al_thread_def al_write_def stop_outcome_def will_take_def)
next
  case ARecycling
  then have "\<not> first_round l" using inv by (auto simp: al_inv_def)
  then show ?thesis using step ARecycling
    by (auto simp: al_thread_def al_recycle_def stop_outcome_def will_take_def Let_def)
next
  case AExited
  then show ?thesis using step by (simp add: al_thread_def)
qed

text \<open>The phases follow each other, and the first round is over with its loop test.\<close>

lemma thread_phase:
  assumes "al_inv cap l" "al_thread l = Inr l'"
  shows "al_phase l' = (case al_phase l of
      ATesting \<Rightarrow> if running_flag l \<or> first_round l then ATaking else AExited
    | ATaking \<Rightarrow> AWriting | AWriting \<Rightarrow> ARecycling | ARecycling \<Rightarrow> ATesting | AExited \<Rightarrow> AExited)"
    and "\<not> first_round l'"
proof -
  have f: "first_round l \<Longrightarrow> al_phase l = ATesting" using assms(1) by (simp add: al_inv_def)
  show "al_phase l' = (case al_phase l of
      ATesting \<Rightarrow> if running_flag l \<or> first_round l then ATaking else AExited
    | ATaking \<Rightarrow> AWriting | AWriting \<Rightarrow> ARecycling | ARecycling \<Rightarrow> ATesting | AExited \<Rightarrow> AExited)"
    using assms(2)
    by (auto simp: al_thread_def al_test_def al_take_def al_write_def al_recycle_def Let_def
        split: al_phase.splits option.splits if_splits)
  show "\<not> first_round l'" using assms(2) f
    by (auto simp: al_thread_def al_test_def al_take_def al_write_def al_recycle_def Let_def
        split: al_phase.splits option.splits if_splits)
qed

text \<open>The steps a stopped logging thread has before it.\<close>

definition steps_left :: "alog \<Rightarrow> nat" where
  "steps_left l = (case al_phase l of
     ATesting \<Rightarrow> if first_round l then 5 else 1 | ATaking \<Rightarrow> 4 | AWriting \<Rightarrow> 3 | ARecycling \<Rightarrow> 2 | AExited \<Rightarrow> 0)"

lemma thread_steps_left:
  assumes "al_inv cap l" "\<not> running_flag l" "al_thread l = Inr l'"
  shows "steps_left l' = steps_left l - 1"
  using thread_phase [OF assms(1,3)] assms(2) by (simp add: steps_left_def split: al_phase.split)

text \<open>Joining ends, with the outcome that was settled when \<open>running_\<close> became false.\<close>

lemma drain_outcome:
  "al_inv cap l \<Longrightarrow> \<not> running_flag l \<Longrightarrow> steps_left l \<le> n \<Longrightarrow>
     \<exists>l'. drain n l = Inr l' \<and> al_phase l' = AExited \<and> al_inv cap l' \<and> accepted l' = accepted l \<and>
       written l' = stop_outcome l"
proof (induction n arbitrary: l)
  case 0
  then show ?case
    by (cases "al_phase l") (auto simp: steps_left_def stop_outcome_def will_take_def split: if_splits)
next
  case (Suc n)
  obtain l1 where l1: "al_thread l = Inr l1" "al_inv cap l1" "accepted l1 = accepted l"
    using al_step_inv [OF Suc.prems(1), of ThreadStep] by auto
  have "\<not> running_flag l1" using Suc.prems(2) thread_frame [OF l1(1)] by simp
  moreover have "steps_left l1 \<le> n" using Suc.prems(3) thread_steps_left [OF Suc.prems(1,2) l1(1)] by simp
  ultimately show ?case
    using Suc.IH [OF l1(2)] l1 thread_outcome [OF Suc.prems(1) l1(1)] Suc.prems(2) by simp
qed

lemma drained_exits:
  assumes "al_inv cap l"
  shows "\<exists>l'. drain 5 (al_stop l) = Inr l' \<and> al_phase l' = AExited \<and> al_inv cap l' \<and> accepted l' = accepted l \<and>
    written l' = stop_outcome l"
proof -
  have "steps_left (al_stop l) \<le> 5" by (simp add: steps_left_def split: al_phase.split)
  moreover have "stop_outcome (al_stop l) = stop_outcome l" "accepted (al_stop l) = accepted l"
    by (simp_all add: stop_outcome_def will_take_def al_stop_def)
  ultimately show ?thesis
    using drain_outcome [OF al_stop_inv [OF assms], of 5] by (simp add: al_stop_def)
qed

text \<open>
  How many steps a running logging thread needs until nothing keeps it from taking the buffers; \<open>drain\<close> makes them,
  as any number of steps.
\<close>

definition steps_to_taking :: "alog \<Rightarrow> nat" where
  "steps_to_taking l = (case al_phase l of
     ATesting \<Rightarrow> if first_round l then 0 else 1 | ATaking \<Rightarrow> 0 | AWriting \<Rightarrow> 3 | ARecycling \<Rightarrow> 2 | AExited \<Rightarrow> 0)"

lemma steps_settled:
  "al_inv cap l \<Longrightarrow> running_flag l \<Longrightarrow> steps_to_taking l = 0 \<Longrightarrow> stop_outcome l = accepted l"
  by (simp add: steps_to_taking_def stop_outcome_def will_take_def al_inv_def split: al_phase.splits if_splits)

lemma running_steps:
  "al_inv cap l \<Longrightarrow> running_flag l \<Longrightarrow>
     \<exists>l'. drain n l = Inr l' \<and> al_inv cap l' \<and> accepted l' = accepted l \<and>
       stop_outcome l' = (if steps_to_taking l \<le> n then accepted l else stop_outcome l)"
proof (induction n arbitrary: l)
  case 0
  then show ?case using steps_settled [of cap l] by simp
next
  case (Suc n)
  obtain l1 where l1: "al_thread l = Inr l1" "al_inv cap l1" "accepted l1 = accepted l"
    using al_step_inv [OF Suc.prems(1), of ThreadStep] by auto
  have r: "running_flag l1" using Suc.prems(2) thread_frame [OF l1(1)] by simp
  note out = thread_outcome [OF Suc.prems(1) l1(1)]
  have follow: "steps_to_taking l \<noteq> 0 \<Longrightarrow> steps_to_taking l1 = steps_to_taking l - 1"
    using thread_phase [OF Suc.prems(1) l1(1)] Suc.prems(2)
    by (cases "al_phase l") (simp_all add: steps_to_taking_def)
  have testing: "al_phase l = ATesting \<Longrightarrow> steps_to_taking l \<le> 1" "steps_to_taking l = 1 \<Longrightarrow> al_phase l = ATesting"
    by (simp_all add: steps_to_taking_def split: al_phase.splits)
  have out': "stop_outcome l1 = (if steps_to_taking l \<le> 1 then accepted l else stop_outcome l)"
    using out Suc.prems testing steps_settled [OF Suc.prems] by (auto simp: le_Suc_eq)
  obtain l' where l': "drain n l1 = Inr l'" "al_inv cap l'" "accepted l' = accepted l1"
      "stop_outcome l' = (if steps_to_taking l1 \<le> n then accepted l1 else stop_outcome l1)"
    using Suc.IH [OF l1(2) r] by blast
  have "stop_outcome l' = (if steps_to_taking l \<le> Suc n then accepted l else stop_outcome l)"
  proof (cases "steps_to_taking l \<le> 1")
    case True
    then show ?thesis using l'(4) l1(3) out' by simp
  next
    case False
    then show ?thesis using l'(4) l1(3) out' follow by auto
  qed
  then show ?case using l1 l' by simp
qed

section \<open>Fatal errors\<close>

text \<open>A back end that has been started in thread \<open>t\<close> and not stopped.\<close>

definition backend :: "nat \<Rightarrow> int \<Rightarrow> nat \<Rightarrow> logobj \<Rightarrow> logging \<Rightarrow> bool" where
  "backend cap t i ob s \<longleftrightarrow>
     g_output s = AsyncOutput \<and> g_flush s = AsyncFlush \<and> g_asyncLog s t = Some i \<and> log_objs s i = Some ob \<and>
     al_inv cap (ob_log ob) \<and> th_started (ob_thread ob) \<and> \<not> th_joined (ob_thread ob)"

lemma stop_backend:
  assumes "log_objs s i = Some ob" "th_started (ob_thread ob)" "\<not> th_joined (ob_thread ob)"
    and "drain 5 (al_stop (ob_log ob)) = Inr l"
  shows "AsyncLogging_stop i s = Inr (set_log i \<lparr>ob_log = l, ob_thread = (ob_thread ob)\<lparr>th_joined := True\<rparr>\<rparr> s)"
  using assms by (simp add: AsyncLogging_stop_def with_log_def Thread_join_def)

lemma output_backend:
  assumes "backend cap t i ob s" "length text < cap"
  obtains l where "al_append cap text (ob_log ob) = Inr l" "al_inv cap l" "accepted l = accepted (ob_log ob) @ text"
    "call_output cap t text s = Inr (set_log i (ob\<lparr>ob_log := l\<rparr>) s)"
    "backend cap t i (ob\<lparr>ob_log := l\<rparr>) (set_log i (ob\<lparr>ob_log := l\<rparr>) s)"
proof -
  from assms(1) have "al_inv cap (ob_log ob)" by (simp add: backend_def)
  then have "\<exists>l. al_append cap text (ob_log ob) = Inr l \<and> al_inv cap l \<and>
      accepted l = accepted (ob_log ob) @ (if length text < cap then text else [])" by (rule al_append_inv)
  then obtain l where
    "al_append cap text (ob_log ob) = Inr l" "al_inv cap l" "accepted l = accepted (ob_log ob) @ text" using assms(2) by auto
  then show ?thesis using that assms(1)
    by (simp add: backend_def call_output_def through_pointer_def with_log_def set_log_def)
qed

text \<open>Appending touches neither what was written nor the phase of the logging thread.\<close>

lemma append_frame:
  "al_append cap text l = Inr l' \<Longrightarrow> written l' = written l \<and> al_phase l' = al_phase l \<and>
     first_round l' = first_round l \<and> buffersToWrite l' = buffersToWrite l \<and> running_flag l' = running_flag l"
  by (auto simp: al_append_def Let_def split: option.splits if_splits)

text \<open>\<open>n\<close> steps of the logging thread.\<close>

fun log_thread_steps :: "nat \<Rightarrow> nat \<Rightarrow> logging \<Rightarrow> logging result" where
  "log_thread_steps 0 i s = Inr s"
| "log_thread_steps (Suc n) i s = bindE (log_thread_step i s) (log_thread_steps n i)"

lemma log_thread_steps_drain:
  "log_objs s i = Some ob \<Longrightarrow> th_started (ob_thread ob) \<Longrightarrow> drain n (ob_log ob) = Inr l \<Longrightarrow>
     log_thread_steps n i s = Inr (s\<lparr>log_objs := (log_objs s)(i \<mapsto> ob\<lparr>ob_log := l\<rparr>)\<rparr>)"
proof (induction n arbitrary: s ob)
  case 0
  then show ?case by (simp add: map_upd_triv)
next
  case (Suc n)
  then obtain l1 where l1: "al_thread (ob_log ob) = Inr l1" "drain n l1 = Inr l"
    by (cases "al_thread (ob_log ob)") auto
  let ?ob = "ob\<lparr>ob_log := l1\<rparr>"
  have "log_thread_step i s = Inr (s\<lparr>log_objs := (log_objs s)(i \<mapsto> ?ob)\<rparr>)"
    using Suc.prems l1(1) by (simp add: log_thread_step_def with_log_def set_log_def)
  then show ?case
    using Suc.IH [of "s\<lparr>log_objs := (log_objs s)(i \<mapsto> ?ob)\<rparr>" ?ob] Suc.prems(2) l1(2) by (simp cong: if_cong)
qed

text \<open>C36: The line of a fatal error is lost unless the logging thread is quick. When a \<open>LOG_FATAL\<close> is reached in the
  thread of a running asynchronous logger, its line is appended, the logging thread is stopped and joined, and the
  process aborts. Let the logging thread make any number \<open>n\<close> of steps between the append and the stop. If with them it
  passes the test of its loop (none are needed if it has passed it and not yet taken the buffers, or is at the test for
  the first time; one at a later test, two while it recycles, three while it writes), everything is written, the fatal
  line included. Otherwise it leaves its loop without taking the buffers again: only the round it was writing is written,
  and the fatal line and whatever was appended since that round are lost.\<close>

theorem fatal_line_lost:
  assumes "backend cap t i ob s" "running_flag (ob_log ob)" "length text < cap"
  shows "\<exists>s1 s2 s3 ob'. call_output cap t text s = Inr s1 \<and> log_thread_steps n i s1 = Inr s2 \<and>
    call_flush t s2 = Inr s3 \<and> log_objs s3 i = Some ob' \<and> al_phase (ob_log ob') = AExited \<and>
    (if steps_to_taking (ob_log ob) \<le> n
     then written (ob_log ob') = accepted (ob_log ob) @ text
     else written (ob_log ob') = written (ob_log ob) @
            (if al_phase (ob_log ob) = AWriting then concat (buffersToWrite (ob_log ob)) else []) \<and>
          (\<exists>lost. accepted (ob_log ob) @ text = written (ob_log ob') @ lost @ text)) \<and>
    (n = 0 \<longrightarrow> Logger_delete cap t text True s = Inr (s3\<lparr>aborted := True\<rparr>))"
proof -
  obtain l where l: "al_append cap text (ob_log ob) = Inr l" "al_inv cap l" "accepted l = accepted (ob_log ob) @ text"
      "call_output cap t text s = Inr (set_log i (ob\<lparr>ob_log := l\<rparr>) s)"
    by (rule output_backend [OF assms(1,3)])
  note fr = append_frame [OF l(1)]
  have inv: "al_inv cap (ob_log ob)" and be: "g_flush s = AsyncFlush" "g_asyncLog s t = Some i"
      "th_started (ob_thread ob)" "\<not> th_joined (ob_thread ob)"
    using assms(1) by (simp_all add: backend_def)
  have steps: "steps_to_taking l = steps_to_taking (ob_log ob)"
    using fr by (simp add: steps_to_taking_def)
  obtain l2 where l2: "drain n l = Inr l2" "al_inv cap l2" "accepted l2 = accepted l"
      "stop_outcome l2 = (if steps_to_taking l \<le> n then accepted l else stop_outcome l)"
    using running_steps [OF l(2), of n] fr assms(2) by auto
  obtain l3 where l3: "drain 5 (al_stop l2) = Inr l3" "al_phase l3 = AExited" "written l3 = stop_outcome l2"
    using drained_exits [OF l2(2)] by blast
  let ?s1 = "set_log i (ob\<lparr>ob_log := l\<rparr>) s" and ?s2 = "set_log i (ob\<lparr>ob_log := l2\<rparr>) s"
  let ?ob = "\<lparr>ob_log = l3, ob_thread = (ob_thread ob)\<lparr>th_joined := True\<rparr>\<rparr>"
  have 2: "log_thread_steps n i ?s1 = Inr ?s2"
    using log_thread_steps_drain [of ?s1 i "ob\<lparr>ob_log := l\<rparr>" n l2] be l2(1) by (simp add: set_log_def)
  have 3: "call_flush t ?s2 = Inr (set_log i ?ob ?s2)"
    using stop_backend [of ?s2 i "ob\<lparr>ob_log := l2\<rparr>" l3] be l3(1)
    by (simp add: call_flush_def through_pointer_def set_log_def)
  have lost: "stop_outcome l = written (ob_log ob) @
      (if al_phase (ob_log ob) = AWriting then concat (buffersToWrite (ob_log ob)) else [])"
    if "\<not> steps_to_taking l \<le> n"
    using that fr by (auto simp: stop_outcome_def will_take_def steps_to_taking_def split: al_phase.splits if_splits)
  have rest: "\<exists>lost. accepted (ob_log ob) @ text = (written (ob_log ob) @
      (if al_phase (ob_log ob) = AWriting then concat (buffersToWrite (ob_log ob)) else [])) @ lost @ text"
    using inv by (simp add: al_inv_def in_flight_def)
  have "Logger_delete cap t text True s = Inr ((set_log i ?ob ?s2)\<lparr>aborted := True\<rparr>)" if "n = 0"
    using that l(4) 2 3 by (simp add: Logger_delete_def)
  then show ?thesis
    using l(3,4) 2 3 l2(4) l3(2,3) lost rest steps
    by (intro exI [of _ ?s1] exI [of _ ?s2] exI [of _ "set_log i ?ob ?s2"] exI [of _ ?ob]) (simp add: set_log_def)
qed

lemma start_backend:
  assumes "AsyncLogging_launch t 0 child i (AsyncLogging_construct t garbage i s) = Inr s'"
  shows "\<exists>ob. backend cap t i ob s' \<and> ob_log ob = AsyncLogging_start \<and> g_logLevel s' = g_logLevel s \<and>
    g_asyncLog s' = (g_asyncLog s)(t \<mapsto> i)"
proof -
  have "AsyncLogging_start\<lparr>running_flag := True\<rparr> = AsyncLogging_start" by (simp add: AsyncLogging_start_def)
  then show ?thesis using assms
    by (auto simp: AsyncLogging_launch_def AsyncLogging_construct_def with_log_def set_log_def setFlush_def setOutput_def
        Thread_start_def Thread_new_def backend_def Let_def)
qed

text \<open>With the logging thread at its recycling, one step before the stop loses the line, and two save it.\<close>

theorem fatal_line_lost_witness:
  "\<exists>s ob. backend 4000 1 0 ob s \<and> accepted (ob_log ob) = ''ok'' \<and>
     (\<exists>s1 s2 s3 ob'. call_output 4000 1 ''fatal'' s = Inr s1 \<and> log_thread_steps 1 0 s1 = Inr s2 \<and>
        call_flush 1 s2 = Inr s3 \<and> log_objs s3 0 = Some ob' \<and> written (ob_log ob') = ''ok'') \<and>
     (\<exists>s1 s2 s3 ob'. call_output 4000 1 ''fatal'' s = Inr s1 \<and> log_thread_steps 2 0 s1 = Inr s2 \<and>
        call_flush 1 s2 = Inr s3 \<and> log_objs s3 0 = Some ob' \<and> written (ob_log ob') = ''okfatal'')"
proof -
  let ?ops = "[AppendLine ''ok'', ThreadStep, ThreadStep, ThreadStep]"
  note evals = AsyncLogging_start_def al_thread_def al_test_def al_take_def al_write_def al_append_def buf_append_def Let_def
  define l where "l = (case run_steps (al_step 4000) ?ops AsyncLogging_start of
      Inr (l, es) \<Rightarrow> l | Inl f \<Rightarrow> AsyncLogging_start)"
  obtain es where run: "run_steps (al_step 4000) ?ops AsyncLogging_start = Inr (l, es)"
    unfolding l_def by (simp add: evals)
  then have l: "running_flag l" "accepted l = ''ok''" "written l = ''ok''" "al_phase l = ARecycling"
    by (auto simp: evals)
  define ob where "ob = \<lparr>ob_log = l, ob_thread = \<lparr>th_started = True, th_joined = False, th_tid = 7\<rparr>\<rparr>"
  define s where "s = \<lparr>g_logLevel = INFO, g_output = AsyncOutput, g_flush = AsyncFlush,
      g_asyncLog = [1 \<mapsto> 0], log_objs = [0 \<mapsto> ob], stdout_text = [], aborted = False\<rparr>"
  have be: "backend 4000 1 0 ob s"
    using am.run_inv [OF start_inv run] by (simp add: backend_def s_def ob_def)
  have st: "steps_to_taking (ob_log ob) = 2" "al_phase (ob_log ob) \<noteq> AWriting" "accepted (ob_log ob) = ''ok''"
      "written (ob_log ob) = ''ok''" using l by (simp_all add: ob_def steps_to_taking_def)
  have "running_flag (ob_log ob)" "length ''fatal'' < 4000" using l by (simp_all add: ob_def)
  note out = fatal_line_lost [OF be this]
  have "\<exists>s1 s2 s3 ob'. call_output 4000 1 ''fatal'' s = Inr s1 \<and> log_thread_steps 1 0 s1 = Inr s2 \<and>
      call_flush 1 s2 = Inr s3 \<and> log_objs s3 0 = Some ob' \<and> written (ob_log ob') = ''ok''"
    using out [of 1] st by auto
  moreover have "\<exists>s1 s2 s3 ob'. call_output 4000 1 ''fatal'' s = Inr s1 \<and> log_thread_steps 2 0 s1 = Inr s2 \<and>
      call_flush 1 s2 = Inr s3 \<and> log_objs s3 0 = Some ob' \<and> written (ob_log ob') = ''okfatal''"
    using out [of 2] st by auto
  ultimately show ?thesis using be st(3) by blast
qed

section \<open>Other threads\<close>

text \<open>C40: Once an asynchronous logger is started in a thread, a log statement of another thread goes through
  a null pointer, and one of its own thread is appended; after the logger is destroyed, the
  statements of its thread go through a dangling pointer. In a server every loop of the pool has a
  thread of its own.\<close>

theorem other_threads_fault:
  assumes "AsyncLogging_launch t 0 child i (AsyncLogging_construct t garbage i (logging_init a b)) = Inr s"
    and "log_macro (g_logLevel s) level" "u \<noteq> t"
    and "\<forall>a\<in>set user. arg_ok a" "arg_ok (AInt u)" "arg_ok (AInt errno)" "arg_ok (AInt line)"
  shows "log_statement strerror now cap u level errno func user file line s = Inl (BadAccess ''g_asyncLog'') \<and>
    (length text < cap \<longrightarrow> (\<exists>s' ob'. Logger_delete cap t text False s = Inr s' \<and> log_objs s' i = Some ob' \<and>
       accepted (ob_log ob') = text)) \<and>
    (\<forall>s'. AsyncLogging_delete i s = Inr s' \<longrightarrow> Logger_delete cap t text False s' = Inl (BadAccess ''AsyncLogging''))"
proof -
  obtain ob where ob: "backend cap t i ob s" "ob_log ob = AsyncLogging_start" "g_asyncLog s = [t \<mapsto> i]"
    using start_backend [OF assms(1), of cap] by (auto simp: logging_init_def)
  obtain m fatal where "Logger_emit strerror now u level errno func user file line = Inr (m, fatal)"
    using emit_outcome [OF assms(4-7)] by blast
  then have "log_statement strerror now cap u level errno func user file line s = Inl (BadAccess ''g_asyncLog'')"
    using assms(2,3) ob by (simp add: log_statement_def Logger_delete_def call_output_def through_pointer_def backend_def)
  moreover have "\<exists>s' ob'. Logger_delete cap t text False s = Inr s' \<and> log_objs s' i = Some ob' \<and>
       accepted (ob_log ob') = text" if len: "length text < cap"
  proof -
    obtain l where "accepted l = accepted (ob_log ob) @ text" "call_output cap t text s = Inr (set_log i (ob\<lparr>ob_log := l\<rparr>) s)"
      by (rule output_backend [OF ob(1) len])
    then show ?thesis using ob(2) by (simp add: Logger_delete_def set_log_def AsyncLogging_start_def)
  qed
  moreover have "Logger_delete cap t text False s' = Inl (BadAccess ''AsyncLogging'')" if "AsyncLogging_delete i s = Inr s'" for s'
  proof -
    from that obtain s1 where "s' = s1\<lparr>log_objs := (log_objs s1)(i := None)\<rparr>" "s1 = s \<or> AsyncLogging_stop i s = Inr s1"
      by (auto simp: AsyncLogging_delete_def with_log_def split: option.splits if_splits)
    then have "g_output s' = AsyncOutput" "g_asyncLog s' t = Some i" "log_objs s' i = None"
      using ob(1) by (auto simp: backend_def AsyncLogging_stop_def with_log_def set_log_def split: option.splits)
    then show ?thesis by (simp add: Logger_delete_def call_output_def through_pointer_def with_log_def)
  qed
  ultimately show ?thesis by blast
qed

theorem other_threads_fault_witness:
  "\<exists>s. AsyncLogging_launch 1 0 7 0 (AsyncLogging_construct 1 False 0 (logging_init False False)) = Inr s \<and>
     log_statement (\<lambda>_. ''e'') \<lparr>year = 2024, month = 5, day = 6, hour = 7, minute = 8, second = 9\<rparr> kLargeBuffer 2 WARN 0 None
       [] ''a.cpp'' 3 s = Inl (BadAccess ''g_asyncLog'')"
proof -
  obtain s where s: "AsyncLogging_launch 1 0 7 0 (AsyncLogging_construct 1 False 0 (logging_init False False)) = Inr s"
    by (simp add: AsyncLogging_launch_def AsyncLogging_construct_def with_log_def set_log_def setFlush_def setOutput_def
        Thread_start_def Thread_new_def Let_def)
  have "log_macro (g_logLevel s) WARN" "arg_ok (AInt 2)" "arg_ok (AInt 0)" "arg_ok (AInt 3)" by simp_all
  from other_threads_fault [OF s this(1) _ _ this(2,3,4), of "[]"] s show ?thesis by auto
qed

end
