(* ===== verification/LogFile.thy ===== *)
theory LogFile
  imports Prelude
begin

text \<open>
  Log files (include/asynLog/LogFile.h, include/asynLog/AppendFile.h, src/asynlog/LogFile.cpp,
  src/asynlog/AppendFile.cpp): appending to a stdio file, rolling to a new file by size and by
  day, flushing at intervals. The clock and the results of \<open>fwrite\<close> are arguments; what reaches
  the files is the output.
\<close>

section \<open>AppendFile\<close>

text \<open>
  The loop over \<open>fwrite_unlocked\<close>: each outcome is the number of bytes taken and whether
  \<open>ferror\<close> reports an error. \<open>None\<close> when the outcomes run out before the loop ends. The loop
  yields the bytes that went into the file and the value of \<open>written\<close>.
\<close>

fun append_loop :: "(nat \<times> bool) list \<Rightarrow> string \<Rightarrow> nat \<Rightarrow> string \<Rightarrow> (string \<times> nat) option" where
  "append_loop outcomes logline dn out =
     (if dn \<noteq> length logline then
        (case outcomes of
           [] \<Rightarrow> None
         | (n, err) # rest \<Rightarrow>
             (let remain = length logline - dn;
                  out1 = out @ take n (drop dn logline)
              in if n \<noteq> remain \<and> err then Some (out1, dn)
                 else append_loop rest logline (dn + n) out1))
      else Some (out, dn))"

declare append_loop.simps [simp del]

record appendfile =
  f_opened :: int
  writtenBytes :: int

datatype f_eff = FOpen int | FWrite string | FFlush

definition AppendFile_append ::
  "(nat \<times> bool) list \<Rightarrow> string \<Rightarrow> appendfile \<Rightarrow> (appendfile \<times> f_eff list) option" where
  "AppendFile_append outcomes logline f =
     (case append_loop outcomes logline 0 [] of
        None \<Rightarrow> None
      | Some (bytes, n) \<Rightarrow> Some (f\<lparr>writtenBytes := writtenBytes f + int n\<rparr>, [FWrite bytes]))"

section \<open>LogFile\<close>

definition kRollPerSeconds :: int where "kRollPerSeconds = 60 * 60 * 24"

record logfile =
  rollSize :: int
  flushInterval :: int
  checkEveryN :: int
  lf_count :: int
  startOfPeriod :: int
  lastRoll :: int
  lastFlush :: int
  lf_file :: appendfile

definition rollFile :: "int \<Rightarrow> logfile \<Rightarrow> logfile \<times> f_eff list" where
  "rollFile now s =
     (let start = now div kRollPerSeconds * kRollPerSeconds in
      if now > lastRoll s
      then (s\<lparr>lastRoll := now, lastFlush := now, startOfPeriod := start,
             lf_file := \<lparr>f_opened = now, writtenBytes = 0\<rparr>\<rparr>, [FOpen now])
      else (s, []))"

text \<open>The constructor rolls once, from \<open>lastRoll_ = 0\<close>; \<open>now\<close> is positive.\<close>

definition LogFile_new :: "int \<Rightarrow> int \<Rightarrow> int \<Rightarrow> int \<Rightarrow> logfile \<times> f_eff list" where
  "LogFile_new roll flushInt n now =
     rollFile now \<lparr>rollSize = roll, flushInterval = flushInt, checkEveryN = n, lf_count = 0,
       startOfPeriod = 0, lastRoll = 0, lastFlush = 0, lf_file = \<lparr>f_opened = 0, writtenBytes = 0\<rparr>\<rparr>"

text \<open>\<open>now\<close> is the clock at the calls of \<open>time\<close>.\<close>

definition append_unlocked ::
  "(nat \<times> bool) list \<Rightarrow> string \<Rightarrow> int \<Rightarrow> logfile \<Rightarrow> (logfile \<times> f_eff list) option" where
  "append_unlocked outcomes logline now s =
     (case AppendFile_append outcomes logline (lf_file s) of
        None \<Rightarrow> None
      | Some (f, es) \<Rightarrow>
          (let s1 = s\<lparr>lf_file := f\<rparr> in
           if writtenBytes f > rollSize s1 then
             (let (s2, es2) = rollFile now s1 in Some (s2, es @ es2))
           else
             (let s2 = s1\<lparr>lf_count := lf_count s1 + 1\<rparr> in
              if lf_count s2 \<ge> checkEveryN s2 then
                (let s3 = s2\<lparr>lf_count := 0\<rparr>;
                     thisPeriod = now div kRollPerSeconds * kRollPerSeconds
                 in if thisPeriod \<noteq> startOfPeriod s3 then
                      (let (s4, es2) = rollFile now s3 in Some (s4, es @ es2))
                    else if now - lastFlush s3 > flushInterval s3 then
                      Some (s3\<lparr>lastFlush := now\<rparr>, es @ [FFlush])
                    else Some (s3, es))
              else Some (s2, es))))"

section \<open>What the files hold\<close>

text \<open>The files in the order they were opened, each with its contents.\<close>

fun files :: "f_eff list \<Rightarrow> string list \<Rightarrow> string list" where
  "files [] fs = fs"
| "files (FOpen t # es) fs = files es (fs @ [[]])"
| "files (FWrite b # es) fs = files es (butlast fs @ [last fs @ b])"
| "files (FFlush # es) fs = files es fs"

lemma files_append: "files (es @ es') fs = files es' (files es fs)"
  by (induction es fs rule: files.induct) simp_all

text \<open>\<open>fwrite\<close> that takes a part of the rest at each call and reports no error.\<close>

fun good_outcomes :: "(nat \<times> bool) list \<Rightarrow> nat \<Rightarrow> bool" where
  "good_outcomes outcomes n \<longleftrightarrow> list_all (\<lambda>(k, err). \<not> err) outcomes \<and> sum_list (map fst outcomes) = n"

lemma append_loop_good:
  "list_all (\<lambda>(k, err). \<not> err) outcomes \<Longrightarrow> i + sum_list (map fst outcomes) = length logline \<Longrightarrow>
     append_loop outcomes logline i out = Some (out @ drop i logline, length logline)"
proof (induction outcomes arbitrary: i out)
  case Nil
  then show ?case by (simp add: append_loop.simps)
next
  case (Cons o' rest)
  obtain n err where o': "o' = (n, err)" by (cases o')
  show ?case
  proof (cases "i = length logline")
    case True
    then show ?thesis by (simp add: append_loop.simps)
  next
    case False
    have "append_loop rest logline (i + n) (out @ take n (drop i logline)) =
        Some ((out @ take n (drop i logline)) @ drop (i + n) logline, length logline)"
      by (rule Cons.IH) (use Cons.prems o' in auto)
    moreover have "take n (drop i logline) @ drop (i + n) logline = drop i logline"
      by (metis append_take_drop_id drop_drop add.commute)
    ultimately show ?thesis using False Cons.prems o'
      by (subst append_loop.simps) (simp add: Let_def)
  qed
qed

definition lf_ok :: "logfile \<Rightarrow> string list \<Rightarrow> bool" where
  "lf_ok s fs \<longleftrightarrow> fs \<noteq> [] \<and> writtenBytes (lf_file s) = int (length (last fs))"

lemma concat_files: "fs \<noteq> [] \<Longrightarrow> concat (butlast fs @ [last fs @ b]) = concat fs @ b"
  by (induction fs) auto

lemma rollFile_files:
  assumes "rollFile now s = (s', es)" "lf_ok s fs"
  shows "lf_ok s' (files es fs) \<and> concat (files es fs) = concat fs \<and> rollSize s' = rollSize s \<and>
    (lastRoll s < now \<longrightarrow> writtenBytes (lf_file s') = 0) \<and>
    (\<not> lastRoll s < now \<longrightarrow> s' = s)"
  using assms by (auto simp: rollFile_def lf_ok_def Let_def split: if_splits)

lemma append_keeps_lines_helper:
  assumes "lf_ok s fs" "good_outcomes outcomes (length logline)"
  shows "\<exists>s' es. append_unlocked outcomes logline now s = Some (s', es) \<and>
     concat (files es fs) = concat fs @ logline \<and> lf_ok s' (files es fs) \<and>
     (files es fs = butlast fs @ [last fs @ logline] \<or>
      files es fs = butlast fs @ [last fs @ logline, []])"
proof -
  let ?f = "(lf_file s)\<lparr>writtenBytes := writtenBytes (lf_file s) + int (length logline)\<rparr>"
  let ?s1 = "s\<lparr>lf_file := ?f\<rparr>"
  have ap: "AppendFile_append outcomes logline (lf_file s) = Some (?f, [FWrite logline])"
    using append_loop_good [of outcomes 0 logline "[]"] assms(2) by (simp add: AppendFile_append_def)
  let ?fs = "butlast fs @ [last fs @ logline]"
  have c: "concat ?fs = concat fs @ logline"
    by (rule concat_files) (use assms(1) in \<open>simp add: lf_ok_def\<close>)
  have ok1: "lf_ok (?s1\<lparr>lf_count := c\<rparr>) ?fs" "lf_ok ?s1 ?fs" for c using assms(1) by (simp_all add: lf_ok_def)
  have roll: "\<exists>s' es. (let (s2, es2) = rollFile now x in Some (s2, [FWrite logline] @ es2)) = Some (s', es) \<and>
      concat (files es fs) = concat fs @ logline \<and> lf_ok s' (files es fs) \<and>
      (files es fs = ?fs \<or> files es fs = butlast fs @ [last fs @ logline, []])"
    if x: "lf_ok x ?fs" for x
  proof -
    obtain s2 es2 where r: "rollFile now x = (s2, es2)" by (cases "rollFile now x")
    have "es2 = [] \<or> es2 = [FOpen now]" using r by (auto simp: rollFile_def Let_def split: if_splits)
    then have "files es2 ?fs = ?fs \<or> files es2 ?fs = butlast fs @ [last fs @ logline, []]" by auto
    then show ?thesis using rollFile_files [OF r x] r c by (auto simp: files_append)
  qed
  let ?s2 = "?s1\<lparr>lf_count := lf_count s + 1\<rparr>"
  let ?s3 = "?s1\<lparr>lf_count := 0\<rparr>"
  consider "writtenBytes ?f > rollSize s"
    | "\<not> writtenBytes ?f > rollSize s" "lf_count s + 1 < checkEveryN s"
    | "\<not> writtenBytes ?f > rollSize s" "\<not> lf_count s + 1 < checkEveryN s"
      "now div kRollPerSeconds * kRollPerSeconds \<noteq> startOfPeriod s"
    | "\<not> writtenBytes ?f > rollSize s" "\<not> lf_count s + 1 < checkEveryN s"
      "now div kRollPerSeconds * kRollPerSeconds = startOfPeriod s" by blast
  then show ?thesis
  proof cases
    case 1
    then show ?thesis using roll [OF ok1(2)] ap by (simp add: append_unlocked_def Let_def)
  next
    case 2
    then have "append_unlocked outcomes logline now s = Some (?s2, [FWrite logline])"
      using ap by (simp add: append_unlocked_def Let_def)
    then show ?thesis using ok1(1) c by simp
  next
    case 3
    then show ?thesis using roll [OF ok1(1) [of 0]] ap by (simp add: append_unlocked_def Let_def)
  next
    case 4
    then have "append_unlocked outcomes logline now s = Some (?s3\<lparr>lastFlush := now\<rparr>, [FWrite logline, FFlush]) \<or>
        append_unlocked outcomes logline now s = Some (?s3, [FWrite logline])"
      using ap by (simp add: append_unlocked_def Let_def)
    moreover have "lf_ok (?s3\<lparr>lastFlush := now\<rparr>) ?fs" using ok1(1) [of 0] by (simp add: lf_ok_def)
    ultimately show ?thesis using ok1(1) [of 0] c by auto
  qed
qed

text \<open>No log line is lost or torn apart by rolling. Appending a line (with the writes to stdio
  succeeding, in any number of parts) succeeds on every branch, adds exactly the line to the end
  of the newest file, and at most opens a new file behind it.\<close>

theorem append_keeps_lines:
  assumes "lf_ok s fs" "good_outcomes outcomes (length logline)"
  shows "\<exists>s' es. append_unlocked outcomes logline now s = Some (s', es) \<and>
     concat (files es fs) = concat fs @ logline \<and> lf_ok s' (files es fs) \<and>
     (files es fs = butlast fs @ [last fs @ logline] \<or>
      files es fs = butlast fs @ [last fs @ logline, []])"
  using assms by (rule append_keeps_lines_helper)

theorem append_keeps_lines_witness:
  "\<exists>s es0 s' es. LogFile_new 4 3 1024 100 = (s, es0) \<and>
     append_unlocked [(2, False), (3, False)] ''hello'' 101 s = Some (s', es) \<and>
     files (es0 @ es) [] = [''hello'', '''']"
proof -
  let ?s = "\<lparr>rollSize = 4, flushInterval = 3, checkEveryN = 1024, lf_count = 0, startOfPeriod = 0,
      lastRoll = 100, lastFlush = 100, lf_file = \<lparr>f_opened = 100, writtenBytes = 0\<rparr>\<rparr>"
  have n: "LogFile_new 4 3 1024 100 = (?s, [FOpen 100])"
    by (simp add: LogFile_new_def rollFile_def Let_def kRollPerSeconds_def)
  have "lf_ok ?s [[]]" by (simp add: lf_ok_def)
  from append_keeps_lines [OF this, of "[(2, False), (3, False)]" "''hello''" 101]
  obtain s' es where a: "append_unlocked [(2, False), (3, False)] ''hello'' 101 ?s = Some (s', es)"
      "concat (files es [[]]) = ''hello''" by auto
  have "es = [FWrite ''hello'', FOpen 101]" using a(1)
    by (auto simp: append_unlocked_def AppendFile_append_def append_loop.simps rollFile_def Let_def numeral_eq_Suc)
  then show ?thesis using n a(1) by simp
qed

text \<open>Log files stay near the roll size. A file that has not passed the roll size before a line
  is appended is at most the line longer than it afterwards, and if it passes it, the next file
  is opened at once, provided the clock has moved on since the last roll (within the same
  second the file name would be the same, and the file keeps growing).\<close>

theorem roll_size_bound:
  assumes "lf_ok s fs" "good_outcomes outcomes (length logline)"
    and "writtenBytes (lf_file s) \<le> rollSize s" "lastRoll s < now"
    and "append_unlocked outcomes logline now s = Some (s', es)" "0 \<le> rollSize s"
  shows "writtenBytes (lf_file s') \<le> rollSize s' \<and>
     (\<forall>f \<in> set (drop (length fs - 1) (files es fs)). int (length f) \<le> rollSize s + int (length logline))"
proof -
  have e: "int (length (last fs)) \<le> rollSize s" using assms(1,3) by (simp add: lf_ok_def)
  have ne: "fs \<noteq> []" using assms(1) by (simp add: lf_ok_def)
  have ex: "files es fs = butlast fs @ [last fs @ logline] \<or>
      files es fs = butlast fs @ [last fs @ logline, []]"
    using append_keeps_lines_helper [OF assms(1,2), of now] assms(5) by auto
  then have d: "\<forall>f \<in> set (drop (length fs - 1) (files es fs)). int (length f) \<le> rollSize s + int (length logline)"
    using e assms(6) ne by auto
  have ap: "AppendFile_append outcomes logline (lf_file s) =
      Some ((lf_file s)\<lparr>writtenBytes := writtenBytes (lf_file s) + int (length logline)\<rparr>, [FWrite logline])"
    using append_loop_good [of outcomes 0 logline "[]"] assms(2) by (simp add: AppendFile_append_def)
  have "writtenBytes (lf_file s') \<le> rollSize s'"
    using assms(4,5,6) ap
    by (auto simp: append_unlocked_def rollFile_def Let_def split: if_splits)
  then show ?thesis using d by blast
qed

theorem roll_size_bound_witness:
  "\<exists>s' es. append_unlocked [(5, False)] ''hello'' 101
       \<lparr>rollSize = 4, flushInterval = 3, checkEveryN = 1024, lf_count = 0, startOfPeriod = 0,
        lastRoll = 100, lastFlush = 100, lf_file = \<lparr>f_opened = 100, writtenBytes = 0\<rparr>\<rparr> = Some (s', es) \<and>
     writtenBytes (lf_file s') \<le> 4"
proof -
  let ?s = "\<lparr>rollSize = 4, flushInterval = 3, checkEveryN = 1024, lf_count = 0, startOfPeriod = 0,
        lastRoll = 100, lastFlush = 100, lf_file = \<lparr>f_opened = 100, writtenBytes = 0\<rparr>\<rparr>"
  obtain s' es where a: "append_unlocked [(5, False)] ''hello'' 101 ?s = Some (s', es)" "rollSize s' = 4"
    by (simp add: append_unlocked_def AppendFile_append_def append_loop.simps rollFile_def Let_def numeral_eq_Suc)
  have "lf_ok ?s [[]]" by (simp add: lf_ok_def)
  from roll_size_bound [OF this _ _ _ a(1)] a show ?thesis by auto
qed

end
