(* ===== verification/Calendar.thy ===== *)
theory Calendar
  imports LogStream LogFile
begin

text \<open>
  Calendar time in file names and time stamps: \<open>LogFile::getLogFileName\<close>
  (src/asynlog/LogFile.cpp) and \<open>DateTime\<close> (src/utils/DateTime.cpp). \<open>gmtime_r\<close> of the C library is
  modelled as the Gregorian calendar; the zone of \<open>localtime\<close>, the host name and the process id are
  arguments. The names a \<open>LogFile\<close> gives its files sort as the files were opened.
\<close>

section \<open>The Gregorian calendar\<close>

definition leap :: "nat \<Rightarrow> bool" where
  "leap y \<longleftrightarrow> 4 dvd y \<and> (\<not> 100 dvd y \<or> 400 dvd y)"

definition year_len :: "nat \<Rightarrow> nat" where
  "year_len y = (if leap y then 366 else 365)"

definition month_len :: "nat \<Rightarrow> nat \<Rightarrow> nat" where
  "month_len y m =
     (if m = 2 then (if leap y then 29 else 28) else if m \<in> {4, 6, 9, 11} then 30 else 31)"

text \<open>In which of the consecutive spans of lengths \<open>f k\<close>, \<open>f (k + 1)\<close>, \<open>...\<close> day \<open>d\<close> lies, and where in it.\<close>

function locate :: "(nat \<Rightarrow> nat) \<Rightarrow> nat \<Rightarrow> nat \<Rightarrow> nat \<times> nat" where
  "locate f k d = (if f k = 0 \<or> d < f k then (k, d) else locate f (k + 1) (d - f k))"
  by pat_completeness auto
termination by (relation "measure (\<lambda>(f, k, d). d)") auto

declare locate.simps [simp del]

definition gmtime :: "nat \<Rightarrow> date" where
  "gmtime t =
     (let (y, yd) = locate year_len 1970 (t div 86400);
          (m, md) = locate (month_len y) 1 yd;
          s = t mod 86400
      in \<lparr>year = y, month = m, day = md + 1, hour = s div 3600, minute = s mod 3600 div 60, second = s mod 60\<rparr>)"

section \<open>Time stamps and names\<close>

definition getnanosecond :: "nat \<Rightarrow> nat \<Rightarrow> nat" where
  "getnanosecond tv_sec tv_usec = tv_sec * (1000 * 1000) + tv_usec"

definition parse :: "(nat \<Rightarrow> date) \<Rightarrow> nat \<Rightarrow> date" where
  "parse localtime us = localtime (us div (1000 * 1000))"

text \<open>The longest year of a \<open>time_t\<close> has 12 digits, so \<open>timebuf\<close> is never too short.\<close>

definition timebuf :: "date \<Rightarrow> string" where
  "timebuf tm = ''.'' @ dec (year tm) @ pad 2 (month tm) @ pad 2 (day tm) @ ''-'' @
     pad 2 (hour tm) @ pad 2 (minute tm) @ pad 2 (second tm) @ ''.''"

text \<open>\<open>None\<close> when \<open>gethostname\<close> fails; a longer name is cut at 255 characters.\<close>

definition getLogFileName :: "string \<Rightarrow> nat \<Rightarrow> string option \<Rightarrow> int \<Rightarrow> string" where
  "getLogFileName basename now hostname pid =
     basename @ timebuf (gmtime now) @
     (case hostname of Some host \<Rightarrow> take 255 host | None \<Rightarrow> ''unknownhost'') @
     take 31 (''.'' @ int_str pid) @ ''.log''"

section \<open>Spans\<close>

lemma div_mod_less: "m < n \<Longrightarrow> m div k < n div k \<or> m div k = n div k \<and> m mod k < n mod k" for m n k :: nat
  using div_le_mono [of m n k] by (metis div_mod_decomp le_eq_less_or_eq nat_add_left_cancel_less less_imp_le_nat)

lemma locate_sum:
  assumes "\<And>k. 0 < f k"
  shows "k \<le> fst (locate f k d) \<and> snd (locate f k d) < f (fst (locate f k d)) \<and>
    d = (\<Sum>j\<in>{k..<fst (locate f k d)}. f j) + snd (locate f k d)"
  using assms
proof (induction f k d rule: locate.induct)
  case (1 f k d)
  show ?case
  proof (cases "d < f k")
    case True
    then show ?thesis by (simp add: locate.simps [of f k d])
  next
    case False
    let ?p = "locate f (k + 1) (d - f k)"
    have IH: "k + 1 \<le> fst ?p \<and> snd ?p < f (fst ?p) \<and> d - f k = (\<Sum>j\<in>{k + 1..<fst ?p}. f j) + snd ?p"
      using 1 False by (metis neq0_conv)
    have "locate f k d = ?p" using False "1.prems" [of k] by (simp add: locate.simps [of f k d])
    moreover have "(\<Sum>j\<in>{k..<fst ?p}. f j) = f k + (\<Sum>j\<in>{k + 1..<fst ?p}. f j)"
      using IH by (simp add: sum.atLeast_Suc_lessThan)
    moreover have "d = f k + ((\<Sum>j\<in>{k + 1..<fst ?p}. f j) + snd ?p)"
      using IH False by (metis le_add_diff_inverse not_less)
    ultimately show ?thesis using IH by simp
  qed
qed

text \<open>A later day lies in a later span, or later in the same.\<close>

lemma locate_mono:
  assumes "\<And>k. 0 < f k" "d < d'"
  shows "fst (locate f k d) < fst (locate f k d') \<or>
    fst (locate f k d) = fst (locate f k d') \<and> snd (locate f k d) < snd (locate f k d')"
proof (rule ccontr)
  let ?p = "locate f k d" and ?p' = "locate f k d'"
  assume no: "\<not> ?thesis"
  note s = locate_sum [of f k d, OF assms(1)] and s' = locate_sum [of f k d', OF assms(1)]
  have "fst ?p' < fst ?p" using no s s' assms(2) by (cases "fst ?p = fst ?p'") auto
  then have "{k..<Suc (fst ?p')} \<subseteq> {k..<fst ?p}" by auto
  then have "(\<Sum>j\<in>{k..<Suc (fst ?p')}. f j) \<le> (\<Sum>j\<in>{k..<fst ?p}. f j)" by (intro sum_mono2) auto
  then have "(\<Sum>j\<in>{k..<fst ?p'}. f j) + f (fst ?p') \<le> (\<Sum>j\<in>{k..<fst ?p}. f j)" using s' by simp
  then show False using s s' assms(2) by linarith
qed

lemma year_len_pos: "0 < year_len y"
  by (simp add: year_len_def)

lemma month_len_pos: "0 < month_len y m"
  by (simp add: month_len_def)

lemma year_months: "(\<Sum>m\<in>{1..<13}. month_len y m) = year_len y"
  by (simp add: month_len_def year_len_def sum.atLeast_Suc_lessThan numeral_eq_Suc)

text \<open>The fields of a broken-down time are in range.\<close>

lemma gmtime_fields:
  "1970 \<le> year (gmtime t)" "1 \<le> month (gmtime t)" "month (gmtime t) \<le> 12"
  "1 \<le> day (gmtime t)" "day (gmtime t) \<le> month_len (year (gmtime t)) (month (gmtime t))"
  "hour (gmtime t) < 24" "minute (gmtime t) < 60" "second (gmtime t) < 60"
proof -
  obtain y yd where y: "locate year_len 1970 (t div 86400) = (y, yd)" by (cases "locate year_len 1970 (t div 86400)")
  obtain m md where m: "locate (month_len y) 1 yd = (m, md)" by (cases "locate (month_len y) 1 yd")
  note g = gmtime_def [of t, unfolded y m Let_def prod.case]
  have 1: "1970 \<le> y" "yd < year_len y" using locate_sum [of year_len 1970 "t div 86400", OF year_len_pos] y by auto
  have 2: "1 \<le> m" "md < month_len y m" "yd = (\<Sum>j\<in>{1..<m}. month_len y j) + md"
    using locate_sum [of "month_len y" 1 yd, OF month_len_pos] m by auto
  have "m \<le> 12"
  proof (rule ccontr)
    assume "\<not> m \<le> 12"
    then have "(\<Sum>j\<in>{1..<13}. month_len y j) \<le> (\<Sum>j\<in>{1..<m}. month_len y j)" by (intro sum_mono2) auto
    then show False using 1 2 year_months [of y] by simp
  qed
  then show "1970 \<le> year (gmtime t)" "1 \<le> month (gmtime t)" "month (gmtime t) \<le> 12"
    "1 \<le> day (gmtime t)" "day (gmtime t) \<le> month_len (year (gmtime t)) (month (gmtime t))"
    "hour (gmtime t) < 24" "minute (gmtime t) < 60" "second (gmtime t) < 60"
    using 1 2 by (auto simp: g)
qed

section \<open>Order of the fields\<close>

text \<open>Lexicographic order of texts by character code, as \<open>strcmp\<close> and \<open>ls\<close> (in the C locale) have it.\<close>

definition char_less :: "(char \<times> char) set" where
  "char_less = {(a, b). (of_char a :: nat) < of_char b}"

abbreviation sorts_before :: "string \<Rightarrow> string \<Rightarrow> bool" where
  "sorts_before xs ys \<equiv> (xs, ys) \<in> lexord char_less"

lemma sorts_then:
  "sorts_before u v \<or> u = v \<and> sorts_before x y \<Longrightarrow> length u = length v \<Longrightarrow> sorts_before (u @ x) (v @ y)"
  by (auto intro: lexord_sufI lexord_append_leftI)

lemma digit_less: "m < n \<Longrightarrow> n < 10 \<Longrightarrow> (digit_char m, digit_char n) \<in> char_less"
proof -
  assume "m < n" "n < 10"
  then have "m \<in> {0, 1, 2, 3, 4, 5, 6, 7, 8, 9}" "n \<in> {0, 1, 2, 3, 4, 5, 6, 7, 8, 9}" by auto
  then show ?thesis using \<open>m < n\<close> by (auto simp: digit_char_def digitsHex_def char_less_def)
qed

lemma pad_Suc:
  assumes "n < 10 ^ Suc w" "0 < w"
  shows "pad (Suc w) n = pad w (n div 10) @ [digit_char (n mod 10)]"
proof (cases "n < 10")
  case True
  then show ?thesis using assms(2) by (cases w) (simp_all add: pad_def numeral_in.simps [of 10 n] numeral_in.simps [of 10 0]
      digit_char_def digitsHex_def replicate_append_same)
next
  case False
  then show ?thesis by (simp add: pad_def numeral_in.simps [of 10 n])
qed

lemma length_pad: "n < 10 ^ w \<Longrightarrow> 0 < w \<Longrightarrow> length (pad w n) = w"
  using length_dec_bound [of n w] by (simp add: pad_def)

lemma pad_less: "m < n \<Longrightarrow> n < 10 ^ w \<Longrightarrow> 0 < w \<Longrightarrow> sorts_before (pad w m) (pad w n)"
proof (induction w arbitrary: m n)
  case (Suc w)
  show ?case
  proof (cases "w = 0")
    case True
    then show ?thesis using Suc.prems digit_less [of m n] by (simp add: pad_def numeral_in.simps)
  next
    case False
    have eq: "pad (Suc w) m = pad w (m div 10) @ [digit_char (m mod 10)]"
        "pad (Suc w) n = pad w (n div 10) @ [digit_char (n mod 10)]"
      using Suc.prems False by (intro pad_Suc; simp)+
    have len: "length (pad w (m div 10)) = length (pad w (n div 10))"
      using Suc.prems False by (simp add: length_pad)
    have "n div 10 < 10 ^ w" using Suc.prems(2) by (simp add: less_mult_imp_div_less mult.commute)
    moreover have "m div 10 < n div 10 \<or> m div 10 = n div 10 \<and> m mod 10 < n mod 10"
      by (rule div_mod_less [OF Suc.prems(1)])
    ultimately show ?thesis
      unfolding eq using Suc.IH [of "m div 10" "n div 10"] Suc.prems False digit_less [of "m mod 10" "n mod 10"]
      by (intro sorts_then len) auto
  qed
qed simp

lemma gmtime_mono:
  assumes "t < t'"
  shows "year (gmtime t) < year (gmtime t') \<or> year (gmtime t) = year (gmtime t') \<and>
    (month (gmtime t) < month (gmtime t') \<or> month (gmtime t) = month (gmtime t') \<and>
    (day (gmtime t) < day (gmtime t') \<or> day (gmtime t) = day (gmtime t') \<and>
    (hour (gmtime t) < hour (gmtime t') \<or> hour (gmtime t) = hour (gmtime t') \<and>
    (minute (gmtime t) < minute (gmtime t') \<or> minute (gmtime t) = minute (gmtime t') \<and>
     second (gmtime t) < second (gmtime t')))))"
proof (cases "t div 86400 = t' div 86400")
  case True
  then have "t mod 86400 < t' mod 86400" using assms by (metis div_mod_decomp nat_add_left_cancel_less)
  then have "t mod 86400 div 3600 < t' mod 86400 div 3600 \<or> t mod 86400 div 3600 = t' mod 86400 div 3600 \<and>
    (t mod 86400 mod 3600 div 60 < t' mod 86400 mod 3600 div 60 \<or>
     t mod 86400 mod 3600 div 60 = t' mod 86400 mod 3600 div 60 \<and> t mod 86400 mod 60 < t' mod 86400 mod 60)"
    using div_mod_less [of "t mod 86400" "t' mod 86400" 3600]
      div_mod_less [of "t mod 86400 mod 3600" "t' mod 86400 mod 3600" 60] by (simp add: mod_mod_cancel) blast
  then show ?thesis using True by (auto simp: gmtime_def Let_def split: prod.splits)
next
  case False
  then have days: "t div 86400 < t' div 86400" using assms div_le_mono [of t t' 86400] by linarith
  obtain y yd y' yd' where y: "locate year_len 1970 (t div 86400) = (y, yd)" "locate year_len 1970 (t' div 86400) = (y', yd')"
    by (metis surj_pair)
  obtain m md m' md' where m: "locate (month_len y) 1 yd = (m, md)" "locate (month_len y') 1 yd' = (m', md')"
    by (metis surj_pair)
  have "y < y' \<or> y = y' \<and> yd < yd'"
    using locate_mono [of year_len _ _ 1970, OF year_len_pos days] y by simp
  moreover have "m < m' \<or> m = m' \<and> md < md'" if "y = y'" "yd < yd'"
    using locate_mono [of "month_len y" _ _ 1, OF month_len_pos that(2)] m that(1) by simp
  ultimately show ?thesis using y m by (auto simp: gmtime_def Let_def)
qed

lemma four_digits:
  assumes "1000 \<le> y" "y < 10000"
  shows "dec y = pad 4 y"
proof -
  have "100 \<le> y div 10" using div_le_mono [OF assms(1), of 10] by simp
  moreover from div_le_mono [OF this, of 10] have "10 \<le> y div 10 div 10" by simp
  moreover have "y div 10 div 10 div 10 < 10" using assms(2) by (simp add: less_mult_imp_div_less)
  ultimately show ?thesis
    by (simp add: pad_def numeral_in.simps [of 10 y] numeral_in.simps [of 10 "y div 10"]
        numeral_in.simps [of 10 "y div 10 div 10"] numeral_in.simps [of 10 "y div 10 div 10 div 10"])
qed

text \<open>Texts of the two-digit fields and the year sort as the numbers.\<close>

lemma field_then:
  assumes "m < n \<or> m = n \<and> sorts_before x y" "m < 10 ^ w" "n < 10 ^ w" "0 < w"
  shows "sorts_before (pad w m @ x) (pad w n @ y)"
  using assms pad_less [of m n w] by (intro sorts_then) (auto simp: length_pad)

lemma timebuf_less:
  assumes "t < t'" "year (gmtime t') < 10000"
  shows "sorts_before (timebuf (gmtime t) @ x) (timebuf (gmtime t') @ y)"
proof -
  note mono = gmtime_mono [OF assms(1)]
  have r: "month (gmtime u) < 100" "day (gmtime u) < 100" "hour (gmtime u) < 100" "minute (gmtime u) < 100"
      "second (gmtime u) < 100" "1000 \<le> year (gmtime u)" for u
    using gmtime_fields [of u] by (simp_all add: month_len_def split: if_splits)
  have yr: "year (gmtime t) < 10000" using mono assms(2) by linarith
  show ?thesis
    unfolding timebuf_def four_digits [OF r(6) yr] four_digits [OF r(6) assms(2)]
    using mono by (auto intro!: field_then lexord_append_leftI simp: yr assms(2) r)
qed

section \<open>The files of a log\<close>

text \<open>A sequence of appends, each with the outcomes of \<open>fwrite\<close>, the line and the time.\<close>

fun lf_run ::
  "((nat \<times> bool) list \<times> string \<times> int) list \<Rightarrow> logfile \<Rightarrow> (logfile \<times> f_eff list) option" where
  "lf_run [] s = Some (s, [])"
| "lf_run ((outcomes, logline, now) # ops) s =
     (case append_unlocked outcomes logline now s of
        None \<Rightarrow> None
      | Some (s1, es1) \<Rightarrow>
          (case lf_run ops s1 of None \<Rightarrow> None | Some (s2, es2) \<Rightarrow> Some (s2, es1 @ es2)))"

fun open_times :: "f_eff list \<Rightarrow> int list" where
  "open_times [] = []"
| "open_times (FOpen t # es) = t # open_times es"
| "open_times (_ # es) = open_times es"

lemma open_times_append [simp]: "open_times (es @ fs) = open_times es @ open_times fs"
  by (induction es rule: open_times.induct) simp_all

lemma roll_opened:
  "rollFile now s = (s', es) \<Longrightarrow>
     open_times es = (if lastRoll s < now then [now] else []) \<and> lastRoll s' = max (lastRoll s) now"
  by (auto simp: rollFile_def Let_def split: if_splits)

lemma append_opened:
  assumes "append_unlocked outcomes logline now s = Some (s', es)"
  shows "open_times es = [] \<and> lastRoll s' = lastRoll s \<or>
    open_times es = (if lastRoll s < now then [now] else []) \<and> lastRoll s' = max (lastRoll s) now"
proof -
  obtain f bytes where f: "AppendFile_append outcomes logline (lf_file s) = Some (f, [FWrite bytes])"
    using assms by (auto simp: append_unlocked_def AppendFile_append_def split: option.splits prod.splits)
  obtain r1 e1 where r1: "rollFile now (s\<lparr>lf_file := f\<rparr>) = (r1, e1)" by (cases "rollFile now (s\<lparr>lf_file := f\<rparr>)")
  obtain r2 e2 where r2: "rollFile now (s\<lparr>lf_file := f, lf_count := 0\<rparr>) = (r2, e2)"
    by (cases "rollFile now (s\<lparr>lf_file := f, lf_count := 0\<rparr>)")
  show ?thesis using assms f r1 r2 roll_opened [OF r1] roll_opened [OF r2]
    by (auto simp: append_unlocked_def Let_def split: if_splits)
qed

lemma run_opened:
  assumes "lf_run ops s = Some (s', es)"
  shows "sorted_wrt (<) (lastRoll s # open_times es) \<and>
    set (open_times es) \<subseteq> (\<lambda>(outcomes, logline, now). now) ` set ops"
  using assms
proof (induction ops s arbitrary: s' es rule: lf_run.induct)
  case (2 outcomes logline now ops s)
  obtain s1 es1 es2 where 1: "append_unlocked outcomes logline now s = Some (s1, es1)" "lf_run ops s1 = Some (s', es2)"
      "es = es1 @ es2"
    using "2.prems" by (auto split: option.splits)
  have IH: "sorted_wrt (<) (lastRoll s1 # open_times es2)"
      "set (open_times es2) \<subseteq> (\<lambda>(outcomes, logline, now). now) ` set ops"
    using "2.IH" [OF 1(1) refl 1(2)] by auto
  from append_opened [OF 1(1)] show ?case
    using IH 1(3) by (auto split: if_splits)
qed simp

text \<open>The files of a log sort as they were written. Whatever lines are appended at whatever times
  (also when the clock steps back), a \<open>LogFile\<close> never opens the same file twice, and the names of
  the files it opens, compared character by character, are in the order in which they were opened,
  up to the year 9999.\<close>

theorem log_files_sort_by_name:
  assumes "LogFile_new roll flushInt n t0 = (s0, es0)" "0 < t0" "lf_run ops s0 = Some (s, es)"
    and "\<forall>(outcomes, logline, now)\<in>set ops. year (gmtime (nat now)) < 10000"
  shows "sorted_wrt (\<lambda>t u. sorts_before (getLogFileName basename (nat t) host pid) (getLogFileName basename (nat u) host pid))
    (open_times (es0 @ es))"
proof -
  have s0: "open_times es0 = [t0]" "lastRoll s0 = t0"
    using assms(1,2) roll_opened unfolding LogFile_new_def by fastforce+
  note run = run_opened [OF assms(3)]
  have yr: "year (gmtime (nat u)) < 10000" if "u \<in> set (open_times es)" for u
    using run assms(4) that by fastforce
  have less: "sorts_before (getLogFileName basename (nat t) host pid) (getLogFileName basename (nat u) host pid)"
    if "0 < t" "t < u" "u \<in> set (open_times es)" for t u
    unfolding getLogFileName_def using timebuf_less [of "nat t" "nat u"] yr [OF that(3)] that(1,2)
    by (intro lexord_append_leftI) simp
  have "sorted_wrt (<) (open_times es)" "\<forall>u\<in>set (open_times es). t0 < u" using run s0 by simp_all
  moreover have "sorted_wrt (\<lambda>t u. sorts_before (getLogFileName basename (nat t) host pid) (getLogFileName basename (nat u) host pid)) xs"
    if "sorted_wrt (<) xs" "\<forall>u\<in>set xs. t0 < u \<and> u \<in> set (open_times es)" for xs
    using that assms(2) less by (induction xs) auto
  ultimately show ?thesis using s0 less assms(2) by simp
qed

theorem log_files_sort_by_name_witness:
  "\<exists>s0 es0 s es. LogFile_new 4 3 1024 100 = (s0, es0) \<and>
     lf_run [([(5, False)], ''hello'', 3700), ([(5, False)], ''hello'', 90000)] s0 = Some (s, es) \<and>
     open_times (es0 @ es) = [100, 3700, 90000] \<and>
     getLogFileName ''chat'' 3700 (Some ''host'') 42 = ''chat.19700101-010140.host.42.log'' \<and>
     sorts_before (getLogFileName ''chat'' 3700 (Some ''host'') 42) (getLogFileName ''chat'' 90000 (Some ''host'') 42)"
proof -
  let ?file = "\<lparr>f_opened = 100, writtenBytes = 0\<rparr>"
  let ?s = "\<lparr>rollSize = 4, flushInterval = 3, checkEveryN = 1024, lf_count = 0, startOfPeriod = 0,
      lastRoll = 100, lastFlush = 100, lf_file = ?file\<rparr>"
  let ?ops = "[([(5, False)], ''hello'', 3700), ([(5, False)], ''hello'', 90000)]"
  have new: "LogFile_new 4 3 1024 100 = (?s, [FOpen 100])"
    by (simp add: LogFile_new_def rollFile_def Let_def kRollPerSeconds_def)
  obtain s es where run: "lf_run ?ops ?s = Some (s, es)" "open_times es = [3700, 90000]"
    by (simp add: append_unlocked_def AppendFile_append_def append_loop.simps rollFile_def Let_def kRollPerSeconds_def)
  have year: "year (gmtime 3700) = 1970" "year (gmtime 90000) = 1970"
    by (simp_all add: gmtime_def locate.simps year_len_def leap_def month_len_def)
  have name: "getLogFileName ''chat'' 3700 (Some ''host'') 42 = ''chat.19700101-010140.host.42.log''"
    by (simp add: getLogFileName_def timebuf_def gmtime_def locate.simps year_len_def leap_def month_len_def pad_def
        int_str_def numeral_in.simps digit_char_def digitsHex_def)
  have "sorted_wrt (\<lambda>t u. sorts_before (getLogFileName ''chat'' (nat t) (Some ''host'') 42)
      (getLogFileName ''chat'' (nat u) (Some ''host'') 42)) (open_times ([FOpen 100] @ es))"
    by (rule log_files_sort_by_name [OF new _ run(1)]) (simp_all add: year)
  then show ?thesis using new run name by simp
qed

end
