(* ===== verification/ClientSystem.thy ===== *)
theory ClientSystem
  imports TcpClient ConnSafety
begin

text \<open>
  A whole client: the \<open>TcpClient\<close> with its \<open>Connector\<close> and its connections in one event loop
  (src/net/TcpClient.cpp, src/net/Connector.cc, src/net/TcpConnection.cpp, src/net/EventLoop.cpp). The
  components are the definitions of their theories; here their outputs are carried out: functors are
  queued, retry timers armed and cancelled, the descriptor of a successful attempt becomes a connection,
  and a connection that closes is reported to the client. The loop goes through its phases in turn: it
  polls, handles the channels that were active, and runs the functors that were queued by then.
\<close>

section \<open>State\<close>

text \<open>
  Functors of the client's loop: a start from another thread, the resetting of the connector's channel,
  the cancelling of a timer, the destruction of a connection, work of \<open>send\<close> or \<open>shutdown\<close>, and the
  change of a close callback by \<open>~TcpClient\<close>.
\<close>

datatype ctask = CTStart | CTReset | CTCancel int | CTDestroy int | CTConn int conn_task | CTSetClose int

text \<open>A functor that binds the shared pointer of a connection; that of \<open>send\<close> binds the raw one.\<close>

fun chold :: "int \<Rightarrow> ctask \<Rightarrow> bool" where
  "chold i (CTDestroy j) \<longleftrightarrow> j = i"
| "chold i (CTSetClose j) \<longleftrightarrow> j = i"
| "chold i _ \<longleftrightarrow> False"

text \<open>What the poller can report: a retry timer that expired, or a channel.\<close>

datatype csource = STimer int | SKonnector | SConn int

datatype cphase = CPolling | CHandling "csource list" | CFunctors

text \<open>
  \<open>cs_owner\<close>: the \<open>TcpClient\<close> exists; \<open>cs_konn\<close>: the \<open>Connector\<close> exists; \<open>cs_free\<close>: the connections whose
  close callback is the free function \<open>removeConnection\<close>. Timers are known by their sequence numbers.
\<close>

record csys =
  cs_cl :: client
  cs_owner :: bool
  cs_konn :: bool
  cs_objs :: "int \<rightharpoonup> conn"
  cs_user :: "int set"
  cs_free :: "int set"
  cs_timers :: "int list"
  cs_timerId :: int
  cs_phase :: cphase
  cs_pending :: "ctask list"
  cs_todo :: "ctask list"
  cs_done :: "ctask list"

definition cs_init :: "int \<Rightarrow> csys" where
  "cs_init tid = \<lparr>cs_cl = TcpClient_new tid, cs_owner = True, cs_konn = True, cs_objs = Map.empty, cs_user = {},
     cs_free = {}, cs_timers = [], cs_timerId = 0, cs_phase = CPolling, cs_pending = [], cs_todo = [], cs_done = []\<rparr>"

abbreviation cs_tid :: "csys \<Rightarrow> int" where
  "cs_tid s \<equiv> cl_tid (cs_cl s)"

abbreviation cs_konnector :: "csys \<Rightarrow> connector" where
  "cs_konnector s \<equiv> cl_connector (cs_cl s)"

definition calive :: "int \<Rightarrow> csys \<Rightarrow> bool" where
  "calive i s \<longleftrightarrow> cs_owner s \<and> connection (cs_cl s) = Some i \<or> i \<in> cs_user s \<or>
     list_ex (chold i) (cs_pending s @ cs_todo s @ cs_done s)"

definition cuse :: "int \<Rightarrow> csys \<Rightarrow> conn result" where
  "cuse i s =
     (case cs_objs s i of
        None \<Rightarrow> Inl (BadAccess ''TcpConnection'')
      | Some c \<Rightarrow> if calive i s then Inr c else Inl (BadAccess ''TcpConnection''))"

definition cpush :: "ctask \<Rightarrow> csys \<Rightarrow> csys" where
  "cpush x s = s\<lparr>cs_pending := cs_pending s @ [x]\<rparr>"

definition owned :: "csys \<Rightarrow> 'a result \<Rightarrow> 'a result" where
  "owned s m = (if cs_owner s then m else Inl (BadAccess ''TcpClient''))"

definition konn :: "csys \<Rightarrow> 'a result \<Rightarrow> 'a result" where
  "konn s m = (if cs_konn s then m else Inl (BadAccess ''Connector''))"

section \<open>Carrying out the outputs\<close>

text \<open>
  What the client and its connector asked for in the thread \<open>t\<close>, the new connection apart. A timer is
  cancelled at once in the loop thread, and by a functor elsewhere.
\<close>

definition arm_timer :: "csys \<Rightarrow> csys" where
  "arm_timer s = (let q = cs_timerId s + 1 in s\<lparr>cs_timers := cs_timers s @ [q], cs_timerId := q\<rparr>)"

definition cancel_timer :: "int \<Rightarrow> csys \<Rightarrow> csys" where
  "cancel_timer q s = s\<lparr>cs_timers := removeAll q (cs_timers s)\<rparr>"

fun carry1 :: "int \<Rightarrow> cl_eff \<Rightarrow> csys \<Rightarrow> csys" where
  "carry1 t (CConnector KQueueReset) s = cpush CTReset s"
| "carry1 t (CConnector KQueueStart) s = cpush CTStart s"
| "carry1 t (CConnector (KRunAfter ms)) s = arm_timer s"
| "carry1 t (CConnector KCancelTimer) s =
     (if t = cs_tid s then cancel_timer (cs_timerId s) s else cpush (CTCancel (cs_timerId s)) s)"
| "carry1 t (CQueueDestroy i) s = cpush (CTDestroy i) s"
| "carry1 t (CSetCloseCallback i) s =
     (if t = cs_tid s then s\<lparr>cs_free := insert i (cs_free s)\<rparr> else cpush (CTSetClose i) s)"
| "carry1 t _ s = s"

definition carry :: "int \<Rightarrow> cl_eff list \<Rightarrow> csys \<Rightarrow> csys" where
  "carry t es s = fold (carry1 t) es s"

text \<open>The kernel's answers and the user's calls during a step.\<close>

record 'u cenv =
  ce_fd :: int
  ce_err :: int
  ce_rc :: int
  ce_so_error :: int
  ce_self :: bool
  ce_host :: string
  ce_rc1 :: int
  ce_rc2 :: int
  ce_write :: write_outcome
  ce_calls :: "'u conn_call list"
  ce_event :: "'u event_env"

text \<open>The close callback of a connection: \<open>TcpClient::removeConnection\<close>, or the free function.\<close>

definition close_callback :: "'u cenv \<Rightarrow> int \<Rightarrow> csys \<Rightarrow> csys result" where
  "close_callback env i s =
     (if i \<in> cs_free s then Inr (cpush (CTDestroy i) s)
      else owned s
        (bindE (client_removeConnection (cs_tid s) i (ce_fd env) (ce_err env) (ce_rc env) (cs_cl s)) (\<lambda>(cl, es).
         Inr (carry (cs_tid s) es (s\<lparr>cs_cl := cl\<rparr>)))))"

fun creact :: "'u cenv \<Rightarrow> int \<Rightarrow> 'u conn_eff list \<Rightarrow> csys \<Rightarrow> csys result" where
  "creact env i [] s = Inr s"
| "creact env i (ECloseCb # es) s = bindE (close_callback env i s) (creact env i es)"
| "creact env i (EQueue k # es) s = creact env i es (cpush (CTConn i k) s)"
| "creact env i (EConnectionCb on # es) s =
     creact env i es (s\<lparr>cs_user := (if on then insert i (cs_user s) else cs_user s - {i})\<rparr>)"
| "creact env i (_ # es) s = creact env i es s"

type_synonym 'u csys_result = "(csys \<times> (int \<times> 'u conn_eff) list) result"

definition cconn_do :: "'u cenv \<Rightarrow> int \<Rightarrow> 'u conn_op \<Rightarrow> csys \<Rightarrow> 'u csys_result" where
  "cconn_do env i opn s =
     bindE (cuse i s) (\<lambda>c.
     bindE (conn_step opn c) (\<lambda>(c', es).
     bindE (creact env i es (s\<lparr>cs_objs := (cs_objs s)(i \<mapsto> c')\<rparr>)) (\<lambda>s'.
     Inr (s', map (Pair i) es))))"

text \<open>\<open>newConnection\<close> makes the connection object and establishes it, inside \<open>handleWrite\<close>.\<close>

fun new_conn :: "cl_eff list \<Rightarrow> (int \<times> string \<times> int) option" where
  "new_conn [] = None"
| "new_conn (CEstablish i nm fd # es) = Some (i, nm, fd)"
| "new_conn (_ # es) = new_conn es"

definition connector_event :: "u32 \<Rightarrow> 'u cenv \<Rightarrow> csys \<Rightarrow> 'u csys_result" where
  "connector_event revt env s =
     bindE (client_event (ce_host env) (KEvent revt (ce_rc env) (ce_so_error env) (ce_self env)) (cs_cl s)) (\<lambda>(cl, es).
     (let s1 = carry (cs_tid s) es (s\<lparr>cs_cl := cl\<rparr>) in
      case new_conn es of
        None \<Rightarrow> Inr (s1, [])
      | Some (i, nm, fd) \<Rightarrow>
          if cs_owner s1 then
            cconn_do env i (Establish (ce_rc1 env) (ce_calls env))
              (s1\<lparr>cs_objs := (cs_objs s1)(i \<mapsto> fresh_conn (cs_tid s1) nm fd)\<rparr>)
          else Inl (BadAccess ''TcpClient'')))"

text \<open>An operation of the connector in the thread \<open>t\<close>.\<close>

definition connector_do :: "int \<Rightarrow> k_result \<Rightarrow> csys \<Rightarrow> 'u csys_result" where
  "connector_do t r s = konn s (bindE (lift_k (cs_cl s) r) (\<lambda>(cl, es). Inr (carry t es (s\<lparr>cs_cl := cl\<rparr>), [])))"

section \<open>The loop\<close>

definition pollable :: "csys \<Rightarrow> csource \<Rightarrow> bool" where
  "pollable s a =
     (case a of
        STimer q \<Rightarrow> q \<in> set (cs_timers s)
      | SKonnector \<Rightarrow> cs_konn s \<and>
          (case k_chan (cs_konnector s) of None \<Rightarrow> False | Some ch \<Rightarrow> registered ch \<noteq> None)
      | SConn i \<Rightarrow> (case cs_objs s i of None \<Rightarrow> False | Some c \<Rightarrow> registered (c_chan c) \<noteq> None))"

text \<open>An expired timer was not cancelled since.\<close>

fun handle_source :: "csource \<Rightarrow> u32 \<Rightarrow> 'u cenv \<Rightarrow> csys \<Rightarrow> 'u csys_result" where
  "handle_source (STimer q) revt env s =
     (if q \<in> set (cs_timers s) then
        connector_do (cs_tid s) (startInLoop (ce_fd env) (ce_err env) (ce_rc env) (cs_konnector s)) (cancel_timer q s)
      else Inr (s, []))"
| "handle_source SKonnector revt env s = konn s (connector_event revt env s)"
| "handle_source (SConn i) revt env s = cconn_do env i (Event revt (ce_event env)) s"

fun run_ctask :: "ctask \<Rightarrow> 'u cenv \<Rightarrow> csys \<Rightarrow> 'u csys_result" where
  "run_ctask CTStart env s =
     connector_do (cs_tid s) (startInLoop (ce_fd env) (ce_err env) (ce_rc env) (cs_konnector s)) s"
| "run_ctask CTReset env s = connector_do (cs_tid s) (k_step KReset (cs_konnector s)) s"
| "run_ctask (CTCancel q) env s = Inr (cancel_timer q s, [])"
| "run_ctask (CTDestroy i) env s =
     cconn_do env i (Destroy (ce_rc1 env) (ce_rc2 env) (ce_calls env)) s"
| "run_ctask (CTConn i k) env s = cconn_do env i (RunTask k (ce_write env) (ce_rc1 env)) s"
| "run_ctask (CTSetClose i) env s = bindE (cuse i s) (\<lambda>c. Inr (s\<lparr>cs_free := insert i (cs_free s)\<rparr>, []))"

section \<open>Deleting a client\<close>

text \<open>
  \<open>~TcpClient\<close>: with a connection the client's shared pointer to the connector is the last one, so
  \<open>~Connector\<close> runs too; otherwise a timer of one second keeps the connector.
\<close>

definition drop_connector :: "int \<Rightarrow> csys \<Rightarrow> csys result" where
  "drop_connector t s =
     bindE (lift_k (cs_cl s) (Connector_delete (cs_konnector s))) (\<lambda>(cl, es).
     Inr ((carry t es (s\<lparr>cs_cl := cl\<rparr>))\<lparr>cs_konn := False\<rparr>))"

definition delete_client :: "int \<Rightarrow> csys \<Rightarrow> csys result" where
  "delete_client t s = owned s
     (bindE (TcpClient_delete (cs_cl s)) (\<lambda>(cl, es).
      (let s1 = (carry t es (s\<lparr>cs_cl := cl\<rparr>))\<lparr>cs_owner := False\<rparr> in
       if connection cl = None then Inr s1 else drop_connector t s1)))"

section \<open>Steps\<close>

text \<open>
  Calls of the user in the thread \<open>t\<close>, the phases of the loop, and the timer of a deleted client. The
  functors taken at \<open>LSwap\<close> are destroyed at \<open>LEnd\<close>.
\<close>

datatype 'u clabel =
    LConnect int "'u cenv" | LDisconnect int "'u cenv" | LStop int | LEnableRetry | LDelete int
  | LCall int int "'u conn_call" "'u cenv"
  | LPoll "csource list" | LHandle u32 "'u cenv" | LSwap | LRun "'u cenv" | LEnd | LGrace

fun cs_step :: "'u clabel \<Rightarrow> csys \<Rightarrow> 'u csys_result" where
  "cs_step (LConnect t env) s = owned s
     (bindE (client_connect t (ce_fd env) (ce_err env) (ce_rc env) (cs_cl s)) (\<lambda>(cl, es).
      Inr (carry t es (s\<lparr>cs_cl := cl\<rparr>), [])))"
| "cs_step (LDisconnect t env) s = owned s
     (bindE (client_disconnect (cs_cl s)) (\<lambda>(cl, es).
      (case connection cl of
         None \<Rightarrow> Inr (s\<lparr>cs_cl := cl\<rparr>, [])
       | Some i \<Rightarrow> cconn_do env i (Call t CallShutdown) (s\<lparr>cs_cl := cl\<rparr>))))"
| "cs_step (LStop t) s = owned s
     (bindE (client_stop (cs_cl s)) (\<lambda>(cl, es). Inr (carry t es (s\<lparr>cs_cl := cl\<rparr>), [])))"
| "cs_step LEnableRetry s = owned s (Inr (s\<lparr>cs_cl := enableRetry (cs_cl s)\<rparr>, []))"
| "cs_step (LDelete t) s = bindE (delete_client t s) (\<lambda>s'. Inr (s', []))"
| "cs_step (LCall t i call env) s =
     (if i \<in> cs_user s then cconn_do env i (Call t call) s else Inr (s, []))"
| "cs_step (LPoll as) s =
     (if cs_phase s = CPolling \<and> distinct as \<and> list_all (pollable s) as
      then Inr (s\<lparr>cs_phase := CHandling as\<rparr>, []) else Inr (s, []))"
| "cs_step (LHandle revt env) s =
     (case cs_phase s of
        CHandling (a # as) \<Rightarrow> handle_source a revt env (s\<lparr>cs_phase := CHandling as\<rparr>)
      | _ \<Rightarrow> Inr (s, []))"
| "cs_step LSwap s =
     (if cs_phase s = CHandling []
      then Inr (s\<lparr>cs_phase := CFunctors, cs_todo := cs_pending s, cs_pending := []\<rparr>, []) else Inr (s, []))"
| "cs_step (LRun env) s =
     (case cs_todo s of
        [] \<Rightarrow> Inr (s, [])
      | x # xs \<Rightarrow> run_ctask x env (s\<lparr>cs_todo := xs, cs_done := cs_done s @ [x]\<rparr>))"
| "cs_step LEnd s =
     (if cs_phase s = CFunctors \<and> cs_todo s = []
      then Inr (s\<lparr>cs_phase := CPolling, cs_done := []\<rparr>, []) else Inr (s, []))"
| "cs_step LGrace s =
     (if \<not> cs_owner s \<and> cs_konn s then bindE (drop_connector (cs_tid s) s) (\<lambda>s'. Inr (s', [])) else Inr (s, []))"


end
