(* ===== verification/ClientSafety.thy ===== *)
theory ClientSafety
  imports ClientSystem
begin

text \<open>
  The client does not crash while it is used in turn: it connects once, does not disconnect, and calls its
  connection from the loop thread while it is up. The invariant says which functors and timers are due in each state
  of the connector and of each connection. It rests on the order of the loop: the functor that resets the
  connector's channel runs before the next events are handled, so a client that reconnects finds no channel.
\<close>

section \<open>The connector\<close>

text \<open>Only a channel of a pending attempt is registered, with its callback; no channel is handling an event.\<close>

definition chan_tidy :: "connector \<Rightarrow> bool" where
  "chan_tidy k \<longleftrightarrow> (\<forall>ch. k_chan k = Some ch \<longrightarrow> \<not> eventHandling ch \<and>
     (ch_index ch = kAdded \<longrightarrow> k_state k = CConnecting \<and> writeCb ch))"

lemma tidy_no_chan:
  assumes "k_inv k" "chan_tidy k" "k_state k \<noteq> CConnecting" "k_resets k = 0"
  shows "k_chan k = None"
  using assms by (cases "k_chan k") (auto simp: k_inv_def chan_tidy_def split: if_splits)

lemma carry_append: "carry t (es @ fs) s = carry t fs (carry t es s)"
  by (simp add: carry_def)

lemma carry_simps [simp]: "carry t [] s = s" "carry t (e # es) s = carry t es (carry1 t e s)"
  by (simp_all add: carry_def)

lemma carry_ctls [simp]: "carry t (map CConnector (map KCtl cs)) s = s"
  by (induction cs) simp_all

lemma carry_ctls' [simp]: "carry t (map (CConnector \<circ> KCtl) cs) s = s"
  by (induction cs) simp_all

text \<open>What a start asks for: nothing, or one retry timer while it stays disconnected.\<close>

definition starts :: "connector \<Rightarrow> k_eff list \<Rightarrow> connector \<Rightarrow> bool" where
  "starts k es k' \<longleftrightarrow> k_inv k' \<and> k_tid k' = k_tid k \<and> k_resets k' = k_resets k \<and> chan_tidy k' \<and> k_state k' \<noteq> CConnected \<and>
     (\<forall>t s. carry t (map CConnector es) s = s \<or>
        k_state k' = CDisconnected \<and> carry t (map CConnector es) s = arm_timer s)"

lemma startInLoop_starts:
  assumes "k_inv k" "k_state k = CDisconnected" "k_chan k = None" "0 \<le> rc"
  shows "\<exists>k' es. startInLoop fd err rc k = Inr (k', es) \<and> starts k es k'"
proof -
  have r: "k_resets k = 0" "500 \<le> retryDelayMs k" "retryDelayMs k \<le> 30000" using assms(1,3) by (simp_all add: k_inv_def)
  consider "\<not> connect_flag k" | "connect_flag k" "err \<in> {0, EINPROGRESS, EINTR, EISCONN}"
    | "connect_flag k" "err \<notin> {0, EINPROGRESS, EINTR, EISCONN}"
      "err \<in> {EAGAIN, EADDRINUSE, EADDRNOTAVAIL, ECONNREFUSED, ENETUNREACH}"
    | "connect_flag k" "err \<notin> {0, EINPROGRESS, EINTR, EISCONN}"
      "err \<notin> {EAGAIN, EADDRINUSE, EADDRNOTAVAIL, ECONNREFUSED, ENETUNREACH}" by blast
  then show ?thesis
  proof cases
    case 1
    then show ?thesis using assms(1-3) by (simp add: startInLoop_def starts_def chan_tidy_def)
  next
    case 2
    then show ?thesis using assms(2-4) r
      by (simp add: startInLoop_def connect_def then_k_def connecting_def enableWriting_def updateChannel_def
          update_def Channel_new_def kNew_def kAdded_def starts_def chan_tidy_def k_inv_def Let_def)
  next
    case 3
    then show ?thesis using assms(2,3) r
      by (simp add: startInLoop_def connect_def then_k_def retry_def kMaxRetryDelayMs_def starts_def chan_tidy_def
          k_inv_def Let_def)
  next
    case 4
    then show ?thesis using assms(1-3) r
      by (simp add: startInLoop_def connect_def then_k_def starts_def chan_tidy_def)
  qed
qed

text \<open>What an event on the connector's channel leads to: nothing, a retry, or the end of the attempt.\<close>

definition attempts :: "connector \<Rightarrow> k_eff list \<Rightarrow> connector \<Rightarrow> bool" where
  "attempts k es k' \<longleftrightarrow> k_inv k' \<and> k_tid k' = k_tid k \<and> chan_tidy k' \<and>
     (k_state k' = k_state k \<and> k_resets k' = k_resets k \<and> (k_chan k' = None \<longleftrightarrow> k_chan k = None) \<and>
        handed es = None \<and> (\<forall>t s. carry t (map CConnector es) s = s)
      \<or> k_state k = CConnecting \<and> k_resets k' = 1 \<and>
        (k_state k' = CDisconnected \<and> handed es = None \<and>
           (\<forall>t s. carry t (map CConnector es) s \<in> {cpush CTReset s, arm_timer (cpush CTReset s)})
         \<or> k_state k' = CConnected \<and> (\<forall>t s. carry t (map CConnector es) s = cpush CTReset s)))"

lemma fired_split:
  "\<exists>b1 b2 b3 b4. fired ch = (if b1 then [CloseCb] else []) @ (if b2 then [ErrorCb] else []) @
     (if b3 then [ReadCb] else []) @ (if b4 then [WriteCb] else [])"
  unfolding fired_def by blast

lemma k_event_attempts:
  assumes "k_inv k" "chan_tidy k"
  shows "\<exists>k' es. k_step (KEvent revt rc so_error self) k = Inr (k', es) \<and> attempts k es k'"
proof (cases "\<exists>ch. k_chan k = Some ch \<and> ch_index ch = kAdded")
  case False
  then have "k_step (KEvent revt rc so_error self) k = Inr (k, [])" by (auto split: option.splits)
  then show ?thesis using assms by (simp add: attempts_def)
next
  case True
  then obtain ch where ch: "k_chan k = Some ch" "ch_index ch = kAdded" by blast
  have st: "k_state k = CConnecting" "k_resets k = 0" "500 \<le> retryDelayMs k" "retryDelayMs k \<le> 30000" "writeCb ch"
    using assms ch by (auto simp: chan_tidy_def k_inv_def)
  obtain b1 b2 b3 b4 where f: "fired (set_revents revt ch) = (if b1 then [CloseCb] else []) @ (if b2 then [ErrorCb] else []) @
     (if b3 then [ReadCb] else []) @ (if b4 then [WriteCb] else [])" using fired_split by blast
  note evals = handleEvent_def k_handleError_def k_handleWrite_def removeAndResetChannel_def disableAll_def
    updateChannel_def update_def isNoneEvent_def then_k_def retry_def kMaxRetryDelayMs_def attempts_def chan_tidy_def
    k_inv_def set_revents_def Let_def
  show ?thesis
    using ch st f by (cases b1; cases b2; cases b3; cases b4; cases "connect_flag k"; cases "so_error = 0"; cases self)
      (simp_all add: evals)
qed

section \<open>Invariant\<close>

definition cjobs :: "csys \<Rightarrow> ctask list" where
  "cjobs s = cs_pending s @ cs_todo s"

definition untried :: "csys \<Rightarrow> bool" where
  "untried s \<longleftrightarrow> k_state (cs_konnector s) = CDisconnected \<and> k_chan (cs_konnector s) = None \<and> cs_timers s = [] \<and>
     connection (cs_cl s) = None"

text \<open>
  The connector: \<open>b\<close> tells that \<open>connect\<close> was not called yet. The functors that reset the channel are the ones queued;
  a retry timer is armed only while disconnected, and only one; a start is queued at most once, before any attempt.
\<close>

definition konn_ok :: "bool \<Rightarrow> csys \<Rightarrow> bool" where
  "konn_ok b s \<longleftrightarrow>
     k_inv (cs_konnector s) \<and> chan_tidy (cs_konnector s) \<and> k_tid (cs_konnector s) = cs_tid s \<and>
     count_list (cjobs s) CTReset = k_resets (cs_konnector s) \<and>
     (cs_timers s \<noteq> [] \<longrightarrow> k_state (cs_konnector s) = CDisconnected \<and> connection (cs_cl s) = None \<and> cs_timers s = [cs_timerId s]) \<and>
     (connection (cs_cl s) \<noteq> None \<longrightarrow> k_state (cs_konnector s) = CConnected) \<and>
     count_list (cjobs s) CTStart + (if b then 1 else 0) \<le> 1 \<and>
     (b \<or> CTStart \<in> set (cjobs s) \<longrightarrow> untried s)"

text \<open>Connections: the current one is still open, the others are destroyed or have their destruction queued, once.\<close>

fun conn_job :: "ctask \<Rightarrow> bool" where
  "conn_job (CTDestroy i) \<longleftrightarrow> True"
| "conn_job (CTConn i k) \<longleftrightarrow> True"
| "conn_job (CTSetClose i) \<longleftrightarrow> True"
| "conn_job _ \<longleftrightarrow> False"

definition conn_jobs :: "csys \<Rightarrow> ctask list" where
  "conn_jobs s = filter conn_job (cjobs s)"

definition conn_fine :: "csys \<Rightarrow> int \<Rightarrow> conn \<Rightarrow> bool" where
  "conn_fine s i c \<longleftrightarrow> i < cl_nextConnId (cs_cl s) \<and> c_tid c = cs_tid s \<and>
     (if connection (cs_cl s) = Some i then still_open c \<and> i \<in> cs_user s \<and> CTDestroy i \<notin> set (conn_jobs s)
      else if CTDestroy i \<in> set (conn_jobs s) then closing c
      else dead c \<and> i \<notin> cs_user s)"

definition conns_ok :: "csys \<Rightarrow> bool" where
  "conns_ok s \<longleftrightarrow>
     distinct (conn_jobs s) \<and> set (conn_jobs s) \<subseteq> CTDestroy ` dom (cs_objs s) \<and>
     (\<forall>i. connection (cs_cl s) = Some i \<longrightarrow> cs_objs s i \<noteq> None) \<and>
     (\<forall>i c. cs_objs s i = Some c \<longrightarrow> conn_fine s i c) \<and> (\<forall>i\<in>cs_user s. cs_objs s i \<noteq> None)"

text \<open>The loop: one source is active at most, and no channel waits for its reset while one is.\<close>

definition loop_ok :: "csys \<Rightarrow> bool" where
  "loop_ok s \<longleftrightarrow>
     (case cs_phase s of
        CPolling \<Rightarrow> cs_todo s = [] \<and> CTReset \<notin> set (cs_pending s)
      | CHandling as \<Rightarrow> cs_todo s = [] \<and>
          (as \<noteq> [] \<longrightarrow> CTReset \<notin> set (cs_pending s) \<and> length as = 1) \<and>
          (\<forall>i. SConn i \<in> set as \<longrightarrow> connection (cs_cl s) = Some i)
      | CFunctors \<Rightarrow> CTReset \<notin> set (cs_pending s))"

definition client_ok :: "bool \<Rightarrow> csys \<Rightarrow> bool" where
  "client_ok b s \<longleftrightarrow> cs_owner s \<and> cs_konn s \<and> cs_free s = {} \<and> konn_ok b s \<and> conns_ok s \<and> loop_ok s"

lemma client_okD:
  assumes "client_ok b s"
  shows "cs_owner s" "cs_konn s" "cs_free s = {}" "konn_ok b s" "conns_ok s" "loop_ok s"
  using assms by (simp_all add: client_ok_def)

text \<open>A step that does not concern the connections, or the loop.\<close>

lemma conns_ok_same:
  assumes "conns_ok s" "conn_jobs s' = conn_jobs s" "cs_objs s' = cs_objs s" "cs_user s' = cs_user s"
    "connection (cs_cl s') = connection (cs_cl s)" "cl_nextConnId (cs_cl s') = cl_nextConnId (cs_cl s)" "cs_tid s' = cs_tid s"
  shows "conns_ok s'"
  using assms(1) unfolding conns_ok_def conn_fine_def assms(2-7) .

lemma arm_timer_fields [simp]:
  "cs_cl (arm_timer s) = cs_cl s" "cs_owner (arm_timer s) = cs_owner s" "cs_konn (arm_timer s) = cs_konn s"
  "cs_objs (arm_timer s) = cs_objs s" "cs_user (arm_timer s) = cs_user s" "cs_free (arm_timer s) = cs_free s"
  "cs_timers (arm_timer s) = cs_timers s @ [cs_timerId s + 1]" "cs_phase (arm_timer s) = cs_phase s"
  "cs_timerId (arm_timer s) = cs_timerId s + 1"
  "cs_pending (arm_timer s) = cs_pending s" "cs_todo (arm_timer s) = cs_todo s" "cs_done (arm_timer s) = cs_done s"
  by (simp_all add: arm_timer_def Let_def)

lemma cancel_timer_fields [simp]:
  "cs_cl (cancel_timer q s) = cs_cl s" "cs_owner (cancel_timer q s) = cs_owner s" "cs_konn (cancel_timer q s) = cs_konn s"
  "cs_objs (cancel_timer q s) = cs_objs s" "cs_user (cancel_timer q s) = cs_user s" "cs_free (cancel_timer q s) = cs_free s"
  "cs_timers (cancel_timer q s) = removeAll q (cs_timers s)" "cs_phase (cancel_timer q s) = cs_phase s"
  "cs_timerId (cancel_timer q s) = cs_timerId s"
  "cs_pending (cancel_timer q s) = cs_pending s" "cs_todo (cancel_timer q s) = cs_todo s" "cs_done (cancel_timer q s) = cs_done s"
  by (simp_all add: cancel_timer_def)

lemma cpush_fields [simp]:
  "cs_cl (cpush x s) = cs_cl s" "cs_owner (cpush x s) = cs_owner s" "cs_konn (cpush x s) = cs_konn s"
  "cs_objs (cpush x s) = cs_objs s" "cs_user (cpush x s) = cs_user s" "cs_free (cpush x s) = cs_free s"
  "cs_timers (cpush x s) = cs_timers s" "cs_phase (cpush x s) = cs_phase s"
  "cs_timerId (cpush x s) = cs_timerId s"
  "cs_pending (cpush x s) = cs_pending s @ [x]" "cs_todo (cpush x s) = cs_todo s" "cs_done (cpush x s) = cs_done s"
  by (simp_all add: cpush_def)

definition csafe :: "bool \<Rightarrow> (csys \<times> 'o) result \<Rightarrow> bool" where
  "csafe b r \<longleftrightarrow> (case r of Inl f \<Rightarrow> f = LengthError | Inr (s, es) \<Rightarrow> client_ok b s)"

lemma csafe_simps [simp]:
  "csafe b (Inl f) \<longleftrightarrow> f = LengthError"
  "csafe b (Inr (s, es)) \<longleftrightarrow> client_ok b s"
  by (simp_all add: csafe_def)

section \<open>Steps of the connector\<close>

text \<open>A start, from the loop: by a functor, by a retry timer, or by \<open>restart\<close>.\<close>

lemma start_safe:
  assumes "conns_ok s" "loop_ok s" "cs_owner s" "cs_konn s" "cs_free s = {}"
    and k: "k_inv k" "chan_tidy k" "k_tid k = cs_tid s" "k_state k = CDisconnected" "k_chan k = None" "0 \<le> rc"
    and s: "cs_timers s = []" "connection (cs_cl s) = None" "CTStart \<notin> set (cjobs s)"
      "count_list (cjobs s) CTReset = k_resets k"
    and st: "startInLoop fd err rc k = Inr (k', es)"
    and cl: "cl_tid cl = cs_tid s" "cl_nextConnId cl = cl_nextConnId (cs_cl s)" "connection cl = None"
  shows "client_ok False (carry t (map CConnector es) (s\<lparr>cs_cl := cl\<lparr>cl_connector := k'\<rparr>\<rparr>))"
proof -
  have k': "starts k es k'" using startInLoop_starts [OF k(1,4,5,6), of fd err] st by auto
  let ?s = "s\<lparr>cs_cl := cl\<lparr>cl_connector := k'\<rparr>\<rparr>"
  have one: "client_ok False s'" if "s' = ?s \<or> k_state k' = CDisconnected \<and> s' = arm_timer ?s" for s'
  proof -
    have j: "cjobs s' = cjobs s" using that by (auto simp: cjobs_def)
    have "konn_ok False s'"
      using that k' k(3) s(1,3,4) cl(1,3) unfolding konn_ok_def starts_def j by (auto simp: untried_def)
    moreover have "conns_ok s'"
      by (rule conns_ok_same [OF assms(1)]) (use that j cl s(2) in \<open>auto simp: conn_jobs_def\<close>)
    moreover have "loop_ok s'" using that assms(2) cl(3) s(2) by (auto simp: loop_ok_def split: cphase.splits)
    moreover have "cs_owner s'" "cs_konn s'" "cs_free s' = {}" using that assms(3-5) by auto
    ultimately show ?thesis by (simp add: client_ok_def)
  qed
  show ?thesis by (rule one) (use k' in \<open>auto simp: starts_def\<close>)
qed

lemma connector_start_safe:
  assumes "conns_ok s" "loop_ok s" "cs_owner s" "cs_konn s" "cs_free s = {}"
    and k: "k_inv (cs_konnector s)" "chan_tidy (cs_konnector s)" "k_tid (cs_konnector s) = cs_tid s"
      "k_state (cs_konnector s) = CDisconnected" "k_chan (cs_konnector s) = None" "0 \<le> rc"
    and s: "cs_timers s = []" "connection (cs_cl s) = None" "CTStart \<notin> set (cjobs s)"
      "count_list (cjobs s) CTReset = k_resets (cs_konnector s)"
  shows "csafe False (connector_do t (startInLoop fd err rc (cs_konnector s)) s)"
proof -
  obtain k' es where st: "startInLoop fd err rc (cs_konnector s) = Inr (k', es)"
    using startInLoop_starts [OF k(1,4,5,6)] by blast
  show ?thesis
    using start_safe [OF assms(1-5) k s st, of "cs_cl s"] st assms(4) s(2)
    by (simp add: connector_do_def konn_def lift_k_def)
qed

section \<open>Steps of a connection\<close>

lemma creact_links: "creact env i es s = creact env i (links es) s"
  by (induction es arbitrary: s rule: links.induct) (auto simp: bindE_def split: sum.splits)

lemma cconn_do_safe:
  assumes "cs_objs s i = Some c" "calive i s" "fares P ls c (conn_step opn c)"
    and "\<And>c'. P c' \<Longrightarrow> same_conn c c' \<Longrightarrow>
      csafe b (bindE (creact env i ls (s\<lparr>cs_objs := (cs_objs s)(i \<mapsto> c')\<rparr>)) (\<lambda>s'. Inr (s', ())))"
  shows "csafe b (cconn_do env i opn s)"
proof (cases "conn_step opn c")
  case (Inl e)
  then show ?thesis using assms(1-3) by (simp add: cconn_do_def cuse_def fares_def)
next
  case (Inr r)
  obtain c' es where r: "r = (c', es)" by (cases r)
  then have c': "P c'" "same_conn c c'" and ls: "links es = ls" using assms(3) Inr by simp_all
  show ?thesis using assms(1,2) Inr r creact_links [of env i es] assms(4) [OF c']
    by (cases "creact env i ls (s\<lparr>cs_objs := (cs_objs s)(i \<mapsto> c')\<rparr>)") (simp_all add: cconn_do_def cuse_def ls)
qed

lemma objs_irrelevant [simp]:
  "konn_ok b (s\<lparr>cs_objs := os\<rparr>) = konn_ok b s" "loop_ok (s\<lparr>cs_objs := os\<rparr>) = loop_ok s"
  "konn_ok b (s\<lparr>cs_user := us\<rparr>) = konn_ok b s" "loop_ok (s\<lparr>cs_user := us\<rparr>) = loop_ok s"
  "cjobs (s\<lparr>cs_objs := os\<rparr>) = cjobs s" "cjobs (s\<lparr>cs_user := us\<rparr>) = cjobs s"
  "conn_jobs (s\<lparr>cs_objs := os\<rparr>) = conn_jobs s" "conn_jobs (s\<lparr>cs_user := us\<rparr>) = conn_jobs s"
  by (simp_all add: konn_ok_def loop_ok_def cjobs_def untried_def conn_jobs_def split: cphase.split)

lemma conns_put:
  assumes "conns_ok s" "cs_objs s i = Some c" "conn_fine s i c'"
  shows "conns_ok (s\<lparr>cs_objs := (cs_objs s)(i \<mapsto> c')\<rparr>)"
  using assms unfolding conns_ok_def conn_fine_def by auto

text \<open>The current connection.\<close>

lemma current:
  assumes "client_ok b s" "connection (cs_cl s) = Some i"
  shows "\<exists>c. cs_objs s i = Some c \<and> still_open c \<and> c_tid c = cs_tid s \<and> calive i s \<and> i \<in> cs_user s \<and>
    i < cl_nextConnId (cs_cl s) \<and> CTDestroy i \<notin> set (conn_jobs s)"
proof -
  obtain c where c: "cs_objs s i = Some c" using assms unfolding client_ok_def conns_ok_def by blast
  then have "conn_fine s i c" using assms unfolding client_ok_def conns_ok_def by blast
  then show ?thesis using assms c client_okD(1) [OF assms(1)] by (auto simp: conn_fine_def calive_def)
qed

lemma keeps_up:
  assumes "client_ok b s" "connection (cs_cl s) = Some i" "cs_objs s i = Some c" "still_open c'" "same_conn c c'"
  shows "client_ok b (s\<lparr>cs_objs := (cs_objs s)(i \<mapsto> c')\<rparr>)"
proof -
  have "conn_fine s i c'" using current [OF assms(1,2)] assms(2-5) by (auto simp: conn_fine_def same_conn_def)
  then show ?thesis using client_okD [OF assms(1)] conns_put [of s i c c'] assms(3)
    by (simp add: client_ok_def)
qed

text \<open>The close callback of the current connection: its destruction is queued, and a new attempt may start.\<close>

lemma removeConnection_safe:
  assumes ok: "client_ok b s" and i: "connection (cs_cl s) = Some i" "cs_objs s i = Some c"
    and c': "closing c'" "same_conn c c'" and rest: "CTReset \<notin> set (cjobs s)" and rc: "0 \<le> ce_rc env"
    and ph: "cs_phase s = CHandling []"
  shows "csafe b (bindE (creact env i [ECloseCb] (s\<lparr>cs_objs := (cs_objs s)(i \<mapsto> c')\<rparr>)) (\<lambda>s'. Inr (s', ())))"
proof -
  note okD = client_okD [OF ok]
  let ?k = "cs_konnector s"
  let ?cl = "(cs_cl s)\<lparr>connection := None\<rparr>"
  let ?s = "s\<lparr>cs_objs := (cs_objs s)(i \<mapsto> c')\<rparr>"
  let ?s1 = "cpush (CTDestroy i) (?s\<lparr>cs_cl := ?cl\<rparr>)"
  have k: "k_inv ?k" "chan_tidy ?k" "k_tid ?k = cs_tid s" "k_state ?k = CConnected" "k_resets ?k = 0" "cs_timers s = []"
      "\<not> b" "CTStart \<notin> set (cjobs s)"
    using okD(4) i(1) rest by (auto simp: konn_ok_def untried_def)
  have chan: "k_chan ?k = None" using tidy_no_chan [OF k(1,2)] k(4,5) by simp
  have cur: "c_tid c' = cs_tid s" "i < cl_nextConnId (cs_cl s)" "CTDestroy i \<notin> set (conn_jobs s)"
    using current [OF ok i(1)] i(2) c'(2) by (auto simp: same_conn_def)
  have jobs: "set (conn_jobs ?s1) = insert (CTDestroy i) (set (conn_jobs s))" "distinct (conn_jobs ?s1)"
    using okD(5) cur(3) by (auto simp: conn_jobs_def cjobs_def conns_ok_def)
  have "conn_fine ?s1 j d" if "cs_objs ?s1 j = Some d" for j d
  proof (cases "j = i")
    case True
    then show ?thesis using that cur c'(1) jobs by (auto simp: conn_fine_def)
  next
    case False
    then have "conn_fine s j d" using that okD(5) unfolding conns_ok_def by auto
    then show ?thesis using False i(1) jobs by (auto simp: conn_fine_def)
  qed
  then have conns: "conns_ok ?s1" using okD(5) jobs i(2) unfolding conns_ok_def by auto
  have loop: "loop_ok ?s1"
    using okD(6) ph by (simp add: loop_ok_def)
  have cnt: "count_list (cjobs ?s1) CTReset = 0" "CTStart \<notin> set (cjobs ?s1)"
    using k(8) rest by (simp_all add: cjobs_def)
  show ?thesis
  proof (cases "cl_retry (cs_cl s) \<and> cl_connect (cs_cl s)")
    case False
    have "konn_ok b ?s1" using okD(4) i(1) k cnt by (auto simp: konn_ok_def)
    then show ?thesis using False okD conns loop i
      by (auto simp: close_callback_def owned_def client_removeConnection_def client_ok_def)
  next
    case True
    let ?kr = "?k\<lparr>k_state := CDisconnected, retryDelayMs := kInitRetryDelayMs, connect_flag := True\<rparr>"
    have kr: "k_inv ?kr" "chan_tidy ?kr" using k(1,2,5) chan by (simp_all add: k_inv_def chan_tidy_def kInitRetryDelayMs_def)
    obtain k' es where st: "startInLoop (ce_fd env) (ce_err env) (ce_rc env) ?kr = Inr (k', es)"
      using startInLoop_starts [OF kr(1) _ _ rc, of "ce_fd env" "ce_err env"] chan by auto
    have "client_ok False (carry (cs_tid s) (map CConnector es) (?s1\<lparr>cs_cl := ?cl\<lparr>cl_connector := k'\<rparr>\<rparr>))"
      by (rule start_safe [OF conns loop _ _ _ kr _ _ _ rc _ _ cnt(2) _ st])
        (use okD k chan cnt(1) in auto)
    moreover have "?s1\<lparr>cs_cl := ?cl\<lparr>cl_connector := k'\<rparr>\<rparr> = cpush (CTDestroy i) (?s\<lparr>cs_cl := ?cl\<lparr>cl_connector := k'\<rparr>\<rparr>)"
      by (simp add: cpush_def)
    ultimately show ?thesis using True okD i k(7) st
      by (simp add: close_callback_def owned_def client_removeConnection_def lift_k_def k_restart_def)
  qed
qed

lemma conn_event_safe:
  assumes ok: "client_ok b s" and i: "connection (cs_cl s) = Some i" "cs_objs s i = Some c"
    and env: "event_ok revt (ce_event env) c" "0 \<le> ce_rc env" and rest: "CTReset \<notin> set (cjobs s)"
    and ph: "cs_phase s = CHandling []"
  shows "csafe b (cconn_do env i (Event revt (ce_event env)) s) \<or> c_state c = kDisconnected \<and>
    cconn_do env i (Event revt (ce_event env)) s = Inl (Assertion ''state_ == kConnected'')"
proof -
  have c: "still_open c" "calive i s" using current [OF ok i(1)] i(2) by auto
  from event_fares [OF c(1) env(1)] consider
      (still) "fares still_open [] c (conn_step (Event revt (ce_event env)) c)"
    | (closed) "fares closing [ECloseCb] c (conn_step (Event revt (ce_event env)) c)"
    | (late) "closes_late c (conn_step (Event revt (ce_event env)) c)" by blast
  then show ?thesis
  proof cases
    case still
    have "csafe b (cconn_do env i (Event revt (ce_event env)) s)"
      by (rule cconn_do_safe [OF i(2) c(2) still]) (use keeps_up [OF ok i] in simp)
    then show ?thesis ..
  next
    case closed
    have "csafe b (cconn_do env i (Event revt (ce_event env)) s)"
      by (rule cconn_do_safe [OF i(2) c(2) closed]) (rule removeConnection_safe [OF ok i _ _ rest env(2) ph])
    then show ?thesis ..
  next
    case late
    then show ?thesis using i(2) c(2) by (simp add: closes_late_def cconn_do_def cuse_def del: conn_step.simps)
  qed
qed

lemma conn_call_safe:
  assumes ok: "client_ok b s" and i: "connection (cs_cl s) = Some i" and t: "t = cs_tid s" "good_call call"
  shows "csafe b (cconn_do env i (Call t call) s)"
proof -
  obtain c where c: "cs_objs s i = Some c" "still_open c" "calive i s" "c_tid c = cs_tid s" using current [OF ok i] by blast
  have f: "fares still_open [] c (conn_step (Call t call) c)" using do_call_open [OF c(2) t(2)] c(4) t(1) by simp
  show ?thesis by (rule cconn_do_safe [OF c(1,3) f]) (use keeps_up [OF ok i c(1)] in simp)
qed

section \<open>Events of the connector\<close>

lemma new_conn_connector [simp]: "new_conn (map CConnector es @ fs) = new_conn fs"
  by (induction es) simp_all

lemma new_conn_connector' [simp]: "new_conn (map CConnector es) = None"
  using new_conn_connector [of es "[]"] by simp

lemma establish_new:
  assumes ok: "cs_owner s" "conns_ok s0" "konn_ok b s" "loop_ok s" "cs_konn s" "cs_free s = {}"
    and same: "cs_objs s = cs_objs s0" "cs_user s = cs_user s0" "conn_jobs s = conn_jobs s0" "cs_tid s = cs_tid s0"
    and i: "i = cl_nextConnId (cs_cl s0)" "cl_nextConnId (cs_cl s) = i + 1" "connection (cs_cl s0) = None"
      "connection (cs_cl s) = Some i"
    and env: "0 \<le> ce_rc1 env" "\<forall>call\<in>set (ce_calls env). good_call call"
  shows "csafe b (cconn_do env i (Establish (ce_rc1 env) (ce_calls env))
      (s\<lparr>cs_objs := (cs_objs s)(i \<mapsto> fresh_conn (cs_tid s) nm fd)\<rparr>))"
proof (rule cconn_do_safe [OF _ _ establish_open [OF fresh_fresh_conn insertI1 env]])
  let ?f = "fresh_conn (cs_tid s) nm fd"
  let ?s = "s\<lparr>cs_objs := (cs_objs s)(i \<mapsto> ?f)\<rparr>"
  show "cs_objs ?s i = Some ?f" by simp
  show "calive i ?s" using ok(1) i(4) by (simp add: calive_def)
  fix c' assume c': "still_open c'" "same_conn ?f c'"
  let ?s' = "?s\<lparr>cs_objs := (cs_objs ?s)(i \<mapsto> c'), cs_user := insert i (cs_user s)\<rparr>"
  have tid: "c_tid c' = cs_tid s" using c'(2) by (simp add: same_conn_def conn_evals)
  have fine0: "conn_fine s0 j d" if "cs_objs s0 j = Some d" for j d using that ok(2) by (simp add: conns_ok_def)
  have old: "cs_objs s0 i = None"
    using fine0 [of i] i(1) by (cases "cs_objs s0 i") (auto simp: conn_fine_def)
  then have job: "CTDestroy i \<notin> set (conn_jobs s0)" using ok(2) unfolding conns_ok_def by blast
  have "conn_fine ?s' j d" if "cs_objs ?s' j = Some d" for j d
  proof (cases "j = i")
    case True
    then show ?thesis using that tid c'(1) i job same by (auto simp: conn_fine_def)
  next
    case False
    then have "conn_fine s0 j d" using that same by (auto intro: fine0)
    then show ?thesis using False i same by (auto simp: conn_fine_def)
  qed
  then have "conns_ok ?s'" using ok(2) same i(4) unfolding conns_ok_def by auto
  then show "csafe b (bindE (creact env i [EConnectionCb True] (?s\<lparr>cs_objs := (cs_objs ?s)(i \<mapsto> c')\<rparr>)) (\<lambda>s'. Inr (s', ())))"
    using ok by (simp add: client_ok_def)
qed

lemma connector_event_safe:
  assumes ok: "client_ok b s" and ph: "cs_phase s = CHandling []" and rest: "CTReset \<notin> set (cjobs s)"
    and env: "0 \<le> ce_rc1 env" "\<forall>call\<in>set (ce_calls env). good_call call"
  shows "csafe b (connector_event revt env s)"
proof -
  note okD = client_okD [OF ok]
  let ?k = "cs_konnector s"
  have k: "k_inv ?k" "chan_tidy ?k" "k_tid ?k = cs_tid s" using okD(4) by (simp_all add: konn_ok_def)
  obtain k' es where st: "k_step (KEvent revt (ce_rc env) (ce_so_error env) (ce_self env)) ?k = Inr (k', es)"
    and k': "attempts ?k es k'" using k_event_attempts [OF k(1,2)] by blast
  let ?s1 = "s\<lparr>cs_cl := (cs_cl s)\<lparr>cl_connector := k'\<rparr>\<rparr>"
  have frame: "client_ok b s'" if "konn_ok b s'" "s' = ?s1 \<or> s' = cpush CTReset ?s1 \<or> s' = arm_timer (cpush CTReset ?s1)" for s'
  proof -
    have "conns_ok s'" by (rule conns_ok_same [OF okD(5)]) (use that(2) in \<open>auto simp: conn_jobs_def cjobs_def\<close>)
    moreover have "loop_ok s'" using that(2) okD(6) ph by (auto simp: loop_ok_def)
    moreover have "cs_owner s'" "cs_konn s'" "cs_free s' = {}" using that(2) okD(1-3) by auto
    ultimately show ?thesis using that(1) by (simp add: client_ok_def)
  qed
  have ev: "client_event (ce_host env) (KEvent revt (ce_rc env) (ce_so_error env) (ce_self env)) (cs_cl s) =
      (case handed es of None \<Rightarrow> Inr ((cs_cl s)\<lparr>cl_connector := k'\<rparr>, map CConnector es)
       | Some fd \<Rightarrow> Inr ((cs_cl s)\<lparr>cl_connector := k', cl_nextConnId := cl_nextConnId (cs_cl s) + 1,
           connection := Some (cl_nextConnId (cs_cl s))\<rparr>, map CConnector es @
           [CEstablish (cl_nextConnId (cs_cl s)) (client_conn_name (ce_host env) (cl_nextConnId (cs_cl s))) fd]))"
    using st by (simp add: client_event_def client_newConnection_def Let_def split: option.splits)
  consider (same) "k_state k' = k_state ?k" "k_resets k' = k_resets ?k" "k_chan k' = None \<longleftrightarrow> k_chan ?k = None"
        "handed es = None" "\<forall>t s. carry t (map CConnector es) s = s"
    | (retry) "k_state ?k = CConnecting" "k_resets k' = 1" "k_state k' = CDisconnected" "handed es = None"
        "\<forall>t s. carry t (map CConnector es) s \<in> {cpush CTReset s, arm_timer (cpush CTReset s)}"
    | (ended) "k_state ?k = CConnecting" "k_resets k' = 1" "k_state k' = CConnected"
        "\<forall>t s. carry t (map CConnector es) s = cpush CTReset s"
    using k' unfolding attempts_def by (elim conjE disjE) (rule that; assumption)+
  then show ?thesis
  proof cases
    case same
    have "konn_ok b ?s1" using okD(4) k' same unfolding konn_ok_def untried_def attempts_def by (auto simp: cjobs_def)
    then show ?thesis using frame [of ?s1] same ev by (simp add: connector_event_def)
  next
    case retry
    have none: "cs_timers s = []" "connection (cs_cl s) = None" "\<not> b" "CTStart \<notin> set (cjobs s)"
      using okD(4) retry(1) by (auto simp: konn_ok_def untried_def)
    have "konn_ok b s'" if "s' = cpush CTReset ?s1 \<or> s' = arm_timer (cpush CTReset ?s1)" for s'
      using that none retry k' k(3) rest by (auto simp: konn_ok_def attempts_def cjobs_def)
    then show ?thesis using frame retry ev by (simp add: connector_event_def)
  next
    case ended
    have none: "cs_timers s = []" "connection (cs_cl s) = None" "\<not> b" "CTStart \<notin> set (cjobs s)"
      using okD(4) ended(1) by (auto simp: konn_ok_def untried_def)
    show ?thesis
    proof (cases "handed es")
      case None
      have "konn_ok b (cpush CTReset ?s1)"
        using none ended(2,3) k' k(3) rest by (auto simp: konn_ok_def attempts_def cjobs_def)
      then show ?thesis using frame [of "cpush CTReset ?s1"] ended(4) None ev by (simp add: connector_event_def)
    next
      case (Some fd)
      let ?i = "cl_nextConnId (cs_cl s)"
      let ?cl = "(cs_cl s)\<lparr>cl_connector := k', cl_nextConnId := ?i + 1, connection := Some ?i\<rparr>"
      let ?s2 = "cpush CTReset (s\<lparr>cs_cl := ?cl\<rparr>)"
      have "konn_ok b ?s2"
        using none ended(2,3) k' k(3) rest by (auto simp: konn_ok_def attempts_def cjobs_def)
      moreover have "loop_ok ?s2" using okD(6) ph by (simp add: loop_ok_def)
      ultimately have "csafe b (cconn_do env ?i (Establish (ce_rc1 env) (ce_calls env))
        (?s2\<lparr>cs_objs := (cs_objs ?s2)(?i \<mapsto> fresh_conn (cs_tid ?s2) (client_conn_name (ce_host env) ?i) fd)\<rparr>))"
        by (intro establish_new [where ?s0.0 = s]) (use okD none env in \<open>auto simp: conn_jobs_def cjobs_def\<close>)
      then show ?thesis using ended(4) Some ev okD(1) by (simp add: connector_event_def carry_append Let_def)
    qed
  qed
qed

section \<open>Functors\<close>

text \<open>Taking the next functor.\<close>

definition ctaken :: "ctask \<Rightarrow> ctask list \<Rightarrow> csys \<Rightarrow> csys" where
  "ctaken x xs s = s\<lparr>cs_todo := xs, cs_done := cs_done s @ [x]\<rparr>"

lemma ctaken_fields [simp]:
  "cs_cl (ctaken x xs s) = cs_cl s" "cs_owner (ctaken x xs s) = cs_owner s" "cs_konn (ctaken x xs s) = cs_konn s"
  "cs_objs (ctaken x xs s) = cs_objs s" "cs_user (ctaken x xs s) = cs_user s" "cs_free (ctaken x xs s) = cs_free s"
  "cs_timers (ctaken x xs s) = cs_timers s" "cs_phase (ctaken x xs s) = cs_phase s"
  "cs_timerId (ctaken x xs s) = cs_timerId s"
  "cs_pending (ctaken x xs s) = cs_pending s" "cs_todo (ctaken x xs s) = xs" "cs_done (ctaken x xs s) = cs_done s @ [x]"
  by (simp_all add: ctaken_def)

lemma run_ctask_safe:
  assumes ok: "client_ok b s" and x: "cs_todo s = x # xs"
    and env: "0 \<le> ce_rc env" "0 \<le> ce_rc1 env"
  shows "csafe b (run_ctask x env (ctaken x xs s))"
proof -
  note okD = client_okD [OF ok]
  let ?k = "cs_konnector s" and ?s1 = "ctaken x xs s"
  have k: "k_inv ?k" "chan_tidy ?k" "k_tid ?k = cs_tid s" using okD(4) by (simp_all add: konn_ok_def)
  have ph: "cs_phase s = CFunctors" "CTReset \<notin> set (cs_pending s)"
    using okD(6) x by (auto simp: loop_ok_def split: cphase.splits)
  have loop: "loop_ok s'" if "cs_phase s' = cs_phase s" "cs_pending s' = cs_pending s" for s' :: csys
    using that ph by (simp add: loop_ok_def)
  have jobs: "cjobs s = cs_pending s @ x # xs" "cjobs ?s1 = cs_pending s @ xs" by (simp_all add: cjobs_def x)
  have plain: "conns_ok s'" if "\<not> conn_job x" "cjobs s' = cjobs ?s1" "cs_objs s' = cs_objs s" "cs_user s' = cs_user s"
    "connection (cs_cl s') = connection (cs_cl s)" "cl_nextConnId (cs_cl s') = cl_nextConnId (cs_cl s)" "cs_tid s' = cs_tid s" for s'
    by (rule conns_ok_same [OF okD(5)]) (use that jobs in \<open>simp_all add: conn_jobs_def\<close>)
  show ?thesis
  proof (cases x)
    case CTStart
    have u: "untried s" "\<not> b" "CTStart \<notin> set (cjobs ?s1)" "count_list (cjobs ?s1) CTReset = k_resets ?k"
      using okD(4) jobs CTStart by (auto simp: konn_ok_def count_list_0_iff)
    have "csafe False (connector_do (cs_tid s) (startInLoop (ce_fd env) (ce_err env) (ce_rc env) (cs_konnector ?s1)) ?s1)"
      by (rule connector_start_safe [OF plain loop]) (use CTStart okD k env u in \<open>auto simp: untried_def\<close>)
    then show ?thesis using CTStart u(2) by simp
  next
    case CTReset
    have cnt: "count_list (cjobs s) CTReset = k_resets ?k" using okD(4) by (simp add: konn_ok_def)
    then have r: "k_resets ?k = 1" "count_list (cjobs ?s1) CTReset = 0" "k_chan ?k \<noteq> None"
      using k(1) jobs CTReset by (auto simp: k_inv_def split: option.splits if_splits)
    then have nb: "\<not> b" "CTStart \<notin> set (cjobs s)" using okD(4) by (auto simp: konn_ok_def untried_def)
    let ?k' = "?k\<lparr>k_resets := 0, k_chan := None\<rparr>"
    have st: "k_step KReset ?k = Inr (?k', [])" "k_inv ?k'" "chan_tidy ?k'"
      using r k(1,2) by (auto simp: resetChannel_def Channel_delete_def k_inv_def chan_tidy_def split: option.splits if_splits)
    let ?s2 = "?s1\<lparr>cs_cl := (cs_cl s)\<lparr>cl_connector := ?k'\<rparr>\<rparr>"
    have j2: "cjobs ?s2 = cjobs ?s1" by (simp add: cjobs_def)
    have "konn_ok b ?s2" using okD(4) nb st(2,3) k(3) r(2) jobs unfolding konn_ok_def j2 by auto
    moreover have "conns_ok ?s2" by (rule plain) (use CTReset j2 in simp_all)
    moreover have "loop_ok ?s2" by (rule loop) simp_all
    ultimately show ?thesis using CTReset okD st(1)
      by (simp add: connector_do_def konn_def lift_k_def client_ok_def del: k_step.simps)
  next
    case (CTCancel q)
    let ?s2 = "cancel_timer q ?s1"
    have j2: "cjobs ?s2 = cs_pending s @ xs" by (simp add: cjobs_def)
    have rem: "length ys = 1 \<Longrightarrow> removeAll q ys = [] \<or> length (removeAll q ys) = 1" for ys :: "int list"
      by (cases ys) auto
    have "konn_ok b ?s2" using okD(4) jobs CTCancel rem [of "cs_timers s"] unfolding konn_ok_def j2 by (auto simp: untried_def)
    moreover have "conns_ok ?s2" by (rule plain) (use CTCancel j2 jobs in simp_all)
    moreover have "loop_ok ?s2" by (rule loop) simp_all
    ultimately show ?thesis using CTCancel okD by (simp add: client_ok_def)
  next
    case (CTDestroy i)
    have mem: "CTDestroy i \<in> set (conn_jobs s)" using jobs CTDestroy by (simp add: conn_jobs_def)
    then obtain c where c: "cs_objs s i = Some c" using okD(5) unfolding conns_ok_def by auto
    then have fine: "conn_fine s i c" using okD(5) by (simp add: conns_ok_def)
    then have cl: "closing c" "connection (cs_cl s) \<noteq> Some i" using mem by (auto simp: conn_fine_def split: if_splits)
    have konn: "konn_ok b ?s1" using okD(4) jobs CTDestroy unfolding konn_ok_def by (auto simp: untried_def)
    have set1: "set (conn_jobs ?s1) = set (conn_jobs s) - {CTDestroy i}" "distinct (conn_jobs ?s1)"
      using okD(5) jobs CTDestroy by (auto simp: conn_jobs_def conns_ok_def)
    have "csafe b (cconn_do env i (Destroy (ce_rc1 env) (ce_rc2 env) (ce_calls env)) ?s1)"
    proof (rule cconn_do_safe [OF _ _ destroy_fares [OF cl(1) env(2)]])
      show "cs_objs ?s1 i = Some c" using c by simp
      show "calive i ?s1" using CTDestroy by (simp add: calive_def)
      fix c' assume c': "dead c'" "same_conn c c'"
      let ?s2 = "?s1\<lparr>cs_objs := (cs_objs s)(i \<mapsto> c'), cs_user := cs_user s - {i}\<rparr>"
      have "conn_fine ?s2 j d" if "cs_objs ?s2 j = Some d" for j d
      proof (cases "j = i")
        case True
        then show ?thesis using that fine c' cl(2) set1 by (auto simp: conn_fine_def same_conn_def)
      next
        case False
        then have "conn_fine s j d" using that okD(5) by (simp add: conns_ok_def)
        then show ?thesis using False set1 by (auto simp: conn_fine_def)
      qed
      then have "conns_ok ?s2" using okD(5) set1 unfolding conns_ok_def by auto
      moreover have "loop_ok ?s1" by (rule loop) simp_all
      ultimately show "csafe b (bindE (creact env i [EConnectionCb False] (?s1\<lparr>cs_objs := (cs_objs ?s1)(i \<mapsto> c')\<rparr>))
          (\<lambda>s'. Inr (s', ())))"
        using okD konn by (simp add: client_ok_def)
    qed
    then show ?thesis using CTDestroy by simp
  next
    case (CTConn i t)
    then have "CTConn i t \<in> set (conn_jobs s)" using jobs by (simp add: conn_jobs_def)
    then show ?thesis using okD(5) unfolding conns_ok_def by blast
  next
    case (CTSetClose i)
    then have "CTSetClose i \<in> set (conn_jobs s)" using jobs by (simp add: conn_jobs_def)
    then show ?thesis using okD(5) unfolding conns_ok_def by blast
  qed
qed

section \<open>A client used in turn\<close>

text \<open>
  What the client relies on, step by step: \<open>connect\<close> is called once, the client outlives
  the run, \<open>disconnect\<close> and the connection, while it is the current one, are called from the loop thread; the kernel answers as for \<open>event_ok\<close>
  and accepts the registrations. The client may be stopped, and retry may be enabled, at any time and from any thread.
\<close>

fun clab_ok :: "bool \<Rightarrow> 'u clabel \<Rightarrow> csys \<Rightarrow> bool" where
  "clab_ok b (LConnect t env) s \<longleftrightarrow> b \<and> 0 \<le> ce_rc env"
| "clab_ok b (LDisconnect t env) s \<longleftrightarrow> t = cs_tid s"
| "clab_ok b (LDelete t) s \<longleftrightarrow> False"
| "clab_ok b (LCall t i call env) s \<longleftrightarrow> t = cs_tid s \<and> connection (cs_cl s) = Some i \<and> good_call call"
| "clab_ok b (LHandle revt env) s \<longleftrightarrow> 0 \<le> ce_rc env \<and> 0 \<le> ce_rc1 env \<and> (\<forall>call\<in>set (ce_calls env). good_call call) \<and>
     (case cs_phase s of
        CHandling (SConn i # as) \<Rightarrow> (case cs_objs s i of None \<Rightarrow> True | Some c \<Rightarrow> event_ok revt (ce_event env) c)
      | _ \<Rightarrow> True)"
| "clab_ok b (LRun env) s \<longleftrightarrow> 0 \<le> ce_rc env \<and> 0 \<le> ce_rc1 env"
| "clab_ok b _ s \<longleftrightarrow> True"

fun unconnected :: "'u clabel \<Rightarrow> bool \<Rightarrow> bool" where
  "unconnected (LConnect t env) b \<longleftrightarrow> False"
| "unconnected _ b \<longleftrightarrow> b"

fun clabs_ok :: "bool \<Rightarrow> 'u clabel list \<Rightarrow> csys \<Rightarrow> bool" where
  "clabs_ok b [] s \<longleftrightarrow> True"
| "clabs_ok b (lab # labs) s \<longleftrightarrow> clab_ok b lab s \<and>
     (case cs_step lab s of Inl f \<Rightarrow> True | Inr (s', es) \<Rightarrow> clabs_ok (unconnected lab b) labs s')"

lemma polled_conn:
  assumes "client_ok b s" "pollable s (SConn i)"
  shows "connection (cs_cl s) = Some i"
proof (cases "cs_objs s i")
  case None
  then show ?thesis using assms(2) by (simp add: pollable_def)
next
  case (Some c)
  then have "conn_fine s i c" "registered (c_chan c) \<noteq> None"
    using assms(2) client_okD(5) [OF assms(1)] by (auto simp: conns_ok_def pollable_def)
  then show ?thesis by (auto simp: conn_fine_def closing_def dead_def registered_def split: if_splits)
qed

text \<open>At most one source can be active: a retry timer, the connector's channel, or the connection.\<close>

lemma one_source:
  assumes "client_ok b s" "pollable s a" "pollable s a'"
  shows "a' = a"
proof -
  let ?k = "cs_konnector s"
  have k: "chan_tidy ?k" "cs_timers s \<noteq> [] \<longrightarrow> k_state ?k = CDisconnected \<and> connection (cs_cl s) = None \<and> length (cs_timers s) = 1"
      "connection (cs_cl s) \<noteq> None \<longrightarrow> k_state ?k = CConnected"
    using client_okD(4) [OF assms(1)] by (auto simp: konn_ok_def)
  have 1: "k_state ?k = CConnecting" if "pollable s SKonnector"
    using that k(1) by (auto simp: pollable_def chan_tidy_def registered_def split: option.splits if_splits)
  have 2: "connection (cs_cl s) = Some i" if "pollable s (SConn i)" for i
    using polled_conn [OF assms(1) that] .
  have 3: "k_state ?k = CDisconnected \<and> cs_timers s = [q]" if "pollable s (STimer q)" for q
    using that k(2) by (cases "cs_timers s") (auto simp: pollable_def)
  show ?thesis using assms(2,3) 1 2 3 k(3)
    by (cases a; cases a') (fastforce dest!: 1 2 3)+
qed

lemma poll_one:
  assumes "client_ok b s" "distinct as" "list_all (pollable s) as" "as \<noteq> []"
  shows "\<exists>a. as = [a] \<and> pollable s a"
proof -
  obtain a as' where as: "as = a # as'" using assms(4) by (cases as) auto
  have "as' = []"
  proof (rule ccontr)
    assume "as' \<noteq> []"
    then obtain a' where "a' \<in> set as'" by (cases as') auto
    then show False using as assms(2,3) one_source [OF assms(1), of a a'] by (auto simp: list_all_iff)
  qed
  then show ?thesis using as assms(3) by simp
qed

lemma phase_change:
  assumes "client_ok b s" "cjobs s' = cjobs s" "cs_cl s' = cs_cl s" "cs_timers s' = cs_timers s" "cs_timerId s' = cs_timerId s" "cs_objs s' = cs_objs s"
    "cs_user s' = cs_user s" "cs_owner s' = cs_owner s" "cs_konn s' = cs_konn s" "cs_free s' = cs_free s" "loop_ok s'"
  shows "client_ok b s'"
proof -
  have "konn_ok b s'" using client_okD(4) [OF assms(1)] unfolding konn_ok_def untried_def assms(2-5) .
  moreover have "conns_ok s'" by (rule conns_ok_same [OF client_okD(5) [OF assms(1)]]) (use assms(2-7) in \<open>simp_all add: conn_jobs_def\<close>)
  ultimately show ?thesis using client_okD [OF assms(1)] assms(8-11) by (simp add: client_ok_def)
qed

text \<open>The one step that may fail an assert: an event that closes a connection that was shut down.\<close>

definition cshut_then_closed :: "'u clabel \<Rightarrow> csys \<Rightarrow> bool" where
  "cshut_then_closed lab s \<longleftrightarrow> (\<exists>revt env i as c. lab = LHandle revt env \<and> cs_phase s = CHandling (SConn i # as) \<and>
     cs_objs s i = Some c \<and> c_state c = kDisconnected)"

lemma handle_safe:
  fixes env :: "'u cenv"
  assumes ok: "client_ok b s" and ph: "cs_phase s = CHandling (a # as)" and env: "clab_ok b (LHandle revt env) s"
  shows "csafe b (handle_source a revt env (s\<lparr>cs_phase := CHandling as\<rparr>)) \<or>
    cshut_then_closed (LHandle revt env) s \<and>
    handle_source a revt env (s\<lparr>cs_phase := CHandling as\<rparr>) = Inl (Assertion ''state_ == kConnected'')"
proof -
  let ?s = "s\<lparr>cs_phase := CHandling as\<rparr>"
  have l: "as = []" "cs_todo s = []" "CTReset \<notin> set (cs_pending s)" "\<And>i. a = SConn i \<Longrightarrow> connection (cs_cl s) = Some i"
    using client_okD(6) [OF ok] ph by (auto simp: loop_ok_def)
  have ok': "client_ok b ?s" by (rule phase_change [OF ok]) (use l in \<open>auto simp: cjobs_def loop_ok_def\<close>)
  have rest: "CTReset \<notin> set (cjobs ?s)" using l by (simp add: cjobs_def)
  have e: "0 \<le> ce_rc env" "0 \<le> ce_rc1 env" "\<forall>call\<in>set (ce_calls env). good_call call" using env by simp_all
  note okD = client_okD [OF ok']
  show ?thesis
  proof (cases a)
    case (STimer q)
    show ?thesis
    proof (cases "q \<in> set (cs_timers s)")
      case True
      let ?s1 = "cancel_timer q ?s" and ?k = "cs_konnector s"
      have k: "k_inv ?k" "chan_tidy ?k" "k_tid ?k = cs_tid s" "k_resets ?k = 0" "k_state ?k = CDisconnected" "cs_timers s = [q]"
          "connection (cs_cl s) = None" "\<not> b" "CTStart \<notin> set (cjobs s)"
        using okD(4) True rest by (auto simp: konn_ok_def untried_def cjobs_def length_Suc_conv)
      have chan: "k_chan ?k = None" using tidy_no_chan [OF k(1,2) _ k(4)] k(5) by simp
      have conns: "conns_ok ?s1" by (rule conns_ok_same [OF okD(5)]) (simp_all add: conn_jobs_def cjobs_def)
      have "csafe False (connector_do (cs_tid s) (startInLoop (ce_fd env) (ce_err env) (ce_rc env) (cs_konnector ?s1)) ?s1 :: 'u csys_result)"
        by (rule connector_start_safe [OF conns]) (use okD k chan e l rest in \<open>auto simp: cjobs_def loop_ok_def\<close>)
      then show ?thesis using True STimer k(8) by simp
    next
      case False
      then show ?thesis using STimer ok' by simp
    qed
  next
    case SKonnector
    then show ?thesis using connector_event_safe [OF ok' _ rest e(2,3)] l(1) okD(2) by (simp add: konn_def)
  next
    case (SConn i)
    then have i: "connection (cs_cl ?s) = Some i" using l(4) by simp
    obtain c where c: "cs_objs ?s i = Some c" using current [OF ok' i] by blast
    then show ?thesis using conn_event_safe [OF ok' i c _ e(1) rest] env ph SConn l(1) by (auto simp: cshut_then_closed_def)
  qed
qed

lemma connect_safe:
  assumes ok: "client_ok True s" and rc: "0 \<le> ce_rc env"
  shows "csafe False (cs_step (LConnect t env) s)"
proof -
  note okD = client_okD [OF ok]
  let ?k = "cs_konnector s" and ?cl = "(cs_cl s)\<lparr>cl_connect := True\<rparr>"
  let ?k1 = "?k\<lparr>connect_flag := True\<rparr>"
  have k: "k_inv ?k" "chan_tidy ?k" "k_tid ?k = cs_tid s" "untried s" "CTStart \<notin> set (cjobs s)"
      "count_list (cjobs s) CTReset = k_resets ?k"
    using okD(4) by (auto simp: konn_ok_def count_list_0_iff)
  have k1: "k_inv ?k1" "chan_tidy ?k1" using k(1,2) by (auto simp: k_inv_def chan_tidy_def split: option.splits)
  show ?thesis
  proof (cases "t = k_tid ?k")
    case True
    obtain k' es where st: "startInLoop (ce_fd env) (ce_err env) (ce_rc env) ?k1 = Inr (k', es)"
      using startInLoop_starts [OF k1(1) _ _ rc, of "ce_fd env" "ce_err env"] k(4) by (auto simp: untried_def)
    have "client_ok False (carry t (map CConnector es) (s\<lparr>cs_cl := ?cl\<lparr>cl_connector := k'\<rparr>\<rparr>))"
      by (rule start_safe [OF okD(5,6) _ _ _ k1 _ _ _ rc _ _ k(5) _ st]) (use okD k in \<open>auto simp: untried_def\<close>)
    then show ?thesis using True okD(1) st
      by (simp add: owned_def client_connect_def start_def lift_k_def)
  next
    case False
    let ?s1 = "cpush CTStart (s\<lparr>cs_cl := ?cl\<lparr>cl_connector := ?k1\<rparr>\<rparr>)"
    have "konn_ok False ?s1" using okD(4) k k1 by (auto simp: konn_ok_def untried_def cjobs_def count_list_0_iff)
    moreover have "conns_ok ?s1" by (rule conns_ok_same [OF okD(5)]) (simp_all add: conn_jobs_def cjobs_def)
    moreover have "loop_ok ?s1" using okD(6) by (auto simp: loop_ok_def split: cphase.splits)
    ultimately show ?thesis using False okD
      by (simp add: owned_def client_connect_def start_def lift_k_def client_ok_def)
  qed
qed

lemma stop_safe:
  assumes ok: "client_ok b s"
  shows "csafe b (cs_step (LStop t) s)"
proof -
  note okD = client_okD [OF ok]
  let ?k1 = "(cs_konnector s)\<lparr>connect_flag := False\<rparr>"
  let ?s0 = "s\<lparr>cs_cl := (cs_cl s)\<lparr>cl_connect := False, cl_connector := ?k1\<rparr>\<rparr>"
  have k1: "k_inv ?k1" "chan_tidy ?k1"
    using okD(4) by (auto simp: konn_ok_def k_inv_def chan_tidy_def split: option.splits)
  have konn: "konn_ok b s'" if "cs_cl s' = cs_cl ?s0" "count_list (cjobs s') CTReset = count_list (cjobs s) CTReset"
      "count_list (cjobs s') CTStart = count_list (cjobs s) CTStart"
      "cs_timers s' = cs_timers s \<or> cs_timers s' = removeAll (cs_timerId s) (cs_timers s)"
      "cs_timerId s' = cs_timerId s" for s'
  proof -
    have start: "CTStart \<in> set (cjobs s') \<longleftrightarrow> CTStart \<in> set (cjobs s)" using that(3) by (metis count_list_0_iff)
    have "cs_timers s' \<noteq> [] \<longrightarrow> cs_timers s \<noteq> [] \<and> (cs_timers s = [cs_timerId s] \<longrightarrow> cs_timers s' = [cs_timerId s'])"
      using that(4,5) by auto
    then show ?thesis using okD(4) k1 unfolding konn_ok_def untried_def start that(1-3) by auto
  qed
  have one: "client_ok b s'" if "s' = cancel_timer (cs_timerId s) ?s0 \<or> s' = cpush (CTCancel (cs_timerId s)) ?s0" for s'
  proof -
    have "konn_ok b s'" by (rule konn) (use that in \<open>auto simp: cjobs_def\<close>)
    moreover have "conns_ok s'" by (rule conns_ok_same [OF okD(5)]) (use that in \<open>auto simp: conn_jobs_def cjobs_def\<close>)
    moreover have "loop_ok s'" using that okD(6) by (auto simp: loop_ok_def split: cphase.splits)
    ultimately show ?thesis using that okD by (auto simp: client_ok_def)
  qed
  have st: "cs_step (LStop t) s = Inr (carry t [CConnector KCancelTimer] ?s0, [])"
    using okD(1) by (simp add: owned_def client_stop_def stop_def lift_k_def)
  show ?thesis unfolding st csafe_simps by (rule one) simp
qed

lemma disconnect_safe:
  assumes ok: "client_ok b s"
  shows "csafe b (cs_step (LDisconnect (cs_tid s) env) s)"
proof -
  note okD = client_okD [OF ok]
  let ?s = "s\<lparr>cs_cl := (cs_cl s)\<lparr>cl_connect := False\<rparr>\<rparr>"
  have "konn_ok b ?s" using okD(4) by (simp add: konn_ok_def untried_def cjobs_def)
  moreover have "conns_ok ?s" by (rule conns_ok_same [OF okD(5)]) (simp_all add: conn_jobs_def cjobs_def)
  moreover have "loop_ok ?s" using okD(6) by (simp add: loop_ok_def split: cphase.splits)
  ultimately have ok': "client_ok b ?s" using okD by (simp add: client_ok_def)
  show ?thesis
  proof (cases "connection (cs_cl s)")
    case None
    then show ?thesis using ok' okD(1) by (simp add: owned_def client_disconnect_def)
  next
    case (Some i)
    then show ?thesis using conn_call_safe [OF ok', of i "cs_tid s" CallShutdown env] okD(1)
      by (simp add: owned_def client_disconnect_def)
  qed
qed

lemma cs_step_safe:
  assumes ok: "client_ok b s" and lab: "clab_ok b lab s"
  shows "csafe (unconnected lab b) (cs_step lab s) \<or>
    cshut_then_closed lab s \<and> cs_step lab s = Inl (Assertion ''state_ == kConnected'')"
proof -
  note okD = client_okD [OF ok]
  show ?thesis
  proof (cases lab)
    case (LConnect t env)
    then have "b" "0 \<le> ce_rc env" using lab by simp_all
    then show ?thesis using connect_safe [of s env t] ok LConnect by simp
  next
    case (LDisconnect t env)
    then show ?thesis using disconnect_safe [OF ok, of env] lab by simp
  next
    case (LStop t)
    then show ?thesis using stop_safe [OF ok, of t] by (simp only: unconnected.simps) blast
  next
    case LEnableRetry
    let ?s = "s\<lparr>cs_cl := enableRetry (cs_cl s)\<rparr>"
    have "konn_ok b ?s" using okD(4) by (simp add: konn_ok_def untried_def cjobs_def enableRetry_def)
    moreover have "conns_ok ?s"
      by (rule conns_ok_same [OF okD(5)]) (simp_all add: conn_jobs_def cjobs_def enableRetry_def)
    moreover have "loop_ok ?s" using okD(6) by (simp add: loop_ok_def enableRetry_def split: cphase.splits)
    ultimately show ?thesis using okD LEnableRetry by (simp add: owned_def client_ok_def)
  next
    case (LCall t i call env)
    then show ?thesis using conn_call_safe [OF ok, of i t call env] lab ok by simp
  next
    case (LPoll as)
    show ?thesis
    proof (cases "cs_phase s = CPolling \<and> distinct as \<and> list_all (pollable s) as")
      case True
      have one: "as = [] \<or> (\<exists>a. as = [a] \<and> pollable s a)" using poll_one [OF ok] True by blast
      have "loop_ok (s\<lparr>cs_phase := CHandling as\<rparr>)"
        using okD(6) True one polled_conn [OF ok] by (auto simp: loop_ok_def)
      then have "client_ok b (s\<lparr>cs_phase := CHandling as\<rparr>)"
        by (intro phase_change [OF ok]) (simp_all add: cjobs_def)
      then show ?thesis using LPoll True by simp
    next
      case False
      then have "cs_step lab s = Inr (s, [])" by (simp only: LPoll cs_step.simps if_False)
      then show ?thesis using LPoll ok by simp
    qed
  next
    case (LHandle revt env)
    show ?thesis
    proof (cases "\<exists>a as. cs_phase s = CHandling (a # as)")
      case True
      then obtain a as where a: "cs_phase s = CHandling (a # as)" by blast
      show ?thesis using handle_safe [OF ok a, of revt env] lab LHandle a by simp
    next
      case False
      then have "cs_step lab s = Inr (s, [])" using LHandle by (auto split: cphase.splits list.splits)
      then show ?thesis using ok LHandle by simp
    qed
  next
    case LSwap
    have "client_ok b (s\<lparr>cs_phase := CFunctors, cs_todo := cs_pending s, cs_pending := []\<rparr>)" if "cs_phase s = CHandling []"
      by (rule phase_change [OF ok]) (use okD(6) that in \<open>simp_all add: cjobs_def loop_ok_def\<close>)
    then show ?thesis using LSwap ok by simp
  next
    case (LRun env)
    then show ?thesis using run_ctask_safe [OF ok, of _ _ env] lab ok by (auto simp: ctaken_def split: list.splits)
  next
    case LEnd
    have "client_ok b (s\<lparr>cs_phase := CPolling, cs_done := []\<rparr>)" if "cs_phase s = CFunctors" "cs_todo s = []"
      by (rule phase_change [OF ok]) (use okD(6) that in \<open>simp_all add: cjobs_def loop_ok_def\<close>)
    then show ?thesis using LEnd ok by simp
  next
    case LGrace
    then show ?thesis using ok okD(1) by simp
  qed (use lab in simp_all)
qed

interpretation cl: monitor cs_step client_ok "\<lambda>b s labs. clabs_ok b labs s" unconnected
  "\<lambda>_ f. f \<in> {LengthError, Assertion ''state_ == kConnected''}" "\<lambda>_. True"
proof unfold_locales
  fix b s and lab :: "'u clabel" and labs s' os f
  assume ok: "client_ok b s" "clabs_ok b (lab # labs) s"
  note safe = cs_step_safe [OF ok(1), of lab]
  show "client_ok (unconnected lab b) s' \<and> clabs_ok (unconnected lab b) labs s' \<and> list_all (\<lambda>_. True) os"
    if "cs_step lab s = Inr (s', os)" using safe ok(2) that by (simp add: list_all_iff)
  show "f \<in> {LengthError, Assertion ''state_ == kConnected''}" if "cs_step lab s = Inl f" using safe ok(2) that by auto
qed

lemma clabs_ok_append:
  "run_steps cs_step labs s = Inr (s', es) \<Longrightarrow>
     clabs_ok b (labs @ labs') s \<longleftrightarrow> clabs_ok b labs s \<and> clabs_ok (fold unconnected labs b) labs' s'"
  by (induction labs arbitrary: b s es) auto

lemma cs_run_keeps: "client_ok b s \<Longrightarrow> clabs_ok b labs s \<Longrightarrow> run_steps cs_step labs s = Inr (s', es) \<Longrightarrow>
    client_ok (fold unconnected labs b) s'"
  using cl.run_Inr by blast

text \<open>A run that stops does so at a full vector, or where such an event comes.\<close>

lemma cs_run_stops:
  assumes "client_ok b s" "clabs_ok b labs s" "run_steps cs_step labs s = Inl f"
  shows "f = LengthError \<or> f = Assertion ''state_ == kConnected'' \<and>
    (\<exists>labs1 lab labs2 s1 es. labs = labs1 @ lab # labs2 \<and> run_steps cs_step labs1 s = Inr (s1, es) \<and>
       cshut_then_closed lab s1)"
proof -
  obtain labs1 lab labs2 s1 es where 1: "labs = labs1 @ lab # labs2" "run_steps cs_step labs1 s = Inr (s1, es)"
      "cs_step lab s1 = Inl f"
    using run_steps_Inl [OF assms(3)] by blast
  let ?b = "fold unconnected labs1 b"
  have ok: "clabs_ok b labs1 s" "clab_ok ?b lab s1" using assms(2) clabs_ok_append [OF 1(2), of b "lab # labs2"] 1(1) by simp_all
  from cs_step_safe [OF cs_run_keeps [OF assms(1) ok(1) 1(2)] ok(2)] show ?thesis using 1 by auto
qed

lemma cs_init_ok: "client_ok True (cs_init tid)"
  by (simp add: client_ok_def cs_init_def konn_ok_def conns_ok_def loop_ok_def cjobs_def conn_jobs_def untried_def
      TcpClient_new_def Connector_new_def k_inv_def chan_tidy_def kInitRetryDelayMs_def)

section \<open>What the invariant says\<close>

text \<open>
  What holds in every state: the current connection is still open; all connections but the current one are destroyed or have their destruction queued, once;
  at most one retry timer is armed, only while there is no connection; a channel the connector has given
  up waits for its reset, and is gone when the loop polls.
\<close>

definition client_sound :: "csys \<Rightarrow> bool" where
  "client_sound s \<longleftrightarrow>
     (\<forall>i c. cs_objs s i = Some c \<longrightarrow>
        (if connection (cs_cl s) = Some i then still_open c
         else dead c \<or> closing c \<and> count_list (cjobs s) (CTDestroy i) = 1)) \<and>
     (cs_timers s = [] \<or> connection (cs_cl s) = None \<and> length (cs_timers s) = 1) \<and>
     (\<forall>ch. k_chan (cs_konnector s) = Some ch \<longrightarrow> registered ch = None \<longrightarrow>
        CTReset \<in> set (cjobs s) \<and> cs_phase s \<noteq> CPolling)"

lemma count_filter: "P x \<Longrightarrow> count_list (filter P xs) x = count_list xs x"
  by (induction xs) auto

lemma count_distinct: "distinct xs \<Longrightarrow> x \<in> set xs \<Longrightarrow> count_list xs x = 1"
  by (induction xs) auto

lemma client_ok_sound:
  assumes ok: "client_ok b s"
  shows "client_sound s"
proof -
  note okD = client_okD [OF ok]
  have 1: "if connection (cs_cl s) = Some i then still_open c else dead c \<or> closing c \<and> count_list (cjobs s) (CTDestroy i) = 1"
    if "cs_objs s i = Some c" for i c
  proof -
    have "conn_fine s i c" using that okD(5) by (simp add: conns_ok_def)
    moreover have "count_list (cjobs s) (CTDestroy i) = 1" if "CTDestroy i \<in> set (conn_jobs s)"
      using okD(5) count_distinct [OF _ that] count_filter [of conn_job "CTDestroy i" "cjobs s"]
      by (simp add: conns_ok_def conn_jobs_def)
    ultimately show ?thesis by (auto simp: conn_fine_def split: if_splits)
  qed
  have 2: "cs_timers s = [] \<or> connection (cs_cl s) = None \<and> length (cs_timers s) = 1"
    using okD(4) by (auto simp: konn_ok_def)
  have 3: "CTReset \<in> set (cjobs s) \<and> cs_phase s \<noteq> CPolling"
    if "k_chan (cs_konnector s) = Some ch" "registered ch = None" for ch
  proof -
    have "k_resets (cs_konnector s) = 1"
      using that okD(4) by (auto simp: konn_ok_def k_inv_def registered_def split: if_splits)
    then have "CTReset \<in> set (cjobs s)" using okD(4) count_list_0_iff [of "cjobs s" CTReset] by (simp add: konn_ok_def)
    then show ?thesis using okD(6) by (auto simp: loop_ok_def cjobs_def)
  qed
  show ?thesis unfolding client_sound_def using 1 2 3 by blast
qed

end
