(* ===== verification/ClientProgress.thy ===== *)
theory ClientProgress
  imports ClientSafety
begin

text \<open>
  What a client achieves: a connection attempt that is scheduled is made, however many were refused before,
  and one that succeeds ends in a connection that is up. And what it does not bear: its deletion
  while an attempt is pending, or from another thread while its connection closes.
\<close>

section \<open>A kernel that does nothing by itself\<close>

definition calm :: "int \<Rightarrow> int \<Rightarrow> 'u cenv" where
  "calm fd err = \<lparr>ce_fd = fd, ce_err = err, ce_rc = 0, ce_so_error = 0, ce_self = False, ce_host = ''10.0.0.1:80'',
     ce_rc1 = 0, ce_rc2 = 0, ce_write = WriteFail EWOULDBLOCK, ce_calls = [],
     ce_event = \<lparr>env_read = ReadFail EWOULDBLOCK, env_msg = (\<lambda>b. Inr (b, [])), env_write = WriteFail EWOULDBLOCK,
       env_rcClose = 0, env_rcRead = 0, env_rcWrite = 0\<rparr>\<rparr>"

lemma calm_fields [simp]:
  "ce_fd (calm fd err) = fd" "ce_err (calm fd err) = err" "ce_rc (calm fd err) = 0" "ce_so_error (calm fd err) = 0"
  "\<not> ce_self (calm fd err)" "ce_rc1 (calm fd err) = 0" "ce_calls (calm fd err) = []"
  by (simp_all add: calm_def)

text \<open>A client connects, its connection comes up and is closed by the peer; the next attempt is refused.\<close>

definition demo :: "unit clabel list" where
  "demo = [LEnableRetry, LConnect 2 (calm 5 EINPROGRESS), LPoll [], LSwap, LRun (calm 5 EINPROGRESS), LEnd,
     LPoll [SKonnector], LHandle POLLOUT (calm 5 0), LSwap, LRun (calm 5 0), LEnd,
     LPoll [SConn 1], LHandle POLLHUP (calm 6 ECONNREFUSED), LSwap, LRun (calm 6 0), LEnd]"

lemmas client_evals = calm_def cs_init_def TcpClient_new_def enableRetry_def client_connect_def lift_k_def owned_def konn_def
  connector_do_def connector_event_def client_event_def client_newConnection_def client_removeConnection_def
  close_callback_def cconn_do_def cuse_def calive_def pollable_def registered_def cpush_def arm_timer_def
  cancel_timer_def conn_evals handleClose_def k_restart_def Let_def

lemma client_demo_run:
  "\<exists>s es c. run_steps cs_step demo (cs_init 1) = Inr (s, es) \<and> cs_objs s 1 = Some c \<and> connection (cs_cl s) = None \<and>
     cs_timers s = [1] \<and> cs_timerId s = 1 \<and> cs_phase s = CPolling \<and> cs_pending s = [] \<and> connect_flag (cs_konnector s)"
  by (simp add: demo_def client_evals k_evals poll_bits)

lemma client_demo_ok: "clabs_ok True demo (cs_init 1)"
  by (simp add: demo_def client_evals k_evals poll_bits event_ok_def good_env_def polite_def good_callback_def readv_data_def max_size_def)

section \<open>Safety\<close>





section \<open>Attempts\<close>

lemma startInLoop_refused:
  assumes "k_state k = CDisconnected" "connect_flag k"
    "err \<in> {EAGAIN, EADDRINUSE, EADDRNOTAVAIL, ECONNREFUSED, ENETUNREACH}"
  shows "startInLoop fd err rc k = Inr (k\<lparr>retryDelayMs := min (retryDelayMs k * 2) kMaxRetryDelayMs\<rparr>,
    [KOpen fd, KClose fd, KRunAfter (retryDelayMs k)])"
proof -
  have "err \<notin> {0, EINPROGRESS, EINTR, EISCONN}" using assms(3)
    by (auto simp: EAGAIN_def EADDRINUSE_def EADDRNOTAVAIL_def ECONNREFUSED_def ENETUNREACH_def EINPROGRESS_def EINTR_def EISCONN_def)
  moreover have "k\<lparr>k_state := CDisconnected, retryDelayMs := d\<rparr> = k\<lparr>retryDelayMs := d\<rparr>" for d
    using assms(1) by (cases k) simp
  ultimately show ?thesis using assms by (simp add: startInLoop_def connect_def then_k_def retry_def Let_def)
qed

text \<open>A round of the loop in which the retry timer \<open>q\<close> expires and \<open>connect\<close> leaves \<open>err\<close>.\<close>

definition attempt :: "int \<Rightarrow> int \<Rightarrow> int \<Rightarrow> 'u clabel list" where
  "attempt q fd err = [LPoll [STimer q], LHandle 0 (calm fd err), LSwap, LEnd]"

text \<open>The loop is between two rounds, with nothing to do but the retry timer.\<close>

definition waiting :: "csys \<Rightarrow> bool" where
  "waiting s \<longleftrightarrow> (\<exists>b. client_ok b s) \<and> cs_phase s = CPolling \<and> cs_pending s = [] \<and> cs_timers s \<noteq> [] \<and>
     connect_flag (cs_konnector s)"

lemma waitingD:
  assumes "waiting s"
  shows "client_ok False s" "cs_timers s = [cs_timerId s]" "k_state (cs_konnector s) = CDisconnected"
    "k_chan (cs_konnector s) = None" "connection (cs_cl s) = None" "cs_todo s = []" "cs_phase s = CPolling"
    "cs_pending s = []" "cs_owner s" "cs_konn s" "connect_flag (cs_konnector s)"
proof -
  obtain b where b: "client_ok b s" using assms by (auto simp: waiting_def)
  note okD = client_okD [OF b]
  show t: "cs_timers s = [cs_timerId s]" and st: "k_state (cs_konnector s) = CDisconnected"
    and c: "connection (cs_cl s) = None"
    using okD(4) assms by (auto simp: konn_ok_def waiting_def)
  have "\<not> b" using okD(4) t by (auto simp: konn_ok_def untried_def)
  then show "client_ok False s" using b by simp
  show ph: "cs_todo s = []" "cs_phase s = CPolling" "cs_pending s = []" "cs_owner s" "cs_konn s"
      "connect_flag (cs_konnector s)"
    using okD assms by (auto simp: waiting_def loop_ok_def)
  show "k_chan (cs_konnector s) = None"
    by (rule tidy_no_chan) (use okD(4) ph st in \<open>auto simp: konn_ok_def cjobs_def\<close>)
qed

lemma run_ok:
  assumes "client_ok b s" "clabs_ok b labs s" "run_steps cs_step labs s = Inr (s', es)"
  shows "\<exists>b. client_ok b s'"
  using cs_run_keeps [OF assms(1,2,3)] by blast

lemma attempt_refused:
  assumes w: "waiting s" and err: "err \<in> {EAGAIN, EADDRINUSE, EADDRNOTAVAIL, ECONNREFUSED, ENETUNREACH}"
  shows "\<exists>s'. run_steps cs_step (attempt (cs_timerId s) fd err :: 'u clabel list) s = Inr (s', []) \<and> waiting s' \<and>
    cs_timerId s' = cs_timerId s + 1 \<and> cl_nextConnId (cs_cl s') = cl_nextConnId (cs_cl s)"
proof -
  note W = waitingD [OF w]
  note st = startInLoop_refused [OF W(3,11) err, of fd 0]
  let ?labs = "attempt (cs_timerId s) fd err :: 'u clabel list"
  have poll: "pollable s (STimer (cs_timerId s))" using W(2) by (simp add: pollable_def)
  have run: "\<exists>s'. run_steps cs_step ?labs s = Inr (s', []) \<and> cs_phase s' = CPolling \<and> cs_pending s' = [] \<and> cs_timers s' \<noteq> [] \<and>
      connect_flag (cs_konnector s') \<and> cs_timerId s' = cs_timerId s + 1 \<and> cl_nextConnId (cs_cl s') = cl_nextConnId (cs_cl s)"
    using W poll st by (simp add: attempt_def connector_do_def konn_def lift_k_def)
  have "clabs_ok False ?labs s"
    using W poll st by (simp add: attempt_def connector_do_def konn_def lift_k_def)
  then show ?thesis using run run_ok [OF W(1)] unfolding waiting_def by blast
qed

fun tries :: "int \<Rightarrow> (int \<times> int) list \<Rightarrow> 'u clabel list" where
  "tries q [] = []"
| "tries q ((fd, err) # xs) = attempt q fd err @ tries (q + 1) xs"

lemma tries_refused:
  assumes "\<forall>(fd, err)\<in>set xs. err \<in> {EAGAIN, EADDRINUSE, EADDRNOTAVAIL, ECONNREFUSED, ENETUNREACH}"
  shows "waiting s \<Longrightarrow> \<exists>s'. run_steps cs_step (tries (cs_timerId s) xs :: 'u clabel list) s = Inr (s', []) \<and> waiting s' \<and>
    cs_timerId s' = cs_timerId s + int (length xs) \<and> cl_nextConnId (cs_cl s') = cl_nextConnId (cs_cl s)"
  using assms
proof (induction xs arbitrary: s)
  case (Cons x xs)
  obtain fd err where x: "x = (fd, err)" by (cases x)
  have err: "err \<in> {EAGAIN, EADDRINUSE, EADDRNOTAVAIL, ECONNREFUSED, ENETUNREACH}" using Cons.prems(2) x by simp
  obtain s1 where s1: "run_steps cs_step (attempt (cs_timerId s) fd err :: 'u clabel list) s = Inr (s1, [])" "waiting s1"
      "cs_timerId s1 = cs_timerId s + 1" "cl_nextConnId (cs_cl s1) = cl_nextConnId (cs_cl s)"
    using attempt_refused [OF Cons.prems(1) err] by blast
  obtain s2 where s2: "run_steps cs_step (tries (cs_timerId s + 1) xs :: 'u clabel list) s1 = Inr (s2, [])" "waiting s2"
      "cs_timerId s2 = cs_timerId s + 1 + int (length xs)" "cl_nextConnId (cs_cl s2) = cl_nextConnId (cs_cl s)"
    using Cons.IH [OF s1(2)] Cons.prems(2) s1(3,4) by auto
  show ?case using s1 s2 by (simp add: x run_steps_append)
qed simp

text \<open>An attempt under way whose socket becomes writable.\<close>

lemma k_event_connects:
  assumes "k_chan k = Some ch" "ch_index ch = kAdded" "writeCb ch" "k_state k = CConnecting" "connect_flag k"
  shows "\<exists>k' es. k_step (KEvent POLLOUT 0 0 False) k = Inr (k', es) \<and> handed es = Some (ch_fd ch)"
proof -
  have f: "fired (set_revents POLLOUT ch) = [WriteCb]"
    using assms(3) by (simp add: fired_def set_revents_def poll_bits)
  show ?thesis using assms f
    by (simp add: handleEvent_def k_handleWrite_def removeAndResetChannel_def disableAll_def updateChannel_def update_def
        isNoneEvent_def then_k_def set_revents_def Let_def)
qed

definition pending_attempt :: "csys \<Rightarrow> bool" where
  "pending_attempt s \<longleftrightarrow> (\<exists>b. client_ok b s) \<and> cs_phase s = CPolling \<and> cs_pending s = [] \<and>
     k_state (cs_konnector s) = CConnecting \<and> connect_flag (cs_konnector s)"

lemma attempt_pending:
  assumes w: "waiting s"
  shows "\<exists>s'. run_steps cs_step (attempt (cs_timerId s) fd EINPROGRESS :: 'u clabel list) s = Inr (s', []) \<and>
    pending_attempt s' \<and> cl_nextConnId (cs_cl s') = cl_nextConnId (cs_cl s)"
proof -
  note W = waitingD [OF w]
  let ?k = "cs_konnector s" and ?labs = "attempt (cs_timerId s) fd EINPROGRESS :: 'u clabel list"
  let ?ch = "\<lparr>ch_fd = fd, events = kWriteEvent, revents = 0, ch_index = 1, eventHandling = False, readCb = False,
      writeCb = True, errorCb = True, closeCb = False\<rparr>"
  have st: "startInLoop fd EINPROGRESS 0 ?k =
      Inr (?k\<lparr>k_state := CConnecting, k_chan := Some ?ch\<rparr>, [KOpen fd, KCtl (Ctl EPOLL_CTL_ADD fd kWriteEvent)])"
    using W(3,4,11) by (simp add: startInLoop_def connect_def then_k_def connecting_def enableWriting_def updateChannel_def
        update_def Channel_new_def kNew_def kAdded_def Let_def)
  have poll: "pollable s (STimer (cs_timerId s))" using W(2) by (simp add: pollable_def)
  have run: "\<exists>s'. run_steps cs_step ?labs s = Inr (s', []) \<and> cs_phase s' = CPolling \<and> cs_pending s' = [] \<and>
      k_state (cs_konnector s') = CConnecting \<and> connect_flag (cs_konnector s') \<and> cl_nextConnId (cs_cl s') = cl_nextConnId (cs_cl s)"
    using W poll st by (simp add: attempt_def connector_do_def konn_def lift_k_def)
  have "clabs_ok False ?labs s"
    using W poll st by (simp add: attempt_def connector_do_def konn_def lift_k_def)
  then show ?thesis using run run_ok [OF W(1)] unfolding pending_attempt_def by blast
qed

lemma attempt_succeeds:
  assumes p: "pending_attempt s"
  shows "\<exists>s' es c. run_steps cs_step [LPoll [SKonnector], LHandle POLLOUT (calm fd 0 :: 'u cenv)] s = Inr (s', es) \<and>
    (\<exists>b. client_ok b s') \<and> connection (cs_cl s') = Some (cl_nextConnId (cs_cl s)) \<and>
    cs_objs s' (cl_nextConnId (cs_cl s)) = Some c \<and> up c"
proof -
  obtain b where b: "client_ok b s" using p by (auto simp: pending_attempt_def)
  note okD = client_okD [OF b]
  let ?k = "cs_konnector s" and ?i = "cl_nextConnId (cs_cl s)"
  have P: "cs_phase s = CPolling" "cs_pending s = []" "k_state ?k = CConnecting" "connect_flag ?k"
    using p by (simp_all add: pending_attempt_def)
  have k: "k_inv ?k" "chan_tidy ?k" "k_tid ?k = cs_tid s" using okD(4) by (simp_all add: konn_ok_def)
  then obtain ch where ch: "k_chan ?k = Some ch" "ch_index ch = kAdded" "writeCb ch"
    using P(3) by (auto simp: k_inv_def chan_tidy_def)
  obtain k' es where st: "k_step (KEvent POLLOUT 0 0 False) ?k = Inr (k', es)" and h: "handed es = Some (ch_fd ch)"
    using k_event_connects [OF ch P(3,4)] by blast
  have push: "carry t (map CConnector es) s0 = cpush CTReset s0" for t s0
    using k_event_attempts [OF k(1,2), of POLLOUT 0 0 False] st h by (auto simp: attempts_def)
  let ?cl = "(cs_cl s)\<lparr>cl_connector := k', cl_nextConnId := ?i + 1, connection := Some ?i\<rparr>"
  let ?nm = "client_conn_name ''10.0.0.1:80'' ?i"
  let ?f = "fresh_conn (cs_tid s) ?nm (ch_fd ch)"
  let ?s2 = "cpush CTReset (s\<lparr>cs_phase := CHandling [], cs_cl := ?cl\<rparr>)"
  obtain c' es' where est: "conn_step (Establish 0 []) ?f = Inr (c', es' :: 'u conn_eff list)" "up c'" "links es' = [EConnectionCb True]"
    using establish_fares [OF fresh_fresh_conn [of "cs_tid s" ?nm "ch_fd ch"], of 0 "[] :: 'u conn_call list"]
      establish_quiet [of 0 ?f] by (simp only: fares_def) auto
  have poll: "pollable s SKonnector" using okD(2) ch by (simp add: pollable_def registered_def)
  have alive: "calive ?i (?s2\<lparr>cs_objs := (cs_objs s)(?i \<mapsto> ?f)\<rparr>)" using okD(1) by (simp add: calive_def)
  let ?labs = "[LPoll [SKonnector], LHandle POLLOUT (calm fd 0 :: 'u cenv)]"
  have ev: "connector_event POLLOUT (calm fd 0 :: 'u cenv) (s\<lparr>cs_phase := CHandling []\<rparr>) =
      cconn_do (calm fd 0) ?i (Establish 0 []) (?s2\<lparr>cs_objs := (cs_objs s)(?i \<mapsto> ?f)\<rparr>)"
    using st h push okD(1) by (simp add: connector_event_def client_event_def client_newConnection_def carry_append calm_def Let_def
        del: k_step.simps)
  have cc: "cconn_do (calm fd 0 :: 'u cenv) ?i (Establish 0 []) (?s2\<lparr>cs_objs := (cs_objs s)(?i \<mapsto> ?f)\<rparr>) =
      Inr (?s2\<lparr>cs_objs := (cs_objs s)(?i \<mapsto> c'), cs_user := insert ?i (cs_user s)\<rparr>, map (Pair ?i) es')"
    using alive est creact_links [of "calm fd 0 :: 'u cenv" ?i es'] by (simp add: cconn_do_def cuse_def)
  have run: "run_steps cs_step ?labs s =
      Inr (?s2\<lparr>cs_objs := (cs_objs s)(?i \<mapsto> c'), cs_user := insert ?i (cs_user s)\<rparr>, map (Pair ?i) es')"
    using P poll ev cc okD(2) by (simp add: konn_def)
  have "clabs_ok b ?labs s" using P poll ev cc okD(2) by (simp add: konn_def)
  then show ?thesis using run run_ok [OF b _ run] est(2) by (intro exI conjI [OF run]) auto
qed

section \<open>Reconnection\<close>

text \<open>C17: A client that waits for its retry timer keeps trying. Take any state the client can reach in which its
  loop is idle, a retry timer is armed, and the client was not stopped. However many attempts are refused, with whatever
  of the five errors, each leaves a new timer armed; and the first attempt that the kernel accepts and completes
  gives the client its next connection, up and held by it.\<close>

theorem client_keeps_trying:
  assumes "clabs_ok True labs (cs_init tid)" "run_steps cs_step labs (cs_init tid) = Inr (s, es)"
    and "cs_phase s = CPolling" "cs_pending s = []" "cs_timers s \<noteq> []" "connect_flag (cs_konnector s)"
    and "\<forall>(fd, err)\<in>set refused. err \<in> {EAGAIN, EADDRINUSE, EADDRNOTAVAIL, ECONNREFUSED, ENETUNREACH}"
  shows "\<exists>s' es' c. run_steps cs_step (tries (cs_timerId s) refused @
       attempt (cs_timerId s + int (length refused)) fd EINPROGRESS @
       [LPoll [SKonnector], LHandle POLLOUT (calm fd 0 :: 'u cenv)]) s = Inr (s', es') \<and>
     connection (cs_cl s') = Some (cl_nextConnId (cs_cl s)) \<and> cs_objs s' (cl_nextConnId (cs_cl s)) = Some c \<and> up c \<and>
     client_sound s'"
proof -
  have "waiting s" using run_ok [OF cs_init_ok assms(1,2)] assms(3-6) by (simp add: waiting_def)
  from tries_refused [OF assms(7) this] obtain s1 where s1:
      "run_steps cs_step (tries (cs_timerId s) refused :: 'u clabel list) s = Inr (s1, [])" "waiting s1"
      "cs_timerId s1 = cs_timerId s + int (length refused)" "cl_nextConnId (cs_cl s1) = cl_nextConnId (cs_cl s)" by blast
  from attempt_pending [OF s1(2), of fd, where ?'u = 'u] obtain s2 where s2:
      "run_steps cs_step (attempt (cs_timerId s1) fd EINPROGRESS :: 'u clabel list) s1 = Inr (s2, [])" "pending_attempt s2"
      "cl_nextConnId (cs_cl s2) = cl_nextConnId (cs_cl s)" using s1(4) by auto
  from attempt_succeeds [OF s2(2), of fd, where ?'u = 'u] obtain s3 es3 c where s3:
      "run_steps cs_step [LPoll [SKonnector], LHandle POLLOUT (calm fd 0 :: 'u cenv)] s2 = Inr (s3, es3)"
      "client_sound s3" "connection (cs_cl s3) = Some (cl_nextConnId (cs_cl s))"
      "cs_objs s3 (cl_nextConnId (cs_cl s)) = Some c" "up c"
    using s2(3) client_ok_sound by auto
  show ?thesis using s1(1,3) s2(1) s3 by (auto simp: run_steps_append)
qed

theorem client_keeps_trying_witness:
  "\<exists>s es s' es'. run_steps cs_step demo (cs_init 1) = Inr (s, es) \<and>
     run_steps cs_step (attempt 1 6 ECONNREFUSED @ attempt 2 7 EADDRNOTAVAIL @ attempt 3 8 EINPROGRESS @
       [LPoll [SKonnector], LHandle POLLOUT (calm 8 0 :: unit cenv)]) s = Inr (s', es') \<and> connection (cs_cl s') \<noteq> None"
proof -
  obtain s es where s: "run_steps cs_step demo (cs_init 1) = Inr (s, es)" "cs_timers s = [1]" "cs_timerId s = 1"
      "cs_phase s = CPolling" "cs_pending s = []" "connect_flag (cs_konnector s)"
    using client_demo_run by blast
  have "\<forall>(fd, err)\<in>set [(6, ECONNREFUSED), (7, EADDRNOTAVAIL)].
      err \<in> {EAGAIN, EADDRINUSE, EADDRNOTAVAIL, ECONNREFUSED, ENETUNREACH}" by simp
  from client_keeps_trying [OF client_demo_ok s(1,4,5) _ s(6) this, of 8] s(2,3) show ?thesis
    by (auto simp: s(1))
qed

section \<open>Deleting a client\<close>

text \<open>C37: Deleting a client while it connects aborts the process. From any state the client can reach in which an
  attempt is pending, \<open>~TcpClient\<close> stops the connector and keeps it for one second more. Unless the attempt ends
  within that second, the channel is still there when \<open>~Connector\<close> runs, and its assert fails; if the attempt ends
  and the loop runs the functor that resets the channel, the connector is destroyed and its socket was closed.\<close>

theorem client_delete_while_connecting:
  assumes "clabs_ok True labs (cs_init tid)" "run_steps cs_step labs (cs_init tid) = Inr (s, es)"
    and "k_state (cs_konnector s) = CConnecting" "cs_phase s = CPolling" "cs_pending s = []"
  shows "run_steps cs_step [LDelete t, LGrace :: 'u clabel] s = Inl (Assertion ''!channel_'') \<and>
    (\<exists>s' es'. run_steps cs_step [LDelete (cs_tid s), LPoll [SKonnector], LHandle POLLOUT (calm fd 0 :: 'u cenv), LSwap,
       LRun (calm fd 0), LEnd, LGrace] s = Inr (s', es') \<and> \<not> cs_owner s' \<and> \<not> cs_konn s' \<and> cs_objs s' = cs_objs s)"
proof -
  obtain b where b: "client_ok b s" using run_ok [OF cs_init_ok assms(1,2)] by blast
  note okD = client_okD [OF b]
  let ?k = "cs_konnector s"
  have k: "k_inv ?k" "chan_tidy ?k" "connection (cs_cl s) = None" "cs_timers s = []"
    using okD(4) assms(3) by (auto simp: konn_ok_def)
  then obtain ch where ch: "k_chan ?k = Some ch" "ch_index ch = kAdded" "writeCb ch" "k_resets ?k = 0"
    using assms(3) by (auto simp: k_inv_def chan_tidy_def)
  have f: "fired (set_revents POLLOUT ch) = [WriteCb]"
    using ch(3) by (simp add: fired_def set_revents_def poll_bits)
  note dels = delete_client_def TcpClient_delete_def stop_def lift_k_def owned_def drop_connector_def Connector_delete_def Let_def
  show ?thesis
  proof
    show "run_steps cs_step [LDelete t, LGrace :: 'u clabel] s = Inl (Assertion ''!channel_'')"
      using okD(1,2) k(3) ch(1) by (simp add: dels cancel_timer_def cpush_def)
    show "\<exists>s' es'. run_steps cs_step [LDelete (cs_tid s), LPoll [SKonnector], LHandle POLLOUT (calm fd 0 :: 'u cenv), LSwap,
       LRun (calm fd 0), LEnd, LGrace] s = Inr (s', es') \<and> \<not> cs_owner s' \<and> \<not> cs_konn s' \<and> cs_objs s' = cs_objs s"
      using okD(1,2) k ch f assms(3-5)
      by (simp add: dels pollable_def registered_def konn_def connector_event_def client_event_def handleEvent_def
          k_handleWrite_def removeAndResetChannel_def disableAll_def updateChannel_def update_def isNoneEvent_def
          then_k_def set_revents_def connector_do_def resetChannel_def Channel_delete_def)
  qed
qed

theorem client_delete_while_connecting_witness:
  "\<exists>s es. run_steps cs_step [LConnect 1 (calm 5 EINPROGRESS :: unit cenv)] (cs_init 1) = Inr (s, es) \<and>
     run_steps cs_step [LDelete 2, LGrace :: unit clabel] s = Inl (Assertion ''!channel_'')"
proof -
  let ?labs = "[LConnect 1 (calm 5 EINPROGRESS)] :: unit clabel list"
  obtain s es where s: "run_steps cs_step ?labs (cs_init 1) = Inr (s, es)" "k_state (cs_konnector s) = CConnecting"
      "cs_phase s = CPolling" "cs_pending s = []"
    by (simp add: client_evals k_evals)
  have "clabs_ok True ?labs (cs_init 1)" by (simp add: client_evals k_evals)
  from client_delete_while_connecting [OF this s, of 2] show ?thesis using s(1) by blast
qed

text \<open>Deleting a client in another thread races with its connection. \<open>~TcpClient\<close> only queues the change of the close
  callback; when the connection closes in the round of the loop that is under way, the callback is still
  \<open>TcpClient::removeConnection\<close> of the destroyed client. In the loop thread the deletion is safe: the connection lives
  on with its user, and its close queues its destruction.\<close>

theorem client_delete_elsewhere_dangles:
  assumes "clabs_ok True labs (cs_init tid)" "run_steps cs_step labs (cs_init tid) = Inr (s, es)"
    and "connection (cs_cl s) = Some i" "cs_objs s i = Some c" "cs_phase s = CPolling" "t \<noteq> cs_tid s"
    and "conn_step (Event revt (ce_event env)) c = Inr (c', es1)" "links es1 = [ECloseCb]"
  shows "run_steps cs_step [LDelete t, LPoll [SConn i], LHandle revt (env :: 'u cenv)] s = Inl (BadAccess ''TcpClient'') \<and>
    (\<exists>s' es'. run_steps cs_step [LDelete (cs_tid s), LPoll [SConn i], LHandle revt env] s = Inr (s', es') \<and>
       CTDestroy i \<in> set (cs_pending s'))"
proof -
  obtain b where b: "client_ok b s" using run_ok [OF cs_init_ok assms(1,2)] by blast
  note okD = client_okD [OF b]
  let ?k = "cs_konnector s"
  have cur: "still_open c" "calive i s" "i \<in> cs_user s" using current [OF b assms(3)] assms(4) by auto
  have k: "k_inv ?k" "chan_tidy ?k" "k_state ?k = CConnected" "cs_timers s = []" "count_list (cjobs s) CTReset = k_resets ?k"
    using okD(4) assms(3) by (auto simp: konn_ok_def)
  have loop: "cs_todo s = []" "CTReset \<notin> set (cs_pending s)" using okD(6) assms(5) by (simp_all add: loop_ok_def)
  then have "k_resets ?k = 0" using k(5) by (simp add: cjobs_def)
  then have chan: "k_chan ?k = None" using tidy_no_chan [OF k(1,2)] k(3) by simp
  have reg: "registered (c_chan c) \<noteq> None" using open_index [OF cur(1)] by (simp add: registered_def)
  note dels = delete_client_def TcpClient_delete_def lift_k_def owned_def drop_connector_def Connector_delete_def Let_def
  have links: "creact env i es1 s1 = creact env i [ECloseCb] s1" for s1
    using creact_links [of env i es1] assms(8) by simp
  show ?thesis
  proof
    show "run_steps cs_step [LDelete t, LPoll [SConn i], LHandle revt env] s = Inl (BadAccess ''TcpClient'')"
      using okD(1-3) k(4) chan assms(3-7) cur(3) reg links
      by (simp add: dels pollable_def cconn_do_def cuse_def calive_def close_callback_def)
    show "\<exists>s' es'. run_steps cs_step [LDelete (cs_tid s), LPoll [SConn i], LHandle revt env] s = Inr (s', es') \<and>
       CTDestroy i \<in> set (cs_pending s')"
      using okD(1-3) k(4) chan assms(3-7) cur(3) reg links
      by (simp add: dels pollable_def cconn_do_def cuse_def calive_def close_callback_def)
  qed
qed

theorem client_delete_elsewhere_dangles_witness:
  "\<exists>s es. run_steps cs_step (take 11 demo) (cs_init 1) = Inr (s, es) \<and>
     run_steps cs_step [LDelete 2, LPoll [SConn 1], LHandle POLLHUP (calm 6 0 :: unit cenv)] s = Inl (BadAccess ''TcpClient'')"
proof -
  obtain s es c where s: "run_steps cs_step (take 11 demo) (cs_init 1) = Inr (s, es)" "connection (cs_cl s) = Some 1"
      "cs_objs s 1 = Some c" "cs_phase s = CPolling" "2 \<noteq> cs_tid s" and
      c: "\<exists>c' es1. conn_step (Event POLLHUP (ce_event (calm 6 0))) c = Inr (c', es1 :: unit conn_eff list) \<and> links es1 = [ECloseCb]"
    by (simp add: demo_def client_evals k_evals poll_bits)
  have "clabs_ok True (take 11 demo) (cs_init 1)" by (simp add: demo_def client_evals k_evals poll_bits)
  from client_delete_elsewhere_dangles [OF this s] c show ?thesis using s(1) by blast
qed

end
