(* ===== verification/TimerThreads.thy ===== *)
theory TimerThreads
  imports LoopTimers
begin

text \<open>
  Timers under several threads: the loop thread, which adds, cancels and expires timers, and other threads, whose
  \<open>addTimer\<close> and \<open>cancel\<close> (src/net/TimerQueue.cpp) queue functors for it. An \<open>addTimer\<close> of another
  thread makes the timer, queues its insertion, and reads the sequence number of the timer as a step of its own.
\<close>

section \<open>State\<close>

text \<open>The functors that \<open>addTimer\<close> and \<open>cancel\<close> bind.\<close>

datatype tfunctor = FAdd ptr | FCancel ptr u64

text \<open>
  \<open>tl_todo\<close> are the functors the loop has swapped out, \<open>tl_pending\<close> the others; \<open>tl_ids\<close> the timers whose
  \<open>addTimer\<close> has not made its identifier yet.
\<close>

record tloop =
  tl_q :: timerq
  tl_pending :: "tfunctor list"
  tl_todo :: "tfunctor list"
  tl_ids :: "ptr list"

definition tl_new :: tloop where
  "tl_new = \<lparr>tl_q = TimerQueue_new, tl_pending = [], tl_todo = [], tl_ids = []\<rparr>"

section \<open>Steps\<close>

text \<open>\<open>new Timer(cb, when, interval)\<close>\<close>

definition new_timer :: "(ptr set \<Rightarrow> ptr) \<Rightarrow> datetime \<Rightarrow> u64 \<Rightarrow> bool \<Rightarrow> timerq \<Rightarrow> ptr \<times> timerq" where
  "new_timer alloc when delta rep q =
     (let p = alloc (dom (heap q));
          t = Timer_new when delta rep (numCreated q)
      in (p, q\<lparr>heap := (heap q)(p \<mapsto> t), numCreated := numCreated q + 1\<rparr>))"

definition run_tfunctor :: "datetime \<Rightarrow> tfunctor \<Rightarrow> timerq \<Rightarrow> (timerq \<times> tq_eff list) result" where
  "run_tfunctor now f q = (case f of FAdd p \<Rightarrow> addTimerInLoop now p q | FCancel p seq \<Rightarrow> cancelInLoop p seq q)"

datatype tl_op =
    AddOutside datetime u64 bool | ReadId ptr | CancelOutside ptr u64
  | InLoop tq_op | TakeFunctors | RunFunctor datetime

fun tl_step :: "(ptr set \<Rightarrow> ptr) \<Rightarrow> tl_op \<Rightarrow> tloop \<Rightarrow> (tloop \<times> tq_eff list) result" where
  "tl_step alloc (AddOutside when delta rep) s =
     (let (p, q) = new_timer alloc when delta rep (tl_q s) in
      Inr (s\<lparr>tl_q := q, tl_pending := tl_pending s @ [FAdd p], tl_ids := tl_ids s @ [p]\<rparr>, []))"
| "tl_step alloc (ReadId p) s =
     (if p \<in> set (tl_ids s)
      then bindE (deref p (tl_q s)) (\<lambda>t. Inr (s\<lparr>tl_ids := remove1 p (tl_ids s)\<rparr>, [ETimerId p (sequence t)]))
      else Inr (s, []))"
| "tl_step alloc (CancelOutside p seq) s = Inr (s\<lparr>tl_pending := tl_pending s @ [FCancel p seq]\<rparr>, [])"
| "tl_step alloc (InLoop opn) s = bindE (tq_step alloc opn (tl_q s)) (\<lambda>(q, es). Inr (s\<lparr>tl_q := q\<rparr>, es))"
| "tl_step alloc TakeFunctors s =
     (if tl_todo s = [] then Inr (s\<lparr>tl_todo := tl_pending s, tl_pending := []\<rparr>, []) else Inr (s, []))"
| "tl_step alloc (RunFunctor now) s =
     (case tl_todo s of
        [] \<Rightarrow> Inr (s, [])
      | f # fs \<Rightarrow> bindE (run_tfunctor now f (tl_q s)) (\<lambda>(q, es). Inr (s\<lparr>tl_q := q, tl_todo := fs\<rparr>, es)))"

section \<open>Invariant\<close>

text \<open>The timers on their way: made, but not inserted.\<close>

fun added :: "tfunctor list \<Rightarrow> ptr list" where
  "added [] = []"
| "added (FAdd p # fs) = p # added fs"
| "added (FCancel p seq # fs) = added fs"

lemma added_append [simp]: "added (fs @ gs) = added fs @ added gs"
  by (induction fs rule: added.induct) simp_all

lemma set_added: "p \<in> set (added fs) \<longleftrightarrow> FAdd p \<in> set fs"
  by (induction fs rule: added.induct) auto

definition on_the_way :: "tloop \<Rightarrow> ptr list" where
  "on_the_way s = added (tl_todo s @ tl_pending s)"

definition tl_inv :: "tloop \<Rightarrow> bool" where
  "tl_inv s \<longleftrightarrow> tq_inv_ex (on_the_way s) (tl_q s) \<and> \<not> callingExpiredTimers (tl_q s)"

lemma tl_inv_new: "tl_inv tl_new"
  using new_inv by (simp add: tl_inv_def tl_new_def on_the_way_def tq_inv_def)

text \<open>A timer that is only on the heap is one more on the way.\<close>

lemma new_timer_inv:
  assumes al: "alloc_ok alloc" and inv: "tq_inv_ex ex q" and n: "new_timer alloc when delta rep q = (p, q')"
  shows "tq_inv_ex (ex @ [p]) q' \<and> callingExpiredTimers q' = callingExpiredTimers q \<and> timers q' = timers q"
proof -
  note D = tq_invD [OF inv]
  have p: "p = alloc (dom (heap q))" and q': "heap q' = (heap q)(p \<mapsto>
      \<lparr>expiration = when, interval_us = delta, repeats = rep, sequence = numCreated q\<rparr>)" "timers q' = timers q"
      "activeTimers q' = activeTimers q" "callingExpiredTimers q' = callingExpiredTimers q"
    using n by (auto simp: new_timer_def Let_def)
  have "finite (dom (heap q))" using D(4) by simp
  then have fresh: "p \<notin> dom (heap q)" "p \<noteq> 0" using al p by (simp_all add: alloc_ok_def)
  then have np: "p \<notin> snd ` set (timers q)" "p \<notin> set ex" using D(4) by auto
  have key: "key (heap q') x = key (heap q) x" if "x \<in> snd ` set (timers q)" for x
    using that np(1) q'(1) by (auto simp: key_def)
  show ?thesis unfolding tq_inv_ex_def q'(2-4)
  proof (intro conjI)
    show "sorted (timers q)" by (rule D(1))
    show "distinct (map snd (timers q) @ ex @ [p])" using D(2) np by auto
    show "\<forall>e\<in>set (timers q). entry_ok (heap q') e"
    proof
      fix e assume e: "e \<in> set (timers q)"
      then have "snd e \<in> snd ` set (timers q)" by simp
      then have "snd e \<noteq> p" using np(1) by metis
      then show "entry_ok (heap q') e" using D(3) [OF e] q'(1) by (simp add: entry_ok_def)
    qed
    show "dom (heap q') = set (map snd (timers q) @ ex @ [p])" using D(4) q'(1) by auto
    show "activeTimers q = key (heap q') ` set (map snd (timers q))" using D(5) key by simp
    show "0 \<notin> dom (heap q')" using D(6) fresh q'(1) by auto
  qed simp_all
qed

lemma insert_on_the_way:
  assumes inv: "tq_inv_ex (p # ex) q"
  shows "\<exists>q' es t. addTimerInLoop now p q = Inr (q', es) \<and> tq_inv_ex ex q' \<and> heap q p = Some t \<and> heap q' = heap q \<and>
    callingExpiredTimers q' = callingExpiredTimers q \<and> timers q' = insort (expiration t, p) (timers q) \<and>
    (\<forall>p. ERun p \<notin> set es)"
proof -
  obtain t where t: "heap q p = Some t" using tq_invD(4) [OF inv] by (auto simp: set_eq_iff)
  then have "q = q\<lparr>heap := (heap q)(p \<mapsto> t)\<rparr>" by (cases q) (simp add: fun_upd_idem)
  from insert_timer_inv [of "[]" p ex q, OF _ this] inv t obtain q1 where
      "insert_timer p q = Inr (timers q = [] \<or> expiration t < fst (hd (timers q)), q1)" "tq_inv_ex ex q1"
      "q1 = q\<lparr>timers := insort (expiration t, p) (timers q), activeTimers := insert (p, sequence t) (activeTimers q)\<rparr>"
    by auto
  then show ?thesis using t by (auto simp: addTimerInLoop_def deref_def resetTimerfd_def split: prod.splits)
qed

lemma run_tfunctor_inv:
  assumes inv: "tq_inv_ex (added (f # fs)) q"
  shows "\<exists>q' es. run_tfunctor now f q = Inr (q', es) \<and> tq_inv_ex (added fs) q' \<and>
    callingExpiredTimers q' = callingExpiredTimers q \<and> (\<forall>p. ERun p \<notin> set es)"
proof (cases f)
  case (FAdd p)
  then show ?thesis using insert_on_the_way [of p "added fs" q now] inv by (auto simp: run_tfunctor_def)
next
  case (FCancel p seq)
  then show ?thesis using cancel_inv [of "added fs" q p seq] inv by (auto simp: run_tfunctor_def keeps_def)
qed

lemma tl_step_ok:
  assumes al: "alloc_ok alloc" and inv: "tl_inv s"
  shows "(\<exists>s' es. tl_step alloc opn s = Inr (s', es) \<and> tl_inv s') \<or> tl_step alloc opn s = Inl due_assertion \<or>
    (\<exists>p. opn = ReadId p \<and> tl_step alloc opn s = Inl (BadAccess ''timer''))"
proof -
  have I: "tq_inv_ex (on_the_way s) (tl_q s)" "\<not> callingExpiredTimers (tl_q s)" using inv by (simp_all add: tl_inv_def)
  show ?thesis
  proof (cases opn)
    case (AddOutside w delta rep)
    obtain p q where n: "new_timer alloc w delta rep (tl_q s) = (p, q)" by fastforce
    from new_timer_inv [OF al I(1) n] show ?thesis using AddOutside n I(2) by (simp add: tl_inv_def on_the_way_def)
  next
    case (ReadId p)
    then show ?thesis using inv by (cases "heap (tl_q s) p") (auto simp: deref_def tl_inv_def on_the_way_def)
  next
    case (CancelOutside p seq)
    then show ?thesis using inv by (simp add: tl_inv_def on_the_way_def)
  next
    case (InLoop tqo)
    show ?thesis
    proof (cases tqo)
      case (OpAct a)
      obtain q es where "run_steps (do_tq_act alloc) [a] (tl_q s) = Inr (q, es)" "tq_inv_ex (on_the_way s) q"
          "keeps (on_the_way s) (tl_q s) q"
        using acts_inv [OF al I(1), of "[a]"] by blast
      then show ?thesis using InLoop OpAct I(2) by (auto simp: tl_inv_def on_the_way_def keeps_def)
    next
      case (OpExpire cbs now clock)
      show ?thesis
      proof (cases "now \<in> fst ` set (timers (tl_q s))")
        case True
        then show ?thesis using timer_handleRead_due [OF I(1) True] InLoop OpExpire by (simp add: due_assertion_def)
      next
        case False
        obtain q es where "timer_handleRead alloc cbs now clock (tl_q s) = Inr (q, es)" "tq_inv_ex (on_the_way s) q"
            "\<not> callingExpiredTimers q"
          by (rule timer_handleRead_ex [OF al I False, of cbs clock])
        then show ?thesis using InLoop OpExpire by (simp add: tl_inv_def on_the_way_def)
      qed
    qed
  next
    case TakeFunctors
    then show ?thesis using inv by (cases "tl_todo s = []") (simp_all add: tl_inv_def on_the_way_def)
  next
    case (RunFunctor now)
    show ?thesis
    proof (cases "tl_todo s")
      case Nil
      then show ?thesis using inv RunFunctor by simp
    next
      case (Cons f fs)
      have "tq_inv_ex (added (f # (fs @ tl_pending s))) (tl_q s)" using I(1) Cons by (simp add: on_the_way_def)
      from run_tfunctor_inv [OF this, of now] show ?thesis
        using RunFunctor Cons I(2) by (auto simp: tl_inv_def on_the_way_def)
    qed
  qed
qed

text \<open>The loop and its timers as a monitored machine: only reading a sequence number late adds a fault.\<close>

interpretation th: monitor "tl_step alloc" "\<lambda>_ :: unit. \<lambda>s. alloc_ok alloc \<and> tl_inv s" "\<lambda>_ _ _. True" "\<lambda>_ g. g"
  "\<lambda>e f. f = due_assertion \<or> f = BadAccess ''timer'' \<and> (\<exists>p. e = ReadId p)" "\<lambda>_. True" for alloc
proof unfold_locales
  fix s s' :: tloop and e os f
  assume "alloc_ok alloc \<and> tl_inv s"
  note al = this [THEN conjunct1] and safe = tl_step_ok [OF this [THEN conjunct1] this [THEN conjunct2], of e]
  show "(alloc_ok alloc \<and> tl_inv s') \<and> True \<and> list_all (\<lambda>_. True) os" if "tl_step alloc e s = Inr (s', os)"
    using safe al that by (auto simp: list_all_iff)
  show "f = due_assertion \<or> f = BadAccess ''timer'' \<and> (\<exists>p. e = ReadId p)" if "tl_step alloc e s = Inl f"
    using safe that by auto
qed

lemma tl_reached:
  assumes "alloc_ok alloc" "run_steps (tl_step alloc) ops tl_new = Inr (s, es)"
  shows "tl_inv s"
  using th.run_Inr [OF _ TrueI assms(2)] assms(1) tl_inv_new by simp

section \<open>Safety\<close>

text \<open>C13: Timers are safe across threads, up to two faults and a leak. In any interleaving of the loop thread with threads
  that add and cancel timers, the only faults are the assert of \<open>getExpired\<close> and the use of a deleted timer by an
  \<open>addTimer\<close> that reads its sequence number late. The live timers are always exactly those in the queue and those
  whose insertion is still queued as a functor; the destructor deletes the former, each once, and
  leaks the latter.\<close>

theorem timers_across_threads:
  assumes "alloc_ok alloc"
  shows "case run_steps (tl_step alloc) ops tl_new of
      Inl f \<Rightarrow> f = due_assertion \<or> f = BadAccess ''timer'' \<and> (\<exists>p. ReadId p \<in> set ops)
    | Inr (s, es) \<Rightarrow>
        dom (heap (tl_q s)) = snd ` set (timers (tl_q s)) \<union> {p. FAdd p \<in> set (tl_todo s @ tl_pending s)} \<and>
        (\<exists>q'. TimerQueue_destroy (tl_q s) = Inr q' \<and> dom (heap q') = {p. FAdd p \<in> set (tl_todo s @ tl_pending s)})"
proof -
  have "dom (heap (tl_q s)) = snd ` set (timers (tl_q s)) \<union> {p. FAdd p \<in> set (tl_todo s @ tl_pending s)} \<and>
      (\<exists>q'. TimerQueue_destroy (tl_q s) = Inr q' \<and> dom (heap q') = {p. FAdd p \<in> set (tl_todo s @ tl_pending s)})"
    if "tl_inv s" for s
  proof -
    have inv: "tq_inv_ex (on_the_way s) (tl_q s)" using that by (simp add: tl_inv_def)
    note D = tq_invD [OF inv]
    have way: "set (on_the_way s) = {p. FAdd p \<in> set (tl_todo s @ tl_pending s)}"
      unfolding on_the_way_def using set_added by blast
    obtain q' where "delete_entries (timers (tl_q s)) (tl_q s) = Inr q'"
        "dom (heap q') = dom (heap (tl_q s)) - snd ` set (timers (tl_q s))"
      using delete_entries_all [of "timers (tl_q s)" "tl_q s"] D(2,4) by auto
    moreover have "snd ` set (timers (tl_q s)) \<inter> set (on_the_way s) = {}" using D(2) by auto
    ultimately show ?thesis using D(4) way by (auto simp: TimerQueue_destroy_def)
  qed
  note reached = this [OF tl_reached [OF assms]]
  show ?thesis
  proof (cases "run_steps (tl_step alloc) ops tl_new")
    case (Inl f)
    then show ?thesis using th.run_Inl [OF _ TrueI Inl] assms tl_inv_new by auto
  next
    case (Inr p)
    then show ?thesis using reached by (cases p) simp
  qed
qed

theorem timers_across_threads_witness:
  "\<exists>s es q'. run_steps (tl_step next_alloc)
      [AddOutside 150 0 False, TakeFunctors, RunFunctor 101, ReadId 1, AddOutside 170 0 False] tl_new = Inr (s, es) \<and>
     TimerQueue_destroy (tl_q s) = Inr q' \<and> dom (heap q') = {2}"
proof -
  let ?ops = "[AddOutside 150 0 False, TakeFunctors, RunFunctor 101, ReadId 1, AddOutside 170 0 False]"
  obtain s es where s: "run_steps (tl_step next_alloc) ?ops tl_new = Inr (s, es)" "tl_todo s = []" "tl_pending s = [FAdd 2]"
    by (simp add: tl_new_def new_timer_def TimerQueue_new_def next_alloc_def run_tfunctor_def addTimerInLoop_def
        insert_timer_def assert_sizes_def deref_def Let_def resetTimerfd_def howMuchTimeFromNow_def assertE_def
        insort_insert_key_def)
  have "\<exists>q'. TimerQueue_destroy (tl_q s) = Inr q' \<and> dom (heap q') = {p. FAdd p \<in> set (tl_todo s @ tl_pending s)}"
    using timers_across_threads [OF next_alloc_ok, of ?ops] unfolding s(1) by simp
  then show ?thesis unfolding s(2,3) using s(1) by (simp only: append_Nil list.set) blast
qed

section \<open>Timers from other threads run\<close>

text \<open>When the timers in the queue and those on the way are due.\<close>

definition upcoming :: "ptr list \<Rightarrow> timerq \<Rightarrow> (datetime \<times> ptr) set" where
  "upcoming ex q = set (timers q) \<union> (\<lambda>p. (expiration (the (heap q p)), p)) ` set ex"

lemma run_tfunctor_upcoming:
  assumes inv: "tq_inv_ex (added (f # fs)) q" and run: "run_tfunctor now f q = Inr (q', es)"
  shows "upcoming (added fs) q' \<subseteq> upcoming (added (f # fs)) q"
    "x \<in> upcoming (added (f # fs)) q \<Longrightarrow> \<forall>seq. f \<noteq> FCancel (snd x) seq \<Longrightarrow> x \<in> upcoming (added fs) q'"
proof -
  have both: "upcoming (added fs) q' \<subseteq> upcoming (added (f # fs)) q \<and>
      (\<forall>x. x \<in> upcoming (added (f # fs)) q \<longrightarrow> (\<forall>seq. f \<noteq> FCancel (snd x) seq) \<longrightarrow> x \<in> upcoming (added fs) q')"
  proof (cases f)
    case (FAdd p)
    then show ?thesis using insert_on_the_way [of p "added fs" q now] inv run
      by (auto simp: run_tfunctor_def upcoming_def set_insort_key)
  next
    case (FCancel p seq)
    obtain q1 where q1: "cancelInLoop p seq q = Inr (q1, [])" "keeps (added fs) q q1"
        "set (timers q1) = {e \<in> set (timers q). \<not> (snd e = p \<and> key (heap q) p = (p, seq))}"
      using cancel_inv [of "added fs" q p seq] inv FCancel by auto
    have "(\<lambda>p. (expiration (the (heap q1 p)), p)) ` set (added fs) = (\<lambda>p. (expiration (the (heap q p)), p)) ` set (added fs)"
      using q1(2) by (auto simp: keeps_def intro!: image_cong)
    then show ?thesis using q1 FCancel run by (auto simp: run_tfunctor_def upcoming_def)
  qed
  show "upcoming (added fs) q' \<subseteq> upcoming (added (f # fs)) q"
    "x \<in> upcoming (added (f # fs)) q \<Longrightarrow> \<forall>seq. f \<noteq> FCancel (snd x) seq \<Longrightarrow> x \<in> upcoming (added fs) q'"
    using both by blast+
qed

abbreviation tl_upcoming :: "tloop \<Rightarrow> (datetime \<times> ptr) set" where
  "tl_upcoming s \<equiv> upcoming (on_the_way s) (tl_q s)"

lemma run_functors:
  "tl_inv s \<Longrightarrow> x \<in> tl_upcoming s \<Longrightarrow> (\<forall>seq. FCancel (snd x) seq \<notin> set (tl_todo s)) \<Longrightarrow>
   \<exists>s' es. run_steps (tl_step alloc) (replicate (length (tl_todo s)) (RunFunctor t2)) s = Inr (s', es) \<and> tl_inv s' \<and>
     tl_todo s' = [] \<and> tl_pending s' = tl_pending s \<and> x \<in> tl_upcoming s' \<and> tl_upcoming s' \<subseteq> tl_upcoming s \<and>
     (\<forall>p. ERun p \<notin> set es)"
proof (induction "tl_todo s" arbitrary: s)
  case (Cons f fs)
  have todo: "tl_todo s = f # fs" using Cons.hyps(2) by simp
  have inv: "tq_inv_ex (added (f # (fs @ tl_pending s))) (tl_q s)"
    using Cons.prems(1) by (simp add: tl_inv_def on_the_way_def todo)
  obtain q es1 where q: "run_tfunctor t2 f (tl_q s) = Inr (q, es1)" "tq_inv_ex (added (fs @ tl_pending s)) q"
      "callingExpiredTimers q = callingExpiredTimers (tl_q s)" "\<forall>p. ERun p \<notin> set es1"
    using run_tfunctor_inv [OF inv, of t2] by blast
  let ?s1 = "s\<lparr>tl_q := q, tl_todo := fs\<rparr>"
  have way: "on_the_way ?s1 = added (fs @ tl_pending s)" "on_the_way s = added (f # (fs @ tl_pending s))"
    by (simp_all add: on_the_way_def todo)
  have s1: "tl_step alloc (RunFunctor t2) s = Inr (?s1, es1)" "tl_inv ?s1"
    using q Cons.prems(1) by (simp_all add: todo tl_inv_def way(1) del: added_append)
  have up: "tl_upcoming ?s1 \<subseteq> tl_upcoming s" "x \<in> tl_upcoming ?s1"
    using run_tfunctor_upcoming(1) [OF inv q(1)] run_tfunctor_upcoming(2) [OF inv q(1), of x] Cons.prems(2,3)
    by (auto simp: way todo simp del: added_append)
  have "\<exists>s' es. run_steps (tl_step alloc) (replicate (length (tl_todo ?s1)) (RunFunctor t2)) ?s1 = Inr (s', es) \<and> tl_inv s' \<and>
     tl_todo s' = [] \<and> tl_pending s' = tl_pending ?s1 \<and> x \<in> tl_upcoming s' \<and> tl_upcoming s' \<subseteq> tl_upcoming ?s1 \<and>
     (\<forall>p. ERun p \<notin> set es)"
    by (rule Cons.hyps(1)) (use s1(2) up(2) Cons.prems(3) todo in auto)
  then obtain s' es where "run_steps (tl_step alloc) (replicate (length fs) (RunFunctor t2)) ?s1 = Inr (s', es)" "tl_inv s'"
     "tl_todo s' = []" "tl_pending s' = tl_pending s" "x \<in> tl_upcoming s'" "tl_upcoming s' \<subseteq> tl_upcoming ?s1" "\<forall>p. ERun p \<notin> set es" by auto
  then show ?case using s1(1) up(1) q(4) by (intro exI [of _ s'] exI [of _ "es1 @ es"]) (auto simp: todo simp del: tl_step.simps)
qed simp

text \<open>The rest of a round and the functors of the next one, then an expiration.\<close>

definition next_rounds :: "tloop \<Rightarrow> datetime \<Rightarrow> (ptr \<Rightarrow> tq_act list) \<Rightarrow> datetime \<Rightarrow> datetime \<Rightarrow> tl_op list" where
  "next_rounds s t2 cbs now clock =
     replicate (length (tl_todo s)) (RunFunctor t2) @ [TakeFunctors] @
     replicate (length (tl_pending s)) (RunFunctor t2) @ [InLoop (OpExpire cbs now clock)]"

lemma upcoming_runs:
  assumes al: "alloc_ok alloc" and inv: "tl_inv s" and x: "(d, p) \<in> tl_upcoming s" "d < now"
    and nc: "\<forall>seq. FCancel p seq \<notin> set (tl_todo s @ tl_pending s)" and nd: "now \<notin> fst ` tl_upcoming s"
  shows "\<exists>s' es. run_steps (tl_step alloc) (next_rounds s t2 cbs now clock) s = Inr (s', es) \<and>
    filter (\<lambda>e. e = ERun p) es = [ERun p]"
proof -
  obtain s1 es1 where 1: "run_steps (tl_step alloc) (replicate (length (tl_todo s)) (RunFunctor t2)) s = Inr (s1, es1)"
      "tl_inv s1" "tl_todo s1 = []" "tl_pending s1 = tl_pending s" "(d, p) \<in> tl_upcoming s1"
      "tl_upcoming s1 \<subseteq> tl_upcoming s" "\<forall>p. ERun p \<notin> set es1"
    using run_functors [OF inv x(1), of alloc t2] nc by auto
  let ?s2 = "s1\<lparr>tl_todo := tl_pending s1, tl_pending := []\<rparr>"
  have way: "on_the_way ?s2 = on_the_way s1" using 1(3) by (simp add: on_the_way_def)
  have 2: "tl_inv ?s2" "(d, p) \<in> tl_upcoming ?s2" using 1(2,5) by (simp_all add: tl_inv_def way)
  obtain s3 es3 where 3: "run_steps (tl_step alloc) (replicate (length (tl_pending s)) (RunFunctor t2)) ?s2 = Inr (s3, es3)"
      "tl_inv s3" "tl_todo s3 = []" "tl_pending s3 = []" "(d, p) \<in> tl_upcoming s3"
      "tl_upcoming s3 \<subseteq> tl_upcoming ?s2" "\<forall>p. ERun p \<notin> set es3"
    using run_functors [OF 2, of alloc t2] nc 1(4) by auto
  have up: "tl_upcoming s3 = set (timers (tl_q s3))" by (simp add: upcoming_def on_the_way_def 3(3,4))
  have inv3: "tq_inv (tl_q s3)" using 3(2-4) by (simp add: tl_inv_def tq_inv_def on_the_way_def)
  have "tl_upcoming ?s2 = tl_upcoming s1" by (simp add: way)
  then have nd3: "now \<notin> fst ` set (timers (tl_q s3))" using nd 1(6) 3(6) up by blast
  let ?ex = "filter (\<lambda>e. fst e < now) (timers (tl_q s3))"
  obtain q es4 where 4: "timer_handleRead alloc cbs now clock (tl_q s3) = Inr (q, es4)"
      "filter (\<lambda>e. \<exists>p. e = ERun p) es4 = map (ERun \<circ> snd) ?ex"
    by (rule timer_handleRead_ok [OF al inv3 nd3, of cbs clock]) blast
  have mem: "(d, p) \<in> set ?ex" using 3(5) up x(2) by simp
  have dist: "distinct (map snd (timers (tl_q s3)))" using inv3 tq_invD(2) [of "[]"] by (simp add: tq_inv_def)
  have "filter (\<lambda>e. e = ERun p) es4 = filter (\<lambda>e. e = ERun p) (filter (\<lambda>e. \<exists>p. e = ERun p) es4)"
    by (auto simp: filter_filter intro!: filter_cong)
  also have "\<dots> = map (ERun \<circ> snd) (filter (\<lambda>e. snd e = p) ?ex)" by (simp add: 4(2) filter_map o_def)
  also have "filter (\<lambda>e. snd e = p) ?ex = [(d, p)]"
    by (rule filter_one) (use dist mem in \<open>simp_all add: distinct_map_filter\<close>)
  finally have runs: "filter (\<lambda>e. e = ERun p) es4 = [ERun p]" by simp
  have none: "filter (\<lambda>e. e = ERun p) es1 = []" "filter (\<lambda>e. e = ERun p) es3 = []"
    using 1(7) 3(7) by (auto simp: filter_empty_conv)
  have "tl_step alloc TakeFunctors s1 = Inr (?s2, [])" using 1(3) by simp
  then have "run_steps (tl_step alloc) (next_rounds s t2 cbs now clock) s = Inr (s3\<lparr>tl_q := q\<rparr>, es1 @ es3 @ es4)"
    unfolding next_rounds_def run_steps_append using 1(1) 3(1) 4(1) by simp
  then show ?thesis using runs none by auto
qed

text \<open>C18: A timer added from another thread runs, even if the loop cancels it too early. Take any reachable state in which the
  insertion of a timer is still queued. Once the loop has run the functors that are queued, an expiration handled
  after the time of the timer runs it, exactly once, unless another thread has queued its cancellation. A cancellation in
  the loop thread in the meantime finds no such timer and changes nothing.\<close>

theorem outside_timer_runs:
  assumes "alloc_ok alloc" "run_steps (tl_step alloc) ops tl_new = Inr (s, es)"
    and "FAdd p \<in> set (tl_todo s @ tl_pending s)" "\<forall>seq. FCancel p seq \<notin> set (tl_todo s @ tl_pending s)"
    and "expiration (the (heap (tl_q s) p)) < now" "\<forall>t\<in>ran (heap (tl_q s)). expiration t \<noteq> now"
  shows "\<exists>s' es'. run_steps (tl_step alloc) (next_rounds s t2 cbs now clock) s = Inr (s', es') \<and>
    run_steps (tl_step alloc) (InLoop (OpAct (ActCancel p seq)) # next_rounds s t2 cbs now clock) s = Inr (s', es') \<and>
    filter (\<lambda>e. e = ERun p) es' = [ERun p]"
proof -
  have inv: "tl_inv s" by (rule tl_reached [OF assms(1,2)])
  then have I: "tq_inv_ex (on_the_way s) (tl_q s)" "\<not> callingExpiredTimers (tl_q s)" by (simp_all add: tl_inv_def)
  note D = tq_invD [OF I(1)]
  have way: "p \<in> set (on_the_way s)" using assms(3) by (simp add: on_the_way_def set_added)
  let ?d = "expiration (the (heap (tl_q s) p))"
  have up: "(?d, p) \<in> tl_upcoming s" using way by (auto simp: upcoming_def)
  have nd: "now \<notin> fst ` tl_upcoming s"
  proof
    assume "now \<in> fst ` tl_upcoming s"
    then obtain x where x: "x \<in> tl_upcoming s" "fst x = now" by blast
    have "\<exists>t. heap (tl_q s) (snd x) = Some t \<and> expiration t = fst x"
    proof (cases "x \<in> set (timers (tl_q s))")
      case True
      then show ?thesis using D(3) by (simp add: entry_ok_def)
    next
      case False
      then obtain p' where "x = (expiration (the (heap (tl_q s) p')), p')" "p' \<in> set (on_the_way s)"
        using x(1) by (auto simp: upcoming_def)
      moreover have "p' \<in> dom (heap (tl_q s))" using D(4) calculation(2) by simp
      ultimately show ?thesis by auto
    qed
    then show False using assms(6) x(2) by (auto simp: ran_def)
  qed
  obtain s' es' where run: "run_steps (tl_step alloc) (next_rounds s t2 cbs now clock) s = Inr (s', es')"
      "filter (\<lambda>e. e = ERun p) es' = [ERun p]"
    using upcoming_runs [OF assms(1) inv up assms(5,4) nd] by blast
  have np: "(p, seq) \<notin> activeTimers (tl_q s)"
  proof
    assume "(p, seq) \<in> activeTimers (tl_q s)"
    then have "p \<in> snd ` set (timers (tl_q s))" unfolding D(5) by (auto simp: key_def)
    then show False using D(2) way by auto
  qed
  have "cancelInLoop p seq (tl_q s) = Inr (tl_q s, [])"
    using np I(2) by (simp add: cancelInLoop_def Let_def inv_sizes [OF I(1)])
  then have "tl_step alloc (InLoop (OpAct (ActCancel p seq))) s = Inr (s, [])" by simp
  then show ?thesis using run by (simp del: tl_step.simps)
qed

theorem outside_timer_runs_witness:
  "\<exists>s es s' es'. run_steps (tl_step next_alloc) [AddOutside 150 0 False, ReadId 1] tl_new = Inr (s, es) \<and>
     run_steps (tl_step next_alloc) (InLoop (OpAct (ActCancel 1 0)) # next_rounds s 101 (\<lambda>p. []) 160 161) s = Inr (s', es') \<and>
     filter (\<lambda>e. e = ERun 1) es' = [ERun 1]"
proof -
  let ?ops = "[AddOutside 150 0 False, ReadId 1]"
  obtain s es where s: "run_steps (tl_step next_alloc) ?ops tl_new = Inr (s, es)" "tl_todo s = []" "tl_pending s = [FAdd 1]"
      "heap (tl_q s) = [1 \<mapsto> \<lparr>expiration = 150, interval_us = 0, repeats = False, sequence = 0\<rparr>]"
    by (simp add: tl_new_def new_timer_def TimerQueue_new_def next_alloc_def deref_def Let_def)
  have "FAdd 1 \<in> set (tl_todo s @ tl_pending s)" "\<forall>seq. FCancel 1 seq \<notin> set (tl_todo s @ tl_pending s)"
    "expiration (the (heap (tl_q s) 1)) < 160" "\<forall>t\<in>ran (heap (tl_q s)). expiration t \<noteq> 160"
    unfolding s(2-4) by simp_all
  from outside_timer_runs [OF next_alloc_ok s(1) this, of 101 "\<lambda>p. []" 161 0] show ?thesis
    using s(1) by blast
qed

end
