(* ===== verification/LogPipeline.thy ===== *)
theory LogPipeline
  imports AsyncLogging LogFile
begin

text \<open>
  From an appended line to the disk: the logging thread of \<open>AsyncLogging\<close> (src/asynlog/AsyncLogging.cpp)
  owns a \<open>LogFile\<close> (src/asynlog/LogFile.cpp), which owns an \<open>AppendFile\<close> (src/asynlog/AppendFile.cpp)
  with its stdio stream. A stream holds bytes back until it is flushed or closed; the real one may hand
  them on earlier.
\<close>

section \<open>Streams\<close>

text \<open>What the file holds, and what the stream holds back.\<close>

type_synonym stdio_stream = "string \<times> string"

text \<open>\<open>fp\<close> tells whether \<open>fopen\<close> succeeds.\<close>

definition AppendFile_construct :: "bool \<Rightarrow> stdio_stream result" where
  "AppendFile_construct fp = assertE ''fp_'' fp (Inr ([], []))"

definition AppendFile_destroy :: "stdio_stream \<Rightarrow> string" where
  "AppendFile_destroy f = fst f @ snd f"

definition AppendFile_write :: "string \<Rightarrow> stdio_stream \<Rightarrow> stdio_stream" where
  "AppendFile_write bytes f = (fst f, snd f @ bytes)"

definition AppendFile_flush :: "stdio_stream \<Rightarrow> stdio_stream" where
  "AppendFile_flush f = (fst f @ snd f, [])"

text \<open>The files that were closed, in order, and the stream of the \<open>AppendFile\<close> in use.\<close>

record stdio =
  st_closed :: "string list"
  st_file :: "stdio_stream option"

definition with_file :: "stdio \<Rightarrow> (stdio_stream \<Rightarrow> stdio_stream) \<Rightarrow> stdio result" where
  "with_file s f = (case st_file s of
     None \<Rightarrow> Inl (BadAccess ''file_'') | Some x \<Rightarrow> Inr (s\<lparr>st_file := Some (f x)\<rparr>))"

definition close_file :: "stdio \<Rightarrow> stdio" where
  "close_file s = (case st_file s of
     None \<Rightarrow> s | Some x \<Rightarrow> s\<lparr>st_closed := st_closed s @ [AppendFile_destroy x], st_file := None\<rparr>)"

text \<open>\<open>file_.reset(new AppendFile(...))\<close> opens the new file and then closes the old one.\<close>

fun stdio_step :: "(int \<Rightarrow> bool) \<Rightarrow> f_eff \<Rightarrow> stdio \<Rightarrow> stdio result" where
  "stdio_step fopen (FOpen t) s =
     bindE (AppendFile_construct (fopen t)) (\<lambda>f. Inr ((close_file s)\<lparr>st_file := Some f\<rparr>))"
| "stdio_step fopen (FWrite bytes) s = with_file s (AppendFile_write bytes)"
| "stdio_step fopen FFlush s = with_file s AppendFile_flush"

fun stdio_run :: "(int \<Rightarrow> bool) \<Rightarrow> f_eff list \<Rightarrow> stdio \<Rightarrow> stdio result" where
  "stdio_run fopen [] s = Inr s"
| "stdio_run fopen (e # es) s = bindE (stdio_step fopen e s) (stdio_run fopen es)"

section \<open>The logging thread and its files\<close>

text \<open>The logging thread makes its \<open>LogFile\<close> without a lock, as the only thread that uses it.\<close>

definition LogFile_append ::
  "(nat \<times> bool) list \<Rightarrow> string \<Rightarrow> int \<Rightarrow> logfile \<Rightarrow> (logfile \<times> f_eff list) option" where
  "LogFile_append outcomes logline now s = append_unlocked outcomes logline now s"

definition LogFile_flush :: "f_eff list" where
  "LogFile_flush = [FFlush]"

record pipeline =
  pi_log :: alog
  pi_file :: logfile
  pi_io :: stdio

definition pipeline_start :: "(int \<Rightarrow> bool) \<Rightarrow> int \<Rightarrow> int \<Rightarrow> pipeline result" where
  "pipeline_start fopen roll now =
     (let (lf, es) = LogFile_new roll 3 1024 now in
      bindE (stdio_run fopen es \<lparr>st_closed = [], st_file = None\<rparr>) (\<lambda>io.
      Inr \<lparr>pi_log = AsyncLogging_start, pi_file = lf, pi_io = io\<rparr>))"

text \<open>The environment of the buffers to write: the outcomes of \<open>fwrite\<close> and the clock at each append.\<close>

fun write_buffers ::
  "(nat \<Rightarrow> (nat \<times> bool) list \<times> int) \<Rightarrow> string list \<Rightarrow> logfile \<Rightarrow> (logfile \<times> f_eff list) option" where
  "write_buffers env [] lf = Some (lf, [])"
| "write_buffers env (b # bs) lf =
     (case LogFile_append (fst (env 0)) b (snd (env 0)) lf of
        None \<Rightarrow> None
      | Some (lf1, es1) \<Rightarrow>
          (case write_buffers (\<lambda>i. env (Suc i)) bs lf1 of
             None \<Rightarrow> None
           | Some (lf2, es2) \<Rightarrow> Some (lf2, es1 @ es2)))"

text \<open>
  A step of the logging thread: it tests its loop, takes the buffers, writes them, or recycles them and flushes; when it
  leaves its loop the \<open>LogFile\<close> is destroyed. As long as \<open>fwrite\<close> does not come to an end there is no step.
\<close>

definition pipeline_thread ::
  "(int \<Rightarrow> bool) \<Rightarrow> (nat \<Rightarrow> (nat \<times> bool) list \<times> int) \<Rightarrow> pipeline \<Rightarrow> pipeline result" where
  "pipeline_thread fopen env s =
     (case al_phase (pi_log s) of
        AWriting \<Rightarrow>
          (case write_buffers env (buffersToWrite (pi_log s)) (pi_file s) of
             None \<Rightarrow> Inr s
           | Some (lf, es) \<Rightarrow>
               bindE (stdio_run fopen es (pi_io s)) (\<lambda>io.
               bindE (al_write (pi_log s)) (\<lambda>l. Inr \<lparr>pi_log = l, pi_file = lf, pi_io = io\<rparr>)))
      | ARecycling \<Rightarrow>
          bindE (al_recycle (pi_log s)) (\<lambda>l.
          bindE (stdio_run fopen LogFile_flush (pi_io s)) (\<lambda>io. Inr (s\<lparr>pi_log := l, pi_io := io\<rparr>)))
      | ATesting \<Rightarrow>
          (let l = al_test (pi_log s) in
           Inr (s\<lparr>pi_log := l, pi_io := (if al_phase l = AExited then close_file (pi_io s) else pi_io s)\<rparr>))
      | ATaking \<Rightarrow> bindE (al_take (pi_log s)) (\<lambda>l. Inr (s\<lparr>pi_log := l\<rparr>))
      | AExited \<Rightarrow> Inr s)"

datatype pi_op = PAppend string | PThread "nat \<Rightarrow> (nat \<times> bool) list \<times> int" | PStop

fun pi_step :: "(int \<Rightarrow> bool) \<Rightarrow> nat \<Rightarrow> pi_op \<Rightarrow> pipeline \<Rightarrow> (pipeline \<times> unit list) result" where
  "pi_step fopen cap (PAppend line) s = bindE (al_append cap line (pi_log s)) (\<lambda>l. Inr (s\<lparr>pi_log := l\<rparr>, []))"
| "pi_step fopen cap (PThread env) s = bindE (pipeline_thread fopen env s) (\<lambda>s'. Inr (s', []))"
| "pi_step fopen cap PStop s = Inr (s\<lparr>pi_log := al_stop (pi_log s)\<rparr>, [])"

text \<open>The lines appended.\<close>

fun pi_lines :: "nat \<Rightarrow> pi_op list \<Rightarrow> string" where
  "pi_lines cap [] = []"
| "pi_lines cap (PAppend line # ops) = (if length line < cap then line else []) @ pi_lines cap ops"
| "pi_lines cap (_ # ops) = pi_lines cap ops"

text \<open>Steps at which \<open>fwrite\<close> takes every buffer it is given, in any number of parts.\<close>

fun env_ok :: "(nat \<Rightarrow> (nat \<times> bool) list \<times> int) \<Rightarrow> string list \<Rightarrow> bool" where
  "env_ok env [] \<longleftrightarrow> True"
| "env_ok env (b # bs) \<longleftrightarrow> good_outcomes (fst (env 0)) (length b) \<and> env_ok (\<lambda>i. env (Suc i)) bs"

fun ops_ok :: "(int \<Rightarrow> bool) \<Rightarrow> nat \<Rightarrow> pi_op list \<Rightarrow> pipeline \<Rightarrow> bool" where
  "ops_ok fopen cap [] s \<longleftrightarrow> True"
| "ops_ok fopen cap (e # ops) s \<longleftrightarrow>
     (case e of PThread env \<Rightarrow> al_phase (pi_log s) = AWriting \<longrightarrow> env_ok env (buffersToWrite (pi_log s)) | _ \<Rightarrow> True) \<and>
     (case pi_step fopen cap e s of Inl f \<Rightarrow> True | Inr (s', os) \<Rightarrow> ops_ok fopen cap ops s')"

section \<open>Streams and files\<close>

definition file_texts :: "stdio \<Rightarrow> string list" where
  "file_texts s = st_closed s @ (case st_file s of None \<Rightarrow> [] | Some f \<Rightarrow> [fst f @ snd f])"

lemma close_file_texts [simp]: "file_texts (close_file s) = file_texts s" "st_file (close_file s) = None"
  by (auto simp: file_texts_def close_file_def AppendFile_destroy_def split: option.splits)

text \<open>A run of effects on an open stream never faults and leaves what \<open>files\<close> says.\<close>

lemma stdio_run_files:
  assumes "\<forall>t. fopen t"
  shows "st_file s \<noteq> None \<Longrightarrow> \<exists>s'. stdio_run fopen es s = Inr s' \<and> st_file s' \<noteq> None \<and>
    file_texts s' = files es (file_texts s)"
proof (induction es arbitrary: s)
  case (Cons e es)
  obtain x where x: "st_file s = Some x" using Cons.prems by blast
  have "\<exists>s1. stdio_step fopen e s = Inr s1 \<and> st_file s1 \<noteq> None \<and> file_texts s1 = files [e] (file_texts s)"
    using x assms
    by (cases e) (auto simp: AppendFile_construct_def with_file_def AppendFile_write_def AppendFile_flush_def
      file_texts_def close_file_def AppendFile_destroy_def)
  then obtain s1 where s1: "stdio_step fopen e s = Inr s1" "st_file s1 \<noteq> None" "file_texts s1 = files [e] (file_texts s)"
    by blast
  from Cons.IH [OF s1(2)] s1 show ?case using files_append [of "[e]" es] by simp
qed simp

lemma flushed_nothing_held: "stdio_run fopen LogFile_flush s = Inr s' \<Longrightarrow> \<exists>d. st_file s' = Some (d, [])"
  by (auto simp: LogFile_flush_def with_file_def AppendFile_flush_def split: option.splits)

lemma write_buffers_files:
  "lf_ok lf fs \<Longrightarrow> env_ok env bs \<Longrightarrow> \<exists>lf' es. write_buffers env bs lf = Some (lf', es) \<and>
     lf_ok lf' (files es fs) \<and> concat (files es fs) = concat fs @ concat bs"
proof (induction env bs lf arbitrary: fs rule: write_buffers.induct)
  case (2 env b bs lf)
  obtain lf1 es1 where 1: "append_unlocked (fst (env 0)) b (snd (env 0)) lf = Some (lf1, es1)"
      "concat (files es1 fs) = concat fs @ b" "lf_ok lf1 (files es1 fs)"
    using append_keeps_lines_helper [OF "2.prems"(1), of "fst (env 0)" b "snd (env 0)"] "2.prems"(2) by auto
  obtain lf2 es2 where "write_buffers (\<lambda>i. env (Suc i)) bs lf1 = Some (lf2, es2)"
      "lf_ok lf2 (files es2 (files es1 fs))" "concat (files es2 (files es1 fs)) = concat (files es1 fs) @ concat bs"
    using "2.IH" [of "(lf1, es1)"] 1(1,3) "2.prems"(2) by (fastforce simp: LogFile_append_def)
  then show ?case using 1 by (simp add: LogFile_append_def files_append)
qed simp

section \<open>Invariant\<close>

definition pi_inv :: "nat \<Rightarrow> pipeline \<Rightarrow> bool" where
  "pi_inv cap s \<longleftrightarrow> al_inv cap (pi_log s) \<and> written (pi_log s) = concat (file_texts (pi_io s)) \<and>
     (if al_phase (pi_log s) = AExited then st_file (pi_io s) = None
      else lf_ok (pi_file s) (file_texts (pi_io s)) \<and> (\<exists>d b. st_file (pi_io s) = Some (d, b) \<and>
        (al_phase (pi_log s) \<in> {ATesting, ATaking} \<longrightarrow> b = [])))"

lemma pipeline_start_inv:
  assumes "\<forall>t. fopen t" "0 < now"
  shows "\<exists>s. pipeline_start fopen roll now = Inr s \<and> pi_inv cap s \<and> accepted (pi_log s) = []"
proof -
  have "al_phase AsyncLogging_start = ATesting" "written AsyncLogging_start = []" "accepted AsyncLogging_start = []"
    by (simp_all add: AsyncLogging_start_def)
  then show ?thesis using assms
    by (auto simp: pipeline_start_def LogFile_new_def rollFile_def AppendFile_construct_def close_file_def pi_inv_def
        file_texts_def lf_ok_def Let_def)
qed

lemma append_frame':
  "al_append cap line l = Inr l' \<Longrightarrow> written l' = written l \<and> al_phase l' = al_phase l"
  by (auto simp: al_append_def Let_def split: option.splits if_splits)

lemma test_frame: "written (al_test l) = written l \<and> (al_phase (al_test l) = ATaking \<or> al_phase (al_test l) = AExited)"
  by (simp add: al_test_def)

lemma take_frame: "al_take l = Inr l' \<Longrightarrow> written l' = written l \<and> al_phase l' = AWriting"
  by (auto simp: al_take_def Let_def split: option.splits if_splits)

lemma recycle_frame: "al_recycle l = Inr l' \<Longrightarrow> written l' = written l \<and> al_phase l' = ATesting"
  by (auto simp: al_recycle_def Let_def)

lemma pipeline_thread_inv:
  assumes "\<forall>t. fopen t" "pi_inv cap s"
    and "al_phase (pi_log s) = AWriting \<longrightarrow> env_ok env (buffersToWrite (pi_log s))"
  shows "\<exists>s'. pipeline_thread fopen env s = Inr s' \<and> pi_inv cap s' \<and> accepted (pi_log s') = accepted (pi_log s)"
proof (cases "al_phase (pi_log s)")
  case ATesting
  have inv: "al_inv cap (pi_log s)" using assms(2) by (simp add: pi_inv_def)
  show ?thesis using al_test_inv [OF inv ATesting] assms(2) ATesting test_frame [of "pi_log s"]
    by (auto simp: pipeline_thread_def pi_inv_def Let_def)
next
  case ATaking
  have inv: "al_inv cap (pi_log s)" using assms(2) by (simp add: pi_inv_def)
  obtain l where l: "al_take (pi_log s) = Inr l" "al_inv cap l" "accepted l = accepted (pi_log s)"
    using al_take_inv [OF inv ATaking] by blast
  then show ?thesis using assms(2) ATaking take_frame [OF l(1)]
    by (auto simp: pipeline_thread_def pi_inv_def)
next
  case AWriting
  have ok: "lf_ok (pi_file s) (file_texts (pi_io s))" "st_file (pi_io s) \<noteq> None" and inv: "al_inv cap (pi_log s)"
    using assms(2) AWriting by (auto simp: pi_inv_def)
  obtain lf es where w: "write_buffers env (buffersToWrite (pi_log s)) (pi_file s) = Some (lf, es)"
      "lf_ok lf (files es (file_texts (pi_io s)))"
      "concat (files es (file_texts (pi_io s))) = concat (file_texts (pi_io s)) @ concat (buffersToWrite (pi_log s))"
    using write_buffers_files [OF ok(1)] assms(3) AWriting by blast
  obtain io where io: "stdio_run fopen es (pi_io s) = Inr io" "st_file io \<noteq> None"
      "file_texts io = files es (file_texts (pi_io s))"
    using stdio_run_files [OF assms(1) ok(2)] by blast
  have "al_inv cap ((pi_log s)\<lparr>written := written (pi_log s) @ concat (buffersToWrite (pi_log s)), al_phase := ARecycling\<rparr>)"
    using inv AWriting by (auto simp: al_inv_def in_flight_def)
  then show ?thesis using assms(2) AWriting w io
    by (auto simp: pipeline_thread_def al_write_def pi_inv_def)
next
  case ARecycling
  have ok: "lf_ok (pi_file s) (file_texts (pi_io s))" "st_file (pi_io s) \<noteq> None" and inv: "al_inv cap (pi_log s)"
    using assms(2) ARecycling by (auto simp: pi_inv_def)
  obtain l where l: "al_recycle (pi_log s) = Inr l" "al_inv cap l" "accepted l = accepted (pi_log s)"
    using al_recycle_inv [OF inv ARecycling] by blast
  obtain io where io: "stdio_run fopen LogFile_flush (pi_io s) = Inr io" "file_texts io = file_texts (pi_io s)"
    using stdio_run_files [OF assms(1) ok(2), of LogFile_flush] by (auto simp: LogFile_flush_def)
  then show ?thesis using assms(2) ARecycling l ok(1) recycle_frame [OF l(1)] flushed_nothing_held [OF io(1)]
    by (auto simp: pipeline_thread_def pi_inv_def)
next
  case AExited
  then show ?thesis using assms(2) by (simp add: pipeline_thread_def)
qed

lemma fold_pi_lines: "fold (\<lambda>e g. g @ pi_lines cap [e]) ops g = g @ pi_lines cap ops"
  by (induction cap ops arbitrary: g rule: pi_lines.induct) simp_all

lemma pi_step_inv:
  assumes "\<forall>t. fopen t" "pi_inv cap s" "ops_ok fopen cap (e # ops) s"
  shows "\<exists>s1. pi_step fopen cap e s = Inr (s1, []) \<and> pi_inv cap s1 \<and>
      accepted (pi_log s1) = accepted (pi_log s) @ pi_lines cap [e]"
proof (cases e)
  case (PAppend line)
  have "al_inv cap (pi_log s)" using assms(2) by (simp add: pi_inv_def)
  then obtain l where "al_append cap line (pi_log s) = Inr l" "al_inv cap l"
      "accepted l = accepted (pi_log s) @ (if length line < cap then line else [])"
    using al_append_inv by blast
  then show ?thesis using assms(2) PAppend append_frame' [of cap line "pi_log s" l]
    by (auto simp: pi_inv_def)
next
  case (PThread env)
  then show ?thesis using pipeline_thread_inv [OF assms(1,2), of env] assms(3) by auto
next
  case PStop
  have "al_inv cap (al_stop (pi_log s))"
    using assms(2) by (auto simp: pi_inv_def al_stop_def al_inv_def in_flight_def split: al_phase.splits)
  then show ?thesis using assms(2) PStop by (auto simp: pi_inv_def al_stop_def)
qed

interpretation ph: silent_machine "pi_step fopen cap"
  "\<lambda>g s. (\<forall>t. fopen t) \<and> pi_inv cap s \<and> accepted (pi_log s) = g" "\<lambda>_ s ops. ops_ok fopen cap ops s"
  "\<lambda>e g. g @ pi_lines cap [e]" for fopen cap
proof unfold_locales
  fix g s and e :: pi_op and ops
  assume s: "(\<forall>t. fopen t) \<and> pi_inv cap s \<and> accepted (pi_log s) = g" and ok: "ops_ok fopen cap (e # ops) s"
  then show "\<exists>s'. pi_step fopen cap e s = Inr (s', []) \<and>
      ((\<forall>t. fopen t) \<and> pi_inv cap s' \<and> accepted (pi_log s') = g @ pi_lines cap [e]) \<and> ops_ok fopen cap ops s'"
    using pi_step_inv [of fopen cap s e ops] by auto
qed

lemma pi_run:
  assumes "\<forall>t. fopen t" "pi_inv cap s" "ops_ok fopen cap ops s"
  shows "\<exists>s'. run_steps (pi_step fopen cap) ops s = Inr (s', []) \<and> pi_inv cap s' \<and>
      accepted (pi_log s') = accepted (pi_log s) @ pi_lines cap ops"
  using ph.run_silent [of fopen cap s "accepted (pi_log s)" ops] assms by (simp add: fold_pi_lines)

section \<open>From the line to the disk\<close>

text \<open>C8: Every line reaches the disk, once and in order. In any interleaving of threads that append with
  the steps of the logging thread, with \<open>fopen\<close> succeeding and \<open>fwrite\<close> taking what it is given in any
  parts, no step faults (the \<open>AppendFile\<close> always exists and its assert holds), and the lines appended are
  exactly the contents of the log files, in the order they were opened, followed by what the stream of
  the newest file holds back and by the buffers in memory. Whenever the logging thread tests its loop,
  and after it has left it, the stream holds nothing back: a crash then loses only the buffers.\<close>

theorem lines_reach_files:
  assumes "\<forall>t. fopen t" "0 < now" "pipeline_start fopen roll now = Inr s0" "ops_ok fopen cap ops s0"
  shows "\<exists>s. run_steps (pi_step fopen cap) ops s0 = Inr (s, []) \<and>
    pi_lines cap ops = concat (file_texts (pi_io s)) @ in_flight (pi_log s) \<and>
    (al_phase (pi_log s) = ATesting \<longrightarrow> (\<exists>d. st_file (pi_io s) = Some (d, []))) \<and>
    (al_phase (pi_log s) = AExited \<longrightarrow> st_file (pi_io s) = None)"
proof -
  have s0: "pi_inv cap s0" "accepted (pi_log s0) = []"
    using pipeline_start_inv [OF assms(1,2), of roll cap] assms(3) by auto
  obtain s where s: "run_steps (pi_step fopen cap) ops s0 = Inr (s, [])" "pi_inv cap s"
      "accepted (pi_log s) = accepted (pi_log s0) @ pi_lines cap ops"
    using pi_run [OF assms(1) s0(1) assms(4)] by blast
  then have "pi_lines cap ops = written (pi_log s) @ in_flight (pi_log s)"
    using s0(2) by (simp add: pi_inv_def al_inv_def)
  then show ?thesis using s(1,2) by (auto simp: pi_inv_def)
qed

text \<open>A line that \<open>fwrite\<close> takes in two parts.\<close>

theorem lines_reach_files_witness:
  "\<exists>s0 s. pipeline_start (\<lambda>t. True) 50 100 = Inr s0 \<and>
     run_steps (pi_step (\<lambda>t. True) 8) [PAppend ''first'', PThread (\<lambda>i. ([], 0)), PThread (\<lambda>i. ([], 0)),
       PThread (\<lambda>i. ([(2, False), (3, False)], 101)), PThread (\<lambda>i. ([], 0))] s0 = Inr (s, []) \<and>
     ''first'' = concat (file_texts (pi_io s)) @ in_flight (pi_log s)"
proof -
  let ?ops = "[PAppend ''first'', PThread (\<lambda>i. ([], 0)), PThread (\<lambda>i. ([], 0)),
       PThread (\<lambda>i. ([(2, False), (3, False)], 101)), PThread (\<lambda>i. ([], 0))]"
  let ?s0 = "\<lparr>pi_log = AsyncLogging_start,
      pi_file = \<lparr>rollSize = 50, flushInterval = 3, checkEveryN = 1024, lf_count = 0, startOfPeriod = 0, lastRoll = 100,
        lastFlush = 100, lf_file = \<lparr>f_opened = 100, writtenBytes = 0\<rparr>\<rparr>,
      pi_io = \<lparr>st_closed = [], st_file = Some ([], [])\<rparr>\<rparr>"
  have s0: "pipeline_start (\<lambda>t. True) 50 100 = Inr ?s0"
    by (simp add: pipeline_start_def LogFile_new_def rollFile_def AppendFile_construct_def close_file_def
      kRollPerSeconds_def Let_def)
  have ok: "ops_ok (\<lambda>t. True) 8 ?ops ?s0"
    by (simp add: AsyncLogging_start_def al_append_def buf_append_def pipeline_thread_def al_test_def al_take_def
      al_recycle_def al_write_def pop_buffer_def LogFile_append_def append_unlocked_def AppendFile_append_def
      append_loop.simps Let_def with_file_def LogFile_flush_def)
  show ?thesis using lines_reach_files [OF _ _ s0 ok] s0 by auto
qed

end
