(* ===== verification/LogSystem.thy ===== *)
theory LogSystem
  imports LogBackend LogPipeline
begin

text \<open>
  The whole logger: log statements of the thread that owns an \<open>AsyncLogging\<close> (theory LogBackend) together with the
  logging thread and the files it writes (theory LogPipeline), and test/asynlog_test.cpp, a program that uses it.
\<close>

section \<open>State\<close>

text \<open>A statement with what the constructor of \<open>Logger\<close> reads: the clock and \<open>errno\<close>.\<close>

record stmt =
  sm_now :: date
  sm_level :: LogLevel
  sm_errno :: int
  sm_func :: "string option"
  sm_args :: "log_arg list"
  sm_file :: string
  sm_line :: int

record logsys =
  ls_log :: logging
  ls_file :: logfile
  ls_io :: stdio

text \<open>
  \<open>LogThread\<close> is a step of the logging thread; its argument tells how \<open>fwrite\<close> takes the buffer at an index, and the clock
  after it.
\<close>

datatype log_op = SetLevel LogLevel | Statement stmt | LogThread "nat \<Rightarrow> string \<Rightarrow> (nat \<times> bool) list \<times> int"

section \<open>Steps\<close>

text \<open>\<open>AsyncLogging::start\<close>: the new thread makes its \<open>LogFile\<close>.\<close>

definition log_start ::
  "(int \<Rightarrow> bool) \<Rightarrow> int \<Rightarrow> int \<Rightarrow> int \<Rightarrow> bool \<Rightarrow> int \<Rightarrow> nat \<Rightarrow> logging \<Rightarrow> logsys result" where
  "log_start fopen roll now t garbage child i s =
     bindE (AsyncLogging_launch t 0 child i (AsyncLogging_construct t garbage i s)) (\<lambda>l.
     bindE (pipeline_start fopen roll now) (\<lambda>p. Inr \<lparr>ls_log = l, ls_file = pi_file p, ls_io = pi_io p\<rparr>))"

definition log_thread :: "(int \<Rightarrow> bool) \<Rightarrow> nat \<Rightarrow> (nat \<Rightarrow> string \<Rightarrow> (nat \<times> bool) list \<times> int) \<Rightarrow> logsys \<Rightarrow> logsys result" where
  "log_thread fopen i takes s =
     (case log_objs (ls_log s) i of
        None \<Rightarrow> Inl (BadAccess ''AsyncLogging'')
      | Some ob \<Rightarrow>
          bindE (pipeline_thread fopen (\<lambda>k. takes k (buffersToWrite (ob_log ob) ! k))
                   \<lparr>pi_log = ob_log ob, pi_file = ls_file s, pi_io = ls_io s\<rparr>) (\<lambda>p.
          Inr \<lparr>ls_log = set_log i (ob\<lparr>ob_log := pi_log p\<rparr>) (ls_log s), ls_file = pi_file p, ls_io = pi_io p\<rparr>))"

fun ls_step ::
  "(int \<Rightarrow> string) \<Rightarrow> (int \<Rightarrow> bool) \<Rightarrow> nat \<Rightarrow> int \<Rightarrow> nat \<Rightarrow> log_op \<Rightarrow> logsys \<Rightarrow> (logsys \<times> unit list) result" where
  "ls_step strerror fopen cap t i (SetLevel level) s = Inr (s\<lparr>ls_log := setLogLevel level (ls_log s)\<rparr>, [])"
| "ls_step strerror fopen cap t i (Statement st) s =
     bindE (log_statement strerror (sm_now st) cap t (sm_level st) (sm_errno st) (sm_func st) (sm_args st) (sm_file st)
              (sm_line st) (ls_log s)) (\<lambda>l. Inr (s\<lparr>ls_log := l\<rparr>, []))"
| "ls_step strerror fopen cap t i (LogThread takes) s = bindE (log_thread fopen i takes s) (\<lambda>s'. Inr (s', []))"

section \<open>What is expected of a run\<close>

text \<open>The line of a statement: everything that goes into it, in order.\<close>

definition stmt_line :: "(int \<Rightarrow> string) \<Rightarrow> int \<Rightarrow> stmt \<Rightarrow> string" where
  "stmt_line strerror t st = concat (map arg_text (logger_args strerror (sm_now st) t (sm_level st) (sm_errno st)
     (sm_func st) (sm_args st) (sm_file st) (sm_line st)))"

text \<open>What the 4000 bytes of the stream keep of it: a piece that does not fit is left out.\<close>

definition stmt_text :: "(int \<Rightarrow> string) \<Rightarrow> int \<Rightarrow> stmt \<Rightarrow> string" where
  "stmt_text strerror t st = kept_text 4000 (logger_args strerror (sm_now st) t (sm_level st) (sm_errno st)
     (sm_func st) (sm_args st) (sm_file st) (sm_line st))"

lemma stmt_text_complete: "length (stmt_line strerror t st) + 48 \<le> 4000 \<Longrightarrow> stmt_text strerror t st = stmt_line strerror t st"
  using kept_text_all by (simp add: stmt_text_def stmt_line_def kMaxNumericSize_def)

text \<open>The lines of the statements that the level in force lets through.\<close>

fun log_lines :: "(int \<Rightarrow> string) \<Rightarrow> int \<Rightarrow> LogLevel \<Rightarrow> log_op list \<Rightarrow> string list" where
  "log_lines strerror t g [] = []"
| "log_lines strerror t g (SetLevel level # ops) = log_lines strerror t level ops"
| "log_lines strerror t g (Statement st # ops) =
     (if log_macro g (sm_level st) then [stmt_text strerror t st] else []) @ log_lines strerror t g ops"
| "log_lines strerror t g (LogThread takes # ops) = log_lines strerror t g ops"

text \<open>Statements that are not fatal, with arguments in the ranges of their types; \<open>fwrite\<close> takes each buffer, in any parts.\<close>

fun log_op_ok :: "(int \<Rightarrow> string) \<Rightarrow> int \<Rightarrow> log_op \<Rightarrow> bool" where
  "log_op_ok strerror t (SetLevel level) \<longleftrightarrow> True"
| "log_op_ok strerror t (Statement st) \<longleftrightarrow> sm_level st \<noteq> FATAL \<and> list_all arg_ok (sm_args st) \<and> arg_ok (AInt t) \<and>
     arg_ok (AInt (sm_errno st)) \<and> arg_ok (AInt (sm_line st))"
| "log_op_ok strerror t (LogThread takes) \<longleftrightarrow> (\<forall>i b. good_outcomes (fst (takes i b)) (length b))"

section \<open>Invariant\<close>

definition ls_inv :: "nat \<Rightarrow> int \<Rightarrow> nat \<Rightarrow> logobj \<Rightarrow> logsys \<Rightarrow> bool" where
  "ls_inv cap t i ob s \<longleftrightarrow> backend cap t i ob (ls_log s) \<and>
     pi_inv cap \<lparr>pi_log = ob_log ob, pi_file = ls_file s, pi_io = ls_io s\<rparr>"

lemma env_ok_takes:
  "\<forall>k < length bs. good_outcomes (fst (env k)) (length (bs ! k)) \<Longrightarrow> env_ok env bs"
proof (induction env bs rule: env_ok.induct)
  case (2 env b bs)
  have "\<forall>k < length bs. good_outcomes (fst (env (Suc k))) (length (bs ! k))" using "2.prems" by fastforce
  from "2.IH" [OF this] "2.prems" show ?case by fastforce
qed simp

lemma statement_ok:
  assumes inv: "ls_inv cap t i ob s" and ok: "log_op_ok strerror t (Statement st)" and cap: "4000 \<le> cap"
  shows "\<exists>s' ob'. ls_step strerror fopen cap t i (Statement st) s = Inr (s', []) \<and> ls_inv cap t i ob' s' \<and>
    g_logLevel (ls_log s') = g_logLevel (ls_log s) \<and>
    accepted (ob_log ob') = accepted (ob_log ob) @ concat (log_lines strerror t (g_logLevel (ls_log s)) [Statement st])"
proof (cases "log_macro (g_logLevel (ls_log s)) (sm_level st)")
  case False
  then show ?thesis using inv by (auto simp: log_statement_def)
next
  case True
  let ?text = "stmt_text strerror t st"
  have be: "backend cap t i ob (ls_log s)" and pi: "pi_inv cap \<lparr>pi_log = ob_log ob, pi_file = ls_file s, pi_io = ls_io s\<rparr>"
    using inv by (simp_all add: ls_inv_def)
  have em: "Logger_emit strerror (sm_now st) t (sm_level st) (sm_errno st) (sm_func st) (sm_args st) (sm_file st) (sm_line st) =
      Inr (?text, False)" "length ?text < 4000"
    using emit_kept [of "sm_args st" t "sm_errno st" "sm_line st" strerror "sm_now st" "sm_level st" "sm_func st" "sm_file st"] ok
    by (simp_all add: stmt_text_def list_all_iff)
  note em(1)
  moreover have "length ?text < cap" using em(2) cap by simp
  then obtain l where l: "al_append cap ?text (ob_log ob) = Inr l" "al_inv cap l" "accepted l = accepted (ob_log ob) @ ?text"
      "call_output cap t ?text (ls_log s) = Inr (set_log i (ob\<lparr>ob_log := l\<rparr>) (ls_log s))"
      "backend cap t i (ob\<lparr>ob_log := l\<rparr>) (set_log i (ob\<lparr>ob_log := l\<rparr>) (ls_log s))"
    by (rule output_backend [OF be])
  moreover have "pi_inv cap \<lparr>pi_log = l, pi_file = ls_file s, pi_io = ls_io s\<rparr>"
    using pi l(2) append_frame [OF l(1)] unfolding pi_inv_def by (cases "al_phase (ob_log ob) = AExited") simp_all
  ultimately show ?thesis using True
    by (intro exI [of _ "s\<lparr>ls_log := set_log i (ob\<lparr>ob_log := l\<rparr>) (ls_log s)\<rparr>"] exI [of _ "ob\<lparr>ob_log := l\<rparr>"])
      (simp add: log_statement_def Logger_delete_def ls_inv_def set_log_def)
qed

lemma log_thread_ok:
  assumes fopen: "\<forall>n. fopen n" and inv: "ls_inv cap t i ob s" and ok: "log_op_ok strerror t (LogThread takes)"
  shows "\<exists>s' ob'. ls_step strerror fopen cap t i (LogThread takes) s = Inr (s', []) \<and> ls_inv cap t i ob' s' \<and>
    g_logLevel (ls_log s') = g_logLevel (ls_log s) \<and> accepted (ob_log ob') = accepted (ob_log ob)"
proof -
  let ?p = "\<lparr>pi_log = ob_log ob, pi_file = ls_file s, pi_io = ls_io s\<rparr>"
  let ?env = "\<lambda>k. takes k (buffersToWrite (ob_log ob) ! k)"
  have be: "backend cap t i ob (ls_log s)" and pi: "pi_inv cap ?p" using inv by (simp_all add: ls_inv_def)
  have "env_ok ?env (buffersToWrite (pi_log ?p))" by (rule env_ok_takes) (use ok in simp)
  then obtain p where p: "pipeline_thread fopen ?env ?p = Inr p" "pi_inv cap p" "accepted (pi_log p) = accepted (ob_log ob)"
    using pipeline_thread_inv [OF fopen pi, of ?env] by auto
  have "al_inv cap (pi_log p)" using p(2) by (simp add: pi_inv_def)
  moreover have "pi_inv cap \<lparr>pi_log = pi_log p, pi_file = pi_file p, pi_io = pi_io p\<rparr>" using p(2) by (cases p) simp
  ultimately show ?thesis using be p
    by (intro exI [of _ "\<lparr>ls_log = set_log i (ob\<lparr>ob_log := pi_log p\<rparr>) (ls_log s), ls_file = pi_file p, ls_io = pi_io p\<rparr>"]
        exI [of _ "ob\<lparr>ob_log := pi_log p\<rparr>"]) (simp add: log_thread_def backend_def ls_inv_def set_log_def)
qed

text \<open>The level after an operation, and the lines with the level after a sequence of them.\<close>

fun level_after :: "log_op \<Rightarrow> LogLevel \<Rightarrow> LogLevel" where
  "level_after (SetLevel level) g = level"
| "level_after _ g = g"

definition log_hist :: "(int \<Rightarrow> string) \<Rightarrow> int \<Rightarrow> log_op \<Rightarrow> LogLevel \<times> string \<Rightarrow> LogLevel \<times> string" where
  "log_hist strerror t e h = (level_after e (fst h), snd h @ concat (log_lines strerror t (fst h) [e]))"

lemma fold_log_hist: "snd (fold (log_hist strerror t) ops (g, x)) = x @ concat (log_lines strerror t g ops)"
proof (induction ops arbitrary: g x)
  case (Cons e ops)
  then show ?case by (cases e) (simp_all add: log_hist_def)
qed simp

definition ls_monitor :: "(int \<Rightarrow> bool) \<Rightarrow> nat \<Rightarrow> int \<Rightarrow> nat \<Rightarrow> LogLevel \<times> string \<Rightarrow> logsys \<Rightarrow> bool" where
  "ls_monitor fopen cap t i h s \<longleftrightarrow> (\<forall>n. fopen n) \<and> 4000 \<le> cap \<and>
     (\<exists>ob. ls_inv cap t i ob s \<and> h = (g_logLevel (ls_log s), accepted (ob_log ob)))"

interpretation lh: silent_machine "ls_step strerror fopen cap t i" "ls_monitor fopen cap t i"
  "\<lambda>_ _. list_all (log_op_ok strerror t)" "log_hist strerror t" for strerror fopen cap t i
proof unfold_locales
  fix h s and e :: log_op and ops
  assume m: "ls_monitor fopen cap t i h s" and ops: "list_all (log_op_ok strerror t) (e # ops)"
  obtain ob where fopen: "\<forall>n. fopen n" and cap: "4000 \<le> cap" and inv: "ls_inv cap t i ob s"
    and h: "h = (g_logLevel (ls_log s), accepted (ob_log ob))" using m by (auto simp: ls_monitor_def)
  have ok: "log_op_ok strerror t e" using ops by simp
  have "\<exists>s1 ob1. ls_step strerror fopen cap t i e s = Inr (s1, []) \<and> ls_inv cap t i ob1 s1 \<and>
      g_logLevel (ls_log s1) = level_after e (g_logLevel (ls_log s)) \<and>
      accepted (ob_log ob1) = accepted (ob_log ob) @ concat (log_lines strerror t (g_logLevel (ls_log s)) [e])"
  proof (cases e)
    case (SetLevel level)
    then show ?thesis using inv by (auto simp: setLogLevel_def ls_inv_def backend_def)
  next
    case (Statement st)
    then show ?thesis using statement_ok [OF inv ok [unfolded Statement] cap, of fopen] by simp
  next
    case (LogThread takes)
    then show ?thesis using log_thread_ok [OF fopen inv ok [unfolded LogThread]] by simp
  qed
  then have "\<exists>s'. ls_step strerror fopen cap t i e s = Inr (s', []) \<and> ls_monitor fopen cap t i (log_hist strerror t e h) s'"
    using fopen cap h unfolding ls_monitor_def log_hist_def by force
  then show "\<exists>s'. ls_step strerror fopen cap t i e s = Inr (s', []) \<and>
      ls_monitor fopen cap t i (log_hist strerror t e h) s' \<and> list_all (log_op_ok strerror t) ops" using ops by simp
qed

lemma ls_run:
  assumes "\<forall>n. fopen n" "4000 \<le> cap" "ls_inv cap t i ob s" "list_all (log_op_ok strerror t) ops"
  shows "\<exists>s' ob'. run_steps (ls_step strerror fopen cap t i) ops s = Inr (s', []) \<and> ls_inv cap t i ob' s' \<and>
      accepted (ob_log ob') = accepted (ob_log ob) @ concat (log_lines strerror t (g_logLevel (ls_log s)) ops)"
proof -
  let ?h = "(g_logLevel (ls_log s), accepted (ob_log ob))"
  have "ls_monitor fopen cap t i ?h s" using assms(1-3) by (auto simp: ls_monitor_def)
  from lh.run_silent [OF this assms(4)] show ?thesis
    using fold_log_hist [of strerror t ops "fst ?h" "snd ?h"] by (auto simp: ls_monitor_def)
qed

section \<open>From the statement to the disk\<close>

text \<open>C9: What is logged reaches the files. Start an \<open>AsyncLogging\<close> in a thread and let that thread execute log
  statements that are not fatal (for those see \<open>fatal_line_lost\<close>) and change the level, in any interleaving with the
  steps of the logging thread; let every log file open and \<open>fwrite\<close> take every buffer, in any number of parts. Nothing
  faults, and the lines of the statements that the level lets through are exactly the contents of the log files in the
  order they were opened, what the stream of the newest file holds back, and the buffers in memory, in this order. A line
  that leaves 48 of the 4000 bytes of its stream free is complete from its time to its newline; a longer one lacks the
  pieces that do not fit, and only those.\<close>

theorem statements_reach_files:
  assumes "\<forall>n. fopen n" "0 < now" "4000 \<le> cap" "list_all (log_op_ok strerror t) ops"
    and "log_start fopen roll now t garbage child i init = Inr s0"
  shows "\<exists>s ob. run_steps (ls_step strerror fopen cap t i) ops s0 = Inr (s, []) \<and> log_objs (ls_log s) i = Some ob \<and>
    concat (log_lines strerror t (g_logLevel init) ops) = concat (file_texts (ls_io s)) @ in_flight (ob_log ob) \<and>
    (\<forall>st. length (stmt_line strerror t st) + 48 \<le> 4000 \<longrightarrow> stmt_text strerror t st = stmt_line strerror t st)"
proof -
  obtain l p where l: "AsyncLogging_launch t 0 child i (AsyncLogging_construct t garbage i init) = Inr l"
      "pipeline_start fopen roll now = Inr p" "s0 = \<lparr>ls_log = l, ls_file = pi_file p, ls_io = pi_io p\<rparr>"
    using assms(5) by (auto simp: log_start_def)
  obtain ob where ob: "backend cap t i ob l" "ob_log ob = AsyncLogging_start" "g_logLevel l = g_logLevel init"
    using start_backend [OF l(1)] by blast
  have "pi_inv cap p" using pipeline_start_inv [OF assms(1,2), of roll cap] l(2) by auto
  moreover have "pi_log p = AsyncLogging_start" using l(2) by (auto simp: pipeline_start_def Let_def split: prod.splits)
  ultimately have "ls_inv cap t i ob s0" using ob l(3) by (cases p) (simp add: ls_inv_def)
  from ls_run [OF assms(1,3) this assms(4)] obtain s ob' where
      s: "run_steps (ls_step strerror fopen cap t i) ops s0 = Inr (s, [])" "ls_inv cap t i ob' s"
        "accepted (ob_log ob') = accepted (ob_log ob) @ concat (log_lines strerror t (g_logLevel init) ops)"
    using l(3) ob(3) by auto
  moreover have "accepted (ob_log ob) = []" by (simp add: ob(2) AsyncLogging_start_def)
  ultimately show ?thesis
    by (intro exI [of _ s] exI [of _ ob']) (auto simp: ls_inv_def backend_def pi_inv_def al_inv_def stmt_text_complete)
qed

section \<open>The test of the logger\<close>

text \<open>The statements of test/asynlog_test.cpp, with the clock of each and the texts \<open>snprintf\<close> makes of the numbers.\<close>

definition asynlog_test :: "(nat \<Rightarrow> date) \<Rightarrow> string \<Rightarrow> string \<Rightarrow> log_op list" where
  "asynlog_test clock d1 d2 =
     (let st = (\<lambda>k level func args line. Statement \<lparr>sm_now = clock k, sm_level = level, sm_errno = 0, sm_func = func,
          sm_args = args, sm_file = ''asynlog_test.cpp'', sm_line = line\<rparr>) in
      [SetLevel DEBUG,
       st 0 INFO None [ACStr (Some ''12345678910'')] 12,
       st 1 DEBUG (Some ''main'') [AInt 12345678910] 13,
       st 2 ERROR None [ACStr (Some ''abcdefghijklmnopqrstuvwxyzABCDEF'')] 14,
       st 3 INFO None [ADouble d1] 15,
       st 4 INFO None [ADouble d2] 16])"

theorem statements_reach_files_witness:
  "\<exists>s0 s ob. log_start (\<lambda>n. True) 1000 100 1 False 7 0 (logging_init False False) = Inr s0 \<and>
     run_steps (ls_step (\<lambda>_. ''error'') (\<lambda>n. True) kLargeBuffer 1 0)
       (asynlog_test (\<lambda>k. \<lparr>year = 2024, month = 5, day = 6, hour = 7, minute = 8, second = 9\<rparr>) ''1.123466'' ''12.3456789'' @
        replicate 3 (LogThread (\<lambda>k b. ([(length b, False)], 101)))) s0 = Inr (s, []) \<and>
     log_objs (ls_log s) 0 = Some ob \<and>
     concat (file_texts (ls_io s)) @ in_flight (ob_log ob) =
       ''2024-05-06 07:08:091 [INFO]  12345678910 - asynlog_test.cpp:12'' @ [CHR 0x0A] @
       ''2024-05-06 07:08:091 [DEBUG] main 12345678910 - asynlog_test.cpp:13'' @ [CHR 0x0A] @
       ''2024-05-06 07:08:091 [ERROR] abcdefghijklmnopqrstuvwxyzABCDEF - asynlog_test.cpp:14'' @ [CHR 0x0A] @
       ''2024-05-06 07:08:091 [INFO]  1.123466 - asynlog_test.cpp:15'' @ [CHR 0x0A] @
       ''2024-05-06 07:08:091 [INFO]  12.3456789 - asynlog_test.cpp:16'' @ [CHR 0x0A]"
proof -
  let ?clock = "\<lambda>k :: nat. \<lparr>year = 2024, month = 5, day = 6, hour = 7, minute = 8, second = 9\<rparr>"
  let ?ops = "asynlog_test ?clock ''1.123466'' ''12.3456789'' @ replicate 3 (LogThread (\<lambda>k b. ([(length b, False)], 101)))"
  note texts = stmt_text_def kMaxNumericSize_def logger_args_def Impl_args_def finish_args_def toIsoString_def pad_def numeral_in.simps
    digit_char_def digitsHex_def int_str_def SourceFile_def
  obtain s0 where s0: "log_start (\<lambda>n. True) 1000 100 1 False 7 0 (logging_init False False) = Inr s0"
    by (simp add: log_start_def AsyncLogging_launch_def AsyncLogging_construct_def with_log_def set_log_def setFlush_def
        setOutput_def Thread_start_def Thread_new_def pipeline_start_def LogFile_new_def rollFile_def
        AppendFile_construct_def close_file_def Let_def)
  have rep: "list_all P (replicate n x)" if "P x" for P n and x :: log_op using that by (simp add: list_all_iff)
  have ok: "list_all (log_op_ok (\<lambda>_. ''error'') 1) ?ops"
    by (simp add: asynlog_test_def Let_def texts rep)
  have no_lines: "log_lines e t g (replicate n (LogThread takes)) = []" for e t g n takes by (induction n) simp_all
  have lines: "concat (log_lines (\<lambda>_. ''error'') 1 INFO ?ops) =
       ''2024-05-06 07:08:091 [INFO]  12345678910 - asynlog_test.cpp:12'' @ [CHR 0x0A] @
       ''2024-05-06 07:08:091 [DEBUG] main 12345678910 - asynlog_test.cpp:13'' @ [CHR 0x0A] @
       ''2024-05-06 07:08:091 [ERROR] abcdefghijklmnopqrstuvwxyzABCDEF - asynlog_test.cpp:14'' @ [CHR 0x0A] @
       ''2024-05-06 07:08:091 [INFO]  1.123466 - asynlog_test.cpp:15'' @ [CHR 0x0A] @
       ''2024-05-06 07:08:091 [INFO]  12.3456789 - asynlog_test.cpp:16'' @ [CHR 0x0A]"
    by (simp add: asynlog_test_def Let_def texts less_eq_LogLevel_def no_lines)
  have "\<forall>n::int. True" "(0 :: int) < 100" "4000 \<le> kLargeBuffer" and g: "g_logLevel (logging_init False False) = INFO"
    by (simp_all add: kLargeBuffer_def logging_init_def initLogLevel_def)
  from statements_reach_files [OF this(1,2,3) ok s0] obtain s ob where
      s: "run_steps (ls_step (\<lambda>_. ''error'') (\<lambda>n. True) kLargeBuffer 1 0) ?ops s0 = Inr (s, [])" "log_objs (ls_log s) 0 = Some ob"
      and t: "concat (log_lines (\<lambda>_. ''error'') 1 (g_logLevel (logging_init False False)) ?ops) =
        concat (file_texts (ls_io s)) @ in_flight (ob_log ob)" by blast
  show ?thesis by (intro exI conjI) (rule s0, rule s(1), rule s(2), rule t [symmetric, unfolded g, unfolded lines])
qed

end
