(* ===== verification/LogSync.thy ===== *)
theory LogSync
  imports AsyncLogging Condition
begin

text \<open>
  The locking of \<open>AsyncLogging\<close> (src/asynlog/AsyncLogging.cpp): \<open>append\<close> works under \<open>mutex_\<close>, and the logging thread
  takes the buffers under \<open>mutex_\<close>, which it keeps while it waits on \<open>cond_\<close>. The waits and notifications are those of
  the theory Condition; the buffers are those of the theory AsyncLogging.
\<close>

section \<open>State\<close>

text \<open>
  The logging thread is inside its critical section, and holds \<open>mutex_\<close>, while it waits and when its wait has ended
  (\<open>sy_woken\<close>) until it has taken the buffers; without a wait, locking, taking and unlocking are one step. Threads are known by numbers; the logging thread is 0.
\<close>

record logsync =
  sy_log :: alog
  sy_cond :: condition
  sy_woken :: "wake option"

definition sy_start :: logsync where
  "sy_start = \<lparr>sy_log = AsyncLogging_start, sy_cond = Condition_new, sy_woken = None\<rparr>"

definition sy_waiting :: "logsync \<Rightarrow> bool" where
  "sy_waiting s \<longleftrightarrow> cond_waiting 0 (sy_cond s)"

definition mutex_held :: "logsync \<Rightarrow> bool" where
  "mutex_held s \<longleftrightarrow> sy_waiting s \<or> sy_woken s \<noteq> None"

datatype sy_eff = Blocked string | Appended string | Notify "int option" | WaitEnds wake

section \<open>Steps\<close>

text \<open>\<open>cond_.notify()\<close>: the thread that is woken no longer waits.\<close>

definition sy_notify :: "logsync \<Rightarrow> logsync \<times> sy_eff list" where
  "sy_notify s = (let (r, c) = Condition_notify 0 (sy_cond s) in
     (s\<lparr>sy_cond := c, sy_woken := (if r = Some 0 then Some Notified else sy_woken s)\<rparr>, [Notify r]))"

text \<open>A thread that appends while \<open>mutex_\<close> is held by the logging thread is blocked, and tries again.\<close>

definition sy_append :: "nat \<Rightarrow> string \<Rightarrow> logsync \<Rightarrow> (logsync \<times> sy_eff list) result" where
  "sy_append cap line s =
     (if mutex_held s then Inr (s, [Blocked line])
      else bindE (al_append cap line (sy_log s)) (\<lambda>l.
        (let s1 = s\<lparr>sy_log := l\<rparr> in
         if length (buffers l) > length (buffers (sy_log s))
         then (let (s2, es) = sy_notify s1 in Inr (s2, Appended line # es))
         else Inr (s1, [Appended line]))))"

text \<open>\<open>stop\<close> takes no lock.\<close>

definition sy_stop :: "logsync \<Rightarrow> logsync \<times> sy_eff list" where
  "sy_stop s = sy_notify (s\<lparr>sy_log := al_stop (sy_log s)\<rparr>)"

text \<open>
  The logging thread: once its loop test has passed it locks \<open>mutex_\<close> and waits if no buffer is full; after the wait it
  takes the buffers whatever woke it.
\<close>

definition sy_thread :: "int \<Rightarrow> logsync \<Rightarrow> (logsync \<times> sy_eff list) result" where
  "sy_thread flush s =
     (case sy_woken s of
        Some w \<Rightarrow> bindE (al_take (sy_log s)) (\<lambda>l.
          Inr (s\<lparr>sy_log := l, sy_woken := None\<rparr>, [WaitEnds w]))
      | None \<Rightarrow>
          if sy_waiting s then Inr (s, [])
          else if al_phase (sy_log s) = ATaking \<and> buffers (sy_log s) = []
          then Inr (s\<lparr>sy_cond := Condition_waitForSeconds 0 flush (sy_cond s)\<rparr>, [])
          else bindE (al_thread (sy_log s)) (\<lambda>l. Inr (s\<lparr>sy_log := l\<rparr>, [])))"

definition sy_wake :: "wake \<Rightarrow> logsync \<Rightarrow> logsync" where
  "sy_wake w s = (case Condition_wake 0 w (sy_cond s) of
     None \<Rightarrow> s | Some c \<Rightarrow> s\<lparr>sy_cond := c, sy_woken := Some w\<rparr>)"

datatype sy_op = SyAppend string | SyThread | SyWake wake | SyStop

fun sy_step :: "nat \<Rightarrow> int \<Rightarrow> sy_op \<Rightarrow> logsync \<Rightarrow> (logsync \<times> sy_eff list) result" where
  "sy_step cap flush (SyAppend line) s = sy_append cap line s"
| "sy_step cap flush SyThread s = sy_thread flush s"
| "sy_step cap flush (SyWake w) s = Inr (sy_wake w s, [])"
| "sy_step cap flush SyStop s = Inr (sy_stop s)"

section \<open>Invariant\<close>

text \<open>
  Nobody but the logging thread waits, and only once; until it has taken the buffers none is full, for it holds \<open>mutex_\<close>. As long as nobody stops the logger and chance is left aside, its waits end by their timeout.
\<close>

definition sy_inv :: "nat \<Rightarrow> int \<Rightarrow> logsync \<Rightarrow> bool" where
  "sy_inv cap flush s \<longleftrightarrow> al_inv cap (sy_log s) \<and>
     (cond_waiters (sy_cond s) = [] \<or> cond_waiters (sy_cond s) = [(0, Some flush)] \<and> sy_woken s = None) \<and>
     (sy_woken s = None \<or> sy_woken s = Some Timeout) \<and>
     (mutex_held s \<longrightarrow> al_phase (sy_log s) = ATaking \<and> buffers (sy_log s) = [])"

definition timed_out :: "sy_eff \<Rightarrow> bool" where
  "timed_out e \<longleftrightarrow> (case e of Notify r \<Rightarrow> r = None | WaitEnds w \<Rightarrow> w = Timeout | _ \<Rightarrow> True)"

lemma al_thread_inv: "al_inv cap l \<Longrightarrow> \<exists>l'. al_thread l = Inr l' \<and> al_inv cap l'"
  using al_step_inv [of cap l ThreadStep] by auto

lemma sy_append_ok:
  assumes "sy_inv cap flush s"
  shows "\<exists>s' es. sy_append cap line s = Inr (s', es) \<and> sy_inv cap flush s' \<and> list_all timed_out es"
proof (cases "mutex_held s")
  case True
  then show ?thesis using assms by (simp add: sy_append_def timed_out_def)
next
  case False
  then have w: "cond_waiters (sy_cond s) = []" "sy_woken s = None"
    using assms by (auto simp: mutex_held_def sy_waiting_def cond_waiting_def sy_inv_def)
  obtain l where "al_append cap line (sy_log s) = Inr l" "al_inv cap l"
    using al_append_inv [of cap "sy_log s" line] assms by (auto simp: sy_inv_def)
  then show ?thesis using w False
    by (simp add: sy_append_def sy_notify_def notify_none sy_inv_def mutex_held_def sy_waiting_def cond_waiting_def
        timed_out_def Let_def)
qed

lemma sy_thread_ok:
  assumes inv: "sy_inv cap flush s"
  shows "\<exists>s' es. sy_thread flush s = Inr (s', es) \<and> sy_inv cap flush s' \<and> list_all timed_out es"
proof (cases "mutex_held s")
  case True
  show ?thesis
  proof (cases "sy_woken s")
    case None
    then show ?thesis using inv True by (simp add: sy_thread_def mutex_held_def)
  next
    case (Some w)
    have h: "al_inv cap (sy_log s)" "al_phase (sy_log s) = ATaking" "cond_waiters (sy_cond s) = []" "w = Timeout"
      using inv True Some by (auto simp: sy_inv_def)
    obtain l where "al_take (sy_log s) = Inr l" "al_inv cap l"
      using al_take_inv [of cap "sy_log s"] h by auto
    then show ?thesis using Some h
      by (simp add: sy_thread_def sy_inv_def mutex_held_def sy_waiting_def cond_waiting_def timed_out_def)
  qed
next
  case False
  then have w: "cond_waiters (sy_cond s) = []" "sy_woken s = None" "\<not> sy_waiting s" and l: "al_inv cap (sy_log s)"
    using inv by (auto simp: mutex_held_def sy_waiting_def cond_waiting_def sy_inv_def)
  obtain l where "al_thread (sy_log s) = Inr l" "al_inv cap l" using al_thread_inv [OF l] by blast
  then show ?thesis using w l
    by (auto simp: sy_thread_def sy_inv_def mutex_held_def sy_waiting_def cond_waiting_def Condition_waitForSeconds_def)
qed

lemma sy_wake_ok:
  assumes "sy_inv cap flush s" "w \<noteq> Spurious"
  shows "sy_inv cap flush (sy_wake w s)"
proof -
  have "List.extract P [x] = (if P x then Some ([], x, []) else None)" for P :: "int \<times> int option \<Rightarrow> bool" and x
    by (simp add: extract_Cons_code extract_Nil_code)
  then show ?thesis using assms
    by (cases w) (auto simp: sy_inv_def sy_wake_def Condition_wake_def mutex_held_def sy_waiting_def cond_waiting_def
      extract_Nil_code split: option.splits)
qed

lemma sy_step_ok:
  assumes "sy_inv cap flush s" "e \<noteq> SyStop" "e \<noteq> SyWake Spurious"
  shows "\<exists>s' os. sy_step cap flush e s = Inr (s', os) \<and> sy_inv cap flush s' \<and> list_all timed_out os"
  using assms sy_append_ok [OF assms(1)] sy_thread_ok [OF assms(1)] sy_wake_ok [OF assms(1)] by (cases e) auto

interpretation sym: faultless_monitor "sy_step cap flush" "\<lambda>_ :: unit. sy_inv cap flush"
  "\<lambda>_ _ ops. SyStop \<notin> set ops \<and> SyWake Spurious \<notin> set ops" "\<lambda>_ g. g" "\<lambda>_ _. False" timed_out for cap flush
proof unfold_locales
  fix s and e :: sy_op and ops s' os f
  assume s: "sy_inv cap flush s" "SyStop \<notin> set (e # ops) \<and> SyWake Spurious \<notin> set (e # ops)"
  note ok = sy_step_ok [OF s(1), of e]
  show "sy_inv cap flush s' \<and> (SyStop \<notin> set ops \<and> SyWake Spurious \<notin> set ops) \<and> list_all timed_out os"
    if "sy_step cap flush e s = Inr (s', os)" using ok s(2) that by auto
  show False if "sy_step cap flush e s = Inl f" using ok s(2) that by auto
qed simp

section \<open>Appends wait out the timeout\<close>

text \<open>C21: The notification of \<open>append\<close> never wakes the logging thread. In any interleaving of appends, steps of the
  logging thread and ends of its waits, as long as nobody calls \<open>stop\<close> and no wait ends by chance: each notification finds
  nobody waiting, each wait lasts its full \<open>flushInterval_\<close> seconds, and while the logging thread waits, every
  append is blocked, because the thread waits with \<open>mutex_\<close> locked.\<close>

theorem append_waits_out_the_timeout:
  assumes "SyStop \<notin> set ops" "SyWake Spurious \<notin> set ops"
  shows "\<exists>s es. run_steps (sy_step cap flush) ops sy_start = Inr (s, es) \<and>
    (\<forall>r. Notify r \<in> set es \<longrightarrow> r = None) \<and> (\<forall>w. WaitEnds w \<in> set es \<longrightarrow> w = Timeout) \<and>
    (sy_waiting s \<longrightarrow> cond_waiters (sy_cond s) = [(0, Some flush)] \<and>
       (\<forall>line. sy_step cap flush (SyAppend line) s = Inr (s, [Blocked line])))"
proof -
  have "sy_inv cap flush sy_start"
    by (simp add: sy_inv_def sy_start_def mutex_held_def sy_waiting_def cond_waiting_def Condition_new_def)
  then obtain s es where s: "run_steps (sy_step cap flush) ops sy_start = Inr (s, es)"
      "sy_inv cap flush s" "list_all timed_out es"
    by (rule sym.run_total) (use assms in simp)
  have "cond_waiters (sy_cond s) = [(0, Some flush)] \<and> mutex_held s" if "sy_waiting s"
    using that s(2) by (auto simp: sy_inv_def sy_waiting_def cond_waiting_def mutex_held_def)
  then show ?thesis using s(1,3)
    by (auto simp: list_all_iff timed_out_def sy_append_def split: sy_eff.splits)
qed

theorem append_waits_out_the_timeout_witness:
  "\<exists>s es. run_steps (sy_step 8 3) [SyThread, SyThread, SyAppend ''a'', SyAppend ''b'', SyWake Timeout, SyAppend ''a'', SyThread, SyAppend ''a'']
      sy_start = Inr (s, es) \<and>
     es = [Blocked ''a'', Blocked ''b'', Blocked ''a'', WaitEnds Timeout, Appended ''a''] \<and>
     (\<forall>w. WaitEnds w \<in> set es \<longrightarrow> w = Timeout)"
proof -
  let ?ops = "[SyThread, SyThread, SyAppend ''a'', SyAppend ''b'', SyWake Timeout, SyAppend ''a'', SyThread, SyAppend ''a'']"
  have "\<exists>s. run_steps (sy_step 8 3) ?ops sy_start =
      Inr (s, [Blocked ''a'', Blocked ''b'', Blocked ''a'', WaitEnds Timeout, Appended ''a''])"
    by (simp add: sy_start_def sy_thread_def sy_append_def sy_wake_def mutex_held_def sy_waiting_def cond_waiting_def
      Condition_new_def Condition_waitForSeconds_def Condition_wake_def extract_Cons_code extract_Nil_code
      AsyncLogging_start_def al_thread_def al_test_def al_take_def al_append_def buf_append_def Let_def)
  then show ?thesis using append_waits_out_the_timeout [of ?ops 8 3] by auto
qed

end
