(* ===== verification/LogBuffers.thy ===== *)
theory LogBuffers
  imports AsyncLogging
begin

text \<open>
  The buffers under the logger (include/asynLog/FixedBuffer.h): what its users may rely on, as an
  interface, and the asynchronous logger (src/asynlog/AsyncLogging.cpp) on real buffers instead of
  texts. The run of a logger on \<open>FixedBuffer<sz>\<close> is a run of the logger of the theory AsyncLogging, whose
  buffers are the texts they hold.
\<close>

section \<open>The interface of a fixed buffer\<close>

text \<open>A text goes in whole if one byte stays free, and not at all otherwise; a reset empties the buffer.\<close>

locale fixed_buffer =
  fixes ok :: "nat \<Rightarrow> 'b \<Rightarrow> bool"
    and contents :: "'b \<Rightarrow> string"
    and app :: "string \<Rightarrow> 'b \<Rightarrow> 'b result"
    and clear :: "'b \<Rightarrow> 'b"
  assumes app_fits: "ok sz b \<Longrightarrow> length (contents b) + length str < sz \<Longrightarrow>
      \<exists>b'. app str b = Inr b' \<and> ok sz b' \<and> contents b' = contents b @ str"
    and app_full: "ok sz b \<Longrightarrow> sz \<le> length (contents b) + length str \<Longrightarrow> app str b = Inr b"
    and text_short: "ok sz b \<Longrightarrow> length (contents b) < sz"
    and clear_ok: "ok sz b \<Longrightarrow> ok sz (clear b) \<and> contents (clear b) = []"
begin

lemma app_buf_append:
  assumes "ok sz b"
  shows "\<exists>b'. app str b = Inr b' \<and> ok sz b' \<and> contents b' = buf_append sz str (contents b)"
proof (cases "length (contents b) + length str < sz")
  case True
  then show ?thesis using app_fits [OF assms True] by (auto simp: buf_append_def)
next
  case False
  then show ?thesis using app_full [OF assms, of str] assms by (auto simp: buf_append_def)
qed

text \<open>Texts one after the other: what the buffer holds is what fits of each.\<close>

lemma apps_text:
  "ok sz b \<Longrightarrow> \<exists>b'. run_steps (\<lambda>str b. bindE (app str b) (\<lambda>b'. Inr (b', [] :: unit list))) strs b = Inr (b', []) \<and>
     ok sz b' \<and> contents b' = fold (buf_append sz) strs (contents b)"
proof (induction strs arbitrary: b)
  case (Cons str strs)
  obtain b1 where b1: "app str b = Inr b1" "ok sz b1" "contents b1 = buf_append sz str (contents b)"
    using app_buf_append [OF Cons.prems] by blast
  from Cons.IH [OF b1(2)] b1 show ?case by auto
qed simp

end

section \<open>\<open>FixedBuffer\<close> provides it\<close>

definition fb_live :: "nat \<Rightarrow> fixbuf \<Rightarrow> bool" where
  "fb_live sz b \<longleftrightarrow> length (fb_data b) = sz \<and> cur b < sz"

lemma fb_live_new [simp]: "0 < sz \<Longrightarrow> fb_live sz (FixedBuffer_new sz)" "fb_toString (FixedBuffer_new sz) = []"
  by (simp_all add: fb_live_def FixedBuffer_new_def fb_toString_def fb_length_def)

lemma fb_live_length: "fb_live sz b \<Longrightarrow> length (fb_toString b) = cur b"
  by (simp add: fb_live_def fb_toString_def fb_length_def)

interpretation fb: fixed_buffer fb_live fb_toString fb_append fb_reset
proof unfold_locales
  fix sz b str
  assume b: "fb_live sz b"
  note len = fb_live_length [OF b]
  show "\<exists>b'. fb_append str b = Inr b' \<and> fb_live sz b' \<and> fb_toString b' = fb_toString b @ str"
    if fits: "length (fb_toString b) + length str < sz"
  proof -
    have c: "cur b + length str < sz" using fits unfolding len .
    then have "cur b + length str \<le> length (fb_data b)" using b by (simp add: fb_live_def)
    from write_current [OF this order_refl] obtain d where d: "write_at (cur b) str (fb_data b) = Inr d"
        "length d = length (fb_data b)" "take (cur b + length str) d = take (cur b) (fb_data b) @ str" by auto
    then show ?thesis using b c
      by (simp add: fb_append_def avail_def fb_add_def fb_live_def fb_toString_def fb_length_def)
  qed
  show "fb_append str b = Inr b" if "sz \<le> length (fb_toString b) + length str"
    using b that len by (simp add: fb_append_def avail_def fb_live_def)
  show "length (fb_toString b) < sz" using b len by (simp add: fb_live_def)
  show "fb_live sz (fb_reset b) \<and> fb_toString (fb_reset b) = []"
    using b by (auto simp: fb_live_def fb_reset_def fb_toString_def fb_length_def)
qed

text \<open>\<open>debugString\<close> terminates the text in place; the caller reads it up to its first NUL.\<close>

definition debugString :: "fixbuf \<Rightarrow> (string \<times> fixbuf) result" where
  "debugString b =
     bindE (write_at (cur b) [CHR 0x00] (fb_data b)) (\<lambda>d.
     Inr (takeWhile (\<lambda>c. c \<noteq> CHR 0x00) d, b\<lparr>fb_data := d\<rparr>))"

lemma takeWhile_to_stop: "\<not> P x \<Longrightarrow> takeWhile P (xs @ x # ys) = takeWhile P xs"
  by (induction xs) simp_all

text \<open>A buffer that is never full to the last byte has room for it, and shows its text up to the first NUL.\<close>

lemma debugString_ok:
  assumes "fb_live sz b"
  shows "\<exists>b'. debugString b = Inr (takeWhile (\<lambda>c. c \<noteq> CHR 0x00) (fb_toString b), b') \<and> fb_live sz b' \<and>
    fb_toString b' = fb_toString b"
proof -
  let ?d = "overwrite (cur b) [CHR 0x00] (fb_data b)"
  have len: "cur b < length (fb_data b)" using assms by (simp add: fb_live_def)
  then have d: "?d = take (cur b) (fb_data b) @ CHR 0x00 # drop (Suc (cur b)) (fb_data b)" by (simp add: overwrite_def)
  have "take (cur b) ?d = take (cur b) (fb_data b)" "length ?d = length (fb_data b)" using len by (simp_all add: d)
  moreover have "write_at (cur b) [CHR 0x00] (fb_data b) = Inr ?d" using len by simp
  moreover have "takeWhile (\<lambda>c. c \<noteq> CHR 0x00) ?d = takeWhile (\<lambda>c. c \<noteq> CHR 0x00) (take (cur b) (fb_data b))"
    unfolding d by (rule takeWhile_to_stop) simp
  ultimately show ?thesis using assms
    by (simp add: debugString_def fb_live_def fb_toString_def fb_length_def del: write_at_ok)
qed

section \<open>The logger on real buffers\<close>

text \<open>The fields of \<open>alog\<close>, with buffers for texts.\<close>

record falog =
  fa_current :: "fixbuf option"
  fa_next :: "fixbuf option"
  fa_buffers :: "fixbuf list"
  fa_running :: bool
  fa_first :: bool
  fa_new1 :: "fixbuf option"
  fa_new2 :: "fixbuf option"
  fa_toWrite :: "fixbuf list"
  fa_phase :: al_phase
  fa_written :: string
  fa_accepted :: string

definition fa_start :: "nat \<Rightarrow> falog" where
  "fa_start sz =
     (let b = fb_bzero (FixedBuffer_new sz) in
      \<lparr>fa_current = Some b, fa_next = Some b, fa_buffers = [], fa_running = True, fa_first = True,
       fa_new1 = Some b, fa_new2 = Some b, fa_toWrite = [], fa_phase = ATesting, fa_written = [], fa_accepted = []\<rparr>)"

definition fa_append :: "nat \<Rightarrow> string \<Rightarrow> falog \<Rightarrow> falog result" where
  "fa_append sz line s =
     (case fa_current s of
        None \<Rightarrow> Inl (BadAccess ''currentBuffer_'')
      | Some b \<Rightarrow>
          (if avail b > int (length line) then
             bindE (fb_append line b) (\<lambda>b'. Inr (s\<lparr>fa_current := Some b', fa_accepted := fa_accepted s @ line\<rparr>))
           else
             (let fresh = (case fa_next s of Some n \<Rightarrow> n | None \<Rightarrow> FixedBuffer_new sz)
              in bindE (fb_append line fresh) (\<lambda>b'.
                 Inr (s\<lparr>fa_buffers := fa_buffers s @ [b], fa_next := None, fa_current := Some b',
                        fa_accepted := fa_accepted s @ (if avail fresh > int (length line) then line else [])\<rparr>)))))"

definition fa_test :: "falog \<Rightarrow> falog" where
  "fa_test s =
     (if fa_running s \<or> fa_first s then s\<lparr>fa_first := False, fa_phase := ATaking\<rparr> else s\<lparr>fa_phase := AExited\<rparr>)"

definition fa_take :: "falog \<Rightarrow> falog result" where
  "fa_take s =
     (case fa_current s of
        None \<Rightarrow> Inl (BadAccess ''currentBuffer_'')
      | Some b \<Rightarrow>
          (let s1 = s\<lparr>fa_current := fa_new1 s, fa_new1 := None,
                     fa_toWrite := fa_buffers s @ [b], fa_buffers := [], fa_phase := AWriting\<rparr>
           in Inr (if fa_next s1 = None then s1\<lparr>fa_next := fa_new2 s1, fa_new2 := None\<rparr> else s1)))"

definition fa_write :: "falog \<Rightarrow> falog result" where
  "fa_write s = Inr (s\<lparr>fa_written := fa_written s @ concat (map fb_toString (fa_toWrite s)), fa_phase := ARecycling\<rparr>)"

text \<open>\<open>back()\<close>, moved out and reset, and \<open>pop_back()\<close>.\<close>

definition fa_pop :: "fixbuf list \<Rightarrow> (fixbuf \<times> fixbuf list) result" where
  "fa_pop bs = (if bs = [] then Inl (BadAccess ''buffersToWrite.back()'') else Inr (fb_reset (last bs), butlast bs))"

definition fa_recycle :: "falog \<Rightarrow> falog result" where
  "fa_recycle s =
     (let bs = (if length (fa_toWrite s) > 2 then take 2 (fa_toWrite s) else fa_toWrite s) in
      bindE (if fa_new1 s = None then bindE (fa_pop bs) (\<lambda>(b, bs'). Inr (Some b, bs')) else Inr (fa_new1 s, bs)) (\<lambda>(n1, bs1).
      bindE (if fa_new2 s = None then bindE (fa_pop bs1) (\<lambda>(b, bs'). Inr (Some b, bs')) else Inr (fa_new2 s, bs1)) (\<lambda>(n2, bs2).
      Inr (s\<lparr>fa_new1 := n1, fa_new2 := n2, fa_toWrite := [], fa_phase := ATesting\<rparr>))))"

definition fa_thread :: "falog \<Rightarrow> falog result" where
  "fa_thread s =
     (case fa_phase s of
        ATesting \<Rightarrow> Inr (fa_test s)
      | ATaking \<Rightarrow> fa_take s
      | AWriting \<Rightarrow> fa_write s
      | ARecycling \<Rightarrow> fa_recycle s
      | AExited \<Rightarrow> Inr s)"

fun fa_step :: "nat \<Rightarrow> al_op \<Rightarrow> falog \<Rightarrow> (falog \<times> unit list) result" where
  "fa_step sz (AppendLine line) s = bindE (fa_append sz line s) (\<lambda>s'. Inr (s', []))"
| "fa_step sz ThreadStep s = bindE (fa_thread s) (\<lambda>s'. Inr (s', []))"
| "fa_step sz Stop s = Inr (s\<lparr>fa_running := False\<rparr>, [])"

section \<open>Refinement\<close>

definition fa_abs :: "falog \<Rightarrow> alog" where
  "fa_abs s =
     \<lparr>currentBuffer = map_option fb_toString (fa_current s), nextBuffer = map_option fb_toString (fa_next s),
      buffers = map fb_toString (fa_buffers s), running_flag = fa_running s, first_round = fa_first s,
      newBuffer1 = map_option fb_toString (fa_new1 s), newBuffer2 = map_option fb_toString (fa_new2 s),
      buffersToWrite = map fb_toString (fa_toWrite s), al_phase = fa_phase s, written = fa_written s,
      accepted = fa_accepted s\<rparr>"

text \<open>All buffers have \<open>sz\<close> bytes and are live; the spare ones are empty, as \<open>al_inv\<close> has it.\<close>

definition fa_inv :: "nat \<Rightarrow> falog \<Rightarrow> bool" where
  "fa_inv sz s \<longleftrightarrow> 0 < sz \<and> al_inv sz (fa_abs s) \<and>
     list_all (fb_live sz) (fa_buffers s @ fa_toWrite s) \<and>
     pred_option (fb_live sz) (fa_current s) \<and> pred_option (fb_live sz) (fa_next s) \<and>
     pred_option (fb_live sz) (fa_new1 s) \<and> pred_option (fb_live sz) (fa_new2 s)"

lemma live_avail: "fb_live sz b \<Longrightarrow> avail b > int (length line) \<longleftrightarrow> sz - length (fb_toString b) > length line"
  using fb_live_length [of sz b] by (auto simp: avail_def fb_live_def)

lemma fa_append_sim:
  assumes "fa_inv sz s"
  shows "\<exists>s'. fa_append sz line s = Inr s' \<and> al_append sz line (fa_abs s) = Inr (fa_abs s') \<and>
    (al_inv sz (fa_abs s') \<longrightarrow> fa_inv sz s')"
proof -
  have inv: "0 < sz" "al_inv sz (fa_abs s)" "list_all (fb_live sz) (fa_buffers s @ fa_toWrite s)"
      "pred_option (fb_live sz) (fa_current s)" "pred_option (fb_live sz) (fa_next s)"
      "pred_option (fb_live sz) (fa_new1 s)" "pred_option (fb_live sz) (fa_new2 s)"
    using assms by (simp_all add: fa_inv_def)
  have "fa_current s \<noteq> None" using inv(2) by (auto simp: al_inv_def fa_abs_def)
  then obtain b where b: "fa_current s = Some b" "fb_live sz b" using inv(4) by auto
  let ?f = "case fa_next s of Some n \<Rightarrow> n | None \<Rightarrow> FixedBuffer_new sz"
  have f: "fb_live sz ?f" "fb_toString ?f = (case map_option fb_toString (fa_next s) of Some n \<Rightarrow> n | None \<Rightarrow> [])"
    using inv(1,5) by (auto split: option.split)
  obtain b1 where b1: "fb_append line b = Inr b1" "fb_live sz b1" "fb_toString b1 = buf_append sz line (fb_toString b)"
    using fb.app_buf_append [OF b(2)] by blast
  obtain f1 where f1: "fb_append line ?f = Inr f1" "fb_live sz f1" "fb_toString f1 = buf_append sz line (fb_toString ?f)"
    using fb.app_buf_append [OF f(1)] by blast
  show ?thesis
    using inv b b1 f f1 live_avail [OF b(2), of line] live_avail [OF f(1), of line]
    by (simp add: fa_append_def al_append_def fa_abs_def fa_inv_def Let_def)
qed

lemma live_butlast: "list_all (fb_live sz) bs \<Longrightarrow> list_all (fb_live sz) (butlast bs)"
  by (auto simp: list_all_iff dest: in_set_butlastD)

lemma live_last: "list_all (fb_live sz) bs \<Longrightarrow> bs \<noteq> [] \<Longrightarrow> fb_live sz (fb_reset (last bs)) \<and> fb_toString (fb_reset (last bs)) = []"
  using fb.clear_ok [of sz "last bs"] by (simp add: list_all_iff)

lemma fa_recycle_sim:
  assumes "fa_inv sz s" "al_recycle (fa_abs s) = Inr a"
  shows "\<exists>s'. fa_recycle s = Inr s' \<and> fa_abs s' = a \<and> (al_inv sz a \<longrightarrow> fa_inv sz s')"
proof -
  have inv: "0 < sz" "list_all (fb_live sz) (fa_buffers s @ fa_toWrite s)"
      "pred_option (fb_live sz) (fa_current s)" "pred_option (fb_live sz) (fa_next s)"
      "pred_option (fb_live sz) (fa_new1 s)" "pred_option (fb_live sz) (fa_new2 s)"
    using assms(1) by (simp_all add: fa_inv_def)
  define bs where "bs = (if length (fa_toWrite s) > 2 then take 2 (fa_toWrite s) else fa_toWrite s)"
  have bs: "list_all (fb_live sz) bs" using inv(2) by (auto simp: bs_def list_all_iff dest: in_set_takeD)
  have m: "(if length (buffersToWrite (fa_abs s)) > 2 then take 2 (buffersToWrite (fa_abs s)) else buffersToWrite (fa_abs s)) =
      map fb_toString bs" by (simp add: bs_def fa_abs_def take_map)
  note live = live_last [OF bs] live_last [OF live_butlast [OF bs]]
  have r: "fa_recycle s =
      bindE (if fa_new1 s = None then bindE (fa_pop bs) (\<lambda>(b, bs'). Inr (Some b, bs')) else Inr (fa_new1 s, bs)) (\<lambda>(n1, bs1).
      bindE (if fa_new2 s = None then bindE (fa_pop bs1) (\<lambda>(b, bs'). Inr (Some b, bs')) else Inr (fa_new2 s, bs1)) (\<lambda>(n2, bs2).
      Inr (s\<lparr>fa_new1 := n1, fa_new2 := n2, fa_toWrite := [], fa_phase := ATesting\<rparr>)))"
    unfolding fa_recycle_def Let_def bs_def ..
  show ?thesis
    using assms(2) inv live unfolding al_recycle_def Let_def m r
    by (cases "fa_new1 s"; cases "fa_new2 s"; cases "bs = []"; cases "butlast bs = []")
      (auto simp: fa_pop_def pop_buffer_def fa_abs_def fa_inv_def map_butlast [symmetric])
qed

lemma fa_step_sim:
  assumes "fa_inv sz s"
  shows "\<exists>s'. fa_step sz e s = Inr (s', []) \<and> al_step sz e (fa_abs s) = Inr (fa_abs s', []) \<and> fa_inv sz s'"
proof -
  have inv: "0 < sz" "al_inv sz (fa_abs s)" "list_all (fb_live sz) (fa_buffers s @ fa_toWrite s)"
      "pred_option (fb_live sz) (fa_current s)" "pred_option (fb_live sz) (fa_next s)"
      "pred_option (fb_live sz) (fa_new1 s)" "pred_option (fb_live sz) (fa_new2 s)"
    using assms by (simp_all add: fa_inv_def)
  obtain a where a: "al_step sz e (fa_abs s) = Inr (a, [])" "al_inv sz a" using al_step_inv [OF inv(2)] by blast
  show ?thesis
  proof (cases e)
    case (AppendLine line)
    then show ?thesis using fa_append_sim [OF assms, of line] a by auto
  next
    case Stop
    then show ?thesis using a inv by (auto simp: al_stop_def fa_abs_def fa_inv_def)
  next
    case ThreadStep
    then have t: "al_thread (fa_abs s) = Inr a" using a(1) by auto
    show ?thesis
    proof (cases "fa_phase s")
      case ATesting
      then show ?thesis using t a ThreadStep inv
        by (auto simp: fa_thread_def al_thread_def fa_test_def al_test_def fa_abs_def fa_inv_def split: if_splits)
    next
      case ATaking
      then show ?thesis using t a ThreadStep inv
        by (cases "fa_current s") (auto simp: fa_thread_def al_thread_def fa_take_def al_take_def fa_abs_def fa_inv_def Let_def split: if_splits)
    next
      case AWriting
      then show ?thesis using t a ThreadStep inv
        by (auto simp: fa_thread_def al_thread_def fa_write_def al_write_def fa_abs_def fa_inv_def)
    next
      case ARecycling
      then have "al_recycle (fa_abs s) = Inr a" using t by (simp add: al_thread_def fa_abs_def)
      from fa_recycle_sim [OF assms this] show ?thesis using a ThreadStep ARecycling by (auto simp: fa_thread_def)
    next
      case AExited
      then show ?thesis using t a ThreadStep assms by (auto simp: fa_thread_def al_thread_def fa_abs_def)
    qed
  qed
qed

interpretation fa: simulation "fa_step sz" "fa_inv sz" "al_step sz" fa_abs "\<lambda>_ _. True" for sz
proof unfold_locales
  fix s e s' os
  assume inv: "fa_inv sz s"
  note sim = fa_step_sim [OF inv, of e]
  show "abs_result fa_abs (fa_step sz e s) = al_step sz e (fa_abs s)" using sim by auto
  show "fa_inv sz s' \<and> True" if "fa_step sz e s = Inr (s', os)" using sim that by auto
qed

lemma fa_start_ok: "0 < sz \<Longrightarrow> fa_inv sz (fa_start sz)" "fa_abs (fa_start sz) = AsyncLogging_start"
proof -
  have b: "fb_bzero (FixedBuffer_new sz) = FixedBuffer_new sz" by (simp add: fb_bzero_def FixedBuffer_new_def)
  show *: "fa_abs (fa_start sz) = AsyncLogging_start"
    by (simp add: fa_start_def fa_abs_def AsyncLogging_start_def b Let_def)
  show "fa_inv sz (fa_start sz)" if "0 < sz"
    unfolding fa_inv_def * using that start_inv [of sz] by (simp add: fa_start_def b Let_def)
qed

text \<open>C10: The asynchronous logger is the same on real buffers. On fixed buffers of any size, with their offsets and their
  bounds, every interleaving of appends, stops and steps of the logging thread has exactly the outcome it has on texts: no
  access outside a buffer and no fault, and each buffer holds the text the abstract one is. So the lines appended are those
  written, in order, followed by what the buffers hold, and every buffer can still be shown by \<open>debugString\<close>.\<close>

theorem logger_on_real_buffers:
  assumes "0 < sz"
  shows "abs_result fa_abs (run_steps (fa_step sz) ops (fa_start sz)) = run_steps (al_step sz) ops AsyncLogging_start \<and>
    (\<exists>s. run_steps (fa_step sz) ops (fa_start sz) = Inr (s, []) \<and>
       appended sz ops = fa_written s @ in_flight (fa_abs s) \<and>
       (\<forall>b \<in> set (fa_buffers s @ fa_toWrite s). \<exists>r. debugString b = Inr r))"
proof -
  have sim: "abs_result fa_abs (run_steps (fa_step sz) ops (fa_start sz)) = run_steps (al_step sz) ops AsyncLogging_start"
    using fa.run_sim [OF fa_start_ok(1) [OF assms]] fa_start_ok(2) by simp
  obtain a where a: "run_steps (al_step sz) ops AsyncLogging_start = Inr (a, [])" "al_inv sz a"
      "accepted a = appended sz ops"
    using al_run [OF start_inv, of sz ops] by (auto simp: AsyncLogging_start_def)
  obtain s os where s: "run_steps (fa_step sz) ops (fa_start sz) = Inr (s, os)"
    using sim a(1) by (cases "run_steps (fa_step sz) ops (fa_start sz)") auto
  then have abs: "fa_abs s = a" "os = []" using sim a(1) by simp_all
  have inv: "fa_inv sz s" using fa.run_keeps [OF fa_start_ok(1) [OF assms] TrueI s] by simp
  have "\<exists>r. debugString b = Inr r" if "b \<in> set (fa_buffers s @ fa_toWrite s)" for b
    using debugString_ok [of sz b] inv that by (auto simp: fa_inv_def list_all_iff)
  moreover have "appended sz ops = fa_written s @ in_flight (fa_abs s)"
    using a(2,3) abs(1) by (auto simp: al_inv_def fa_abs_def)
  ultimately show ?thesis using sim s abs(2) by blast
qed

theorem logger_on_real_buffers_witness:
  "\<exists>s. run_steps (fa_step 4) [AppendLine ''ab'', AppendLine ''cd'', ThreadStep, ThreadStep, ThreadStep, AppendLine ''e''] (fa_start 4) = Inr (s, []) \<and>
     fa_written s @ in_flight (fa_abs s) = ''abcde''"
  using logger_on_real_buffers [of 4 "[AppendLine ''ab'', AppendLine ''cd'', ThreadStep, ThreadStep, ThreadStep, AppendLine ''e'']"]
  by (auto simp del: run_steps.simps)

end
