(* ===== verification/ErrorNo.thy ===== *)
theory ErrorNo
  imports Prelude
begin

text \<open>
  The text of an error number (src/utils/Error_no.cpp). \<open>strerror_r\<close> of the C library is an argument \<open>sr\<close>: it tells
  whether the text of an error is a constant string of the library or is written into the buffer it is given, as the GNU
  version documents. The buffer \<open>t_errnobuf\<close> is thread-local, so there is one per thread, of 512 bytes.
\<close>

section \<open>Operations\<close>

text \<open>The pointer that comes back: to a constant string, or into the buffer of a thread.\<close>

datatype errtext = Constant string | InBuffer int

definition errnobuf_size :: nat where
  "errnobuf_size = 512"

definition strerror_tl ::
  "(int \<Rightarrow> bool \<times> string) \<Rightarrow> int \<Rightarrow> int \<Rightarrow> (int \<Rightarrow> string) \<Rightarrow> errtext \<times> (int \<Rightarrow> string)" where
  "strerror_tl sr t savedErrno t_errnobuf =
     (let (const, msg) = sr savedErrno in
      if const then (Constant msg, t_errnobuf)
      else (InBuffer t, t_errnobuf(t := take (errnobuf_size - 1) msg)))"

definition read_errtext :: "errtext \<Rightarrow> (int \<Rightarrow> string) \<Rightarrow> string" where
  "read_errtext p t_errnobuf = (case p of Constant msg \<Rightarrow> msg | InBuffer t \<Rightarrow> t_errnobuf t)"

text \<open>Calls of several threads, one after the other.\<close>

fun strerror_calls ::
  "(int \<Rightarrow> bool \<times> string) \<Rightarrow> (int \<times> int) list \<Rightarrow> (int \<Rightarrow> string) \<Rightarrow> (int \<Rightarrow> string)" where
  "strerror_calls sr [] bufs = bufs"
| "strerror_calls sr ((t, e) # calls) bufs = strerror_calls sr calls (snd (strerror_tl sr t e bufs))"

section \<open>Thread safety\<close>

lemma strerror_calls_other: "t \<notin> fst ` set calls \<Longrightarrow> strerror_calls sr calls bufs t = bufs t"
  by (induction sr calls bufs rule: strerror_calls.induct) (auto simp: strerror_tl_def split_def Let_def)

text \<open>
  The text a thread got stays what it was whatever the other threads ask for, and is the message, cut to 511
  characters if it is in the buffer. The next call of the same thread may overwrite it: a thread has one text at a time.
\<close>

lemma strerror_tl_thread_safe:
  assumes "strerror_tl sr t e bufs = (p, bufs1)" "t \<notin> fst ` set calls"
  shows "read_errtext p (strerror_calls sr calls bufs1) =
    (if fst (sr e) then snd (sr e) else take 511 (snd (sr e)))"
  using assms strerror_calls_other [OF assms(2), of sr bufs1]
  by (auto simp: strerror_tl_def read_errtext_def errnobuf_size_def split_def Let_def split: if_splits)

lemma strerror_tl_overwrites:
  assumes "strerror_tl sr t e bufs = (p, bufs1)" "strerror_tl sr t e' bufs1 = (p', bufs2)"
    and "\<not> fst (sr e)" "\<not> fst (sr e')"
  shows "p' = p \<and> read_errtext p bufs2 = take 511 (snd (sr e'))"
  using assms by (auto simp: strerror_tl_def read_errtext_def errnobuf_size_def split_def Let_def)

end
