(* ===== verification/ChatRace.thy ===== *)
theory ChatRace
  imports Chat
begin

text \<open>
  The set \<open>connections_\<close> of the chat server (example/Chat/server.cpp) under several loop threads. The callbacks of a
  connection run in the thread of its loop, and a message that arrives there walks through the set with an iterator. A thread is
  in one callback at a time; the callbacks of different threads interleave, for nothing locks the set.
\<close>

section \<open>State\<close>

text \<open>The iterator of a thread that is in \<open>onStringMessage\<close>: the node it points to, or \<open>None\<close> for \<open>end()\<close>.\<close>

record chat_threads =
  ct_members :: "nat list"
  ct_iters :: "int \<rightharpoonup> nat option"

definition ct_init :: chat_threads where
  "ct_init = \<lparr>ct_members = [], ct_iters = Map.empty\<rparr>"

definition set_begin :: "nat list \<Rightarrow> nat option" where
  "set_begin ps = (case ps of [] \<Rightarrow> None | p # _ \<Rightarrow> Some p)"

definition set_next :: "nat \<Rightarrow> nat list \<Rightarrow> nat option" where
  "set_next p ps = find (\<lambda>q. p < q) ps"

section \<open>Steps\<close>

text \<open>
  A connection comes up or goes down, a message arrives on it, or a thread does the next turn of its \<open>for\<close> loop. A
  thread that is still in a callback does not begin another one.
\<close>

datatype chat_op = ChatUp nat | ChatDown nat | ChatMessage nat | ChatNext int

definition in_thread :: "int \<Rightarrow> chat_threads \<Rightarrow> chat_threads \<Rightarrow> (chat_threads \<times> (int \<times> nat) list) result" where
  "in_thread t s s' = Inr (if ct_iters s t = None then s' else s, [])"

fun chat_step :: "(nat \<Rightarrow> int) \<Rightarrow> chat_op \<Rightarrow> chat_threads \<Rightarrow> (chat_threads \<times> (int \<times> nat) list) result" where
  "chat_step loop_of (ChatUp p) s = in_thread (loop_of p) s (s\<lparr>ct_members := insort_insert p (ct_members s)\<rparr>)"
| "chat_step loop_of (ChatDown p) s = in_thread (loop_of p) s (s\<lparr>ct_members := removeAll p (ct_members s)\<rparr>)"
| "chat_step loop_of (ChatMessage p) s =
     in_thread (loop_of p) s (s\<lparr>ct_iters := (ct_iters s)(loop_of p \<mapsto> set_begin (ct_members s))\<rparr>)"
| "chat_step loop_of (ChatNext t) s =
     (case ct_iters s t of
        None \<Rightarrow> Inr (s, [])
      | Some None \<Rightarrow> Inr (s\<lparr>ct_iters := (ct_iters s)(t := None)\<rparr>, [])
      | Some (Some p) \<Rightarrow>
          (if p \<in> set (ct_members s)
           then Inr (s\<lparr>ct_iters := (ct_iters s)(t \<mapsto> set_next p (ct_members s))\<rparr>, [(t, p)])
           else Inl (BadAccess ''it'')))"

section \<open>Properties\<close>

definition iters_ok :: "(nat \<Rightarrow> int) \<Rightarrow> chat_threads \<Rightarrow> bool" where
  "iters_ok loop_of s \<longleftrightarrow>
     (\<forall>t p. ct_iters s t = Some (Some p) \<longrightarrow> p \<in> set (ct_members s)) \<and> (\<forall>t x. ct_iters s t = Some x \<longrightarrow> t \<in> range loop_of)"

lemma set_next_mem: "set_next p ps = Some q \<Longrightarrow> q \<in> set ps"
  by (auto simp: set_next_def find_Some_iff)

lemma set_begin_mem: "set_begin ps = Some q \<Longrightarrow> q \<in> set ps"
  by (auto simp: set_begin_def split: list.splits)

lemma one_thread_step:
  assumes one: "\<And>p q. loop_of p = loop_of q" and ok: "iters_ok loop_of s"
  shows "\<exists>s' es. chat_step loop_of e s = Inr (s', es) \<and> iters_ok loop_of s'"
proof -
  have idle: "ct_iters s t = None" if "ct_iters s (loop_of p) = None" for t p
  proof (cases "ct_iters s t")
    case (Some x)
    then obtain q where "t = loop_of q" using ok by (auto simp: iters_ok_def)
    then show ?thesis using that one [of q p] Some by simp
  qed
  show ?thesis
  proof (cases e)
    case (ChatUp p)
    then show ?thesis using ok by (auto simp: in_thread_def iters_ok_def set_insort_insert)
  next
    case (ChatDown p)
    then show ?thesis using ok idle [of p] by (cases "ct_iters s (loop_of p)") (simp_all add: in_thread_def iters_ok_def)
  next
    case (ChatMessage p)
    then show ?thesis using ok by (auto simp: in_thread_def iters_ok_def dest: set_begin_mem)
  next
    case (ChatNext t)
    then show ?thesis using ok
      by (cases "ct_iters s t") (auto simp: iters_ok_def dest: set_next_mem split: option.splits)
  qed
qed

interpretation cr: faultless_monitor "chat_step loop_of" "\<lambda>_ :: unit. \<lambda>s. (\<forall>p q. loop_of p = loop_of q) \<and> iters_ok loop_of s"
  "\<lambda>_ _ _. True" "\<lambda>_ g. g" "\<lambda>_ _. False" "\<lambda>_. True" for loop_of
proof unfold_locales
  fix s s' e os f
  assume inv: "(\<forall>p q. loop_of p = loop_of q) \<and> iters_ok loop_of s"
  then have ok: "\<exists>s' es. chat_step loop_of e s = Inr (s', es) \<and> iters_ok loop_of s'"
    by (intro one_thread_step) blast+
  show "((\<forall>p q. loop_of p = loop_of q) \<and> iters_ok loop_of s') \<and> True \<and> list_all (\<lambda>_. True) os"
    if "chat_step loop_of e s = Inr (s', os)" using ok inv that by (simp add: list_all_iff)
  show False if "chat_step loop_of e s = Inl f" using ok that by simp
qed simp

lemma two_threads_race:
  assumes "p < q" "loop_of p \<noteq> loop_of q"
  shows "run_steps (chat_step loop_of) [ChatUp p, ChatUp q, ChatMessage q, ChatDown p, ChatNext (loop_of q)] ct_init =
    Inl (BadAccess ''it'')"
  using assms by (simp add: in_thread_def ct_init_def set_begin_def insort_insert_key_def)

text \<open>C38: The chat server needs a single loop thread. If all its connections are in one loop, no sequence of connections
  coming up and going down and of messages makes an iterator of \<open>connections_\<close> invalid. As soon as two connections are in different
  loops, as in the ten threads the example starts, a message that arrives on one of them while the other goes down
  leads to the use of an erased node.\<close>

theorem chat_needs_one_loop:
  "((\<forall>p q. loop_of p = loop_of q) \<longrightarrow> (\<forall>ops. \<exists>s es. run_steps (chat_step loop_of) ops ct_init = Inr (s, es))) \<and>
   (p < q \<longrightarrow> loop_of p \<noteq> loop_of q \<longrightarrow>
     run_steps (chat_step loop_of) [ChatUp p, ChatUp q, ChatMessage q, ChatDown p, ChatNext (loop_of q)] ct_init =
       Inl (BadAccess ''it''))"
proof
  have "iters_ok loop_of ct_init" by (simp add: iters_ok_def ct_init_def)
  then show "(\<forall>p q. loop_of p = loop_of q) \<longrightarrow> (\<forall>ops. \<exists>s es. run_steps (chat_step loop_of) ops ct_init = Inr (s, es))"
    using cr.run_total [of loop_of ct_init] by (metis (no_types, lifting))
  show "p < q \<longrightarrow> loop_of p \<noteq> loop_of q \<longrightarrow>
     run_steps (chat_step loop_of) [ChatUp p, ChatUp q, ChatMessage q, ChatDown p, ChatNext (loop_of q)] ct_init =
       Inl (BadAccess ''it'')"
    using two_threads_race by blast
qed

theorem chat_needs_one_loop_witness:
  "(\<exists>s es. run_steps (chat_step (\<lambda>_. 7)) [ChatUp 1, ChatUp 2, ChatMessage 2, ChatNext 7, ChatDown 1, ChatNext 7] ct_init =
      Inr (s, es)) \<and>
   run_steps (chat_step int) [ChatUp 1, ChatUp 2, ChatMessage 2, ChatDown 1, ChatNext 2] ct_init = Inl (BadAccess ''it'')"
proof
  show "\<exists>s es. run_steps (chat_step (\<lambda>_. 7)) [ChatUp 1, ChatUp 2, ChatMessage 2, ChatNext 7, ChatDown 1, ChatNext 7] ct_init = Inr (s, es)"
    using chat_needs_one_loop [of "\<lambda>_. 7" 1 2] by blast
  have "(1 :: nat) < 2" "int 1 \<noteq> int 2" "int 2 = 2" by simp_all
  then show "run_steps (chat_step int) [ChatUp 1, ChatUp 2, ChatMessage 2, ChatDown 1, ChatNext 2] ct_init = Inl (BadAccess ''it'')"
    using chat_needs_one_loop [of int 1 2] by metis
qed

end
