(* ===== verification/ChatProgram.thy ===== *)
theory ChatProgram
  imports ChatRace ServerProgress InetAddress
begin

text \<open>
  The chat server as its \<open>main\<close> makes it (example/Chat/server.cpp): an address, a \<open>TcpServer\<close> with ten threads, and the
  connections it hands to their loops; the set of connections under these loops is in the theory ChatRace.
\<close>

section \<open>The program\<close>

text \<open>\<open>atoi\<close> and the cast to \<open>uint16_t\<close> of the port, then the constructors, and \<open>start\<close>.\<close>

definition chat_threads_started :: int where
  "chat_threads_started = 10"

definition ChatServer_start :: "int \<Rightarrow> inet \<Rightarrow> int \<Rightarrow> (nat \<Rightarrow> int) \<Rightarrow> int \<Rightarrow> (server \<times> start_eff list) result" where
  "ChatServer_start tid listenAddr fd started rc =
     serve tid (toHostPort listenAddr) fd chat_threads_started started rc"

definition chat_server_main :: "int \<Rightarrow> int \<Rightarrow> int \<Rightarrow> (nat \<Rightarrow> int) \<Rightarrow> int \<Rightarrow> (server \<times> start_eff list) result" where
  "chat_server_main tid argv1 fd started rc =
     ChatServer_start tid (InetAddress_any (word_of_int argv1)) fd started rc"

section \<open>Which loop a connection gets\<close>

lemma serve_pool:
  assumes "serve tid hostport fd n started rc = Inr (srv, cs)"
  shows "srv_tid srv = tid \<and> nextConnId srv = 1 \<and> connections srv = Map.empty \<and>
    threadPool srv = \<lparr>baseLoop = tid, pool_started = True, numThreads = n, next_loop = 0, loops = map started [0..<nat n]\<rparr>"
  using assms
  by (auto simp: serve_def setThreadNum_def TcpServer_start_def TcpServer_new_def pool_start_def pool_setThreadNum_def
      pool_inLoop_def EventLoopThreadPool_new_def Acceptor_new_def assertE_def split: if_splits)

lemma two_accepts:
  assumes "srv_tid srv = tid" "nextConnId srv = 1"
    "threadPool srv = \<lparr>baseLoop = tid, pool_started = True, numThreads = n, next_loop = 0, loops = l0 # l1 # ls\<rparr>"
  shows "\<exists>s nm1 nm2. run_steps server_step [Accept, Accept] srv = Inr (s, [Establish_in l0 1 nm1, Establish_in l1 2 nm2])"
  using assms by (simp add: newConnection_def getNextLoop_def pool_inLoop_def Let_def)

text \<open>Without threads of its own the server keeps every connection in its base loop.\<close>

definition base_only :: "int \<Rightarrow> server \<Rightarrow> bool" where
  "base_only t s \<longleftrightarrow> srv_tid s = t \<and> baseLoop (threadPool s) = t \<and> loops (threadPool s) = []"

fun in_base :: "int \<Rightarrow> srv_eff \<Rightarrow> bool" where
  "in_base t (Establish_in l i nm) \<longleftrightarrow> l = t"
| "in_base t _ \<longleftrightarrow> True"

interpretation bo: faultless_monitor "\<lambda>_ :: unit. newConnection t" "\<lambda>_ :: unit. base_only t" "\<lambda>_ _ _. True" "\<lambda>_ g. g"
  "\<lambda>_ _. False" "in_base t" for t
  by unfold_locales (auto simp: base_only_def newConnection_def getNextLoop_def pool_inLoop_def Let_def)

text \<open>C39: The chat example races as it is started, and would not with one thread. Started with no threads, the server
  gives every connection to its base loop, and then no sequence of connections coming up and going down and of messages makes an
  iterator of the set of connections invalid. Started with two threads or more (\<open>main\<close> starts ten), it gives the
  first two connections to different loops, and a message on the second while the first goes down uses an erased node.\<close>

theorem chat_example_races:
  assumes "serve tid hostport fd n started rc = Inr (srv, cs)" "started 0 \<noteq> started 1"
  shows "(n = 0 \<longrightarrow>
       (\<forall>k. \<exists>s es. run_steps (\<lambda>_ :: unit. newConnection tid) (replicate k ()) srv = Inr (s, es) \<and> list_all (in_base tid) es) \<and>
       (\<forall>ops. \<exists>s es. run_steps (chat_step (\<lambda>_. tid)) ops ct_init = Inr (s, es))) \<and>
     (2 \<le> n \<longrightarrow>
       (\<exists>s nm1 nm2. run_steps server_step [Accept, Accept] srv =
          Inr (s, [Establish_in (started 0) 1 nm1, Establish_in (started 1) 2 nm2])) \<and>
       (\<forall>loop_of. loop_of 1 = started 0 \<longrightarrow> loop_of 2 = started 1 \<longrightarrow>
          run_steps (chat_step loop_of) [ChatUp 1, ChatUp 2, ChatMessage 2, ChatDown 1, ChatNext (started 1)] ct_init =
            Inl (BadAccess ''it'')))"
proof -
  note pool = serve_pool [OF assms(1)]
  have none: "\<exists>s es. run_steps (\<lambda>_ :: unit. newConnection tid) (replicate k ()) srv = Inr (s, es) \<and> list_all (in_base tid) es"
    if "n = 0" for k
  proof -
    have base: "base_only tid srv" using pool that by (simp add: base_only_def)
    obtain s es where "run_steps (\<lambda>_ :: unit. newConnection tid) (replicate k ()) srv = Inr (s, es)" "list_all (in_base tid) es"
      by (rule bo.run_total [OF base TrueI])
    then show ?thesis by blast
  qed
  have iters: "iters_ok (\<lambda>_. tid) ct_init" by (simp add: iters_ok_def ct_init_def)
  have one: "\<exists>s es. run_steps (chat_step (\<lambda>_. tid)) ops ct_init = Inr (s, es)" for ops
  proof -
    have "(\<forall>p q. (\<lambda>_. tid) p = (\<lambda>_. tid) q) \<and> iters_ok (\<lambda>_. tid) ct_init" using iters by simp
    then obtain s es where "run_steps (chat_step (\<lambda>_. tid)) ops ct_init = Inr (s, es)"
      by (rule cr.run_total [OF _ TrueI])
    then show ?thesis by blast
  qed
  have two: "\<exists>s nm1 nm2. run_steps server_step [Accept, Accept] srv =
      Inr (s, [Establish_in (started 0) 1 nm1, Establish_in (started 1) 2 nm2])" if "2 \<le> n"
  proof -
    have "0 < nat n" "Suc 0 < nat n" using that by simp_all
    then have "[0..<nat n] = 0 # 1 # [2..<nat n]" by (simp add: upt_conv_Cons numeral_2_eq_2)
    then show ?thesis using pool by (intro two_accepts [of srv tid]) simp_all
  qed
  have race: "run_steps (chat_step loop_of) [ChatUp 1, ChatUp 2, ChatMessage 2, ChatDown 1, ChatNext (started 1)] ct_init =
      Inl (BadAccess ''it'')" if "loop_of 1 = started 0" "loop_of 2 = started 1" for loop_of
    using two_threads_race [of 1 2 loop_of] assms(2) that by (simp del: run_steps.simps)
  show ?thesis using none one two race by blast
qed

theorem chat_example_races_witness:
  "\<exists>srv cs s nm1 nm2. chat_server_main 7 2007 3 (\<lambda>i. 8 + int i) 0 = Inr (srv, cs) \<and>
     run_steps server_step [Accept, Accept] srv = Inr (s, [Establish_in 8 1 nm1, Establish_in 9 2 nm2])"
proof -
  let ?hp = "toHostPort (InetAddress_any (word_of_int 2007))"
  obtain srv cs where s: "serve 7 ?hp 3 10 (\<lambda>i. 8 + int i) 0 = Inr (srv, cs)"
    by (simp add: serve_def setThreadNum_def TcpServer_start_def TcpServer_new_def pool_start_def pool_setThreadNum_def
        pool_inLoop_def EventLoopThreadPool_new_def Acceptor_new_def Acceptor_listen_def Channel_new_def
        enableReading_def updateChannel_def update_def kNoneEvent_def kNew_def kAdded_def Let_def)
  then have "chat_server_main 7 2007 3 (\<lambda>i. 8 + int i) 0 = Inr (srv, cs)"
    by (simp add: chat_server_main_def ChatServer_start_def chat_threads_started_def)
  then show ?thesis using chat_example_races [OF s] by auto
qed

end
