(* ===== verification/TestServers.thy ===== *)
theory TestServers
  imports ConnSafety
begin

text \<open>
  The servers of the tests (test/test8.cpp to test/test11.cpp) and the client of test/test13.cpp: their connection and
  message callbacks on the model of a connection. What they print is output of user code.
\<close>

section \<open>Callbacks\<close>

datatype shown = ConnUp string | ConnDown string | Received nat | Content "byte list"

text \<open>\<open>onConnection\<close> of test8 and test9 (and the lines all of them print).\<close>

definition print_onConnection :: "bool \<Rightarrow> string \<Rightarrow> shown conn_call list" where
  "print_onConnection on nm = (if on then [CallUser (ConnUp nm)] else [CallUser (ConnDown nm)])"

text \<open>test8 and test13: print what was received.\<close>

definition discard_onMessage :: "shown message_cb" where
  "discard_onMessage b = bindE (retrieveAsString b) (\<lambda>(str, b').
     Inr (b', [CallUser (Received (unat (readableBytes b))), CallUser (Content str)]))"

text \<open>test9: send it back.\<close>

definition echo_onMessage :: "write_outcome \<Rightarrow> int \<Rightarrow> shown message_cb" where
  "echo_onMessage w rc b = bindE (retrieveAsString b) (\<lambda>(str, b').
     Inr (b', [CallUser (Received (unat (readableBytes b))), CallSend w rc str]))"

text \<open>test10: two messages and a half-close. test11: one message, and again whenever it was written.\<close>

definition drop_onMessage :: "shown message_cb" where
  "drop_onMessage b = Inr (retrieveAll b, [CallUser (Received (unat (readableBytes b)))])"

definition test10_onConnection ::
  "write_outcome \<Rightarrow> write_outcome \<Rightarrow> byte list \<Rightarrow> byte list \<Rightarrow> bool \<Rightarrow> string \<Rightarrow> shown conn_call list" where
  "test10_onConnection w1 w2 message1 message2 on nm =
     (if on then [CallUser (ConnUp nm), CallSend w1 0 message1, CallSend w2 0 message2, CallShutdown]
      else [CallUser (ConnDown nm)])"

definition test11_onConnection :: "write_outcome \<Rightarrow> byte list \<Rightarrow> bool \<Rightarrow> string \<Rightarrow> shown conn_call list" where
  "test11_onConnection w message on nm =
     (if on then [CallUser (ConnUp nm), CallSend w 0 message] else [CallUser (ConnDown nm)])"

definition test11_onWriteComplete :: "write_outcome \<Rightarrow> byte list \<Rightarrow> shown conn_call list" where
  "test11_onWriteComplete w message = [CallSend w 0 message]"

text \<open>The messages of test10, of the lengths given by the arguments or of 100 and 200 bytes; test13 greets the server.\<close>

definition test10_messages :: "(nat \<times> nat) option \<Rightarrow> byte list \<times> byte list" where
  "test10_messages args = (let (len1, len2) = (case args of None \<Rightarrow> (100, 200) | Some lens \<Rightarrow> lens) in
     (replicate len1 65, replicate len2 66))"

definition test13_onConnection :: "write_outcome \<Rightarrow> bool \<Rightarrow> string \<Rightarrow> shown conn_call list" where
  "test13_onConnection w on nm =
     (if on then [CallUser (ConnUp nm), CallSend w 0 [72, 101, 108, 108, 111, 10]] else [CallUser (ConnDown nm)])"

text \<open>The message of test11: the printable characters in 94 lines of 72, each shifted by one.\<close>

definition test11_message :: "byte list" where
  "test11_message = (let line = map word_of_nat [33..<127]; line2 = line @ line in
     concat (map (\<lambda>i. take 72 (drop i line2) @ [10]) [0..<127 - 33]))"

section \<open>The echo server\<close>

text \<open>Bytes arrive, or the descriptor can be written to; \<open>w\<close> is the answer to the write that follows.\<close>

datatype echo_ev = EchoIn "byte list" write_outcome | EchoOut write_outcome

fun echo_op :: "echo_ev \<Rightarrow> shown conn_op" where
  "echo_op (EchoIn chunk w) = Event POLLIN \<lparr>env_read = ReadBytes chunk, env_msg = echo_onMessage w 0,
     env_write = WriteFail EWOULDBLOCK, env_rcClose = 0, env_rcRead = 0, env_rcWrite = 0\<rparr>"
| "echo_op (EchoOut w) = Event POLLOUT \<lparr>env_read = ReadFail EWOULDBLOCK, env_msg = echo_onMessage w 0,
     env_write = w, env_rcClose = 0, env_rcRead = 0, env_rcWrite = 0\<rparr>"

fun echo_received :: "echo_ev list \<Rightarrow> byte list" where
  "echo_received [] = []"
| "echo_received (EchoIn chunk w # evs) = chunk @ echo_received evs"
| "echo_received (EchoOut w # evs) = echo_received evs"

text \<open>What the kernel keeps to: no empty reads (they would be the end of the stream), no write of more than is pending.\<close>

fun echo_fits :: "echo_ev list \<Rightarrow> conn \<Rightarrow> bool" where
  "echo_fits [] c \<longleftrightarrow> True"
| "echo_fits (ev # evs) c \<longleftrightarrow>
     (case ev of
        EchoIn chunk w \<Rightarrow> chunk \<noteq> [] \<and> length chunk + 8 \<le> max_size
      | EchoOut w \<Rightarrow> written_at_most (length (content (c_out c))) w) \<and>
     (case conn_step (echo_op ev) c of Inl f \<Rightarrow> True | Inr (c', es) \<Rightarrow> echo_fits evs c')"

definition echo_ready :: "conn \<Rightarrow> bool" where
  "echo_ready c \<longleftrightarrow> up c \<and> c_msgCb c \<and> readCb (c_chan c) \<and> writeCb (c_chan c) \<and> readerIndex (c_in c) = 8 \<and> writerIndex (c_in c) = 8"

lemma sendInLoop_frame:
  assumes "sendInLoop t w rc m c = Inr (c', es)"
  shows "c_in c' = c_in c \<and> c_msgCb c' = c_msgCb c \<and> readCb (c_chan c') = readCb (c_chan c) \<and>
    writeCb (c_chan c') = writeCb (c_chan c) \<and> sent es = m \<and> c_tid c' = c_tid c"
  using assms
  by (auto simp: sendInLoop_def inLoop_def with_chan_def enableWriting_def updateChannel_def update_def Let_def
      split: if_splits write_outcome.splits prod.splits)

lemma handleWrite_frame:
  assumes "handleWrite t w rc c = Inr (c', es :: 'u conn_eff list)"
  shows "c_in c' = c_in c \<and> c_msgCb c' = c_msgCb c \<and> readCb (c_chan c') = readCb (c_chan c) \<and>
    writeCb (c_chan c') = writeCb (c_chan c) \<and> sent es = []"
proof -
  have sent: "sent (map ECtl cs) = []" "sent (es1 @ es2) = sent es1 @ sent es2" for cs and es1 es2 :: "'u conn_eff list"
    by (induction cs; simp) (induction es1 rule: sent.induct; simp)
  show ?thesis
  proof (cases "isWriting (c_chan c) \<and> (\<exists>n. w = Written n \<and> 0 < n)")
    case True
    then obtain n where "isWriting (c_chan c)" "w = Written n" "0 < n" by blast
    then show ?thesis using assms
      by (auto simp: handleWrite_def inLoop_def with_chan_def andThen_def disableWriting_def updateChannel_def update_def
          shutdownInLoop_def sent Let_def split: if_splits)
  next
    case False
    then show ?thesis using assms
      by (cases w) (auto simp: handleWrite_def inLoop_def split: if_splits)
  qed
qed

lemma echo_in:
  assumes r: "echo_ready c" and chunk: "chunk \<noteq> []" "length chunk + 8 \<le> max_size"
  shows "conn_step (echo_op (EchoIn chunk w)) c = Inl LengthError \<or>
    (\<exists>c' es. conn_step (echo_op (EchoIn chunk w)) c = Inr (c', es) \<and> echo_ready c' \<and> sent es = chunk)"
proof -
  let ?ch = "(set_revents POLLIN (c_chan c))\<lparr>eventHandling := True\<rparr>"
  let ?c = "c\<lparr>c_chan := ?ch\<rparr>"
  have R: "up c" "c_msgCb c" "readCb (c_chan c)" "readerIndex (c_in c) = 8" "writerIndex (c_in c) = 8"
    using r by (simp_all add: echo_ready_def)
  have ok: "buffer_ok (c_in c)" using R(1) by (simp add: up_def conn_ready_def)
  have "content (c_in c) = []" using R(4,5) by (simp add: content_def)
  moreover have "room (c_in c) (length (readv_data (ReadBytes chunk)))" using R(5) chunk(2) by (simp add: room_def readv_data_def)
  ultimately obtain err b where rd: "readFd (ReadBytes chunk) (c_in c) = Inr (int (length chunk), err, b)" "buffer_ok b"
      "content b = chunk"
    using readFd_ok [OF ok, of "ReadBytes chunk"] by (auto simp: readv_data_def readv_ret_def)
  note str = retrieveAsString_ok [OF rd(2)]
  have f: "fired (set_revents POLLIN (c_chan c)) = [ReadCb]" using R(3) by (simp add: fired_def set_revents_def poll_bits)
  let ?c1 = "?c\<lparr>c_in := retrieveAll b\<rparr>"
  have up1: "up ?c1" using R(1) rd(2) retrieveAll_ok(1) [OF rd(2)]
    by (simp add: up_def conn_ready_def conn_inv_def set_revents_def isWriting_bit)
  have len: "length chunk \<le> max_size" using chunk(2) by simp
  from sendInLoop_fares [OF up1 _ len, of 0 w, where ?'u = shown]
  have sil: "(sendInLoop (c_tid c) w 0 chunk ?c1 :: (conn \<times> shown conn_eff list) result) = Inl LengthError \<or>
      (\<exists>c2 es. sendInLoop (c_tid c) w 0 chunk ?c1 = Inr (c2, es :: shown conn_eff list) \<and> up c2)"
    by (auto simp: fares_def)
  have step: "conn_step (echo_op (EchoIn chunk w)) c =
      bindE (sendInLoop (c_tid c) w 0 chunk ?c1) (\<lambda>(c2, es). Inr (c2\<lparr>c_chan := (c_chan c2)\<lparr>eventHandling := False\<rparr>\<rparr>,
        EUser (Received (unat (readableBytes b))) # es))"
    using f R(1,2) rd str chunk(1)
    by (simp add: handleEvent_def set_revents_def handleRead_def echo_onMessage_def send_def up_def Let_def)
      (simp add: bindE_def split: sum.splits)
  show ?thesis
  proof (cases "(sendInLoop (c_tid c) w 0 chunk ?c1 :: (conn \<times> shown conn_eff list) result) = Inl LengthError")
    case True
    then show ?thesis using step by simp
  next
    case False
    then obtain c2 and es :: "shown conn_eff list" where s: "sendInLoop (c_tid c) w 0 chunk ?c1 = Inr (c2, es)" "up c2"
      using sil by blast
    note fr = sendInLoop_frame [OF s(1)]
    have "echo_ready (c2\<lparr>c_chan := (c_chan c2)\<lparr>eventHandling := False\<rparr>\<rparr>)"
      using s(2) fr R r by (simp add: echo_ready_def up_def conn_ready_def conn_inv_def isWriting_bit set_revents_def
          retrieveAll_def kCheapPrepend_def)
    then show ?thesis using step s(1) fr by simp
  qed
qed

lemma echo_out:
  assumes r: "echo_ready c" and w: "written_at_most (length (content (c_out c))) w"
  shows "\<exists>c' es. conn_step (echo_op (EchoOut w)) c = Inr (c', es) \<and> echo_ready c' \<and> sent es = [] \<or>
    conn_step (echo_op (EchoOut w)) c = Inl LengthError"
proof -
  let ?c = "c\<lparr>c_chan := (set_revents POLLOUT (c_chan c))\<lparr>eventHandling := True\<rparr>\<rparr>"
  have R: "up c" "writeCb (c_chan c)" using r by (simp_all add: echo_ready_def)
  have f: "fired (set_revents POLLOUT (c_chan c)) = [WriteCb]" using R(2) by (simp add: fired_def set_revents_def poll_bits)
  have up1: "up ?c" using R(1) by (simp add: up_def conn_ready_def conn_inv_def set_revents_def isWriting_bit)
  from handleWrite_fares [OF up1, of 0 w, where ?'u = shown] w
  have "fares up [] ?c (handleWrite (c_tid c) w 0 ?c :: (conn \<times> shown conn_eff list) result)" by (cases w) auto
  then show ?thesis
  proof (cases "handleWrite (c_tid c) w 0 ?c :: (conn \<times> shown conn_eff list) result")
    case (Inr p)
    obtain c2 es where p: "p = (c2, es)" by (cases p)
    have "up c2" using \<open>fares up [] ?c _\<close> Inr p by simp
    moreover note fr = handleWrite_frame [OF Inr [unfolded p]]
    ultimately have "echo_ready (c2\<lparr>c_chan := (c_chan c2)\<lparr>eventHandling := False\<rparr>\<rparr>)"
      using r by (simp add: echo_ready_def up_def conn_ready_def conn_inv_def isWriting_bit set_revents_def)
    then show ?thesis using Inr p f fr by (simp add: handleEvent_def set_revents_def)
  next
    case (Inl e)
    then show ?thesis using \<open>fares up [] ?c _\<close> f by (simp add: fares_def handleEvent_def set_revents_def)
  qed
qed

lemma sent_append [simp]: "sent (es @ fs) = sent es @ sent fs"
  by (induction es rule: sent.induct) simp_all

lemma echo_run:
  "echo_ready c \<Longrightarrow> echo_fits evs c \<Longrightarrow> run_steps conn_step (map echo_op evs) c = Inl LengthError \<or>
    (\<exists>c' es. run_steps conn_step (map echo_op evs) c = Inr (c', es) \<and> echo_ready c' \<and> sent es = echo_received evs)"
proof (induction evs arbitrary: c)
  case (Cons ev evs)
  have "conn_step (echo_op ev) c = Inl LengthError \<or>
      (\<exists>c' es. conn_step (echo_op ev) c = Inr (c', es) \<and> echo_ready c' \<and> sent es = echo_received [ev])"
  proof (cases ev)
    case (EchoIn chunk w)
    then show ?thesis using echo_in [OF Cons.prems(1), of chunk w] Cons.prems(2) by auto
  next
    case (EchoOut w)
    then show ?thesis using echo_out [OF Cons.prems(1), of w] Cons.prems(2) by auto
  qed
  then consider "conn_step (echo_op ev) c = Inl LengthError" | c1 es1 where
      "conn_step (echo_op ev) c = Inr (c1, es1)" "echo_ready c1" "sent es1 = echo_received [ev]" by blast
  then show ?case
  proof cases
    case 1
    then show ?thesis by simp
  next
    case (2 c1 es1)
    have "echo_fits evs c1" using Cons.prems(2) 2(1) by simp
    from Cons.IH [OF 2(2) this] show ?thesis using 2
      by (cases ev) (auto simp del: conn_step.simps)
  qed
qed simp

text \<open>Establishing a new connection is the connection callback on a connection that is up.\<close>

lemma establish_eq:
  "\<exists>c1. up c1 \<and> c_tid c1 = t \<and> c_msgCb c1 \<and> c_wcCb c1 \<and> readCb (c_chan c1) \<and> writeCb (c_chan c1) \<and> c_in c1 = Buffer_new \<and>
    c_out c1 = Buffer_new \<and> (\<forall>calls. conn_step (Establish 0 calls) (fresh_conn t nm fd) =
      bindE (run_steps (do_call t) calls c1) (\<lambda>(c, es1).
        Inr (c, ECtl (Ctl EPOLL_CTL_ADD fd kReadEvent) # EConnectionCb True # es1)))"
proof -
  let ?ch = "(c_chan (fresh_conn t nm fd))\<lparr>events := kReadEvent, ch_index := kAdded\<rparr>"
  let ?c1 = "(fresh_conn t nm fd)\<lparr>c_state := kConnected, c_chan := ?ch\<rparr>"
  have eq: "conn_step (Establish 0 calls) (fresh_conn t nm fd) =
      bindE (run_steps (do_call t) calls ?c1) (\<lambda>(c, es1).
        Inr (c, ECtl (Ctl EPOLL_CTL_ADD fd kReadEvent) # EConnectionCb True # es1))" for calls :: "'a conn_call list"
    by (simp add: conn_evals) (simp add: bindE_def split: sum.splits)
  have "fares up [EConnectionCb True] (fresh_conn t nm fd) (conn_step (Establish 0 ([] :: 'a conn_call list)) (fresh_conn t nm fd))"
    by (rule establish_fares [OF fresh_fresh_conn]) simp_all
  then have "up ?c1" unfolding eq by simp
  moreover have "c_tid ?c1 = t" "c_msgCb ?c1" "c_wcCb ?c1" "readCb (c_chan ?c1)" "writeCb (c_chan ?c1)" "c_in ?c1 = Buffer_new"
      "c_out ?c1 = Buffer_new" by (simp_all add: conn_evals)
  ultimately show ?thesis using eq by (intro exI [of _ ?c1] conjI allI)
qed

lemma establish_calls:
  fixes calls :: "'u conn_call list"
  assumes "conn_step (Establish 0 calls) (fresh_conn t nm fd) = Inr (c, es)"
  shows "\<exists>c1 es1. run_steps (do_call t) calls c1 = Inr (c, es1) \<and> up c1 \<and> c_tid c1 = t \<and> c_msgCb c1 \<and>
    readCb (c_chan c1) \<and> writeCb (c_chan c1) \<and> c_in c1 = Buffer_new \<and> sent es = sent es1"
  using assms establish_eq [of t nm fd, where ?'a = 'u] by (fastforce simp del: conn_step.simps)

lemma establish_fails:
  fixes calls :: "'u conn_call list"
  assumes "conn_step (Establish 0 calls) (fresh_conn t nm fd) = Inl e"
  shows "\<exists>c1. run_steps (do_call t) calls c1 = Inl e \<and> up c1 \<and> c_tid c1 = t"
  using assms establish_eq [of t nm fd, where ?'a = 'u] by (fastforce simp: bindE_eq_Inl simp del: conn_step.simps)

lemma establish_ready:
  assumes "conn_step (Establish 0 (print_onConnection True nm)) (fresh_conn t nm fd) = Inr (c, es)"
  shows "echo_ready c \<and> sent es = []"
proof -
  obtain c1 es1 where c1: "run_steps (do_call t) (print_onConnection True nm) c1 = Inr (c, es1)" "up c1" "c_msgCb c1"
      "readCb (c_chan c1)" "writeCb (c_chan c1)" "c_in c1 = Buffer_new" "sent es = sent es1"
    using establish_calls [OF assms] by blast
  then have "c = c1" "sent es1 = []" by (auto simp: print_onConnection_def)
  then show ?thesis using c1 by (simp add: echo_ready_def Buffer_new_def kCheapPrepend_def)
qed

text \<open>C22: The echo server sends back what it receives. Whatever chunks the bytes of a connection arrive in, and however the
  kernel takes what is written, the bytes written so far followed by those in the output buffer are the bytes
  received, in order, and nothing is left in the input buffer; the only way to fail is that a buffer outgrows the largest
  size of a vector.\<close>

theorem echo_server_echoes:
  assumes "conn_step (Establish 0 (print_onConnection True nm)) (fresh_conn t nm fd) = Inr (c0, es0)" "echo_fits evs c0"
  shows "run_steps conn_step (map echo_op evs) c0 = Inl LengthError \<or>
    (\<exists>c es. run_steps conn_step (map echo_op evs) c0 = Inr (c, es) \<and>
       wire (es0 @ es) @ content (c_out c) = echo_received evs \<and> content (c_in c) = [])"
proof -
  have r: "echo_ready c0" "sent es0 = []" using establish_ready [OF assms(1)] by simp_all
  have inv0: "conn_inv (fresh_conn t nm fd)" by simp
  from echo_run [OF r(1) assms(2)] show ?thesis
  proof
    assume "\<exists>c es. run_steps conn_step (map echo_op evs) c0 = Inr (c, es) \<and> echo_ready c \<and> sent es = echo_received evs"
    then obtain c es where run: "run_steps conn_step (map echo_op evs) c0 = Inr (c, es)" "echo_ready c"
        "sent es = echo_received evs" by blast
    have "run_steps conn_step (Establish 0 (print_onConnection True nm) # map echo_op evs) (fresh_conn t nm fd) = Inr (c, es0 @ es)"
      using assms(1) run(1) by (simp del: conn_step.simps)
    from conn_run_faithful [OF inv0 this] have "observes (es0 @ es) (mirror (fresh_conn t nm fd)) = Some (mirror c)"
      by (simp add: faithful_def)
    from observes_balance [OF this [unfolded mirror_def]]
    have "content (c_out (fresh_conn t nm fd)) @ sent (es0 @ es) = wire (es0 @ es) @ content (c_out c)" .
    moreover have "content (c_out (fresh_conn t nm fd)) = []" by (simp add: conn_evals content_def)
    moreover have "content (c_in c) = []" using run(2) by (simp add: echo_ready_def content_def)
    ultimately show ?thesis using run(1,3) r(2) by simp
  qed simp
qed

theorem echo_server_echoes_witness:
  "\<exists>c0 es0 c es. conn_step (Establish 0 (print_onConnection True ''c'')) (fresh_conn 5 ''c'' 7) = Inr (c0, es0) \<and>
     run_steps conn_step (map echo_op [EchoIn [1, 2, 3] (Written 1), EchoOut (Written 1), EchoIn [4] (WriteFail 11), EchoOut (Written 2)]) c0 =
       Inr (c, es) \<and>
     wire (es0 @ es) @ content (c_out c) = [1, 2, 3, 4] \<and> wire (es0 @ es) = [1, 2, 3, 4]"
proof -
  let ?evs = "[EchoIn [1, 2, 3] (Written 1), EchoOut (Written 1), EchoIn [4] (WriteFail 11), EchoOut (Written 2)]"
  note evs = conn_evals print_onConnection_def echo_onMessage_def retrieveAsString_def handleRead_def readFd_def write_at_def
    overwrite_def resize_def makeSpace_def content_def max_size_def
  obtain c0 es0 where c0: "conn_step (Establish 0 (print_onConnection True ''c'')) (fresh_conn 5 ''c'' 7) = Inr (c0, es0)"
    and fits: "echo_fits ?evs c0" and run: "\<exists>c es. run_steps conn_step (map echo_op ?evs) c0 = Inr (c, es) \<and> wire (es0 @ es) = [1, 2, 3, 4]"
    by (simp add: evs)
  from echo_server_echoes [OF c0 fits] run c0 show ?thesis by auto
qed

section \<open>The tests that close or send on\<close>

lemma calls_frame:
  "run_steps (do_call t) calls c = Inr (c', es) \<Longrightarrow>
    c_in c' = c_in c \<and> readCb (c_chan c') = readCb (c_chan c) \<and> c_tid c' = c_tid c"
proof (induction calls arbitrary: c es)
  case (Cons call calls)
  obtain c1 es1 es2 where 1: "do_call t call c = Inr (c1, es1)" "run_steps (do_call t) calls c1 = Inr (c', es2)"
    using Cons.prems by auto
  have "c_in c1 = c_in c \<and> readCb (c_chan c1) = readCb (c_chan c) \<and> c_tid c1 = c_tid c"
  proof (cases call)
    case (CallSend w rc m)
    then show ?thesis using 1(1) sendInLoop_frame [of t w rc m c c1 es1] by (auto simp: send_def split: if_splits)
  qed (use 1(1) in \<open>auto simp: shutdown_def shutdownInLoop_def inLoop_def setTcpNoDelay_def Let_def split: if_splits\<close>)
  then show ?case using Cons.IH [OF 1(2)] by simp
qed simp

definition eof_env :: "shown event_env" where
  "eof_env = \<lparr>env_read = ReadBytes [], env_msg = drop_onMessage, env_write = WriteFail EWOULDBLOCK,
     env_rcClose = 0, env_rcRead = 0, env_rcWrite = 0\<rparr>"

text \<open>The server of test10 does not outlive its first client. It sends two messages to each new connection and calls
  \<open>shutdown\<close>, as the end of a reply; when the client, having read them, closes its side, \<open>handleClose\<close> finds the state
  \<open>kDisconnected\<close>, and its assert aborts the whole server.\<close>

theorem test10_server_aborts:
  assumes "length message1 \<le> max_size" "length message2 \<le> max_size"
  shows "run_steps conn_step [Establish 0 (test10_onConnection w1 w2 message1 message2 True nm), Event POLLIN eof_env]
      (fresh_conn t nm fd) \<in> {Inl LengthError, Inl (Assertion ''state_ == kConnected'')}"
proof -
  let ?sends = "[CallUser (ConnUp nm), CallSend w1 0 message1, CallSend w2 0 message2]"
  have calls: "test10_onConnection w1 w2 message1 message2 True nm = ?sends @ [CallShutdown]"
    by (simp add: test10_onConnection_def)
  show ?thesis
  proof (cases "conn_step (Establish 0 (test10_onConnection w1 w2 message1 message2 True nm)) (fresh_conn t nm fd)")
    case (Inr p)
    obtain c es where p: "p = (c, es)" by (cases p)
    obtain c1 es1 where c1: "run_steps (do_call t) (?sends @ [CallShutdown]) c1 = Inr (c, es1)" "up c1" "c_tid c1 = t"
        "readCb (c_chan c1)" "c_in c1 = Buffer_new"
      using establish_calls [OF Inr [unfolded p], unfolded calls] by blast
    then obtain c2 and es2 es3 :: "shown conn_eff list" where
        c2: "run_steps (do_call t) ?sends c1 = Inr (c2, es2)" "shutdown t c2 = Inr (c, es3)"
      unfolding run_steps_append by auto
    have "fares up [] c1 (run_steps (do_call t) ?sends c1 :: (conn \<times> shown conn_eff list) result)"
      by (rule calls_fare) (use assms c1(2,3) in auto)
    then have "up c2" unfolding c2(1) by simp
    then have st: "c_state c = kDisconnected" using c2(2) c1(3)
      by (auto simp: up_def shutdown_def shutdownInLoop_def inLoop_def Let_def split: if_splits)
    have fr: "c_in c = Buffer_new" "readCb (c_chan c)" using calls_frame [OF c1(1)] c1(4,5) by simp_all
    have "conn_step (Event POLLIN eof_env) c = Inl (Assertion ''state_ == kConnected'')"
      using st fr by (simp add: handleEvent_def fired_def set_revents_def poll_bits handleRead_def readFd_def Let_def
          handleClose_def inLoop_def eof_env_def Buffer_new_def write_at_def overwrite_def
          kCheapPrepend_def kInitialSize_def)
    then show ?thesis using Inr p by (simp del: conn_step.simps)
  next
    case (Inl e)
    obtain c1 where c1: "run_steps (do_call t) (?sends @ [CallShutdown]) c1 = Inl e" "up c1" "c_tid c1 = t"
      using establish_fails [OF Inl, unfolded calls] by blast
    have f: "fares up [] c1 (run_steps (do_call t) ?sends c1 :: (conn \<times> shown conn_eff list) result)" by (rule calls_fare) (use assms c1(2,3) in auto)
    have "e = LengthError"
    proof (cases "run_steps (do_call t) ?sends c1")
      case (Inl x)
      then have "x = LengthError" using f by (auto simp: fares_def)
      then show ?thesis using c1(1) Inl unfolding run_steps_append by simp
    next
      case (Inr r)
      obtain c2 es2 where r: "r = (c2, es2)" by (cases r)
      have c2: "same_conn c1 c2" using f unfolding Inr r by simp
      have "\<exists>q. shutdown t c2 = Inr (q :: conn \<times> shown conn_eff list)"
        using c1(3) c2 by (auto simp: shutdown_def shutdownInLoop_def inLoop_def same_conn_def Let_def)
      then show ?thesis using c1(1) Inr r unfolding run_steps_append by auto
    qed
    then show ?thesis using Inl by (simp del: conn_step.simps)
  qed
qed

theorem test10_server_aborts_witness:
  "run_steps conn_step [Establish 0 (test10_onConnection (Written 2) (WriteFail 11) [65, 65] [66] True ''c''), Event POLLIN eof_env]
      (fresh_conn 5 ''c'' 7) = Inl (Assertion ''state_ == kConnected'')"
proof -
  have "run_steps conn_step [Establish 0 (test10_onConnection (Written 2) (WriteFail 11) [65, 65] [66] True ''c'')]
      (fresh_conn 5 ''c'' 7) \<noteq> Inl LengthError \<and>
    run_steps conn_step [Establish 0 (test10_onConnection (Written 2) (WriteFail 11) [65, 65] [66] True ''c''), Event POLLIN eof_env]
      (fresh_conn 5 ''c'' 7) \<noteq> Inl LengthError"
    by (simp add: conn_evals test10_onConnection_def eof_env_def handleRead_def readFd_def write_at_def)
  then show ?thesis
    using test10_server_aborts [of "[65, 65]" "[66]" "Written 2" "WriteFail 11" "''c''" 5 7] by (simp add: max_size_def)
qed

section \<open>The test that sends on\<close>

text \<open>The descriptor becomes writable, and the kernel takes \<open>n\<close> bytes.\<close>

lemma writable_event:
  assumes r: "up c" "writeCb (c_chan c)" and wr: "isWriting (c_chan c)" and n: "0 < n" "unat n \<le> length (content (c_out c))"
  shows "\<exists>c' es. conn_step (echo_op (EchoOut (Written n))) c = Inr (c', es) \<and> up c' \<and> writeCb (c_chan c') \<and>
    content (c_out c') = drop (unat n) (content (c_out c)) \<and> wire es = take (unat n) (content (c_out c)) \<and>
    EWriteCompleteQueued \<notin> set es"
proof -
  let ?c = "c\<lparr>c_chan := (set_revents POLLOUT (c_chan c))\<lparr>eventHandling := True\<rparr>\<rparr>"
  have f: "fired (set_revents POLLOUT (c_chan c)) = [WriteCb]" using r(2) by (simp add: fired_def set_revents_def poll_bits)
  have up1: "up ?c" using r(1) by (simp add: up_def conn_ready_def conn_inv_def set_revents_def isWriting_bit)
  have inv: "conn_inv ?c" "isWriting (c_chan ?c)" using up1 wr by (simp_all add: up_def conn_ready_def set_revents_def isWriting_bit)
  obtain c2 cs where st: "handleWrite (c_tid ?c) (Written n) 0 ?c = Inr (c2, [EWrite (take (unat n) (content (c_out ?c)))]
         @ map ECtl cs @ (if unat n = length (content (c_out ?c)) \<and> c_state ?c = kDisconnected then [EShutdownWr :: shown conn_eff] else []))"
      and c2: "content (c_out c2) = drop (unat n) (content (c_out ?c))"
    using handleWrite_written [OF inv, of 0 n, where ?'u = shown] n by auto
  have nd: "c_state c \<noteq> kDisconnected" using r(1) by (simp add: up_def)
  have "fares up [] ?c (handleWrite (c_tid ?c) (Written n) 0 ?c :: (conn \<times> shown conn_eff list) result)"
    by (rule handleWrite_fares [OF up1]) (use n in auto)
  then have "up c2" unfolding st by simp
  moreover note fr = handleWrite_frame [OF st]
  ultimately have "up (c2\<lparr>c_chan := (c_chan c2)\<lparr>eventHandling := False\<rparr>\<rparr>)"
    by (simp add: up_def conn_ready_def conn_inv_def isWriting_bit)
  then show ?thesis using st c2 f fr r(2) nd by (auto simp: handleEvent_def set_revents_def)
qed

lemma writable_events:
  assumes "\<forall>n\<in>set ns. 0 < n"
  shows "up c \<Longrightarrow> writeCb (c_chan c) \<Longrightarrow> sum_list (map unat ns) = length (content (c_out c)) \<Longrightarrow>
    \<exists>c' es. run_steps conn_step (map (\<lambda>n. echo_op (EchoOut (Written n))) ns) c = Inr (c', es) \<and> up c' \<and>
      content (c_out c') = [] \<and> wire es = content (c_out c) \<and> EWriteCompleteQueued \<notin> set es"
  using assms
proof (induction ns arbitrary: c)
  case (Cons n ns)
  have n: "0 < n" "unat n \<le> length (content (c_out c))" using Cons.prems by auto
  have "0 < unat n" using n(1) by (simp add: word_less_nat_alt)
  then have "content (c_out c) \<noteq> []" using n(2) by auto
  then have wr: "isWriting (c_chan c)"
    using conn_invD(2) [of c] Cons.prems(1) up_watched [OF Cons.prems(1)] by (simp add: up_def conn_ready_def)
  obtain c1 es1 where 1: "conn_step (echo_op (EchoOut (Written n))) c = Inr (c1, es1)" "up c1" "writeCb (c_chan c1)"
      "content (c_out c1) = drop (unat n) (content (c_out c))" "wire es1 = take (unat n) (content (c_out c))"
      "EWriteCompleteQueued \<notin> set es1"
    using writable_event [OF Cons.prems(1,2) wr n] by blast
  have "sum_list (map unat ns) = length (content (c_out c1))" using Cons.prems(3) 1(4) n(2) by simp
  from Cons.IH [OF 1(2,3) this] Cons.prems(4) 1 show ?case by (auto simp del: conn_step.simps echo_op.simps)
qed simp

text \<open>The server of test11 goes silent. It sends its message to each new connection and again each time the
  write-complete callback says that it was written. If the kernel takes the message at once, the callback is queued. But if
  the kernel takes only a part, then, however it takes the rest, the whole message is written, the callback is never
  queued, nothing is pending, and no writable event is watched for: nothing is ever sent again.\<close>

theorem test11_server_stalls:
  assumes "length message + 8 \<le> max_size" "unat k \<le> length message"
    and "\<forall>n\<in>set ns. 0 < n" "unat k + sum_list (map unat ns) = length message"
  shows "\<exists>c es. run_steps conn_step (Establish 0 (test11_onConnection (Written k) message True nm) #
       map (\<lambda>n. echo_op (EchoOut (Written n))) ns) (fresh_conn t nm fd) = Inr (c, es) \<and>
     wire es = message \<and> content (c_out c) = [] \<and> \<not> isWriting (c_chan c) \<and>
     (EWriteCompleteQueued \<in> set es \<longleftrightarrow> ns = [])"
proof -
  let ?calls = "test11_onConnection (Written k) message True nm"
  obtain c1 where c1: "up c1" "c_tid c1 = t" "c_wcCb c1" "writeCb (c_chan c1)" "c_out c1 = Buffer_new" and
      eq: "conn_step (Establish 0 ?calls) (fresh_conn t nm fd) = bindE (run_steps (do_call t) ?calls c1) (\<lambda>(c, es1).
        Inr (c, ECtl (Ctl EPOLL_CTL_ADD fd kReadEvent) # EConnectionCb True # es1))"
    using establish_eq [of t nm fd, where ?'a = shown] by blast
  have inv: "conn_inv c1" "events (c_chan c1) \<noteq> kNoneEvent" using c1(1) up_watched by (auto simp: up_def conn_ready_def)
  have rm: "room (c_out c1) (length message)" using assms(1) c1(5) by (simp add: room_def Buffer_new_def kCheapPrepend_def)
  have e: "content (c_out c1) = []" using c1(5) by (simp add: Buffer_new_def content_def)
  obtain c2 and es2 :: "shown conn_eff list" where s: "sendInLoop (c_tid c1) (Written k) 0 message c1 = Inr (c2, es2)"
      "wire es2 = take (unat k) message" "content (c_out c2) = drop (unat k) message"
      "EWriteCompleteQueued \<in> set es2 \<longleftrightarrow> length message \<le> unat k \<and> c_wcCb c1"
    using sendInLoop_branches [OF inv _ rm, of 0 "Written k", where ?'u = shown] e by (auto simp: Let_def)
  have "fares up [] c1 (sendInLoop (c_tid c1) (Written k) 0 message c1 :: (conn \<times> shown conn_eff list) result)"
    by (rule sendInLoop_fares [OF c1(1)]) (use assms(1) in simp_all)
  then have up2: "up c2" unfolding s(1) by simp
  have w2: "writeCb (c_chan c2)" using sendInLoop_frame [OF s(1)] c1(4) by simp
  have "run_steps (do_call t) ?calls c1 = Inr (c2, EUser (ConnUp nm) # es2)"
    using s(1) c1(1,2) by (simp add: test11_onConnection_def send_def up_def)
  then have est: "conn_step (Establish 0 ?calls) (fresh_conn t nm fd) =
      Inr (c2, ECtl (Ctl EPOLL_CTL_ADD fd kReadEvent) # EConnectionCb True # EUser (ConnUp nm) # es2)" unfolding eq by simp
  have "sum_list (map unat ns) = length (content (c_out c2))" using assms(2,4) s(3) by simp
  from writable_events [OF assms(3) up2 w2 this] obtain c3 and es3 :: "shown conn_eff list" where
      c3: "run_steps conn_step (map (\<lambda>n. echo_op (EchoOut (Written n))) ns) c2 = Inr (c3, es3)" "up c3"
        "content (c_out c3) = []" "wire es3 = drop (unat k) message" "EWriteCompleteQueued \<notin> set es3"
    using s(3) by auto
  have nw: "\<not> isWriting (c_chan c3)"
    using conn_invD(2) [of c3] up_watched [OF c3(2)] c3(2,3) by (simp add: up_def conn_ready_def)
  have ns: "ns = [] \<longleftrightarrow> length message \<le> unat k"
    using assms(2-4) sum_pos_words [OF assms(3)] by fastforce
  show ?thesis using est c3 nw ns s(2,4) c1(3) by (simp del: conn_step.simps echo_op.simps)
qed

theorem test11_server_stalls_witness:
  "\<exists>c es. run_steps conn_step (Establish 0 (test11_onConnection (Written 2) [33, 34, 35, 10] True ''c'') #
       map (\<lambda>n. echo_op (EchoOut (Written n))) [1, 1]) (fresh_conn 5 ''c'' 7) = Inr (c, es) \<and>
     wire es = [33, 34, 35, 10] \<and> EWriteCompleteQueued \<notin> set es"
  using test11_server_stalls [of "[33, 34, 35, 10]" 2 "[1, 1]" "''c''" 5 7] by (auto simp: max_size_def)

end
