(* ===== verification/TestLoops.thy ===== *)
theory TestLoops
  imports LoopThread LoopObject Connector Socket
begin

text \<open>
  Tests that use loops and their threads: test/test1.cpp and test2.cpp enter loops at home and elsewhere, test3.cpp quits from
  a timer's callback, test5.cpp calls functions through a loop in four ways, test6.cpp tells the loop of an
  \<open>EventLoopThread\<close> to quit, test7.cpp greets each connection, test12.cpp connects once.
\<close>

section \<open>test1 and test2\<close>

text \<open>In test1 \<open>main\<close> and \<open>threadFunc\<close> each make a loop and enter it; in test2 \<open>threadFunc\<close> enters that of \<open>main\<close>.\<close>

definition test1_thread :: "int \<Rightarrow> loop_env \<Rightarrow> nat \<Rightarrow> lo_op list" where
  "test1_thread t env i = [Construct t env i, Enter t i]"

definition test2_main :: "int \<Rightarrow> int \<Rightarrow> loop_env \<Rightarrow> lo_op list" where
  "test2_main t u env = [Construct t env 0, Enter u 0]"

text \<open>The kernel gives every descriptor and registers it.\<close>

definition kernel_ok :: "loop_env \<Rightarrow> bool" where
  "kernel_ok env \<longleftrightarrow> 0 \<le> k_epoll env \<and> 0 \<le> k_timer env \<and> 0 \<le> k_timer_ctl env \<and> 0 \<le> k_event env \<and> 0 \<le> k_event_ctl env"

text \<open>The tests show what they mean to show: two threads run a loop each, in any interleaving, but a loop cannot be entered in
  another thread.\<close>

lemma test1_runs:
  assumes "t \<noteq> u" "kernel_ok env1" "kernel_ok env2" "ops \<in> shuffles (test1_thread t env1 0) (test1_thread u env2 1)"
  shows "\<exists>s es. run_steps lo_step ops loops_init = Inr (s, es) \<and>
    (\<forall>i\<in>{0, 1}. \<exists>l. lo_objs s i = Some l \<and> lo_looping l) \<and> t_loopInThisThread s = [t \<mapsto> 0, u \<mapsto> 1]"
  using assms
  by (auto simp: test1_thread_def kernel_ok_def loop_evals loop_enter_def assertInLoopThread_def fun_upd_twist)

lemma test2_aborts:
  assumes "kernel_ok env" "t \<noteq> u"
  shows "run_steps lo_step (test2_main t u env) loops_init = Inl (Fatal ''abortNotInLoopThread'')"
  using assms by (simp add: test2_main_def kernel_ok_def loop_evals loop_enter_def assertInLoopThread_def)

section \<open>test3\<close>

text \<open>The callback of the timer descriptor's channel.\<close>

definition test3_timeout :: "'f act list" where
  "test3_timeout = [Quit]"

text \<open>When the descriptor becomes readable, \<open>loop()\<close> returns at the end of the round.\<close>

lemma test3_ends:
  "\<exists>s. sys_run sem [LStart, LTest, LPoll [test3_timeout], LDispatch, LSwap, LEnd, LTest] (sys_new t) = Some s \<and>
    phase s = Done \<and> \<not> looping (the_loop s)"
  by (simp add: sys_new_def EventLoop_new_def test3_timeout_def do_acts_def loop_quit_def isInLoopThread_def Let_def)

section \<open>test5\<close>

text \<open>
  The four functions with the flag they print. Timers are known by their functions, in the order of their times: there
  is never more than one.
\<close>

datatype t5fun = Run1 | Run2 | Run3 | Run4

record test5 =
  t5_flag :: int
  t5_loop :: "t5fun loop"
  t5_timers :: "t5fun list"
  t5_out :: "(t5fun \<times> int) list"

definition t5_print :: "t5fun \<Rightarrow> test5 \<Rightarrow> test5" where
  "t5_print f s = s\<lparr>t5_out := t5_out s @ [(f, t5_flag s)]\<rparr>"

text \<open>What the function \<open>f\<close> does in the thread \<open>t\<close>.\<close>

definition t5_run2 :: "int \<Rightarrow> test5 \<Rightarrow> test5" where
  "t5_run2 t s = (let s1 = t5_print Run2 s in s1\<lparr>t5_loop := queueInLoop t Run3 (t5_loop s1)\<rparr>)"

definition t5_run1 :: "int \<Rightarrow> test5 \<Rightarrow> test5" where
  "t5_run1 t s =
     (let s1 = t5_print Run1 (s\<lparr>t5_flag := 1\<rparr>);
          s2 = (if isInLoopThread t (t5_loop s1) then t5_run2 t s1
                else s1\<lparr>t5_loop := queueInLoop t Run2 (t5_loop s1)\<rparr>)
      in s2\<lparr>t5_flag := 2\<rparr>)"

fun t5_run :: "int \<Rightarrow> t5fun \<Rightarrow> test5 \<Rightarrow> test5" where
  "t5_run t Run1 s = t5_run1 t s"
| "t5_run t Run2 s = t5_run2 t s"
| "t5_run t Run3 s = (let s1 = t5_print Run3 s in s1\<lparr>t5_timers := t5_timers s1 @ [Run4], t5_flag := 3\<rparr>)"
| "t5_run t Run4 s = (let s1 = t5_print Run4 s in s1\<lparr>t5_loop := loop_quit t (t5_loop s1)\<rparr>)"

text \<open>A round of the loop: the timer that is due, then the functors queued by then.\<close>

definition t5_round :: "int \<Rightarrow> test5 \<Rightarrow> test5" where
  "t5_round t s =
     (let s1 = fold (t5_run t) (take 1 (t5_timers s)) (s\<lparr>t5_timers := drop 1 (t5_timers s)\<rparr>);
          fs = pendingFunctors (t5_loop s1)
      in fold (t5_run t) fs (s1\<lparr>t5_loop := (t5_loop s1)\<lparr>pendingFunctors := []\<rparr>\<rparr>))"

definition test5_main :: "int \<Rightarrow> test5" where
  "test5_main t = \<lparr>t5_flag = 0, t5_loop = EventLoop_new t, t5_timers = [Run1], t5_out = []\<rparr>"

text \<open>\<open>runInLoop\<close> calls at once, \<open>queueInLoop\<close> after the handlers, \<open>runAfter\<close> in a later round; and the loop ends.\<close>

lemma test5_prints:
  "t5_out ((t5_round t ^^ 2) (test5_main t)) = [(Run1, 1), (Run2, 1), (Run3, 2), (Run4, 3)]"
  "quit_flag (t5_loop ((t5_round t ^^ 2) (test5_main t)))" "\<not> quit_flag (t5_loop (t5_round t (test5_main t)))"
  by (simp_all add: eval_nat_numeral test5_main_def t5_round_def t5_run1_def t5_run2_def t5_print_def EventLoop_new_def
      queueInLoop_def queue_push_def queue_wake_def isInLoopThread_def loop_quit_def Let_def)

section \<open>test7\<close>

text \<open>The greeting of a new connection, which is closed at once.\<close>

definition test7_newConnection :: "int \<Rightarrow> int \<Rightarrow> (int \<times> string) list \<times> sock_eff list" where
  "test7_newConnection rc sockfd = ([(sockfd, ''How are you?'' @ [CHR 0x0A])], socket_Close rc sockfd)"

lemma test7_closes:
  assumes "accept_and_dispatch connfd peer rc a = (NewConnection fd, peer', es)"
  shows "fd = connfd \<and> es = [] \<and> SClose connfd \<in> set (snd (test7_newConnection rc fd))"
  using assms by (auto simp: accept_and_dispatch_def Socket_accept_def Acceptor_handleRead_def test7_newConnection_def
      socket_Close_def Let_def split: if_splits)

section \<open>test12\<close>

text \<open>The callback only quits; what happens to its descriptor is in the list of closed ones.\<close>

definition test12_connectCallback :: "int \<Rightarrow> 'f loop \<Rightarrow> 'f loop \<times> int list" where
  "test12_connectCallback sockfd l = (loop_quit (l_tid l) l, [])"

definition test12_main :: "int \<Rightarrow> int \<Rightarrow> k_op list" where
  "test12_main t fd = [KStart t fd EINPROGRESS 0, KEvent POLLOUT 0 0 False, KReset]"

text \<open>The test connects and ends in order, for the channel is reset in the round that quits; the descriptor stays open.\<close>

lemma test12_connects:
  "\<exists>k es. run_steps k_step (test12_main t fd) (Connector_new t) = Inr (k, es) \<and> KNewConnection fd \<in> set es \<and>
    KClose fd \<notin> set es \<and> Connector_delete k = Inr (k, [KCancelTimer]) \<and> snd (test12_connectCallback fd l) = []"
  by (simp add: test12_main_def Connector_new_def start_def startInLoop_def connect_def then_k_def connecting_def enableWriting_def
      updateChannel_def update_def Channel_new_def kNew_def kAdded_def handleEvent_def fired_def set_revents_def poll_bits
      k_handleWrite_def removeAndResetChannel_def disableAll_def isNoneEvent_def resetChannel_def Channel_delete_def Connector_delete_def
      test12_connectCallback_def Let_def)

section \<open>test6\<close>

text \<open>\<open>loop->quit()\<close> in \<open>main\<close>, while the object \<open>loopThread\<close> lives: two steps of the owner.\<close>

definition test6_quit :: "elife \<Rightarrow> elife" where
  "test6_quit s = s\<lparr>quit_flagged := True, readable := True, user_quit := True\<rparr>"

lemma test6_quit_steps:
  assumes "owner s = O_using"
  shows "owner_step\<^sup>*\<^sup>* s (test6_quit s)"
proof -
  let ?u = "s\<lparr>owner := O_user_quit, quit_flagged := True, user_quit := True\<rparr>"
  have "owner_step s ?u" using o_user_quit [OF assms] .
  moreover have "owner_step ?u (?u\<lparr>owner := O_using, readable := True\<rparr>)" by (rule o_user_wakeup) simp
  moreover have "?u\<lparr>owner := O_using, readable := True\<rparr> = test6_quit s"
    using assms by (cases s) (simp add: test6_quit_def)
  ultimately show ?thesis by (metis converse_rtranclp_into_rtranclp r_into_rtranclp)
qed

text \<open>The loop of an \<open>EventLoopThread\<close> must not be told to quit by its user. Once \<open>startLoop\<close> has returned and the
  thread is in its loop, a call of \<open>quit\<close> on the loop, as test6 does before it returns from \<open>main\<close>, lets the thread leave
  the loop; if the destructor has not set \<open>exiting_\<close> by then, the assert of \<open>threadFunc\<close> aborts the process, by steps
  of the thread alone.\<close>

theorem test6_quit_aborts:
  assumes "leads_to (elife_init True) s" "owner s = O_using" "thread_at s \<in> {L_testing, L_polling}"
  shows "owner_step\<^sup>*\<^sup>* s (test6_quit s) \<and> (\<exists>s'. thread_step\<^sup>*\<^sup>* (test6_quit s) s' \<and> thread_at s' = L_aborted \<and> owner s' = O_using)"
proof -
  have ex: "\<not> exiting s" using life_holds [OF assms(1)] assms(2) by (simp add: life_inv_def)
  have leave: "\<exists>s'. thread_step\<^sup>*\<^sup>* u s' \<and> thread_at s' = L_aborted \<and> owner s' = O_using"
    if u: "thread_at u = L_testing" "quit_flagged u" "\<not> exiting u" "owner u = O_using" for u
  proof -
    have "thread_step u (u\<lparr>thread_at := L_left\<rparr>)" using t_leave [OF u(1,2)] .
    moreover have "thread_step (u\<lparr>thread_at := L_left\<rparr>) (u\<lparr>thread_at := L_left\<rparr>\<lparr>thread_at := L_aborted\<rparr>)"
      by (rule t_abort) (use u in simp_all)
    ultimately have "thread_step\<^sup>*\<^sup>* u (u\<lparr>thread_at := L_left\<rparr>\<lparr>thread_at := L_aborted\<rparr>)"
      by (meson converse_rtranclp_into_rtranclp r_into_rtranclp)
    then show ?thesis using u(4) by (intro exI [of _ "u\<lparr>thread_at := L_left\<rparr>\<lparr>thread_at := L_aborted\<rparr>"] conjI) simp_all
  qed
  have "\<exists>s'. thread_step\<^sup>*\<^sup>* (test6_quit s) s' \<and> thread_at s' = L_aborted \<and> owner s' = O_using"
  proof (cases "thread_at s = L_testing")
    case True
    show ?thesis by (rule leave) (use True ex assms(2) in \<open>simp_all add: test6_quit_def\<close>)
  next
    case False
    then have p: "thread_at (test6_quit s) = L_polling" "readable (test6_quit s)" using assms(3) by (simp_all add: test6_quit_def)
    let ?u = "(test6_quit s)\<lparr>thread_at := L_testing, readable := False\<rparr>"
    have "\<exists>s'. thread_step\<^sup>*\<^sup>* ?u s' \<and> thread_at s' = L_aborted \<and> owner s' = O_using"
      by (rule leave) (use ex assms(2) in \<open>simp_all add: test6_quit_def\<close>)
    then show ?thesis using t_woken [OF p] by (meson converse_rtranclp_into_rtranclp)
  qed
  then show ?thesis using test6_quit_steps [OF assms(2)] by blast
qed

theorem test6_quit_aborts_witness:
  "\<exists>s s'. leads_to (elife_init True) s \<and> owner s = O_using \<and> thread_step\<^sup>*\<^sup>* (test6_quit s) s' \<and> thread_at s' = L_aborted"
proof -
  have "life_step (elife_init True) (at_state O_test L_published False False)"
    using t_publish [of "elife_init True", THEN life_steps(2)] by (simp add: elife_init_def at_state_def)
  moreover have "life_step (at_state O_test L_published False False) (at_state O_using L_published False False)"
    using o_set [of "at_state O_test L_published False False", THEN life_steps(1)] by (simp add: at_state_def)
  moreover have "life_step (at_state O_using L_published False False) (at_state O_using L_testing False False)"
    using t_enter [of "at_state O_using L_published False False", THEN life_steps(2)] by (simp add: at_state_def)
  ultimately have r: "leads_to (elife_init True) (at_state O_using L_testing False False)"
    by (meson converse_rtranclp_into_rtranclp rtranclp.rtrancl_refl)
  have "owner (at_state O_using L_testing False False) = O_using" "thread_at (at_state O_using L_testing False False) \<in> {L_testing, L_polling}"
    by (simp_all add: at_state_def)
  from test6_quit_aborts [OF r this] show ?thesis using r by (auto simp: at_state_def)
qed

end
