(* ===== verification/TestTimers.thy ===== *)
theory TestTimers
  imports LoopTimers EventLoop
begin

text \<open>
  The test of the timers (test/test4.cpp): four timers that fire once and two periodic ones, of which one cancels itself
  from its own callback. A timer is known by the message its callback is bound to; \<open>t4_cb\<close> maps the address of a
  timer to it, \<open>t4_out\<close> holds what was printed (without the times). All callbacks run in \<open>handleRead\<close>.
\<close>

section \<open>The program\<close>

record test4 =
  t4_cnt :: int
  t4_count :: int
  t4_aid :: "ptr \<times> u64"
  t4_loop :: "unit loop"
  t4_q :: timerq
  t4_cb :: "ptr \<rightharpoonup> string"
  t4_out :: "string list"

definition t4_print :: "string \<Rightarrow> test4 \<Rightarrow> test4" where
  "t4_print msg s =
     (let s1 = s\<lparr>t4_out := t4_out s @ [msg], t4_cnt := t4_cnt s + 1\<rparr> in
      if t4_cnt s1 = 20 then s1\<lparr>t4_loop := loop_quit (l_tid (t4_loop s1)) (t4_loop s1)\<rparr> else s1)"

definition t4_printc :: "string \<Rightarrow> test4 \<Rightarrow> test4" where
  "t4_printc msg s = s\<lparr>t4_out := t4_out s @ [msg], t4_count := t4_count s + 1\<rparr>"

text \<open>The call of \<open>cancel\<close> in \<open>printc\<close>, which the timer queue carries out.\<close>

definition t4_acts :: "test4 \<Rightarrow> ptr \<Rightarrow> tq_act list" where
  "t4_acts s p =
     (if t4_cb s p = Some ''every2'' \<and> t4_count s + 1 = 6 then [ActCancel (fst (t4_aid s)) (snd (t4_aid s))] else [])"

definition t4_run :: "ptr \<Rightarrow> test4 \<Rightarrow> test4" where
  "t4_run p s =
     (case t4_cb s p of
        None \<Rightarrow> s
      | Some msg \<Rightarrow> if msg = ''every2'' then t4_printc msg s else t4_print msg s)"

fun t4_effect :: "tq_eff \<Rightarrow> test4 \<Rightarrow> test4" where
  "t4_effect (ERun p) s = t4_run p s"
| "t4_effect _ s = s"

text \<open>A round of \<open>loop()\<close> in which the timer descriptor is readable, at the time \<open>now\<close>.\<close>

definition t4_step :: "(ptr set \<Rightarrow> ptr) \<Rightarrow> datetime \<times> datetime \<Rightarrow> test4 \<Rightarrow> (test4 \<times> tq_eff list) result" where
  "t4_step alloc now_clock s =
     (if quit_flag (t4_loop s) then Inr (s, [])
      else bindE (timer_handleRead alloc (t4_acts s) (fst now_clock) (snd now_clock) (t4_q s)) (\<lambda>(q, es).
           Inr ((fold t4_effect es s)\<lparr>t4_q := q\<rparr>, es)))"

fun timer_id :: "tq_eff list \<Rightarrow> ptr \<times> u64" where
  "timer_id (ETimerId p seq # es) = (p, seq)"
| "timer_id (_ # es) = timer_id es"
| "timer_id [] = (0, 0)"

text \<open>A timer added, with the message of its callback.\<close>

definition t4_add :: "string \<Rightarrow> (timerq \<Rightarrow> (timerq \<times> tq_eff list) result) \<Rightarrow> test4 \<Rightarrow> (test4 \<times> (ptr \<times> u64)) result" where
  "t4_add msg add s =
     bindE (add (t4_q s)) (\<lambda>(q, es).
     Inr (s\<lparr>t4_q := q, t4_cb := (t4_cb s)(fst (timer_id es) \<mapsto> msg)\<rparr>, timer_id es))"

text \<open>\<open>main\<close> up to \<open>loop()\<close>, in the thread \<open>t\<close>, with the readings \<open>c\<close> of the clock.\<close>

definition test4_main :: "(ptr set \<Rightarrow> ptr) \<Rightarrow> (nat \<Rightarrow> datetime) \<Rightarrow> int \<Rightarrow> test4 result" where
  "test4_main alloc c t =
     (let s0 = t4_print ''main'' \<lparr>t4_cnt = 0, t4_count = 0, t4_aid = (0, 0), t4_loop = EventLoop_new t,
            t4_q = TimerQueue_new, t4_cb = Map.empty, t4_out = []\<rparr>
      in bindE (t4_add ''once1'' (runAfter alloc (c 0) (c 1) 1000000) s0) (\<lambda>(s1, _).
         bindE (t4_add ''once1.5'' (runAfter alloc (c 2) (c 3) 1500000) s1) (\<lambda>(s2, _).
         bindE (t4_add ''once2.5'' (runAfter alloc (c 4) (c 5) 2500000) s2) (\<lambda>(s3, _).
         bindE (t4_add ''once3.5'' (runAfter alloc (c 6) (c 7) 3500000) s3) (\<lambda>(s4, _).
         bindE (t4_add ''every2'' (runEvery alloc (c 8) (c 9) 2000000 True) s4) (\<lambda>(s5, i).
         bindE (t4_add ''every3'' (runEvery alloc (c 10) (c 11) 3000000 True) (s5\<lparr>t4_aid := i\<rparr>)) (\<lambda>(s6, _).
         Inr s6)))))))"

section \<open>Timers that only go away\<close>

text \<open>Callbacks that add no timers only shrink the heap; a timer keeps its kind and its sequence number.\<close>

definition descends :: "timerq \<Rightarrow> timerq \<Rightarrow> bool" where
  "descends q q' \<longleftrightarrow> (\<forall>p t'. heap q' p = Some t' \<longrightarrow>
     (\<exists>t. heap q p = Some t \<and> repeats t' = repeats t \<and> sequence t' = sequence t))"

lemma descends_same [simp]: "heap q' = heap q \<Longrightarrow> descends q q'"
  by (simp add: descends_def)

lemma descends_trans: "descends q q1 \<Longrightarrow> descends q1 q2 \<Longrightarrow> descends q q2"
  unfolding descends_def by metis

lemma deref_Inr: "deref p q = Inr t \<longleftrightarrow> heap q p = Some t"
  by (auto simp: deref_def split: option.splits)

lemma delete_descends: "delete_timer p q = Inr q' \<Longrightarrow> descends q q'"
  by (auto simp: delete_timer_def descends_def split: if_splits)

lemma insert_timer_heap: "insert_timer p q = Inr (b, q') \<Longrightarrow> heap q' = heap q"
  by (auto simp: insert_timer_def assert_sizes_def Let_def)

lemma cancel_descends: "cancelInLoop p seq q = Inr (q', es) \<Longrightarrow> descends q q'"
  by (auto simp: cancelInLoop_def assert_sizes_def delete_timer_def descends_def Let_def split: if_splits)

lemma erase_active_heap: "erase_active es q = Inr q' \<Longrightarrow> heap q' = heap q"
  by (induction es q rule: erase_active.induct) auto

lemma reset_each_descends: "reset_each es now q = Inr q' \<Longrightarrow> descends q q'"
proof (induction es now q rule: reset_each.induct)
  case (2 e p es now q)
  from "2.prems" obtain t q1 where t: "heap q p = Some t"
    and q1: "(if repeats t \<and> (p, sequence t) \<notin> cancelingTimers q
              then bindE (insert_timer p (q\<lparr>heap := (heap q)(p \<mapsto> restart now t)\<rparr>)) (\<lambda>(_, q1). Inr q1)
              else delete_timer p q) = Inr q1"
    and rest: "reset_each es now q1 = Inr q'" by (auto simp: deref_Inr)
  have "descends q q1"
  proof (cases "repeats t \<and> (p, sequence t) \<notin> cancelingTimers q")
    case True
    then obtain b where "insert_timer p (q\<lparr>heap := (heap q)(p \<mapsto> restart now t)\<rparr>) = Inr (b, q1)" using q1 by auto
    from insert_timer_heap [OF this] show ?thesis using t True by (auto simp: descends_def restart_def)
  next
    case False
    then show ?thesis using q1 delete_descends by (simp split: if_splits)
  qed
  moreover have "descends q1 q'" using "2.IH" [of t q1] t q1 rest by (simp add: deref_Inr)
  ultimately show ?case by (rule descends_trans)
qed simp

lemma run_descends:
  assumes "\<And>e q q' os. e \<in> set es \<Longrightarrow> step e q = Inr (q', os) \<Longrightarrow> descends q q'"
  shows "run_steps step es q = Inr (q', os) \<Longrightarrow> descends q q'"
  using assms
proof (induction es arbitrary: q os)
  case (Cons e es)
  from Cons.prems(1) obtain q1 os1 os2 where 1: "step e q = Inr (q1, os1)" "run_steps step es q1 = Inr (q', os2)" by auto
  have "descends q q1" using Cons.prems(2) [of e] 1(1) by simp
  moreover have "descends q1 q'" by (rule Cons.IH [OF 1(2)]) (rule Cons.prems(2), simp_all)
  ultimately show ?case by (rule descends_trans)
qed simp

lemma resetTimerfd_heap [simp]: "heap (fst (resetTimerfd clock x q)) = heap q"
  by (simp add: resetTimerfd_def split_def Let_def)

lemma reset_descends:
  assumes "reset ex now clock q = Inr (q', es)"
  shows "descends q q'"
proof -
  from assms obtain q1 x where "reset_each ex now q = Inr q1"
      "q' = fst (if valid x then resetTimerfd clock x q1 else (q1, []))"
    unfolding reset_def bindE_eq_Inr by (metis fst_conv sum.inject(2))
  then show ?thesis using reset_each_descends [of ex now q q1] by (auto simp: descends_def split: if_splits)
qed

lemma expiry_descends:
  assumes "timer_handleRead alloc cbs now clock q = Inr (q', es)"
    and "\<And>p a. a \<in> set (cbs p) \<Longrightarrow> \<exists>p' seq. a = ActCancel p' seq"
  shows "descends q q'"
proof -
  from assms(1) obtain ex q1 q2 es1 es2 where 1: "getExpired now (q\<lparr>armed := None\<rparr>) = Inr (ex, q1)"
    and 2: "run_steps (run_timer alloc cbs) ex (q1\<lparr>callingExpiredTimers := True, cancelingTimers := {}\<rparr>) = Inr (q2, es1)"
    and 3: "reset ex now clock (q2\<lparr>callingExpiredTimers := False\<rparr>) = Inr (q', es2)"
    by (auto simp: timer_handleRead_def)
  have h1: "heap q1 = heap q" using 1 by (auto simp: getExpired_def assert_sizes_def Let_def dest: erase_active_heap)
  have "descends qa qb" if r: "run_timer alloc cbs e qa = Inr (qb, os)" for e qa qb os
  proof -
    obtain os1 where "run_steps (do_tq_act alloc) (cbs (snd e)) qa = Inr (qb, os1)"
      using r by (auto simp: run_timer_def)
    then show ?thesis by (rule run_descends [rotated]) (auto dest!: assms(2) intro: cancel_descends)
  qed
  then have "descends (q1\<lparr>callingExpiredTimers := True, cancelingTimers := {}\<rparr>) q2" using run_descends [OF _ 2] by blast
  then have "descends q q2" using h1 by (simp add: descends_def)
  moreover have "descends q2 q'" using reset_descends [OF 3] by (simp add: descends_def)
  ultimately show ?thesis by (rule descends_trans)
qed

section \<open>What the callbacks do\<close>

text \<open>What is printed agrees with the counters, and the loop is told to quit exactly when \<open>cnt\<close> has reached 20.\<close>

definition onces :: "string list" where
  "onces = [''main'', ''once1'', ''once1.5'', ''once2.5'', ''once3.5'']"

definition printers :: "string list" where
  "printers = ''every3'' # onces"

definition t4_tally :: "test4 \<Rightarrow> bool" where
  "t4_tally s \<longleftrightarrow> t4_count s = int (count_list (t4_out s) ''every2'') \<and>
     t4_cnt s = int (sum_list (map (count_list (t4_out s)) printers)) \<and>
     t4_cnt s = int (length (filter (\<lambda>m. m \<noteq> ''every2'') (t4_out s))) \<and> (quit_flag (t4_loop s) \<longleftrightarrow> 20 \<le> t4_cnt s)"

definition t4_callbacks :: "(ptr \<rightharpoonup> string) \<Rightarrow> bool" where
  "t4_callbacks cb \<longleftrightarrow> inj_on cb (dom cb) \<and> ran cb \<subseteq> insert ''every2'' (set printers) - {''main''}"

lemma count_list_snoc: "count_list (xs @ [x]) y = count_list xs y + (if x = y then 1 else 0)"
  by (induction xs) auto

lemma sum_counts_snoc:
  "distinct ms \<Longrightarrow> sum_list (map (count_list (xs @ [x])) ms) =
     sum_list (map (count_list xs) ms) + (if x \<in> set ms then 1 else 0)"
  by (induction ms) (auto simp: count_list_snoc)

lemma printers_facts: "distinct printers" "''every2'' \<notin> set printers"
  by (simp_all add: printers_def onces_def)

lemma t4_messages:
  assumes "t4_callbacks cb" "cb p = Some m" "m \<noteq> ''every2''"
  shows "m \<in> set printers"
proof -
  have "m \<in> ran cb" using assms(2) by (auto simp: ran_def)
  then show ?thesis using assms(1,3) unfolding t4_callbacks_def by blast
qed

lemma t4_print_tally:
  assumes "t4_tally s" "m \<in> set printers"
  shows "t4_tally (t4_print m s)"
proof -
  have "m \<noteq> ''every2''" using assms(2) printers_facts(2) by blast
  then show ?thesis using assms
    unfolding t4_tally_def t4_print_def Let_def
    by (simp add: sum_counts_snoc [OF printers_facts(1)] count_list_snoc loop_quit_def isInLoopThread_def Let_def) arith
qed

lemma t4_printc_tally: "t4_tally s \<Longrightarrow> t4_tally (t4_printc ''every2'' s)"
  unfolding t4_tally_def t4_printc_def
  using printers_facts(2) by (simp add: sum_counts_snoc [OF printers_facts(1)] count_list_snoc)

lemma t4_run_tally:
  assumes "t4_callbacks (t4_cb s)" "t4_tally s"
  shows "t4_tally (t4_run p s)" "t4_cb (t4_run p s) = t4_cb s" "t4_aid (t4_run p s) = t4_aid s"
    "t4_out (t4_run p s) = t4_out s @ (case t4_cb s p of None \<Rightarrow> [] | Some m \<Rightarrow> [m])"
proof -
  show "t4_tally (t4_run p s)"
    using t4_messages [OF assms(1), of p] t4_print_tally [OF assms(2)] t4_printc_tally [OF assms(2)] assms(2)
    by (auto simp: t4_run_def split: option.split)
  show "t4_cb (t4_run p s) = t4_cb s" "t4_aid (t4_run p s) = t4_aid s"
    "t4_out (t4_run p s) = t4_out s @ (case t4_cb s p of None \<Rightarrow> [] | Some m \<Rightarrow> [m])"
    by (simp_all add: t4_run_def t4_print_def t4_printc_def Let_def split: option.split)
qed

lemma fold_effects:
  assumes "filter (\<lambda>e. \<exists>p. e = ERun p) es = map (ERun \<circ> snd) ex"
  shows "fold t4_effect es s = fold t4_run (map snd ex) s"
  using assms
proof (induction es arbitrary: ex s)
  case (Cons e es)
  show ?case
  proof (cases e)
    case (ERun p)
    then show ?thesis using Cons by (cases ex) auto
  qed (use Cons in auto)
qed simp

lemma t4_runs_tally:
  assumes "t4_callbacks (t4_cb s)" "t4_tally s"
  shows "t4_tally (fold t4_run ps s) \<and> t4_cb (fold t4_run ps s) = t4_cb s \<and> t4_aid (fold t4_run ps s) = t4_aid s \<and>
    t4_out (fold t4_run ps s) = t4_out s @ concat (map (\<lambda>p. case t4_cb s p of None \<Rightarrow> [] | Some m \<Rightarrow> [m]) ps)"
  using assms
proof (induction ps arbitrary: s)
  case (Cons p ps)
  then show ?case using t4_run_tally [of s p] Cons.IH [of "t4_run p s"] by simp
qed simp

text \<open>Each message is printed once for its timer among those that run.\<close>

lemma message_iff:
  "m \<in> set (concat (map (\<lambda>p. case cb p of None \<Rightarrow> [] | Some m \<Rightarrow> [m]) ps)) \<longleftrightarrow> (\<exists>p\<in>set ps. cb p = Some m)"
  by (induction ps) (auto split: option.splits)

lemma count_messages:
  assumes "inj_on cb (dom cb)" "distinct ps" "cb p = Some m"
  shows "count_list (concat (map (\<lambda>p. case cb p of None \<Rightarrow> [] | Some m \<Rightarrow> [m]) ps)) m = (if p \<in> set ps then 1 else 0)"
  using assms(2)
proof (induction ps)
  case (Cons p' ps)
  have "p' = p" if "cb p' = Some m"
    using inj_onD [OF assms(1), of p' p] that assms(3) by (simp add: domI)
  then show ?case using Cons assms(3) by (auto split: option.split)
qed simp

section \<open>Invariant\<close>

definition t4_ok :: "test4 \<Rightarrow> bool" where
  "t4_ok s \<longleftrightarrow> tq_inv (t4_q s) \<and> t4_callbacks (t4_cb s) \<and> t4_tally s \<and> dom (heap (t4_q s)) \<subseteq> dom (t4_cb s) \<and>
     t4_cb s (fst (t4_aid s)) = Some ''every2'' \<and> t4_count s \<le> 6 \<and>
     (\<forall>t. heap (t4_q s) (fst (t4_aid s)) = Some t \<longrightarrow> sequence t = snd (t4_aid s) \<and> t4_count s < 6) \<and>
     (\<forall>m\<in>set onces. count_list (t4_out s) m \<le> 1) \<and>
     (\<forall>p t m. heap (t4_q s) p = Some t \<longrightarrow> t4_cb s p = Some m \<longrightarrow> m \<in> set onces \<longrightarrow>
        \<not> repeats t \<and> count_list (t4_out s) m = 0)"

lemma t4_okD:
  assumes "t4_ok s"
  shows "tq_inv (t4_q s)" "t4_callbacks (t4_cb s)" "t4_tally s" "dom (heap (t4_q s)) \<subseteq> dom (t4_cb s)"
    "t4_cb s (fst (t4_aid s)) = Some ''every2''" "t4_count s \<le> 6"
    "heap (t4_q s) (fst (t4_aid s)) = Some t \<Longrightarrow> sequence t = snd (t4_aid s) \<and> t4_count s < 6"
    "m \<in> set onces \<Longrightarrow> count_list (t4_out s) m \<le> 1"
    "heap (t4_q s) p = Some t \<Longrightarrow> t4_cb s p = Some m \<Longrightarrow> m \<in> set onces \<Longrightarrow> \<not> repeats t \<and> count_list (t4_out s) m = 0"
  using assms unfolding t4_ok_def by blast+

lemma not_renewed_gone:
  assumes "tq_inv q'" "set (timers q') = set (timers q2) \<union> readded q2 now (snd ` set ex)"
    and "tq_inv_ex (map snd ex) q2" "p \<in> snd ` set ex" "\<not> renewed q2 now p"
  shows "heap q' p = None"
proof -
  have "p \<notin> snd ` set (timers q2)" using tq_invD(2) [OF assms(3)] assms(4) by auto
  then have "p \<notin> snd ` set (timers q')" using assms(2,5) by (auto simp: readded_def)
  then show ?thesis using tq_invD(4) [of "[]" q'] assms(1) by (auto simp: tq_inv_def)
qed

lemma t4_step_ok:
  assumes "alloc_ok alloc" "t4_ok s"
  shows "(\<exists>s' es. t4_step alloc e s = Inr (s', es) \<and> t4_ok s' \<and> t4_aid s' = t4_aid s) \<or> t4_step alloc e s = Inl due_assertion"
proof -
  obtain now clock where e: "e = (now, clock)" by (cases e)
  let ?q = "t4_q s"
  note ok = t4_okD [OF assms(2)]
  consider "quit_flag (t4_loop s)" | "\<not> quit_flag (t4_loop s)" "now \<in> fst ` set (timers ?q)"
    | "\<not> quit_flag (t4_loop s)" "now \<notin> fst ` set (timers ?q)" by blast
  then show ?thesis
  proof cases
    case 1
    then show ?thesis using assms(2) by (simp add: t4_step_def)
  next
    case 2
    then show ?thesis using timer_handleRead_due [of "[]" ?q] ok(1) e
      by (simp add: t4_step_def due_assertion_def tq_inv_def)
  next
    case 3
    let ?ex = "filter (\<lambda>e. fst e < now) (timers ?q)"
    let ?ps = "map snd ?ex"
    obtain q2 q' es where h: "timer_handleRead alloc (t4_acts s) now clock ?q = Inr (q', es)" "tq_inv q'"
        "filter (\<lambda>e. \<exists>p. e = ERun p) es = map (ERun \<circ> snd) ?ex"
        "set (timers q') = set (timers q2) \<union> readded q2 now (snd ` set ?ex)"
        "\<And>p. p \<in> snd ` set ?ex \<Longrightarrow> heap q2 p = heap ?q p"
        "\<And>p seq e. e \<in> set ?ex \<Longrightarrow> ActCancel p seq \<in> set (t4_acts s (snd e)) \<Longrightarrow> p \<in> snd ` set ?ex \<Longrightarrow>
           (p, seq) \<in> cancelingTimers q2"
        "tq_inv_ex (map snd ?ex) q2"
      by (rule timer_handleRead_ok [OF assms(1) ok(1) 3(2), of "t4_acts s" clock]) (rule that)
    let ?r = "fold t4_run ?ps s"
    let ?s = "?r\<lparr>t4_q := q'\<rparr>"
    have desc: "descends ?q q'" by (rule expiry_descends [OF h(1)]) (auto simp: t4_acts_def split: if_splits)
    have run: "t4_tally ?r" "t4_cb ?r = t4_cb s" "t4_aid ?r = t4_aid s"
        "t4_out ?r = t4_out s @ concat (map (\<lambda>p. case t4_cb s p of None \<Rightarrow> [] | Some m \<Rightarrow> [m]) ?ps)"
      using t4_runs_tally [OF ok(2,3), of ?ps] by simp_all
    have "distinct (map snd (timers ?q))" using tq_invD(2) [of "[]" ?q] ok(1) by (simp add: tq_inv_def)
    then have dist: "distinct ?ps" by (rule distinct_map_filter)
    have live: "p \<in> dom (heap ?q)" if "p \<in> set ?ps" for p
      using tq_invD(4) [of "[]" ?q] ok(1) that by (auto simp: tq_inv_def)
    have cnt: "count_list (t4_out ?r) m = count_list (t4_out s) m + (if p \<in> set ?ps then 1 else 0)"
      if "t4_cb s p = Some m" for p m
      using count_messages [of "t4_cb s", OF _ dist that] ok(2) by (simp add: run(4) t4_callbacks_def)
    note gone = not_renewed_gone [OF h(2,4,7)]
    let ?a = "fst (t4_aid s)"
    have count: "t4_count ?r = t4_count s + (if ?a \<in> set ?ps then 1 else 0)"
      using run(1) ok(3) cnt [OF ok(5)] unfolding t4_tally_def by simp
    have aid: "sequence t = snd (t4_aid s) \<and> t4_count ?r < 6" if t: "heap q' ?a = Some t" for t
    proof -
      obtain t0 where t0: "heap ?q ?a = Some t0" "sequence t = sequence t0" using desc t unfolding descends_def by blast
      have seq: "sequence t0 = snd (t4_aid s)" "t4_count s < 6" using ok(7) [OF t0(1)] by simp_all
      have five: "t4_count s \<noteq> 5" if a: "?a \<in> set ?ps"
      proof
        assume "t4_count s = 5"
        then have "ActCancel ?a (snd (t4_aid s)) \<in> set (t4_acts s ?a)" using ok(5) by (simp add: t4_acts_def)
        moreover obtain x where "x \<in> set ?ex" "snd x = ?a" using a by auto
        moreover have "?a \<in> snd ` set ?ex" using a by simp
        ultimately have "(?a, snd (t4_aid s)) \<in> cancelingTimers q2" using h(6) [of x ?a "snd (t4_aid s)"] by simp
        then have "\<not> renewed q2 now ?a" using h(5) [of ?a] a t0(1) seq(1) by (simp add: renewed_def)
        then show False using gone [of ?a] a t by simp
      qed
      have "t4_count ?r < 6"
      proof (cases "?a \<in> set ?ps")
        case True
        have "t4_count ?r = t4_count s + 1" using count unfolding if_P [OF True] .
        then show ?thesis using seq(2) five [OF True] by linarith
      qed (use seq(2) count in simp)
      then show ?thesis using seq(1) t0(2) by simp
    qed
    have once: "\<not> repeats t \<and> count_list (t4_out ?r) m = 0" "p \<notin> set ?ps"
      if t: "heap q' p = Some t" and m: "t4_cb s p = Some m" "m \<in> set onces" for p t m
    proof -
      obtain t0 where t0: "heap ?q p = Some t0" "repeats t = repeats t0" using desc t unfolding descends_def by blast
      have o: "\<not> repeats t0" "count_list (t4_out s) m = 0" using ok(9) [OF t0(1) m] by simp_all
      show p: "p \<notin> set ?ps"
      proof
        assume p: "p \<in> set ?ps"
        then have "\<not> renewed q2 now p" using h(5) [of p] t0(1) o(1) by (simp add: renewed_def)
        then show False using gone [of p] p t by simp
      qed
      show "\<not> repeats t \<and> count_list (t4_out ?r) m = 0" using o t0(2) cnt [OF m(1)] p by simp
    qed
    have le1: "count_list (t4_out ?r) m \<le> 1" if m: "m \<in> set onces" for m
    proof (cases "\<exists>p. t4_cb s p = Some m \<and> p \<in> set ?ps")
      case True
      then obtain p where p: "t4_cb s p = Some m" "p \<in> set ?ps" by blast
      then obtain t where "heap ?q p = Some t" using live by blast
      then show ?thesis using ok(9) [OF _ p(1) m] cnt [OF p(1)] by simp
    next
      case False
      then have "m \<notin> set (concat (map (\<lambda>p. case t4_cb s p of None \<Rightarrow> [] | Some m \<Rightarrow> [m]) ?ps))"
        unfolding message_iff by blast
      then show ?thesis using ok(8) [OF m] by (simp add: run(4) count_list_0_iff)
    qed
    have "t4_count ?r \<le> 6"
    proof (cases "?a \<in> set ?ps")
      case True
      then obtain t where "heap ?q ?a = Some t" using live by blast
      then show ?thesis using ok(7) count by simp
    qed (use ok(6) count in simp)
    moreover have "dom (heap q') \<subseteq> dom (heap ?q)" using desc unfolding descends_def by blast
    ultimately have "t4_ok ?s"
      unfolding t4_ok_def using h(2) ok(2,4,5) run(1-3) aid once(1) le1 by (auto simp: t4_tally_def)
    moreover have "t4_step alloc e s = Inr (?s, es)"
      using h(1) 3(1) fold_effects [OF h(3)] e by (simp add: t4_step_def)
    ultimately show ?thesis using run(3) by simp
  qed
qed

section \<open>The start\<close>

definition t4_built :: "test4 \<Rightarrow> bool" where
  "t4_built s \<longleftrightarrow> tq_inv (t4_q s) \<and> t4_callbacks (t4_cb s) \<and> dom (heap (t4_q s)) = dom (t4_cb s) \<and>
     (\<forall>p t m. heap (t4_q s) p = Some t \<longrightarrow> t4_cb s p = Some m \<longrightarrow> m \<in> set onces \<longrightarrow> \<not> repeats t) \<and>
     t4_out s = [''main''] \<and> t4_cnt s = 1 \<and> t4_count s = 0 \<and> \<not> quit_flag (t4_loop s)"

lemma timer_id_reset: "timer_id (snd (resetTimerfd now x q) @ [ETimerId p seq]) = (p, seq)"
  by (simp add: resetTimerfd_def split_def Let_def)

lemma addTimer_new:
  assumes "addTimer alloc now when delta rep q = Inr (q', es)"
  shows "heap q' = (heap q)(alloc (dom (heap q)) \<mapsto>
      \<lparr>expiration = when, interval_us = delta, repeats = rep, sequence = numCreated q\<rparr>)"
    "timer_id es = (alloc (dom (heap q)), numCreated q)"
  using assms timer_id_reset resetTimerfd_heap
  by (auto simp: addTimer_def addTimerInLoop_def insert_timer_def assert_sizes_def deref_def resetTimerfd_def Let_def
      split: if_splits prod.splits)

lemma t4_add_ok:
  assumes "alloc_ok alloc" "t4_built s" "msg \<notin> ran (t4_cb s)"
    and "msg \<in> insert ''every2'' (set printers) - {''main''}" "rep \<longleftrightarrow> msg \<notin> set onces"
  obtains s' i where "t4_add msg (addTimer alloc now due delta rep) s = Inr (s', i)" "t4_built s'"
    "t4_cb s' = (t4_cb s)(fst i \<mapsto> msg)" "fst i \<notin> dom (t4_cb s)" "ran (t4_cb s') = insert msg (ran (t4_cb s))"
    "\<exists>t. heap (t4_q s') = (heap (t4_q s))(fst i \<mapsto> t) \<and> sequence t = snd i" "t4_aid s' = t4_aid s"
proof -
  let ?q = "t4_q s"
  let ?p = "alloc (dom (heap ?q))"
  let ?s = "\<lambda>q. s\<lparr>t4_q := q, t4_cb := (t4_cb s)(?p \<mapsto> msg)\<rparr>"
  have b: "tq_inv ?q" "t4_callbacks (t4_cb s)" "dom (heap ?q) = dom (t4_cb s)" using assms(2) unfolding t4_built_def by simp_all
  have inv: "tq_inv_ex [] ?q" "\<not> callingExpiredTimers ?q" using b(1) by (simp_all add: tq_inv_def)
  obtain q es where q: "addTimer alloc now due delta rep ?q = Inr (q, es)" "tq_inv_ex [] q" "keeps [] ?q q"
    using addTimer_inv [OF assms(1) inv(1)] by blast
  note new = addTimer_new [OF q(1)]
  have "finite (dom (heap ?q))" using tq_invD(4) [OF inv(1)] by simp
  then have p: "?p \<notin> dom (heap ?q)" using assms(1) by (simp add: alloc_ok_def)
  have "inj_on ((t4_cb s)(?p \<mapsto> msg)) (insert ?p (dom (t4_cb s)))"
    using b(2,3) p assms(3) unfolding t4_callbacks_def inj_on_def ran_def by auto
  then have "t4_callbacks ((t4_cb s)(?p \<mapsto> msg))"
    using b(2,3) p assms(4) unfolding t4_callbacks_def by (auto simp: domIff)
  moreover have "tq_inv q" using q(2,3) inv(2) by (simp add: tq_inv_def keeps_def)
  ultimately have "t4_built (?s q)"
    using assms(2,5) new(1) b(3) unfolding t4_built_def by auto
  moreover have "t4_add msg (addTimer alloc now due delta rep) s = Inr (?s q, (?p, numCreated ?q))"
    using q(1) new(2) by (simp add: t4_add_def)
  moreover have "ran ((t4_cb s)(?p \<mapsto> msg)) = insert msg (ran (t4_cb s))"
    using p b(3) by (intro ran_map_upd) (auto simp: domIff)
  moreover have "?p \<notin> dom (t4_cb s)" using p b(3) by simp
  moreover have "\<exists>t. heap (t4_q (?s q)) = (heap ?q)(?p \<mapsto> t) \<and> sequence t = numCreated ?q"
    using new(1) by (intro exI [of _ "\<lparr>expiration = due, interval_us = delta, repeats = rep, sequence = numCreated ?q\<rparr>"]) simp
  ultimately show thesis by (intro that [of "?s q" "(?p, numCreated ?q)"]) simp_all
qed

lemma loop_adds:
  "runAfter alloc t1 t2 d = addTimer alloc t2 (addTime t1 d) 0 False"
  "runEvery alloc t1 t2 d True = addTimer alloc t2 (addTime t1 d) d True"
  by (rule ext, simp add: runAfter_def runAt_def runEvery_def)+

lemma test4_main_ok:
  assumes al: "alloc_ok alloc"
  shows "\<exists>s. test4_main alloc c t = Inr s \<and> t4_ok s"
proof -
  let ?s = "t4_print ''main'' \<lparr>t4_cnt = 0, t4_count = 0, t4_aid = (0, 0), t4_loop = EventLoop_new t,
            t4_q = TimerQueue_new, t4_cb = Map.empty, t4_out = []\<rparr>"
  note msgs = onces_def printers_def
  have b0: "t4_built ?s"
    using new_inv by (simp add: t4_built_def t4_print_def t4_callbacks_def EventLoop_new_def TimerQueue_new_def Let_def)
  have r0: "ran (t4_cb ?s) = {}" by (simp add: t4_print_def Let_def)
  obtain s1 i1 where 1: "t4_add ''once1'' (addTimer alloc (c 1) (addTime (c 0) 1000000) 0 False) ?s = Inr (s1, i1)"
      "t4_built s1" and r1: "ran (t4_cb s1) = {''once1''}"
    by (rule t4_add_ok [OF al b0, where msg = "''once1''" and rep = False and now = "(c 1)"
          and due = "(addTime (c 0) 1000000)" and delta = 0]) (simp_all add: msgs r0)
  obtain s2 i2 where 2: "t4_add ''once1.5'' (addTimer alloc (c 3) (addTime (c 2) 1500000) 0 False) s1 = Inr (s2, i2)"
      "t4_built s2" and r2: "ran (t4_cb s2) = {''once1.5'', ''once1''}"
    by (rule t4_add_ok [OF al 1(2), where msg = "''once1.5''" and rep = False and now = "(c 3)"
          and due = "(addTime (c 2) 1500000)" and delta = 0]) (simp_all add: msgs r1)
  obtain s3 i3 where 3: "t4_add ''once2.5'' (addTimer alloc (c 5) (addTime (c 4) 2500000) 0 False) s2 = Inr (s3, i3)"
      "t4_built s3" and r3: "ran (t4_cb s3) = {''once2.5'', ''once1.5'', ''once1''}"
    by (rule t4_add_ok [OF al 2(2), where msg = "''once2.5''" and rep = False and now = "(c 5)"
          and due = "(addTime (c 4) 2500000)" and delta = 0]) (simp_all add: msgs r2)
  obtain s4 i4 where 4: "t4_add ''once3.5'' (addTimer alloc (c 7) (addTime (c 6) 3500000) 0 False) s3 = Inr (s4, i4)"
      "t4_built s4" and r4: "ran (t4_cb s4) = {''once3.5'', ''once2.5'', ''once1.5'', ''once1''}"
    by (rule t4_add_ok [OF al 3(2), where msg = "''once3.5''" and rep = False and now = "(c 7)"
          and due = "(addTime (c 6) 3500000)" and delta = 0]) (simp_all add: msgs r3)
  obtain s5 i5 where 5: "t4_add ''every2'' (addTimer alloc (c 9) (addTime (c 8) 2000000) 2000000 True) s4 = Inr (s5, i5)"
      "t4_built s5" "t4_cb s5 = (t4_cb s4)(fst i5 \<mapsto> ''every2'')"
      and r5: "ran (t4_cb s5) = {''every2'', ''once3.5'', ''once2.5'', ''once1.5'', ''once1''}"
      and h5: "\<exists>t. heap (t4_q s5) = (heap (t4_q s4))(fst i5 \<mapsto> t) \<and> sequence t = snd i5"
    by (rule t4_add_ok [OF al 4(2), where msg = "''every2''" and rep = True and now = "(c 9)"
          and due = "(addTime (c 8) 2000000)" and delta = 2000000]) (simp_all add: msgs r4)
  let ?s5 = "s5\<lparr>t4_aid := i5\<rparr>"
  have b5: "t4_built ?s5" using 5(2) by (simp add: t4_built_def)
  obtain s6 i6 where 6: "t4_add ''every3'' (addTimer alloc (c 11) (addTime (c 10) 3000000) 3000000 True) ?s5 = Inr (s6, i6)"
      "t4_built s6" "t4_cb s6 = (t4_cb s5)(fst i6 \<mapsto> ''every3'')" "fst i6 \<notin> dom (t4_cb s5)" "t4_aid s6 = i5"
      and h6: "\<exists>t. heap (t4_q s6) = (heap (t4_q s5))(fst i6 \<mapsto> t) \<and> sequence t = snd i6"
    by (rule t4_add_ok [OF al b5, where msg = "''every3''" and rep = True and now = "(c 11)"
          and due = "(addTime (c 10) 3000000)" and delta = 3000000]) (simp_all add: msgs r5)
  have main: "test4_main alloc c t = Inr s6"
    by (simp only: test4_main_def loop_adds Let_def 1(1) 2(1) 3(1) 4(1) 5(1) 6(1) bindE_simps prod.case)
  have ne: "fst i5 \<noteq> fst i6" using 5(3) 6(4) by auto
  have B: "tq_inv (t4_q s6)" "t4_callbacks (t4_cb s6)" "dom (heap (t4_q s6)) = dom (t4_cb s6)" "t4_out s6 = [''main'']"
      "t4_cnt s6 = 1" "t4_count s6 = 0" "\<not> quit_flag (t4_loop s6)"
      "heap (t4_q s6) p = Some t \<Longrightarrow> t4_cb s6 p = Some m \<Longrightarrow> m \<in> set onces \<Longrightarrow> \<not> repeats t" for p t m
    using 6(2) unfolding t4_built_def by blast+
  have "t4_tally s6" using B(4-7) printers_facts by (simp add: t4_tally_def msgs)
  moreover have "t4_cb s6 (fst i5) = Some ''every2''" using 5(3) 6(3) ne by simp
  moreover have "sequence u = snd i5" if "heap (t4_q s6) (fst i5) = Some u" for u using h5 h6 ne that by auto
  moreover have "m \<noteq> ''main''" if "t4_cb s6 p = Some m" for p m
  proof -
    have "m \<in> ran (t4_cb s6)" using that by (auto simp: ran_def)
    then show ?thesis using B(2) unfolding t4_callbacks_def by blast
  qed
  ultimately have "t4_ok s6" unfolding t4_ok_def using B 6(5) by auto
  then show ?thesis using main by blast
qed

section \<open>The test's outcome\<close>

interpretation t4m: monitor "t4_step alloc" "\<lambda>_ :: unit. \<lambda>s. alloc_ok alloc \<and> t4_ok s" "\<lambda>_ _ _. True" "\<lambda>_ g. g"
  "\<lambda>_ f. f = due_assertion" "\<lambda>_. True" for alloc
proof unfold_locales
  fix s s' e os f
  assume inv: "alloc_ok alloc \<and> t4_ok s"
  then have safe: "(\<exists>s' es. t4_step alloc e s = Inr (s', es) \<and> t4_ok s' \<and> t4_aid s' = t4_aid s) \<or>
      t4_step alloc e s = Inl due_assertion" using t4_step_ok [of alloc s e] by simp
  show "(alloc_ok alloc \<and> t4_ok s') \<and> True \<and> list_all (\<lambda>_. True) os" if "t4_step alloc e s = Inr (s', os)"
    using safe inv that by (auto simp: list_all_iff)
  show "f = due_assertion" if "t4_step alloc e s = Inl f" using safe that by auto
qed

text \<open>C28: The test of the timers ends as meant. Whatever the readings of the clock, \<open>main\<close> comes up to the loop, and no
  round faults but by the assert of \<open>getExpired\<close>, which fails when the clock reads exactly the time of a timer. The
  two counters agree with what has been printed: \<open>count\<close> with the messages of the timer of two seconds, \<open>cnt\<close> with all
  others. The timer of two seconds, which cancels itself from its own callback, prints at most six
  times and is deleted with the sixth; each timer that fires once prints at most once; the loop is told to quit exactly when
  \<open>print\<close> has put out 20 messages, so not before the timer of three seconds has fired 15 times.\<close>

theorem test4_ends:
  assumes "alloc_ok alloc"
  shows "\<exists>s0. test4_main alloc c t = Inr s0 \<and>
    (case run_steps (t4_step alloc) rounds s0 of
       Inl f \<Rightarrow> f = due_assertion
     | Inr (s, es) \<Rightarrow>
         t4_count s = int (count_list (t4_out s) ''every2'') \<and>
         t4_cnt s = int (length (filter (\<lambda>m. m \<noteq> ''every2'') (t4_out s))) \<and>
         count_list (t4_out s) ''every2'' \<le> 6 \<and>
         (count_list (t4_out s) ''every2'' = 6 \<longrightarrow> heap (t4_q s) (fst (t4_aid s)) = None) \<and>
         (\<forall>m\<in>set onces. count_list (t4_out s) m \<le> 1) \<and>
         (quit_flag (t4_loop s) \<longleftrightarrow> 20 \<le> length (filter (\<lambda>m. m \<noteq> ''every2'') (t4_out s))) \<and>
         (quit_flag (t4_loop s) \<longrightarrow> 15 \<le> count_list (t4_out s) ''every3''))"
proof -
  obtain s0 where s0: "test4_main alloc c t = Inr s0" "t4_ok s0" using test4_main_ok [OF assms] by blast
  have "t4_count s = int (count_list (t4_out s) ''every2'') \<and>
      t4_cnt s = int (length (filter (\<lambda>m. m \<noteq> ''every2'') (t4_out s))) \<and>
      count_list (t4_out s) ''every2'' \<le> 6 \<and>
      (count_list (t4_out s) ''every2'' = 6 \<longrightarrow> heap (t4_q s) (fst (t4_aid s)) = None) \<and>
      (\<forall>m\<in>set onces. count_list (t4_out s) m \<le> 1) \<and>
      (quit_flag (t4_loop s) \<longleftrightarrow> 20 \<le> length (filter (\<lambda>m. m \<noteq> ''every2'') (t4_out s))) \<and>
      (quit_flag (t4_loop s) \<longrightarrow> 15 \<le> count_list (t4_out s) ''every3'')" if "t4_ok s" for s
  proof -
    note ok = t4_okD [OF that]
    have tally: "t4_count s = int (count_list (t4_out s) ''every2'')"
        "t4_cnt s = int (count_list (t4_out s) ''every3'') + int (sum_list (map (count_list (t4_out s)) onces))"
        "quit_flag (t4_loop s) \<longleftrightarrow> 20 \<le> t4_cnt s"
        "t4_cnt s = int (length (filter (\<lambda>m. m \<noteq> ''every2'') (t4_out s)))"
      using ok(3) by (simp_all add: t4_tally_def printers_def)
    have "sum_list (map (count_list (t4_out s)) onces) \<le> sum_list (map (\<lambda>_. 1) onces)"
      using ok(8) by (intro sum_list_mono)
    then have "sum_list (map (count_list (t4_out s)) onces) \<le> 5" by (simp add: onces_def)
    moreover have "heap (t4_q s) (fst (t4_aid s)) = None" if "t4_count s = 6"
      using ok(7) that by (cases "heap (t4_q s) (fst (t4_aid s))") auto
    moreover have "quit_flag (t4_loop s) \<longleftrightarrow> 20 \<le> length (filter (\<lambda>m. m \<noteq> ''every2'') (t4_out s))"
      unfolding tally(3) unfolding tally(4) by simp
    moreover have "count_list (t4_out s) ''every2'' \<le> 6" "count_list (t4_out s) ''every2'' = 6 \<Longrightarrow> t4_count s = 6"
      using tally(1) ok(6) by simp_all
    moreover have "15 \<le> count_list (t4_out s) ''every3''" if "quit_flag (t4_loop s)"
      using that tally(2,3) calculation(1) by linarith
    ultimately show ?thesis using tally(1,4) ok(8) by blast
  qed
  then show ?thesis using s0 t4m.run_monitored [where s = s0 and es = rounds and alloc = alloc] assms
    by (auto split: sum.splits)
qed

lemmas t4_evals = loop_adds addTimer_def addTimerInLoop_def insert_timer_def assert_sizes_def
  deref_def next_alloc_def resetTimerfd_def howMuchTimeFromNow_def addTime_def t4_add_def

definition t4_start :: test4 where
  "t4_start = \<lparr>t4_cnt = 1, t4_count = 0, t4_aid = (5, 4), t4_loop = EventLoop_new 1,
     t4_q = \<lparr>timers = [(1000100, 1), (1500100, 2), (2000100, 5), (2500100, 3), (3000100, 6), (3500100, 4)],
       activeTimers = {(6, 5), (5, 4), (4, 3), (3, 2), (2, 1), (1, 0)}, cancelingTimers = {}, callingExpiredTimers = False,
       heap = [1 \<mapsto> \<lparr>expiration = 1000100, interval_us = 0, repeats = False, sequence = 0\<rparr>,
         2 \<mapsto> \<lparr>expiration = 1500100, interval_us = 0, repeats = False, sequence = 1\<rparr>,
         3 \<mapsto> \<lparr>expiration = 2500100, interval_us = 0, repeats = False, sequence = 2\<rparr>,
         4 \<mapsto> \<lparr>expiration = 3500100, interval_us = 0, repeats = False, sequence = 3\<rparr>,
         5 \<mapsto> \<lparr>expiration = 2000100, interval_us = 2000000, repeats = True, sequence = 4\<rparr>,
         6 \<mapsto> \<lparr>expiration = 3000100, interval_us = 3000000, repeats = True, sequence = 5\<rparr>],
       numCreated = 6, armed = Some 1000100\<rparr>,
     t4_cb = [1 \<mapsto> ''once1'', 2 \<mapsto> ''once1.5'', 3 \<mapsto> ''once2.5'', 4 \<mapsto> ''once3.5'', 5 \<mapsto> ''every2'', 6 \<mapsto> ''every3''],
     t4_out = [''main'']\<rparr>"

lemma t4_start_main: "test4_main next_alloc (\<lambda>_. 100) 1 = Inr t4_start"
  by (simp add: test4_main_def t4_print_def t4_evals TimerQueue_new_def insort_insert_key_def Let_def t4_start_def del: bindE_eq_Inr)
    (simp add: eval_nat_numeral)

definition t4_fired :: timerq where
  "t4_fired = (t4_q t4_start)\<lparr>armed := None, timers := [(2500100, 3), (3000100, 6), (3500100, 4)],
     activeTimers := {(6, 5), (4, 3), (3, 2)}\<rparr>"

lemma t4_start_expired: "getExpired 2000101 (t4_q t4_start\<lparr>armed := None\<rparr>) =
  Inr ([(1000100, 1), (1500100, 2), (2000100, 5)], t4_fired)"
  by (simp add: t4_start_def t4_fired_def getExpired_def assert_sizes_def deref_def Let_def del: bindE_eq_Inr) auto

lemma t4_fired_run:
  "run_steps (run_timer next_alloc (t4_acts t4_start)) [(1000100, 1), (1500100, 2), (2000100, 5)]
     (t4_fired\<lparr>callingExpiredTimers := True, cancelingTimers := {}\<rparr>) =
   Inr (t4_fired\<lparr>callingExpiredTimers := True, cancelingTimers := {}\<rparr>, [ERun 1, ERun 2, ERun 5])"
  by (simp add: t4_start_def t4_fired_def run_timer_def t4_acts_def deref_def del: bindE_eq_Inr)

lemma t4_fired_reset:
  "\<exists>q es. reset [(1000100, 1), (1500100, 2), (2000100, 5)] 2000101 2000102
     (t4_fired\<lparr>cancelingTimers := {}, callingExpiredTimers := False\<rparr>) = Inr (q, es) \<and> (\<forall>p. ERun p \<notin> set es)"
  by (simp add: t4_start_def t4_fired_def reset_def restart_def delete_timer_def deref_def valid_def invalid_def
      addTime_def insert_timer_def assert_sizes_def resetTimerfd_def howMuchTimeFromNow_def insort_insert_key_def Let_def
      del: bindE_eq_Inr)

lemma t4_start_round:
  "\<exists>s es. run_steps (t4_step next_alloc) [(2000101, 2000102)] t4_start = Inr (s, es) \<and>
     t4_out s = [''main'', ''once1'', ''once1.5'', ''every2'']"
proof -
  obtain q es where r: "reset [(1000100, 1), (1500100, 2), (2000100, 5)] 2000101 2000102
      (t4_fired\<lparr>cancelingTimers := {}, callingExpiredTimers := False\<rparr>) = Inr (q, es)" "\<forall>p. ERun p \<notin> set es"
    using t4_fired_reset by blast
  have h: "timer_handleRead next_alloc (t4_acts t4_start) 2000101 2000102 (t4_q t4_start) =
      Inr (q, [ERun 1, ERun 2, ERun 5] @ es)"
    by (simp add: timer_handleRead_def t4_start_expired t4_fired_run r(1) del: bindE_eq_Inr run_steps.simps One_nat_def)
  let ?s = "fold t4_effect ([ERun 1, ERun 2, ERun 5] @ es) t4_start"
  have none: "filter (\<lambda>e. \<exists>p. e = ERun p) es = []" using r(2) by (auto simp: filter_empty_conv)
  have "fold t4_effect ([ERun 1, ERun 2, ERun 5] @ es) t4_start =
      fold t4_run (map snd [(1000100 :: datetime, 1), (1500100, 2), (2000100, 5)]) t4_start"
    by (rule fold_effects) (simp add: none)
  then have "t4_out ?s = [''main'', ''once1'', ''once1.5'', ''every2'']"
    by (simp add: t4_run_def t4_print_def t4_printc_def t4_start_def Let_def)
  moreover have "t4_step next_alloc (2000101, 2000102) t4_start = Inr (?s\<lparr>t4_q := q\<rparr>, [ERun 1, ERun 2, ERun 5] @ es)"
    unfolding t4_step_def fst_conv snd_conv h by (simp add: t4_start_def EventLoop_new_def)
  ultimately show ?thesis by simp
qed

theorem test4_ends_witness:
  "\<exists>s es. test4_main next_alloc (\<lambda>_. 100) 1 = Inr t4_start \<and>
     run_steps (t4_step next_alloc) [(2000101, 2000102)] t4_start = Inr (s, es) \<and>
     t4_out s = [''main'', ''once1'', ''once1.5'', ''every2''] \<and> (\<forall>m\<in>set onces. count_list (t4_out s) m \<le> 1)"
proof -
  obtain s es where s: "run_steps (t4_step next_alloc) [(2000101, 2000102)] t4_start = Inr (s, es)"
      "t4_out s = [''main'', ''once1'', ''once1.5'', ''every2'']"
    using t4_start_round by blast
  have "\<forall>m\<in>set onces. count_list (t4_out s) m \<le> 1"
    using test4_ends [OF next_alloc_ok, of "\<lambda>_. 100" 1 "[(2000101, 2000102)]"] t4_start_main s(1)
    by (simp del: run_steps.simps)
  then show ?thesis using s t4_start_main by blast
qed

end
