(* ===== verification/Spec2Isabelle.thy ===== *)
theory Spec2Isabelle
  imports ChatClient LoopObject LoopTimers LoopThread Connector ServerDestroy TcpClient Socket
    LogBackend Calendar ClientProgress TimerThreads LogSystem LogSync LogBuffers ErrorNo ChatProgram TestServers TestLoops
    TestTimers
begin

text \<open>
  A model of highServer, a C++ network library in the reactor style (one event loop per thread,
  non-blocking sockets, callbacks) with an asynchronous logger and a chat example, and the theorems
  that make its components correct. Paths below are relative to the repository.

  \<^bold>\<open>The program.\<close> An \<open>EventLoop\<close> owns an \<open>EPoller\<close> (its \<open>epoll\<close> descriptor), a \<open>TimerQueue\<close> and
  a queue of functors that other threads put work into. A \<open>Channel\<close> ties a descriptor to the events
  its owner wants and to four callbacks. A \<open>TcpConnection\<close> owns a channel and two \<open>Buffer\<close>s; a
  \<open>TcpServer\<close> gets connections from its \<open>Acceptor\<close> and spreads them over the loops of an
  \<open>EventLoopThreadPool\<close>; a \<open>TcpClient\<close> gets its connection from a \<open>Connector\<close>, which retries. A
  \<open>Logger\<close> formats a line in a \<open>LogStream\<close> and hands it to \<open>AsyncLogging\<close>, whose thread writes to a
  \<open>LogFile\<close>. The chat example puts a length-prefixed \<open>Codec\<close> on connections.

  \<^bold>\<open>Theories.\<close>

  \<^item> \<open>Prelude\<close>: machine types, faults (a failed assert, LOG_FATAL, an exception, an invalid access),
    memory primitives, network byte order, runs of operations, and the interfaces of components under runs:
    \<open>monitor\<close> (each operation keeps a relation between the state and the history of the run, or stops with a
    tolerated fault), its special cases \<open>machine\<close> (an invariant, any fault), \<open>faultless_monitor\<close> (no fault)
    and \<open>silent_machine\<close> (no fault and no output), and \<open>simulation\<close> (operations implement abstract ones
    as long as a budget lasts). The safety of every component and system below is an interpretation of one of them.
  \<^item> \<open>Buffer\<close>: include/net/Buffer.h, src/net/Buffer.cpp. The interface \<open>byte_fifo\<close> states what
    the connection needs of its buffers. Main results: all operations refine those of byte queues, with \<open>shrink\<close> where
    it is called at the initial reader index; the exact outcomes of making room, prepending and shrinking.
  \<^item> \<open>Codec\<close>: example/Chat/code.h. Termination and totality of the decoding loop, refusal of long
    frames, round trip of framed messages through arbitrary chunks.
  \<^item> \<open>Channel\<close>, \<open>EPoller\<close>: include/net/Channel.h, src/net/Channel.cpp, include/net/EPoller.h,
    src/net/EPoller.cpp. Interest, dispatch order, the calls of \<open>epoll_ctl\<close>, what a wait reports.
  \<^item> \<open>TcpConnection\<close>: include/net/TcpConnection.h, src/net/TcpConnection.cpp. A connection is a
    machine whose steps emit effects; the contract is an observer that accepts exactly the effects
    of a reliable byte stream over a legal interest list. Results: nothing lost, duplicated or
    reordered; half-close only after the flush; draining; every branch of sending; orderly closing;
    and the sequences of calls that run into an assert.
  \<^item> \<open>EventLoop\<close>: include/net/EventLoop.h, src/net/EventLoop.cpp. The loop thread and the other
    threads as a labelled step function with reachable states. Functors run in order, each once; no
    wakeup is lost between threads; quit ends the loop; and the cases where a wakeup or a quit is
    lost. \<open>LoopObject\<close>: loops as objects, one per thread, and their descriptors.
  \<^item> \<open>TimerQueue\<close>: Timer.h, TimerQueue.h, DateTime.h and their sources. Timers in an explicit heap:
    memory safety, which timers run, renewal, cancellation from callbacks, the setting of the timer
    descriptor. \<open>LoopTimers\<close>: \<open>runAt\<close>, \<open>runAfter\<close>, \<open>runEvery\<close> and \<open>cancel\<close> of the loop, adding a timer
    from another thread, and the destructor: delays are kept. \<open>TimerThreads\<close>: the queue with the
    functors of other threads: which faults are left, which timers leak, and that a timer runs.
  \<^item> \<open>Connector\<close>, \<open>TcpClient\<close>: src/net/Connector.cc, src/net/TcpClient.cpp. No descriptor leaks, the
    retry delays, reconnection, connection names.
  \<^item> \<open>ClientSystem\<close>, \<open>ClientSafety\<close>, \<open>ClientProgress\<close>: the client, its connector, its connections and its retry
    timers in one loop, in every sequence of steps: which functor is queued when, which channels the
    poller can report, what keeps a connection alive. No assert is reached but that of \<open>handleClose\<close> on a connection
    that was shut down; a client keeps trying; and
    the deletions of a client that abort the process or leave its connection with a dangling callback.
  \<^item> \<open>Thread\<close>, \<open>Condition\<close>, \<open>EventLoopThread\<close>, \<open>LoopThread\<close>: include/utils/Thread.h, Condition.h,
    CurrentThread.h and src/net/EventLoopThread.cpp. A thread object starts, joins or detaches one POSIX thread; the start
    of a loop thread over a condition variable, the pool, and the whole life of a loop thread, with quits of its user, up
    to the destructor, with its races.
  \<^item> \<open>TcpServer\<close>: the acceptor and the server, which refines a set of numbered connections.
  \<^item> \<open>ConnSafety\<close>, \<open>ServerSystem\<close>, \<open>ServerSafety\<close>, \<open>ServerProgress\<close>: the acceptor, the server, its loops and
    its connections composed, in every interleaving: which functor is queued to which loop and what keeps
    a connection alive. No destroyed connection is used and no assert reached but that of \<open>handleClose\<close> on a connection
    that was shut down; closed connections are
    destroyed; and the send from another thread that breaks this. \<open>ServerDestroy\<close>: the same system after the destructor
    of the server.
  \<^item> \<open>InetAddress\<close>, \<open>Socket\<close>: addresses, their text and back; the wrappers of the socket calls and how a
    listening socket comes up.
  \<^item> \<open>LogStream\<close>: include/asynLog/FixedBuffer.h, LogStream.h, Logging.h and their sources. Decimal and
    hexadecimal conversion, the line of a logger.
  \<^item> \<open>AsyncLogging\<close>, \<open>LogFile\<close>: the double-buffered log thread and the rolling files. Order and
    completeness of the log. \<open>LogBackend\<close>: from a logging macro through the global output functions and
    the thread-local pointer to the logging thread; which steps of that thread save the line of a fatal error, and what
    becomes of the statements of other threads. \<open>LogPipeline\<close>: the logging thread with the log file it owns and the
    stdio streams, down to the contents of the files. \<open>LogSystem\<close>: log statements and the logging thread together, from the
    statement to the file, and the test of the logger. \<open>LogSync\<close>: the mutex and the condition variable of
    the logger: every append waits out the timeout of the logging thread. \<open>LogBuffers\<close>: the interface
    \<open>fixed_buffer\<close>, and the logger on real buffers, which refines the one on texts. \<open>ErrorNo\<close>: the texts of
    error numbers, in a buffer per thread. \<open>Calendar\<close>: calendar time and the names of the files.
  \<^item> \<open>Chat\<close>, \<open>ChatClient\<close>: the codec on connections, from the sender's messages to the receiver's, the
    broadcast of the chat server, and the client, from a typed line through the connection of the server to the lines the
    others print.
    \<open>ChatRace\<close>: the server's set of connections under the callbacks of several loop threads. \<open>ChatProgram\<close>: the
    chat server as its \<open>main\<close> starts it, with the loops its connections get.
  \<^item> \<open>TestServers\<close>, \<open>TestLoops\<close>: the programs of test/ that use the library: the echo server, the servers that
    send and close or send on, and the loops that are entered at home and elsewhere, call functions, or
    are told to quit. \<open>TestTimers\<close>: the timers of test4, of which one cancels itself.

  \<^bold>\<open>Conventions.\<close> An operation takes the state (and the identifier \<open>t\<close> of the calling thread where
  the code checks it) and returns a fault or the new state with its effects. Results of system calls,
  clock readings, the addresses \<open>new\<close> returns, and what callbacks of the user do are arguments, so
  every theorem holds for all of them. Asserts are active, as in the build type of CMakeLists.txt.
  \<open>size_t\<close> values are words of 64 bits; counters that the theorems bound (connection numbers, times of
  log files) are integers. Levels below ERROR of the library's own logging are not effects.

  \<^bold>\<open>Bounds.\<close> A vector holds at most \<open>max_size\<close> bytes; the refinement of a byte queue is stated for runs
  whose total growth stays below it. The server's names are distinct below 2 to the 31 connections,
  the range of the C++ counter. No definition needs fuel: the decoding loop and the conversions
  terminate by measures, and the loop of \<open>AppendFile::append\<close>, which ends when the results of
  \<open>fwrite\<close> say so, consumes a list of those results. Joining the logging thread runs five of its
  steps, which is enough once it has been told to stop (\<open>drained_exits\<close>).

  \<^bold>\<open>Not modelled.\<close> The parts of the \<open>main\<close> functions that only put components together or print, the
  mutual exclusion of the lock of \<open>LogFile\<close> (the logging thread works without it), the cookies of
  \<open>FixedBuffer\<close>, which mark it for a debugger, a \<open>Connector\<close> whose \<open>socket()\<close> fails (it aborts), and servers and clients
  whose user leaves a callback unset.
  Interleavings are those of whole callbacks and critical
  sections; the exceptions are the start and stop of threads, the locks of the logger and the chat
  server's set of connections.
\<close>

end
